(* ===== verification/NvmPrelude.thy ===== *)
theory NvmPrelude
  imports "HOL-Library.Word" "HOL-Library.Monad_Syntax"
begin

text \<open>
  The prelude of the development: the machine types of the C++ sources, the
  two's complement wrap-around of \<open>int\<close> (the Makefile compiles with
  \<open>-fwrapv\<close>), the little-endian byte layout of integers in memory, and the
  parts of the C library that several components use (\<open>memcpy\<close> and
  \<open>malloc\<close> on arrays of memory cells), each with the lemmas the component
  proofs rest on.

  Conventions shared by every component.  An operation whose C++ execution has
  no defined result (a null or wild pointer dereference, a copy outside an
  object, a use of an indeterminate value, a failing \<open>assert\<close>) is a
  \<open>None\<close> of the option monad; a return code of the source is an ordinary
  value of the result.
\<close>

unbundle bit_operations_syntax

named_theorems c_simps \<open>the C library's behaviour on well-behaved arguments\<close>
named_theorems layout_simps \<open>field offsets and object sizes\<close>

type_synonym byte = "8 word"
type_synonym u32 = "32 word"
type_synonym u64 = "64 word"

text \<open>A cell of \<open>malloc\<close>ed memory: \<open>None\<close> while it is indeterminate.\<close>

type_synonym cell = "byte option"

section \<open>Signed 32-bit arithmetic\<close>

definition wrap32 :: "int \<Rightarrow> int" where
  "wrap32 x = (x + 2 ^ 31) mod 2 ^ 32 - 2 ^ 31"

definition in_int :: "int \<Rightarrow> bool" where
  "in_int x \<longleftrightarrow> - (2 ^ 31) \<le> x \<and> x < 2 ^ 31"

lemma wrap32_id [c_simps]: "in_int x \<Longrightarrow> wrap32 x = x"
  by (simp add: wrap32_def in_int_def)

lemma wrap32_nonneg [c_simps]: "0 \<le> x \<Longrightarrow> x < 2147483648 \<Longrightarrow> wrap32 x = x"
  by (rule wrap32_id) (simp add: in_int_def)

lemma in_int_wrap32: "in_int (wrap32 x)"
  by (simp add: wrap32_def in_int_def)

section \<open>Copying and allocating cells\<close>

text \<open>
  \<open>c_memcpy dst d src s n\<close> is \<open>memcpy(dst + d, src + s, n)\<close> where \<open>dst\<close>
  and \<open>src\<close> are the whole objects pointed into: undefined unless both
  ranges lie inside their object.  A negative \<open>int\<close> length becomes a
  \<open>size_t\<close> beyond every object.
\<close>

definition c_memcpy :: "'a list \<Rightarrow> int \<Rightarrow> 'a list \<Rightarrow> int \<Rightarrow> int \<Rightarrow> 'a list option" where
  "c_memcpy dst d src s n =
     (if 0 \<le> d \<and> 0 \<le> s \<and> 0 \<le> n \<and> d + n \<le> int (length dst) \<and> s + n \<le> int (length src)
      then Some (take (nat d) dst @ take (nat n) (drop (nat s) src) @ drop (nat (d + n)) dst)
      else None)"

text \<open>
  \<open>c_malloc grant n\<close> is \<open>(char*)malloc(n)\<close> with an \<open>int\<close> argument:
  the conversion to \<open>size_t\<close> is modulo \<open>2 ^ 64\<close>, and \<open>grant\<close> says which
  request sizes the allocator serves; the new cells are indeterminate.
\<close>

definition c_malloc :: "(nat \<Rightarrow> bool) \<Rightarrow> int \<Rightarrow> cell list option" where
  "c_malloc grant n =
     (let sz = nat (n mod 2 ^ 64) in if grant sz then Some (replicate sz None) else None)"

definition grants :: "(nat \<Rightarrow> bool) \<Rightarrow> bool" where
  "grants grant \<longleftrightarrow> (\<forall>n < 2 ^ 31. grant n)"

lemma c_malloc_grants [c_simps]:
  "grants g \<Longrightarrow> 0 \<le> n \<Longrightarrow> n < 2147483648 \<Longrightarrow> c_malloc g n = Some (replicate (nat n) None)"
  by (auto simp: c_malloc_def grants_def Let_def)

lemma grants_always [simp]: "grants (\<lambda>_. True)"
  by (simp add: grants_def)

lemma length_c_memcpy:
  "c_memcpy dst d src s n = Some r \<Longrightarrow> length r = length dst"
  by (auto simp: c_memcpy_def nat_add_distrib split: if_splits)

text \<open>What a reader of the destination sees after a copy.\<close>

lemma c_memcpy_window:
  assumes "c_memcpy dst (int d) src (int s) (int n) = Some r"
  shows "take n (drop d r) = take n (drop s src)"
    and "take d r = take d dst"
    and "drop (d + n) r = drop (d + n) dst"
proof -
  from assms have bounds: "d + n \<le> length dst" "s + n \<le> length src"
    and r: "r = take d dst @ take n (drop s src) @ drop (d + n) dst"
    by (auto simp: c_memcpy_def nat_add_distrib split: if_splits)
  from bounds show "take n (drop d r) = take n (drop s src)"
    by (simp add: r)
  from bounds show "take d r = take d dst"
    by (simp add: r)
  from bounds show "drop (d + n) r = drop (d + n) dst"
    by (simp add: r)
qed

lemma c_memcpy_total:
  "d + n \<le> length dst \<Longrightarrow> s + n \<le> length src \<Longrightarrow>
   c_memcpy dst (int d) src (int s) (int n)
     = Some (take d dst @ take n (drop s src) @ drop (d + n) dst)"
  by (simp add: c_memcpy_def nat_add_distrib)

section \<open>Little-endian integers in memory\<close>

primrec le_word :: "byte list \<Rightarrow> 'a::len word" where
  "le_word [] = 0"
| "le_word (b # bs) = ucast b OR push_bit 8 (le_word bs)"

primrec le_bytes :: "nat \<Rightarrow> 'a::len word \<Rightarrow> byte list" where
  "le_bytes 0 w = []"
| "le_bytes (Suc n) w = ucast w # le_bytes n (drop_bit 8 w)"

lemma length_le_bytes [simp]: "length (le_bytes n w) = n"
  by (induction n arbitrary: w) auto

lemma ucast_ucast_byte: "ucast (ucast w :: byte) = take_bit 8 (w :: 'a::len word)"
  by (rule bit_word_eqI) (auto simp: bit_ucast_iff bit_take_bit_iff dest: bit_imp_le_length)

lemma le_word_le_bytes: "le_word (le_bytes n w) = take_bit (8 * n) (w :: 'a::len word)"
proof (induction n arbitrary: w)
  case 0
  show ?case by simp
next
  case (Suc n)
  have "take_bit 8 w OR push_bit 8 (take_bit (8 * n) (drop_bit 8 w)) = take_bit (8 * Suc n) w"
    by (rule bit_word_eqI)
      (auto simp: bit_or_iff bit_push_bit_iff bit_take_bit_iff bit_drop_bit_eq)
  with Suc show ?case
    by (simp add: ucast_ucast_byte)
qed

lemma le_word_le_bytes_u64 [simp]: "le_word (le_bytes 8 w) = (w :: u64)"
  by (simp add: le_word_le_bytes take_bit_word_eq_self)

lemma le_word_le_bytes_u32 [simp]: "le_word (le_bytes 4 w) = (w :: u32)"
  by (simp add: le_word_le_bytes take_bit_word_eq_self)

lemma bit_le_word: "bit (le_word bs :: 'a::len word) i \<Longrightarrow> i < 8 * length bs"
proof (induction bs arbitrary: i)
  case Nil
  then show ?case by simp
next
  case (Cons b bs)
  from Cons.prems consider "bit b i" | "8 \<le> i" "bit (le_word bs :: 'a word) (i - 8)"
    by (auto simp: bit_or_iff bit_push_bit_iff bit_ucast_iff)
  then show ?case
  proof cases
    case 1
    then show ?thesis by (auto dest: bit_imp_le_length)
  next
    case 2
    then show ?thesis using Cons.IH [of "i - 8"] by simp
  qed
qed

lemma le_bytes_le_word:
  "8 * length bs \<le> LENGTH('a) \<Longrightarrow> le_bytes (length bs) (le_word bs :: 'a::len word) = bs"
proof (induction bs)
  case Nil
  show ?case by simp
next
  case (Cons b bs)
  let ?w = "le_word bs :: 'a word"
  have "ucast (ucast b OR push_bit 8 ?w) = b"
    using Cons.prems
    by (intro bit_word_eqI) (auto simp: bit_ucast_iff bit_or_iff bit_push_bit_iff)
  moreover have "drop_bit 8 (ucast b OR push_bit 8 ?w) = ?w"
  proof (rule bit_word_eqI)
    fix i
    assume "i < LENGTH('a)"
    show "bit (drop_bit 8 (ucast b OR push_bit 8 ?w)) i = bit ?w i"
      using Cons.prems bit_le_word [of bs i, where 'a = 'a] bit_imp_le_length [of b "8 + i"]
      by (auto simp: bit_drop_bit_eq bit_or_iff bit_push_bit_iff bit_ucast_iff)
  qed
  ultimately show ?case
    using Cons by simp
qed

end
