(* ===== verification/PmemBuffer.thy ===== *)
theory PmemBuffer
  imports NvmPrelude
begin

text \<open>
  The volatile staging buffer of \<open>native/src/PmemBuffer.h\<close>: a growable
  byte array with a window \<open>[pos, pos + remaining)\<close> of bytes not yet read
  and a window \<open>[pos_dirty, pos_dirty + remaining_dirty)\<close> of bytes not yet
  handed out for flushing.  Every public method of the class holds
  \<open>buffer_mtx\<close> for its whole body, so each method is one atomic step.

  The theory holds the class (record \<open>PmemBuffer\<close>), one definition per
  method, the invariant the methods keep, the behaviour of every method on the
  unread bytes, and the queue contract (locale \<open>byte_queue\<close>) with its
  interpretation on the read and write methods.
\<close>

section \<open>The class\<close>

definition DEFAULT_BUFSIZE :: int where
  "DEFAULT_BUFSIZE = 4096 * 1024 + 512"

text \<open>
  \<open>buf_data\<close> is \<open>None\<close> for \<open>nullptr\<close> and otherwise the allocated
  cells; the counters are 32-bit \<open>int\<close>s.
\<close>

record PmemBuffer =
  buf_data :: "cell list option"
  buf_data_capacity :: int
  pos :: int
  remaining :: int
  pos_dirty :: int
  remaining_dirty :: int

text \<open>A \<open>char*\<close> returned to the caller: null, or an offset into \<open>buf_data\<close>.\<close>

datatype cptr = NullPtr | BufPtr int

definition PmemBuffer_new :: PmemBuffer where
  "PmemBuffer_new =
     \<lparr>buf_data = None, buf_data_capacity = 0, pos = 0, remaining = 0,
      pos_dirty = 0, remaining_dirty = 0\<rparr>"

text \<open>The capacity is a \<open>long\<close> narrowed to the \<open>int\<close> member before \<open>malloc\<close>.\<close>

definition PmemBuffer_new_size :: "(nat \<Rightarrow> bool) \<Rightarrow> int \<Rightarrow> PmemBuffer" where
  "PmemBuffer_new_size grant initial_buf_data_capacity =
     (let capacity = wrap32 initial_buf_data_capacity in
      \<lparr>buf_data = c_malloc grant capacity, buf_data_capacity = capacity, pos = 0,
       remaining = 0, pos_dirty = 0, remaining_dirty = 0\<rparr>)"

text \<open>
  The reallocation shared by \<open>load\<close> and \<open>write\<close>: a fresh array of the
  current capacity that receives the unread bytes when both pointers are
  non-null; the old array is freed.
\<close>

definition move_unread :: "(nat \<Rightarrow> bool) \<Rightarrow> PmemBuffer \<Rightarrow> PmemBuffer option" where
  "move_unread grant b =
     (case (c_malloc grant (buf_data_capacity b), buf_data b) of
        (Some new, Some old) \<Rightarrow> do {
          new \<leftarrow> c_memcpy new 0 old (pos b) (remaining b);
          Some (b\<lparr>buf_data := Some new\<rparr>)
        }
      | (new, _) \<Rightarrow> Some (b\<lparr>buf_data := new\<rparr>))"

definition PmemBuffer_load ::
  "(nat \<Rightarrow> bool) \<Rightarrow> cell list option \<Rightarrow> int \<Rightarrow> PmemBuffer \<Rightarrow> (int \<times> PmemBuffer) option" where
  "PmemBuffer_load grant pmem_data_addr pmem_data_len b =
     (case pmem_data_addr of
        None \<Rightarrow> Some (0, b)
      | Some src \<Rightarrow>
        if pmem_data_len = 0 then Some (0, b) else do {
          let b = (if buf_data_capacity b = 0 \<and> pmem_data_len > 0
                   then b\<lparr>buf_data_capacity := pmem_data_len,
                          buf_data := c_malloc grant pmem_data_len\<rparr>
                   else b);
          b \<leftarrow>
            (if remaining b > 0 then do {
               b \<leftarrow> (if buf_data_capacity b < wrap32 (remaining b + pmem_data_len)
                     then move_unread grant
                            (b\<lparr>buf_data_capacity := wrap32 (remaining b + pmem_data_len)\<rparr>)
                     else Some b);
               let b = b\<lparr>pos := remaining b\<rparr>;
               dst \<leftarrow> buf_data b;
               dst \<leftarrow> c_memcpy dst (pos b) src 0 pmem_data_len;
               Some (b\<lparr>buf_data := Some dst\<rparr>)
             }
             else if remaining b = 0 then do {
               let b = (if buf_data_capacity b < pmem_data_len
                        then b\<lparr>buf_data_capacity := pmem_data_len,
                               buf_data := c_malloc grant pmem_data_len\<rparr>
                        else b);
               case buf_data b of
                 None \<Rightarrow> Some b
               | Some dst \<Rightarrow> do {
                   dst \<leftarrow> c_memcpy dst 0 src 0 pmem_data_len;
                   Some (b\<lparr>buf_data := Some dst\<rparr>)
                 }
             }
             else Some b);
          let r = wrap32 (remaining b + pmem_data_len);
          Some (pmem_data_len,
                b\<lparr>remaining := r, pos := 0, pos_dirty := wrap32 (0 + r), remaining_dirty := 0\<rparr>)
        })"

definition PmemBuffer_getRemaining :: "PmemBuffer \<Rightarrow> int" where
  "PmemBuffer_getRemaining b = remaining b"

definition PmemBuffer_clean :: "PmemBuffer \<Rightarrow> PmemBuffer" where
  "PmemBuffer_clean b =
     b\<lparr>buf_data_capacity := 0, remaining := 0, pos := 0, remaining_dirty := 0,
       pos_dirty := 0, buf_data := None\<rparr>"

definition PmemBuffer_getDataForFlush :: "int \<Rightarrow> PmemBuffer \<Rightarrow> cptr \<times> PmemBuffer" where
  "PmemBuffer_getDataForFlush sz b =
     (if remaining_dirty b < sz \<or> remaining_dirty b = 0 then (NullPtr, b)
      else (BufPtr (pos_dirty b),
            b\<lparr>pos_dirty := wrap32 (pos_dirty b + sz),
              remaining_dirty := wrap32 (remaining_dirty b - sz)\<rparr>))"

definition PmemBuffer_min :: "int \<Rightarrow> int \<Rightarrow> int" where
  "PmemBuffer_min x y = (if x > y then y else x)"

text \<open>
  \<open>ret_data\<close> is the caller's destination, \<open>None\<close> for \<open>nullptr\<close>; the
  result holds the bytes read, the destination after the copy and the buffer.
\<close>

definition PmemBuffer_read ::
  "cell list option \<Rightarrow> int \<Rightarrow> PmemBuffer \<Rightarrow> (int \<times> cell list option \<times> PmemBuffer) option" where
  "PmemBuffer_read ret_data len b = do {
     let read_len = PmemBuffer_min len (remaining b);
     ret_data \<leftarrow>
       (case (ret_data, buf_data b) of
          (Some dst, Some src) \<Rightarrow> map_option Some (c_memcpy dst 0 src (pos b) read_len)
        | (r, _) \<Rightarrow> Some r);
     let stop = wrap32 (pos b + read_len);
     let b = (if stop > pos_dirty b
              then b\<lparr>remaining_dirty :=
                       wrap32 (remaining_dirty b - wrap32 (stop - pos_dirty b)),
                     pos_dirty := stop\<rparr>
              else b);
     Some (read_len, ret_data,
           b\<lparr>pos := stop, remaining := wrap32 (remaining b - read_len)\<rparr>)
   }"

definition PmemBuffer_write ::
  "(nat \<Rightarrow> bool) \<Rightarrow> cell list option \<Rightarrow> int \<Rightarrow> PmemBuffer \<Rightarrow> (int \<times> PmemBuffer) option" where
  "PmemBuffer_write grant data len b = do {
     let b = (if buf_data_capacity b = 0
              then b\<lparr>buf_data_capacity := DEFAULT_BUFSIZE,
                     buf_data := c_malloc grant DEFAULT_BUFSIZE\<rparr>
              else b);
     b \<leftarrow>
       (if wrap32 (wrap32 (pos b + remaining b) + len) > buf_data_capacity b then do {
          let b = (if wrap32 (remaining b + len) > buf_data_capacity b
                   then b\<lparr>buf_data_capacity := wrap32 (buf_data_capacity b + DEFAULT_BUFSIZE)\<rparr>
                   else b);
          if buf_data_capacity b > 0
          then map_option (\<lambda>b. b\<lparr>pos := 0, pos_dirty := 0\<rparr>) (move_unread grant b)
          else Some b
        }
        else Some b);
     b \<leftarrow>
       (case (buf_data b, data) of
          (Some dst, Some src) \<Rightarrow> do {
            dst \<leftarrow> c_memcpy dst (wrap32 (pos b + remaining b)) src 0 len;
            Some (b\<lparr>buf_data := Some dst\<rparr>)
          }
        | _ \<Rightarrow> Some b);
     Some (0, b\<lparr>remaining := wrap32 (remaining b + len),
                remaining_dirty := wrap32 (remaining_dirty b + len)\<rparr>)
   }"

definition PmemBuffer_getDataAddr :: "PmemBuffer \<Rightarrow> cptr" where
  "PmemBuffer_getDataAddr b = (case buf_data b of None \<Rightarrow> NullPtr | Some _ \<Rightarrow> BufPtr 0)"

section \<open>The invariant\<close>

text \<open>The bytes not read yet.\<close>

definition unread :: "PmemBuffer \<Rightarrow> cell list" where
  "unread b = (case buf_data b of
     None \<Rightarrow> [] | Some d \<Rightarrow> take (nat (remaining b)) (drop (nat (pos b)) d))"

text \<open>
  The space invariant: the unread window lies inside an array of the recorded
  capacity.
\<close>

definition buffer_ok :: "PmemBuffer \<Rightarrow> bool" where
  "buffer_ok b \<longleftrightarrow>
     0 \<le> pos b \<and> 0 \<le> remaining b \<and> pos b + remaining b \<le> buf_data_capacity b \<and>
     buf_data_capacity b < 2 ^ 31 \<and>
     (case buf_data b of None \<Rightarrow> buf_data_capacity b = 0
      | Some d \<Rightarrow> int (length d) = buf_data_capacity b)"

text \<open>
  The flush invariant: the bytes not flushed yet are the last
  \<open>remaining_dirty\<close> unread ones.
\<close>

definition dirty_ok :: "PmemBuffer \<Rightarrow> bool" where
  "dirty_ok b \<longleftrightarrow>
     pos b \<le> pos_dirty b \<and> 0 \<le> remaining_dirty b \<and>
     pos_dirty b + remaining_dirty b = pos b + remaining b"

lemmas buffer_op_defs =
  PmemBuffer_load_def PmemBuffer_read_def PmemBuffer_write_def PmemBuffer_clean_def
  PmemBuffer_getDataForFlush_def move_unread_def

lemma PmemBuffer_min_eq [simp]: "PmemBuffer_min x y = min x y"
  by (simp add: PmemBuffer_min_def min_def)

lemma DEFAULT_BUFSIZE_bounds [simp]: "0 < DEFAULT_BUFSIZE" "DEFAULT_BUFSIZE < 2 ^ 31"
  by (simp_all add: DEFAULT_BUFSIZE_def)

lemma buffer_okE:
  assumes "buffer_ok b"
  obtains (null) "buf_data b = None" "buf_data_capacity b = 0" "pos b = 0" "remaining b = 0"
  | (array) d p r where "buf_data b = Some d" "pos b = int p" "remaining b = int r"
      "p + r \<le> length d" "buf_data_capacity b = int (length d)" "length d < 2 ^ 31"
proof (cases "buf_data b")
  case None
  with assms show thesis by (intro null) (auto simp: buffer_ok_def)
next
  case (Some d)
  with assms show thesis
    by (intro array [of d "nat (pos b)" "nat (remaining b)"]) (auto simp: buffer_ok_def)
qed

lemma length_unread: "buffer_ok b \<Longrightarrow> length (unread b) = nat (remaining b)"
  by (erule buffer_okE) (auto simp: unread_def)

lemma buffer_ok_new [simp]: "buffer_ok PmemBuffer_new" "unread PmemBuffer_new = []"
  by (simp_all add: buffer_ok_def unread_def PmemBuffer_new_def)

lemma buffer_ok_new_size:
  "grants g \<Longrightarrow> 0 \<le> n \<Longrightarrow> n < 2 ^ 31 \<Longrightarrow> buffer_ok (PmemBuffer_new_size g n)"
  by (simp add: buffer_ok_def PmemBuffer_new_size_def Let_def c_simps)

lemma buffer_ok_clean [simp]: "buffer_ok (PmemBuffer_clean b)" "unread (PmemBuffer_clean b) = []"
  by (simp_all add: buffer_ok_def unread_def PmemBuffer_clean_def)

section \<open>Reading\<close>

text \<open>
  The dirty window after the reader has reached \<open>stop\<close>: bytes that were read
  before they were flushed leave it.
\<close>

definition dirty_after_read :: "int \<Rightarrow> PmemBuffer \<Rightarrow> PmemBuffer" where
  "dirty_after_read stop b =
     (if stop > pos_dirty b
      then b\<lparr>remaining_dirty := wrap32 (remaining_dirty b - wrap32 (stop - pos_dirty b)),
             pos_dirty := stop\<rparr>
      else b)"

lemma dirty_after_read_simps [simp]:
  "buf_data (dirty_after_read s b) = buf_data b"
  "buf_data_capacity (dirty_after_read s b) = buf_data_capacity b"
  "pos (dirty_after_read s b) = pos b" "remaining (dirty_after_read s b) = remaining b"
  by (simp_all add: dirty_after_read_def)

lemma PmemBuffer_read_eq:
  assumes ok: "buffer_ok b" and len: "0 \<le> len" and room: "min len (remaining b) \<le> int (length dst)"
    and n: "n = nat (min len (remaining b))"
  shows "PmemBuffer_read (Some dst) len b =
    Some (int n, Some (take n (unread b) @ drop n dst),
          (dirty_after_read (pos b + int n) b)
            \<lparr>pos := pos b + int n, remaining := remaining b - int n\<rparr>)"
  using ok
proof (cases rule: buffer_okE)
  case null
  then show ?thesis
    using len n by (simp add: PmemBuffer_read_def c_simps unread_def dirty_after_read_def)
next
  case (array d p r)
  have n_eq: "min len (int r) = int n" and nr: "n \<le> r" and dst: "n \<le> length dst"
    using array len n room by auto
  moreover have "c_memcpy dst 0 d (int p) (int n) = Some (take n (take r (drop p d)) @ drop n dst)"
    using c_memcpy_total [of 0 n dst p d] array nr dst by (simp add: min_absorb1)
  ultimately show ?thesis
    using array by (simp add: PmemBuffer_read_def c_simps unread_def dirty_after_read_def Let_def)
qed

lemma unread_after_read:
  assumes "buffer_ok b" "int n \<le> remaining b" and same: "buf_data b' = buf_data b"
  shows "unread (b'\<lparr>pos := pos b + int n, remaining := remaining b - int n\<rparr>) = drop n (unread b)"
  using assms(1)
proof (cases rule: buffer_okE)
  case null
  then show ?thesis by (simp add: unread_def same)
next
  case (array d p r)
  then show ?thesis
    using assms(2) by (simp add: unread_def same drop_take nat_add_distrib nat_diff_distrib add.commute)
qed

lemma dirty_after_read_ok:
  assumes "buffer_ok b" "dirty_ok b" "int n \<le> remaining b"
  shows "dirty_ok ((dirty_after_read (pos b + int n) b)
    \<lparr>pos := pos b + int n, remaining := remaining b - int n\<rparr>)"
  using assms by (auto simp: dirty_ok_def dirty_after_read_def buffer_ok_def c_simps)

lemma read_spec:
  assumes ok: "buffer_ok b" and len: "0 \<le> len" and room: "min len (remaining b) \<le> int (length dst)"
    and n: "n = nat (min len (remaining b))"
  shows "\<exists>b'. PmemBuffer_read (Some dst) len b =
      Some (int n, Some (take n (unread b) @ drop n dst), b') \<and>
    buffer_ok b' \<and> unread b' = drop n (unread b) \<and> (dirty_ok b \<longrightarrow> dirty_ok b') \<and>
    buf_data_capacity b' = buf_data_capacity b"
proof -
  let ?b' = "(dirty_after_read (pos b + int n) b)
      \<lparr>pos := pos b + int n, remaining := remaining b - int n\<rparr>"
  have le: "int n \<le> remaining b"
    using n ok by (simp add: buffer_ok_def)
  have "buffer_ok ?b'"
    using ok le by (auto simp: buffer_ok_def split: option.splits)
  moreover have "unread ?b' = drop n (unread b)"
    by (rule unread_after_read [OF ok le]) simp
  moreover have "dirty_ok b \<Longrightarrow> dirty_ok ?b'"
    by (rule dirty_after_read_ok [OF ok _ le])
  ultimately show ?thesis
    using PmemBuffer_read_eq [OF ok len room n] by fastforce
qed

section \<open>Writing\<close>

lemma move_unread_eq:
  assumes "grants g" "buf_data b = Some old" "pos b = int p" "remaining b = int r"
    "p + r \<le> length old" "buf_data_capacity b = int c" "r \<le> c" "c < 2 ^ 31"
  shows "move_unread g b =
    Some (b\<lparr>buf_data := Some (take r (drop p old) @ replicate (c - r) None)\<rparr>)"
  using assms c_memcpy_total [of 0 r "replicate c None" p old]
  by (simp add: move_unread_def c_simps drop_replicate)

text \<open>The two memory states \<open>write\<close> can copy into, as one lemma: appending at the end of the window.\<close>

lemma append_window:
  assumes "p + r \<le> length d" "p + r + n \<le> length d" "n \<le> length src"
    "c_memcpy d (int (p + r)) src 0 (int n) = Some d'"
  shows "take (r + n) (drop p d') = take r (drop p d) @ take n src" "length d' = length d"
proof -
  from assms have d': "d' = take (p + r) d @ take n src @ drop (p + r + n) d"
    using c_memcpy_total [of "p + r" n d 0 src] by (simp del: of_nat_add)
  with assms show "take (r + n) (drop p d') = take r (drop p d) @ take n src" "length d' = length d"
    by (auto simp: drop_take)
qed

definition ensure_array :: "(nat \<Rightarrow> bool) \<Rightarrow> PmemBuffer \<Rightarrow> PmemBuffer" where
  "ensure_array g b =
     (if buf_data_capacity b = 0
      then b\<lparr>buf_data_capacity := DEFAULT_BUFSIZE, buf_data := c_malloc g DEFAULT_BUFSIZE\<rparr>
      else b)"

lemma ensure_array_ok:
  assumes "grants g" "buffer_ok b"
  obtains d p r where
    "buf_data (ensure_array g b) = Some d" "pos (ensure_array g b) = int p"
    "remaining (ensure_array g b) = int r" "p + r \<le> length d"
    "buf_data_capacity (ensure_array g b) = int (length d)" "0 < length d" "length d < 2 ^ 31"
    "unread b = take r (drop p d)" "pos b = int p" "remaining b = int r"
  using assms(2)
proof (cases rule: buffer_okE)
  case null
  then show thesis
    using assms(1) that [of "replicate (nat DEFAULT_BUFSIZE) None" 0 0]
    by (simp add: ensure_array_def c_simps unread_def DEFAULT_BUFSIZE_def)
next
  case (array d p r)
  show thesis
  proof (cases "d = []")
    case True
    with array assms(1) that [of "replicate (nat DEFAULT_BUFSIZE) None" 0 0] show thesis
      by (simp add: ensure_array_def c_simps unread_def DEFAULT_BUFSIZE_def)
  next
    case False
    with array that [of d p r] show thesis
      by (simp add: ensure_array_def unread_def)
  qed
qed

lemma ensure_array_dirty [simp]:
  "remaining_dirty (ensure_array g b) = remaining_dirty b"
  "pos_dirty (ensure_array g b) = pos_dirty b"
  by (simp_all add: ensure_array_def)

text \<open>
  The capacity a write may use: one \<open>DEFAULT_BUFSIZE\<close> more than the current
  one (or than the first allocation).
\<close>

definition write_limit :: "PmemBuffer \<Rightarrow> int" where
  "write_limit b =
     (if buf_data_capacity b = 0 then DEFAULT_BUFSIZE else buf_data_capacity b) + DEFAULT_BUFSIZE"

definition write_fits :: "int \<Rightarrow> PmemBuffer \<Rightarrow> bool" where
  "write_fits len b \<longleftrightarrow>
     0 \<le> len \<and> remaining b + len \<le> write_limit b \<and> write_limit b < 2 ^ 31 \<and>
     pos b + remaining b + len < 2 ^ 31"

text \<open>The array, window and capacity after the make-room phase of \<open>write\<close>.\<close>

lemma write_eq:
  assumes b: "buf_data (ensure_array g b) = Some d" "pos (ensure_array g b) = int p"
    "remaining (ensure_array g b) = int r" "buf_data_capacity (ensure_array g b) = int (length d)"
    and bounds: "p + r \<le> length d" "0 < length d" "length d < 2 ^ 31" "n \<le> length src"
    and fits: "p + r + n < 2 ^ 31" "r + n \<le> c" "c < 2 ^ 31" and g: "grants g"
    and c: "c = (if length d < r + n then length d + nat DEFAULT_BUFSIZE else length d)"
    and q: "q = (if length d < p + r + n then 0 else p)"
    and e: "e = (if length d < p + r + n then take r (drop p d) @ replicate (c - r) None else d)"
  obtains e' where "c_memcpy e (int (q + r)) src 0 (int n) = Some e'"
    "length e' = length e" "take (r + n) (drop q e') = take r (drop p d) @ take n src"
    "q + r + n \<le> length e" "length d < p + r + n \<Longrightarrow> length e = c"
    "PmemBuffer_write g (Some src) (int n) b = Some (0, (ensure_array g b)
       \<lparr>buf_data := Some e', pos := int q, buf_data_capacity := int (length e),
        pos_dirty := (if length d < p + r + n then 0 else pos_dirty b),
        remaining := int (r + n), remaining_dirty := wrap32 (remaining_dirty b + int n)\<rparr>)"
proof -
  have len_e: "q + r + n \<le> length e" and win: "take r (drop q e) = take r (drop p d)"
    using bounds fits c q e by (auto split: if_splits)
  have len_c: "length e = c" if "length d < p + r + n"
    using that bounds fits c e by (auto split: if_splits)
  obtain e' where e': "c_memcpy e (int (q + r)) src 0 (int n) = Some e'"
    using c_memcpy_total [of "q + r" n e 0 src] len_e bounds by auto
  note app = append_window [OF _ len_e _ e']
  have "take (r + n) (drop q e') = take r (drop p d) @ take n src" "length e' = length e"
    using app len_e bounds win by auto
  moreover have "PmemBuffer_write g (Some src) (int n) b = Some (0, (ensure_array g b)
       \<lparr>buf_data := Some e', pos := int q, buf_data_capacity := int (length e),
        pos_dirty := (if length d < p + r + n then 0 else pos_dirty b),
        remaining := int (r + n), remaining_dirty := wrap32 (remaining_dirty b + int n)\<rparr>)"
  proof (cases "length d < p + r + n")
    case True
    have "move_unread g ((ensure_array g b)\<lparr>buf_data_capacity := int c\<rparr>) =
      Some ((ensure_array g b)\<lparr>buf_data_capacity := int c, buf_data := Some e\<rparr>)"
      using move_unread_eq [OF g, of "(ensure_array g b)\<lparr>buf_data_capacity := int c\<rparr>" d p r c]
        True b bounds fits by (simp add: e)
    note moved = this
    show ?thesis
    proof (cases "length d < r + n")
      case grow: True
      then have "wrap32 (int (length d) + DEFAULT_BUFSIZE) = int c"
        using fits c by (simp add: c_simps)
      with moved show ?thesis
        using grow True b bounds fits e' q len_c
        by (simp add: PmemBuffer_write_def ensure_array_def [symmetric] c_simps Let_def)
    next
      case keep: False
      then have same: "(ensure_array g b)\<lparr>buf_data_capacity := int c\<rparr> = ensure_array g b"
        and cap: "buf_data_capacity (ensure_array g b) = int c"
        using b c by (auto intro: PmemBuffer.equality)
      with moved show ?thesis
        using keep True b bounds fits e' q len_c
        by (simp add: PmemBuffer_write_def ensure_array_def [symmetric] c_simps Let_def)
    qed
  next
    case False
    then show ?thesis
      using b bounds fits e' e q
      by (simp add: PmemBuffer_write_def ensure_array_def [symmetric] c_simps Let_def)
  qed
  ultimately show thesis
    using that e' len_e len_c by blast
qed

lemma write_spec:
  assumes g: "grants g" and ok: "buffer_ok b" and fits: "write_fits len b"
    and src: "len \<le> int (length src)"
  shows "\<exists>b'. PmemBuffer_write g (Some src) len b = Some (0, b') \<and>
    buffer_ok b' \<and> unread b' = unread b @ take (nat len) src \<and>
    remaining_dirty b' = wrap32 (remaining_dirty b + len) \<and>
    (if pos b + remaining b + len \<le> write_limit b - DEFAULT_BUFSIZE
     then pos b' = pos b \<and> pos_dirty b' = pos_dirty b else pos b' = 0 \<and> pos_dirty b' = 0) \<and>
    buf_data_capacity b' =
      (if remaining b + len \<le> write_limit b - DEFAULT_BUFSIZE
       then write_limit b - DEFAULT_BUFSIZE else write_limit b)"
proof -
  obtain d p r where b: "buf_data (ensure_array g b) = Some d" "pos (ensure_array g b) = int p"
    "remaining (ensure_array g b) = int r" "buf_data_capacity (ensure_array g b) = int (length d)"
    and bounds: "p + r \<le> length d" "0 < length d" "length d < 2 ^ 31"
    and win: "unread b = take r (drop p d)" and pr: "pos b = int p" "remaining b = int r"
    using ensure_array_ok [OF g ok] by metis
  define n where "n = nat len"
  define c where "c = (if length d < r + n then length d + nat DEFAULT_BUFSIZE else length d)"
  from fits have n: "len = int n" by (simp add: write_fits_def n_def)
  have limit: "write_limit b = int (length d) + DEFAULT_BUFSIZE"
    using b(4) bounds by (simp add: write_limit_def ensure_array_def split: if_splits)
  have small: "p + r + n < 2 ^ 31" "r + n \<le> c" "c < 2 ^ 31" "n \<le> length src"
    using fits src limit pr bounds by (auto simp: write_fits_def n c_def)
  define q where "q = (if length d < p + r + n then 0 else p)"
  define e where "e = (if length d < p + r + n
    then take r (drop p d) @ replicate (c - r) None else d)"
  obtain e' where e': "length e' = length e" "q + r + n \<le> length e"
      "take (r + n) (drop q e') = unread b @ take n src" "length e < 2 ^ 31"
    and w: "PmemBuffer_write g (Some src) (int n) b = Some (0, (ensure_array g b)
       \<lparr>buf_data := Some e', pos := int q, buf_data_capacity := int (length e),
        pos_dirty := (if length d < p + r + n then 0 else pos_dirty b),
        remaining := int (r + n), remaining_dirty := wrap32 (remaining_dirty b + int n)\<rparr>)"
    (is "_ = Some (0, ?b')")
    using small win
    by (rule_tac write_eq [OF b bounds small(4) small(1-3) g c_def q_def e_def])
      (metis bounds(3) e_def)
  have "buffer_ok ?b'" "unread ?b' = unread b @ take n src"
    using e' by (simp_all add: buffer_ok_def unread_def [of ?b'] nat_add_distrib del: of_nat_add)
  moreover have "int (length e) =
      (if remaining b + len \<le> write_limit b - DEFAULT_BUFSIZE
       then write_limit b - DEFAULT_BUFSIZE else write_limit b)"
    using bounds small by (auto simp: e_def c_def limit pr n DEFAULT_BUFSIZE_def)
  ultimately show ?thesis
    using w by (auto simp: n q_def pr limit)
qed

section \<open>Loading\<close>

text \<open>
  The bytes \<open>load\<close> keeps in front of the new ones.  When the array is large
  enough it is not moved, and the bytes kept are the first \<open>remaining\<close> ones of
  the array, whatever \<open>pos\<close> is.
\<close>

definition kept_by_load :: "int \<Rightarrow> PmemBuffer \<Rightarrow> cell list" where
  "kept_by_load len b =
     (if 0 < remaining b \<and> remaining b + len \<le> buf_data_capacity b
      then take (nat (remaining b)) (the (buf_data b)) else unread b)"

lemma load_spec:
  assumes g: "grants g" and ok: "buffer_ok b" and len: "0 < len" "len \<le> int (length src)"
    and small: "remaining b + len < 2 ^ 31"
  shows "\<exists>b'. PmemBuffer_load g (Some src) len b = Some (len, b') \<and>
    buffer_ok b' \<and> dirty_ok b' \<and> pos b' = 0 \<and> remaining_dirty b' = 0 \<and>
    unread b' = kept_by_load len b @ take (nat len) src"
proof (cases "remaining b = 0")
  case True
  define n where "n = nat len"
  have n: "len = int n" "0 < n" "n \<le> length src" "n < 2 ^ 31"
    using len small True by (auto simp: n_def)
  obtain d where d: "n \<le> length d" "length d < 2 ^ 31"
    "PmemBuffer_load g (Some src) len b = Some (len, b
       \<lparr>buf_data := Some (take n src @ drop n d), buf_data_capacity := int (length d),
        remaining := len, pos := 0, pos_dirty := len, remaining_dirty := 0\<rparr>)"
  proof (cases "buf_data_capacity b < len")
    case less: True
    show thesis
      using that [of "replicate n None"] less n g True ok c_memcpy_total [of 0 n "replicate n None" 0 src]
      by (auto simp: PmemBuffer_load_def c_simps Let_def buffer_ok_def intro!: PmemBuffer.equality
        split: option.splits)
  next
    case ge: False
    then obtain d where "buf_data b = Some d" "int (length d) = buf_data_capacity b" 
      "buf_data_capacity b < 2 ^ 31"
      using ok n by (auto simp: buffer_ok_def split: option.splits)
    then show thesis
      using that [of d] ge n True c_memcpy_total [of 0 n d 0 src]
      by (auto simp: PmemBuffer_load_def c_simps Let_def intro!: PmemBuffer.equality)
  qed
  then show ?thesis
    using n True ok
    by (auto simp: buffer_ok_def dirty_ok_def unread_def kept_by_load_def split: option.splits)
next
  case False
  then have "0 < remaining b" using ok by (simp add: buffer_ok_def)
  with ok obtain d p r where b: "buf_data b = Some d" "pos b = int p" "remaining b = int r"
      "p + r \<le> length d" "buf_data_capacity b = int (length d)" "length d < 2 ^ 31" "0 < r"
    by (cases rule: buffer_okE) auto
  define n where "n = nat len"
  have n: "len = int n" "0 < n" "n \<le> length src" "r + n < 2 ^ 31"
    using len small b by (auto simp: n_def)
  define e where "e = (if length d < r + n then take r (drop p d) @ replicate n None else d)"
  have e: "r + n \<le> length e" "length e < 2 ^ 31" "take r e = kept_by_load len b"
    using b n by (auto simp: e_def kept_by_load_def unread_def)
  define e' where "e' = take r e @ take n src @ drop (r + n) e"
  have e': "c_memcpy e (int r) src 0 (int n) = Some e'" "length e' = length e"
     "take (r + n) e' = take r e @ take n src"
    using c_memcpy_total [of r n e 0 src] e(1) n by (simp_all add: e'_def)
  have "PmemBuffer_load g (Some src) len b = Some (len, b
       \<lparr>buf_data := Some e', buf_data_capacity := int (length e), remaining := int (r + n), pos := 0,
        pos_dirty := int (r + n), remaining_dirty := 0\<rparr>)"
  proof (cases "length d < r + n")
    case True
    then have "move_unread g (b\<lparr>buf_data_capacity := int (r + n)\<rparr>) =
      Some (b\<lparr>buf_data_capacity := int (r + n), buf_data := Some e\<rparr>)"
      using move_unread_eq [OF g, of "b\<lparr>buf_data_capacity := int (r + n)\<rparr>" d p r "r + n"] b n
      by (simp add: e_def)
    with True show ?thesis
      using b n e' by (auto simp: PmemBuffer_load_def c_simps e_def Let_def intro!: PmemBuffer.equality)
  next
    case False
    with b n e' show ?thesis
      by (auto simp: PmemBuffer_load_def c_simps e_def Let_def intro!: PmemBuffer.equality)
  qed
  then show ?thesis
    using e e' n by (auto simp: buffer_ok_def dirty_ok_def unread_def nat_add_distrib)
qed
section \<open>Flushing\<close>

text \<open>The bytes written and not yet handed out by \<open>getDataForFlush\<close>, and the bytes behind a returned pointer.\<close>

definition unflushed :: "PmemBuffer \<Rightarrow> cell list" where
  "unflushed b = drop (nat (pos_dirty b - pos b)) (unread b)"

definition bytes_at :: "PmemBuffer \<Rightarrow> cptr \<Rightarrow> nat \<Rightarrow> cell list option" where
  "bytes_at b p n =
     (case (p, buf_data b) of
        (BufPtr i, Some d) \<Rightarrow>
          (if 0 \<le> i \<and> i + int n \<le> int (length d) then Some (take n (drop (nat i) d)) else None)
      | _ \<Rightarrow> None)"

lemma length_unflushed:
  "buffer_ok b \<Longrightarrow> dirty_ok b \<Longrightarrow> length (unflushed b) = nat (remaining_dirty b)"
  by (auto simp: unflushed_def length_unread dirty_ok_def)

lemma flush_spec:
  assumes ok: "buffer_ok b" "dirty_ok b" and sz: "0 < sz" "sz \<le> remaining_dirty b"
  shows "\<exists>b'. PmemBuffer_getDataForFlush sz b = (BufPtr (pos_dirty b), b') \<and>
    buffer_ok b' \<and> dirty_ok b' \<and> unread b' = unread b \<and>
    bytes_at b (BufPtr (pos_dirty b)) (nat sz) = Some (take (nat sz) (unflushed b)) \<and>
    unflushed b' = drop (nat sz) (unflushed b)"
  using ok(1)
proof (cases rule: buffer_okE)
  case null
  with ok sz show ?thesis by (simp add: dirty_ok_def)
next
  case (array d p r)
  define q where "q = nat (pos_dirty b) - p"
  define n where "n = nat sz"
  have q: "pos_dirty b = int (p + q)" "remaining_dirty b = int (r - q)" "q \<le> r" and
    n: "sz = int n" "n \<le> r - q" "0 < n"
    using array ok(2) sz by (auto simp: dirty_ok_def q_def n_def)
  have "take n (drop (p + q) d) = take n (drop q (take r (drop p d)))"
    using n by (simp add: drop_take min_absorb1 add.commute)
  then show ?thesis
    using array ok q n
    by (auto simp: PmemBuffer_getDataForFlush_def buffer_ok_def dirty_ok_def unread_def
        unflushed_def bytes_at_def c_simps nat_add_distrib add.commute)
qed

lemma flush_empty:
  "remaining_dirty b < sz \<or> remaining_dirty b = 0 \<Longrightarrow>
   PmemBuffer_getDataForFlush sz b = (NullPtr, b)"
  by (auto simp: PmemBuffer_getDataForFlush_def)

text \<open>
  A write that does not move the array, or that moves an array of which nothing
  was flushed yet, keeps the flush invariant; a write that moves a partly
  flushed array restarts the dirty window at the front of the array.
\<close>

lemma write_dirty:
  assumes "grants g" "buffer_ok b" "dirty_ok b" "write_fits len b" "len \<le> int (length src)"
    and "pos_dirty b = pos b \<or>
      pos b + remaining b + len \<le> write_limit b - DEFAULT_BUFSIZE"
  shows "\<exists>b'. PmemBuffer_write g (Some src) len b = Some (0, b') \<and> dirty_ok b' \<and>
    unflushed b' = unflushed b @ take (nat len) src"
proof -
  from write_spec [OF assms(1,2,4,5)] obtain b' where
    w: "PmemBuffer_write g (Some src) len b = Some (0, b')" "buffer_ok b'"
    "unread b' = unread b @ take (nat len) src"
    and d: "remaining_dirty b' = wrap32 (remaining_dirty b + len)"
    "pos_dirty b' - pos b' = pos_dirty b - pos b"
    using assms(6) by (auto split: if_splits)
  have len: "0 \<le> len" "0 \<le> remaining_dirty b" "remaining_dirty b + len < 2 ^ 31"
    using assms(2-4) by (auto simp: write_fits_def dirty_ok_def buffer_ok_def)
  have "remaining b' = remaining b + len"
    using arg_cong [OF w(3), of length] length_unread [OF w(2)] length_unread [OF assms(2)]
      w(2) assms(2,5) len by (auto simp: buffer_ok_def)
  with d len have "dirty_ok b'"
    using assms(3) by (simp add: dirty_ok_def c_simps)
  moreover have "nat (pos_dirty b - pos b) \<le> length (unread b)"
    using assms(2,3) by (auto simp: length_unread dirty_ok_def)
  then have "unflushed b' = unflushed b @ take (nat len) src"
    by (simp add: unflushed_def w(3) d(2))
  ultimately show ?thesis
    using w(1) by blast
qed

section \<open>The buffer as a queue of bytes\<close>

datatype 'a queue_op = Push "'a list" | Pop nat

fun queue_run ::
  "('a list \<Rightarrow> 'q \<Rightarrow> 'q option) \<Rightarrow> (nat \<Rightarrow> 'q \<Rightarrow> ('a list \<times> 'q) option) \<Rightarrow>
   'a queue_op list \<Rightarrow> 'q \<Rightarrow> ('a list list \<times> 'q) option" where
  "queue_run push pop [] q = Some ([], q)"
| "queue_run push pop (Push xs # ops) q = do { q \<leftarrow> push xs q; queue_run push pop ops q }"
| "queue_run push pop (Pop n # ops) q = do {
     (out, q) \<leftarrow> pop n q;
     (outs, q) \<leftarrow> queue_run push pop ops q;
     Some (out # outs, q)
   }"

text \<open>The specification: an unbounded first-in first-out sequence.\<close>

fun fifo_run :: "'a queue_op list \<Rightarrow> 'a list \<Rightarrow> 'a list list \<times> 'a list" where
  "fifo_run [] xs = ([], xs)"
| "fifo_run (Push ys # ops) xs = fifo_run ops (xs @ ys)"
| "fifo_run (Pop n # ops) xs =
     (let (outs, rest) = fifo_run ops (drop n xs) in (take n xs # outs, rest))"

text \<open>The side condition of a push, along the specification's run.\<close>

fun fifo_fits :: "('a list \<Rightarrow> nat \<Rightarrow> bool) \<Rightarrow> 'a queue_op list \<Rightarrow> 'a list \<Rightarrow> bool" where
  "fifo_fits fits [] xs = True"
| "fifo_fits fits (Push ys # ops) xs = (fits xs (length ys) \<and> fifo_fits fits ops (xs @ ys))"
| "fifo_fits fits (Pop n # ops) xs = fifo_fits fits ops (drop n xs)"

locale byte_queue =
  fixes ok :: "'q \<Rightarrow> bool"
    and items :: "'q \<Rightarrow> 'a list"
    and fits :: "'a list \<Rightarrow> nat \<Rightarrow> bool"
    and push :: "'a list \<Rightarrow> 'q \<Rightarrow> 'q option"
    and pop :: "nat \<Rightarrow> 'q \<Rightarrow> ('a list \<times> 'q) option"
  assumes push_law: "ok q \<Longrightarrow> fits (items q) (length xs) \<Longrightarrow>
      \<exists>q'. push xs q = Some q' \<and> ok q' \<and> items q' = items q @ xs"
    and pop_law: "ok q \<Longrightarrow>
      \<exists>q'. pop n q = Some (take n (items q), q') \<and> ok q' \<and> items q' = drop n (items q)"
begin

lemma run_refines:
  "ok q \<Longrightarrow> fifo_fits fits ops (items q) \<Longrightarrow>
   \<exists>q'. queue_run push pop ops q = Some (fst (fifo_run ops (items q)), q') \<and>
        ok q' \<and> items q' = snd (fifo_run ops (items q))"
proof (induction ops arbitrary: q)
  case Nil
  then show ?case by simp
next
  case (Cons op ops)
  show ?case
  proof (cases op)
    case (Push xs)
    with Cons.prems obtain q' where "push xs q = Some q'" "ok q'" "items q' = items q @ xs"
      using push_law by fastforce
    with Push Cons.prems Cons.IH [of q'] show ?thesis by auto
  next
    case (Pop n)
    obtain q' where "pop n q = Some (take n (items q), q')" "ok q'" "items q' = drop n (items q)"
      using pop_law Cons.prems by blast
    with Pop Cons.prems Cons.IH [of q'] show ?thesis
      by (auto simp: Let_def split: prod.splits)
  qed
qed

end

text \<open>
  The buffer's own push and pop: \<open>write\<close> of a whole array, and \<open>read\<close>
  into a fresh destination.  At most \<open>backlog_limit\<close> unread bytes keep every
  capacity computation inside \<open>int\<close>.
\<close>

definition backlog_limit :: nat where
  "backlog_limit = 2139094015"

definition buffer_push :: "(nat \<Rightarrow> bool) \<Rightarrow> cell list \<Rightarrow> PmemBuffer \<Rightarrow> PmemBuffer option" where
  "buffer_push g xs b = map_option snd (PmemBuffer_write g (Some xs) (int (length xs)) b)"

definition buffer_pop :: "nat \<Rightarrow> PmemBuffer \<Rightarrow> (cell list \<times> PmemBuffer) option" where
  "buffer_pop n b = do {
     (read_len, dst, b) \<leftarrow> PmemBuffer_read (Some (replicate n None)) (int n) b;
     dst \<leftarrow> dst;
     Some (take (nat read_len) dst, b)
   }"

definition buffer_bounded :: "(nat \<Rightarrow> bool) \<Rightarrow> PmemBuffer \<Rightarrow> bool" where
  "buffer_bounded g b \<longleftrightarrow>
     grants g \<and> buffer_ok b \<and> buf_data_capacity b \<le> int backlog_limit + DEFAULT_BUFSIZE"

definition push_fits :: "cell list \<Rightarrow> nat \<Rightarrow> bool" where
  "push_fits xs n \<longleftrightarrow> int n \<le> DEFAULT_BUFSIZE \<and> length xs + n \<le> backlog_limit"


lemma buffer_push_law:
  assumes "buffer_bounded g b" "push_fits (unread b) (length xs)"
  shows "\<exists>b'. buffer_push g xs b = Some b' \<and> buffer_bounded g b' \<and> unread b' = unread b @ xs"
proof -
  have g: "grants g" and ok: "buffer_ok b"
    and cap: "buf_data_capacity b \<le> int backlog_limit + DEFAULT_BUFSIZE"
    using assms(1) by (simp_all add: buffer_bounded_def)
  have rem: "remaining b + int (length xs) \<le> int backlog_limit" "int (length xs) \<le> DEFAULT_BUFSIZE"
    using assms(2) ok by (auto simp: push_fits_def length_unread buffer_ok_def)
  then have "write_fits (int (length xs)) b"
    using ok cap by (auto simp: write_fits_def write_limit_def buffer_ok_def backlog_limit_def
        DEFAULT_BUFSIZE_def)
  from write_spec [OF g ok this, of xs] obtain b' where
    "PmemBuffer_write g (Some xs) (int (length xs)) b = Some (0, b')" "buffer_ok b'"
    "unread b' = unread b @ xs" "buf_data_capacity b' \<le> int backlog_limit + DEFAULT_BUFSIZE"
    using cap rem by (auto simp: write_limit_def backlog_limit_def split: if_splits)
  then show ?thesis
    using g by (simp add: buffer_push_def buffer_bounded_def)
qed

lemma buffer_pop_law:
  assumes "buffer_bounded g b"
  shows "\<exists>b'. buffer_pop n b = Some (take n (unread b), b') \<and> buffer_bounded g b' \<and>
    unread b' = drop n (unread b)"
proof -
  have ok: "buffer_ok b" using assms by (simp add: buffer_bounded_def)
  define m where "m = nat (min (int n) (remaining b))"
  have m: "take m (unread b) = take n (unread b)" "drop m (unread b) = drop n (unread b)"
    "m \<le> length (unread b)" "m \<le> n"
    using ok by (auto simp: m_def length_unread buffer_ok_def min_def)
  obtain b' where b': "buffer_ok b'" "unread b' = drop m (unread b)"
      "buf_data_capacity b' = buf_data_capacity b"
    and "PmemBuffer_read (Some (replicate n None)) (int n) b =
      Some (int m, Some (take m (unread b) @ drop m (replicate n None)), b')"
    using read_spec [OF ok _ _ m_def, of "replicate n None"] by auto
  then have "buffer_pop n b = Some (take n (unread b), b')"
    using m(3,4) by (simp add: buffer_pop_def m(1) [symmetric])
  with b' show ?thesis
    using assms m(2) by (simp add: buffer_bounded_def)
qed

interpretation pmem_buffer:
  byte_queue "buffer_bounded g" unread push_fits "buffer_push g" buffer_pop for g
  by unfold_locales (rule buffer_push_law, assumption+, rule buffer_pop_law)

section \<open>Method calls as a state machine\<close>

text \<open>
  One rule per public method that changes the object, with the arguments the
  class accepts: a source or destination as long as the length says, and sizes
  inside the limits of the method.
\<close>

inductive buffer_step :: "(nat \<Rightarrow> bool) \<Rightarrow> PmemBuffer \<Rightarrow> PmemBuffer \<Rightarrow> bool" for g where
  step_load: "0 < len \<Longrightarrow> len \<le> int (length src) \<Longrightarrow> remaining b + len < 2 ^ 31 \<Longrightarrow>
     PmemBuffer_load g (Some src) len b = Some (r, b') \<Longrightarrow> buffer_step g b b'"
| step_read: "0 \<le> len \<Longrightarrow> len \<le> int (length dst) \<Longrightarrow>
     PmemBuffer_read (Some dst) len b = Some (r, dst', b') \<Longrightarrow> buffer_step g b b'"
| step_write: "write_fits len b \<Longrightarrow> len \<le> int (length src) \<Longrightarrow>
     PmemBuffer_write g (Some src) len b = Some (r, b') \<Longrightarrow> buffer_step g b b'"
| step_flush: "0 \<le> sz \<Longrightarrow> PmemBuffer_getDataForFlush sz b = (p, b') \<Longrightarrow> buffer_step g b b'"
| step_clean: "buffer_step g b (PmemBuffer_clean b)"

inductive buffer_reachable :: "(nat \<Rightarrow> bool) \<Rightarrow> PmemBuffer \<Rightarrow> bool" for g where
  start_default: "buffer_reachable g PmemBuffer_new"
| start_sized: "0 \<le> n \<Longrightarrow> n < 2 ^ 31 \<Longrightarrow> buffer_reachable g (PmemBuffer_new_size g n)"
| step: "buffer_reachable g b \<Longrightarrow> buffer_step g b b' \<Longrightarrow> buffer_reachable g b'"

lemma buffer_step_ok:
  assumes "buffer_step g b b'" "grants g" "buffer_ok b"
  shows "buffer_ok b'"
  using assms
proof (induction rule: buffer_step.induct)
  case (step_load len src b r b')
  with load_spec [of g b len src] show ?case by auto
next
  case (step_read len dst b r dst' b')
  with read_spec [of b len dst] show ?case by fastforce
next
  case (step_write len b src r b')
  with write_spec [of g b len src] show ?case by auto
next
  case (step_flush sz b p b')
  then show ?case
    by (auto simp: PmemBuffer_getDataForFlush_def buffer_ok_def split: if_splits option.splits)
qed simp

text \<open>
  C4: every method called within its limits keeps the space invariant, so in
  every reachable state the unread window lies inside the allocated array.
\<close>

theorem buffer_reachable_ok:
  assumes "grants g" "buffer_reachable g b"
  shows "buffer_ok b"
  using assms(2)
proof (induction rule: buffer_reachable.induct)
  case start_default
  show ?case by simp
next
  case (start_sized n)
  with assms(1) show ?case by (rule buffer_ok_new_size)
next
  case (step b b')
  with assms(1) show ?case by (auto intro: buffer_step_ok)
qed

theorem buffer_reachable_ok_witness:
  "grants (\<lambda>_. True) \<and> buffer_reachable (\<lambda>_. True) (PmemBuffer_clean PmemBuffer_new) \<and>
   buffer_ok (PmemBuffer_clean PmemBuffer_new)"
proof -
  have "buffer_reachable (\<lambda>_. True) (PmemBuffer_clean PmemBuffer_new)"
    by (rule buffer_reachable.step [OF start_default step_clean])
  with buffer_reachable_ok [OF grants_always this] show ?thesis by simp
qed

section \<open>Properties of the buffer\<close>

text \<open>
  C1: any interleaving of writes (of at most \<open>DEFAULT_BUFSIZE\<close> bytes each) and
  reads on a new buffer, with at most \<open>backlog_limit\<close> bytes pending, runs to
  completion and delivers exactly what an unbounded first-in first-out queue of
  bytes delivers, across every reallocation and compaction.
\<close>

theorem PmemBuffer_is_fifo:
  assumes "grants g" "fifo_fits push_fits ops []"
  shows "\<exists>b'. queue_run (buffer_push g) buffer_pop ops PmemBuffer_new =
      Some (fst (fifo_run ops []), b') \<and> buffer_ok b' \<and> unread b' = snd (fifo_run ops [])"
  using pmem_buffer.run_refines [of g PmemBuffer_new ops] assms
  by (auto simp: buffer_bounded_def PmemBuffer_new_def DEFAULT_BUFSIZE_def
      buffer_ok_new [unfolded PmemBuffer_new_def])

theorem PmemBuffer_is_fifo_witness:
  "\<exists>b'. queue_run (buffer_push (\<lambda>_. True)) buffer_pop
      [Push [Some 1, Some 2, Some 3], Pop 2, Push [Some 4], Pop 5] PmemBuffer_new =
      Some ([[Some 1, Some 2], [Some 3, Some 4]], b') \<and> buffer_ok b' \<and> unread b' = []"
  using PmemBuffer_is_fifo [of "\<lambda>_. True" "[Push [Some 1, Some 2, Some 3], Pop 2, Push [Some 4], Pop 5]"]
  by (simp add: push_fits_def backlog_limit_def DEFAULT_BUFSIZE_def)

text \<open>
  C5: a load keeps the unread bytes and appends the loaded ones, and a read of
  everything then delivers both, provided the unread window starts at the front
  of the array, is empty, or does not leave enough room (so that the array is
  reallocated).
\<close>

theorem load_then_read_all:
  assumes g: "grants g" and ok: "buffer_ok b" and len: "0 < len" "len \<le> int (length src)"
    and small: "remaining b + len < 2 ^ 31"
    and place: "pos b = 0 \<or> remaining b = 0 \<or> buf_data_capacity b < remaining b + len"
    and dst: "int (length dst) = remaining b + len"
  shows "\<exists>b1 b2. PmemBuffer_load g (Some src) len b = Some (len, b1) \<and>
    PmemBuffer_read (Some dst) (remaining b + len) b1 =
      Some (remaining b + len, Some (unread b @ take (nat len) src), b2) \<and>
    PmemBuffer_getRemaining b2 = 0"
proof -
  have kept: "kept_by_load len b = unread b"
    using ok place by (auto simp: kept_by_load_def unread_def buffer_ok_def split: option.splits)
  obtain b1 where b1: "PmemBuffer_load g (Some src) len b = Some (len, b1)" "buffer_ok b1"
    "unread b1 = unread b @ take (nat len) src"
    using load_spec [OF g ok len small] kept by auto
  have len1: "length (unread b1) = nat (remaining b + len)"
    using b1(3) ok len by (simp add: length_unread buffer_ok_def nat_add_distrib)
  then have rem1: "remaining b1 = remaining b + len"
    using b1(2) ok len by (auto simp: length_unread buffer_ok_def)
  have room: "min (remaining b + len) (remaining b1) \<le> int (length dst)"
    and n: "nat (remaining b + len) = nat (min (remaining b + len) (remaining b1))"
    using dst rem1 by simp_all
  from read_spec [OF b1(2) _ room n] obtain b2 where
    "PmemBuffer_read (Some dst) (remaining b + len) b1 =
       Some (int (nat (remaining b + len)), Some (unread b1), b2)"
    "buffer_ok b2" "unread b2 = []"
    using ok len dst len1 by (auto simp: buffer_ok_def)
  moreover from this have "remaining b2 = 0"
    using length_unread [of b2] by (simp add: buffer_ok_def)
  ultimately show ?thesis
    using b1 ok len by (auto simp: buffer_ok_def PmemBuffer_getRemaining_def)
qed

theorem load_then_read_all_witness:
  "\<exists>b1 b2. PmemBuffer_load (\<lambda>_. True) (Some [Some 7, Some 8]) 2 PmemBuffer_new = Some (2, b1) \<and>
    PmemBuffer_read (Some [None, None]) 2 b1 = Some (2, Some [Some 7, Some 8], b2) \<and>
    PmemBuffer_getRemaining b2 = 0"
  using load_then_read_all [of "\<lambda>_. True" PmemBuffer_new 2 "[Some 7, Some 8]" "[None, None]"]
  by (simp add: PmemBuffer_new_def buffer_ok_new [unfolded PmemBuffer_new_def] unread_def)

text \<open>
  C7: outside that proviso a load moves the window to the front of the array
  without moving the bytes, so the bytes delivered next are the first
  \<open>remaining\<close> bytes of the array, some of which were delivered before.
\<close>

theorem load_redelivers_consumed_bytes:
  assumes "grants g" "buffer_ok b" "0 < len" "len \<le> int (length src)"
    and "0 < remaining b" "remaining b + len \<le> buf_data_capacity b" "buf_data b = Some d"
  shows "\<exists>b'. PmemBuffer_load g (Some src) len b = Some (len, b') \<and>
    unread b' = take (nat (remaining b)) d @ take (nat len) src"
proof -
  have "remaining b + len < 2 ^ 31"
    using assms(2,6) by (auto simp: buffer_ok_def)
  from load_spec [OF assms(1-4) this] show ?thesis
    using assms(5-7) by (auto simp: kept_by_load_def)
qed

theorem load_redelivers_consumed_bytes_witness:
  "\<exists>b b'. buffer_ok b \<and> unread b = [Some 3] \<and>
    PmemBuffer_load (\<lambda>_. True) (Some [Some 9]) 1 b = Some (1, b') \<and> unread b' = [Some 1, Some 9]"
proof -
  let ?b = "\<lparr>buf_data = Some [Some 1, Some 2, Some 3], buf_data_capacity = 3, pos = 2, remaining = 1,
      pos_dirty = 3, remaining_dirty = 0\<rparr>"
  have "buffer_ok ?b" "unread ?b = [Some 3]"
    by (simp_all add: buffer_ok_def unread_def)
  moreover from this obtain b' where
    "PmemBuffer_load (\<lambda>_. True) (Some [Some 9]) 1 ?b = Some (1, b')" "unread b' = [Some 1, Some 9]"
    using load_redelivers_consumed_bytes [of "\<lambda>_. True" ?b 1 "[Some 9]" "[Some 1, Some 2, Some 3]"]
    by auto
  ultimately show ?thesis by blast
qed

text \<open>
  C6: with an allocator that serves every request, a write is defined exactly
  when the unread bytes and the new ones fit in the capacity enlarged once by
  \<open>DEFAULT_BUFSIZE\<close>; a longer write copies past the end of the array.
\<close>

theorem write_defined_iff:
  assumes g: "grants g" and ok: "buffer_ok b" and len: "0 \<le> len" "len \<le> int (length src)"
    and small: "pos b + remaining b + len < 2 ^ 31" "write_limit b < 2 ^ 31"
  shows "PmemBuffer_write g (Some src) len b \<noteq> None \<longleftrightarrow> remaining b + len \<le> write_limit b"
proof
  assume "remaining b + len \<le> write_limit b"
  then have "write_fits len b" using len small by (simp add: write_fits_def)
  from write_spec [OF g ok this len(2)] show "PmemBuffer_write g (Some src) len b \<noteq> None" by auto
next
  assume def: "PmemBuffer_write g (Some src) len b \<noteq> None"
  show "remaining b + len \<le> write_limit b"
  proof (rule ccontr)
    assume long: "\<not> remaining b + len \<le> write_limit b"
    obtain d p r where b: "buf_data (ensure_array g b) = Some d" "pos (ensure_array g b) = int p"
      "remaining (ensure_array g b) = int r" "buf_data_capacity (ensure_array g b) = int (length d)"
      and bounds: "p + r \<le> length d" "0 < length d" "length d < 2 ^ 31"
      and pr: "pos b = int p" "remaining b = int r"
      using ensure_array_ok [OF g ok] by metis
    obtain c where c: "write_limit b = int c" "length d \<le> c" "c < 2 ^ 31"
      and grow: "wrap32 (int (length d) + DEFAULT_BUFSIZE) = int c"
    proof
      show "write_limit b = int (length d + nat DEFAULT_BUFSIZE)"
        using b(4) bounds
        by (simp add: write_limit_def ensure_array_def DEFAULT_BUFSIZE_def split: if_splits)
      then show "length d + nat DEFAULT_BUFSIZE < 2 ^ 31"
        "wrap32 (int (length d) + DEFAULT_BUFSIZE) = int (length d + nat DEFAULT_BUFSIZE)"
        using small by (simp_all add: c_simps DEFAULT_BUFSIZE_def)
    qed simp
    have "move_unread g ((ensure_array g b)\<lparr>buf_data_capacity := int c\<rparr>) =
      Some ((ensure_array g b)\<lparr>buf_data_capacity := int c,
        buf_data := Some (take r (drop p d) @ replicate (c - r) None)\<rparr>)"
      using move_unread_eq [OF g, of "(ensure_array g b)\<lparr>buf_data_capacity := int c\<rparr>" d p r c]
        b bounds c by simp
    moreover have pos: "0 < c"
      using bounds(2) c(2) by linarith
    ultimately show False
      using def b pr bounds small long len c grow
      by (simp add: pos PmemBuffer_write_def ensure_array_def [symmetric] c_simps Let_def c_memcpy_def)
  qed
qed

theorem write_defined_iff_witness:
  "PmemBuffer_write (\<lambda>_. True) (Some (replicate 8389633 None)) 8389633 PmemBuffer_new = None \<and>
   PmemBuffer_write (\<lambda>_. True) (Some (replicate 8389632 None)) 8389632 PmemBuffer_new \<noteq> None"
  using write_defined_iff [of "\<lambda>_. True" PmemBuffer_new 8389633 "replicate 8389633 None"]
    write_defined_iff [of "\<lambda>_. True" PmemBuffer_new 8389632 "replicate 8389632 None"]
  by (simp add: PmemBuffer_new_def buffer_ok_new [unfolded PmemBuffer_new_def] write_limit_def
      DEFAULT_BUFSIZE_def del: not_None_eq)

text \<open>
  while nothing has been moved under it, the dirty window hands out every
  written byte once: a flush of \<open>sz\<close> bytes returns a pointer to the oldest
  \<open>sz\<close> unflushed bytes and removes them from the window, and once the window is
  empty every further flush returns null.
\<close>

theorem flush_hands_out_once:
  assumes "buffer_ok b" "dirty_ok b" "0 < sz" "sz \<le> remaining_dirty b"
  shows "\<exists>b'. PmemBuffer_getDataForFlush sz b = (BufPtr (pos_dirty b), b') \<and>
    bytes_at b' (BufPtr (pos_dirty b)) (nat sz) = Some (take (nat sz) (unflushed b)) \<and>
    unflushed b' = drop (nat sz) (unflushed b) \<and> unread b' = unread b \<and>
    (sz = remaining_dirty b \<longrightarrow> PmemBuffer_getDataForFlush n b' = (NullPtr, b'))"
proof -
  from flush_spec [OF assms] obtain b' where
    b': "PmemBuffer_getDataForFlush sz b = (BufPtr (pos_dirty b), b')" "unread b' = unread b"
      "bytes_at b (BufPtr (pos_dirty b)) (nat sz) = Some (take (nat sz) (unflushed b))"
      "unflushed b' = drop (nat sz) (unflushed b)"
    by auto
  have "buf_data b' = buf_data b" "sz = remaining_dirty b \<Longrightarrow> remaining_dirty b' = 0"
    using b'(1) assms(3,4) by (auto simp: PmemBuffer_getDataForFlush_def wrap32_def split: if_splits)
  with b' show ?thesis by (auto simp: bytes_at_def flush_empty)
qed

theorem flush_hands_out_once_witness:
  "\<exists>b b'. unflushed b = [Some 1, Some 2] \<and>
    PmemBuffer_getDataForFlush 2 b = (BufPtr 0, b') \<and>
    bytes_at b' (BufPtr 0) 2 = Some [Some 1, Some 2] \<and>
    PmemBuffer_getDataForFlush 1 b' = (NullPtr, b')"
proof -
  let ?b = "\<lparr>buf_data = Some [Some 1, Some 2, None], buf_data_capacity = 3, pos = 0, remaining = 2,
      pos_dirty = 0, remaining_dirty = 2\<rparr>"
  have "buffer_ok ?b" "dirty_ok ?b" "unflushed ?b = [Some 1, Some 2]"
    by (simp_all add: buffer_ok_def dirty_ok_def unread_def unflushed_def)
  moreover from this obtain b' where "PmemBuffer_getDataForFlush 2 ?b = (BufPtr 0, b')"
    "bytes_at b' (BufPtr 0) 2 = Some [Some 1, Some 2]" "PmemBuffer_getDataForFlush 1 b' = (NullPtr, b')"
    using flush_hands_out_once [of ?b 2 1] by auto
  ultimately show ?thesis by blast
qed

text \<open>
  A write that moves the array restarts the dirty window at the front: if
  some unread bytes were already flushed (or loaded), the next flush returns
  those bytes again instead of the ones just written.
\<close>

theorem flush_after_move_repeats:
  assumes "grants g" "buffer_ok b" "write_fits len b" "0 < len" "len \<le> int (length src)"
    and "write_limit b - DEFAULT_BUFSIZE < pos b + remaining b + len"
    and "0 \<le> remaining_dirty b" "remaining_dirty b + len < 2 ^ 31"
  shows "\<exists>b' b''. PmemBuffer_write g (Some src) len b = Some (0, b') \<and>
    PmemBuffer_getDataForFlush len b' = (BufPtr 0, b'') \<and>
    bytes_at b' (BufPtr 0) (nat len) = Some (take (nat len) (unread b @ take (nat len) src))"
proof -
  from write_spec [OF assms(1-3,5)] obtain b' where
    w: "PmemBuffer_write g (Some src) len b = Some (0, b')" "buffer_ok b'" "pos b' = 0"
      "pos_dirty b' = 0" "unread b' = unread b @ take (nat len) src"
    and d: "remaining_dirty b' = remaining_dirty b + len"
    using assms(4,6-8) by (auto simp: c_simps)
  from w(2) have "bytes_at b' (BufPtr 0) (nat len) = Some (take (nat len) (unread b'))"
  proof (cases rule: buffer_okE)
    case null
    then show ?thesis
      using w(5) assms(4,5) by (simp add: unread_def split: option.splits)
  next
    case (array e p r)
    have "nat len \<le> length (unread b')"
      using w(5) assms(4,5) by simp
    then show ?thesis
      using array w(3) assms(4) by (simp add: bytes_at_def unread_def min_absorb1)
  qed
  then show ?thesis
    using w d assms(4,7) by (auto simp: PmemBuffer_getDataForFlush_def)
qed

theorem flush_after_move_repeats_witness:
  "\<exists>b b' b''. unread b = [Some 2, Some 3] \<and> unflushed b = [] \<and>
    PmemBuffer_write (\<lambda>_. True) (Some [Some 9]) 1 b = Some (0, b') \<and>
    PmemBuffer_getDataForFlush 1 b' = (BufPtr 0, b'') \<and> bytes_at b' (BufPtr 0) 1 = Some [Some 2]"
proof -
  let ?b = "\<lparr>buf_data = Some [Some 1, Some 2, Some 3], buf_data_capacity = 3, pos = 1, remaining = 2,
      pos_dirty = 3, remaining_dirty = 0\<rparr>"
  have "buffer_ok ?b" "write_fits 1 ?b" "unread ?b = [Some 2, Some 3]" "unflushed ?b = []"
    by (simp_all add: buffer_ok_def unread_def unflushed_def write_fits_def write_limit_def
        DEFAULT_BUFSIZE_def)
  moreover from this obtain b' b'' where
    "PmemBuffer_write (\<lambda>_. True) (Some [Some 9]) 1 ?b = Some (0, b')"
    "PmemBuffer_getDataForFlush 1 b' = (BufPtr 0, b'')" "bytes_at b' (BufPtr 0) 1 = Some [Some 2]"
    using flush_after_move_repeats [of "\<lambda>_. True" ?b 1 "[Some 9]"] by (auto simp: write_limit_def)
  ultimately show ?thesis by blast
qed

end
