(* ===== verification/XXHash.thy ===== *)
theory XXHash
  imports NvmPrelude
begin

text \<open>
  The hash of \<open>native/src/xxhash.hpp\<close> that maps a block key to the 64-bit key
  of the store.  The C++ templates over the width \<open>N\<close> are HOL functions over
  the word type, with \<open>LENGTH('n)\<close> for \<open>N\<close>; a template specialisation is a
  function at its width, and the primary template dispatches on the width (the
  \<open>static_assert\<close>s admit 32 and 64 only).

  A pair of pointers \<open>p\<close>, \<open>bEnd\<close> into one array is the list of the bytes
  between them: \<open>p + k <= bEnd\<close> is \<open>k \<le> length p\<close> and \<open>p += k\<close> is
  \<open>drop k p\<close>.  A read needs its bytes in front of \<open>bEnd\<close>: a read past the
  end is \<open>None\<close>.

  The theory holds the one-shot hash with its reference definition over whole
  stripes and a tail (\<open>xxh_spec\<close>), and the proof that every read is in range and that
  the loops compute the reference.
\<close>

section \<open>Bit operations\<close>

definition rotl :: "'n::len word \<Rightarrow> nat \<Rightarrow> 'n word" where
  "rotl x r = (push_bit r x OR drop_bit (LENGTH('n) - r) x)"

text \<open>\<open>__builtin_bswap32/64\<close>: the bytes in reverse order.\<close>

definition swap :: "'n::len word \<Rightarrow> 'n word" where
  "swap x = le_word (rev (le_bytes (LENGTH('n) div 8) x))"

section \<open>Memory reads\<close>

datatype alignment = aligned | unaligned
datatype endianness = big_endian | little_endian | unspecified

definition XXH_CPU_LITTLE_ENDIAN :: bool where
  "XXH_CPU_LITTLE_ENDIAN = True"

definition XXH_FORCE_ALIGN_CHECK :: bool where
  "XXH_FORCE_ALIGN_CHECK = False"

definition get_endian :: "endianness \<Rightarrow> endianness" where
  "get_endian endian =
     (case endian of
        big_endian \<Rightarrow> big_endian
      | little_endian \<Rightarrow> little_endian
      | unspecified \<Rightarrow> if XXH_CPU_LITTLE_ENDIAN then little_endian else big_endian)"

definition is_little_endian :: bool where
  "is_little_endian \<longleftrightarrow> get_endian unspecified = little_endian"

definition read_unaligned :: "byte list \<Rightarrow> 'n::len word option" where
  "read_unaligned memPtr =
     (if LENGTH('n) div 8 \<le> length memPtr
      then Some (le_word (take (LENGTH('n) div 8) memPtr)) else None)"

definition readLE_align :: "byte list \<Rightarrow> endianness \<Rightarrow> alignment \<Rightarrow> 'n::len word option" where
  "readLE_align ptr endian align =
     (if align = unaligned
      then (if endian = little_endian then read_unaligned ptr
            else map_option swap (read_unaligned ptr))
      else (if endian = little_endian then read_unaligned ptr
            else map_option swap (read_unaligned ptr)))"

definition readLE :: "byte list \<Rightarrow> endianness \<Rightarrow> 'n::len word option" where
  "readLE ptr endian = readLE_align ptr endian unaligned"

definition readBE :: "byte list \<Rightarrow> 'n::len word option" where
  "readBE ptr = (if is_little_endian then map_option swap (read_unaligned ptr)
                 else read_unaligned ptr)"

text \<open>\<open>input\<close> is the address of the data; \<open>N\<close> the width of the hash.\<close>

definition get_alignment :: "nat \<Rightarrow> u64 \<Rightarrow> alignment" where
  "get_alignment N input =
     (if XXH_FORCE_ALIGN_CHECK \<and> input AND (of_nat (N div 8) - 1) = 0 then aligned else unaligned)"

section \<open>The hash\<close>

definition primes32 :: "u32 list" where
  "primes32 = [2654435761, 2246822519, 3266489917, 668265263, 374761393]"

definition primes64 :: "u64 list" where
  "primes64 = [11400714785074694791, 14029467366897019727, 1609587929392839161,
               9650029242287828579, 2870177450012600261]"

definition PRIME32 :: "nat \<Rightarrow> u32" where
  "PRIME32 n = primes32 ! (n - 1)"

definition PRIME64 :: "nat \<Rightarrow> u64" where
  "PRIME64 n = primes64 ! (n - 1)"

definition PRIME :: "nat \<Rightarrow> 'n::len word" where
  "PRIME n = (if LENGTH('n) = 32 then ucast (PRIME32 n) else ucast (PRIME64 n))"

definition xxh_round :: "'n::len word \<Rightarrow> 'n word \<Rightarrow> 'n word" where
  "xxh_round seed input =
     (let seed = seed + input * PRIME 2;
          seed = rotl seed (if LENGTH('n) = 32 then 13 else 31)
      in seed * PRIME 1)"

definition mergeRound64 :: "u64 \<Rightarrow> u64 \<Rightarrow> u64" where
  "mergeRound64 acc val =
     (let val = xxh_round 0 val;
          acc = acc XOR val
      in acc * PRIME64 1 + PRIME64 4)"

text \<open>The four accumulators \<open>v1\<close> to \<open>v4\<close>.\<close>

type_synonym 'n lanes = "'n word \<times> 'n word \<times> 'n word \<times> 'n word"

definition endian_align_sub_mergeround64 :: "u64 \<Rightarrow> 64 lanes \<Rightarrow> u64" where
  "endian_align_sub_mergeround64 hash_ret v =
     (case v of (v1, v2, v3, v4) \<Rightarrow>
        let hash_ret = mergeRound64 hash_ret v1;
            hash_ret = mergeRound64 hash_ret v2;
            hash_ret = mergeRound64 hash_ret v3
        in mergeRound64 hash_ret v4)"

definition endian_align_sub_mergeround :: "'n::len word \<Rightarrow> 'n lanes \<Rightarrow> 'n word" where
  "endian_align_sub_mergeround hash_ret v =
     (if LENGTH('n) = 64
      then (case v of (v1, v2, v3, v4) \<Rightarrow>
              ucast (endian_align_sub_mergeround64 (ucast hash_ret)
                       (ucast v1, ucast v2, ucast v3, ucast v4)))
      else hash_ret)"

subsection \<open>The tail\<close>

function ending32_words ::
  "u32 \<Rightarrow> byte list \<Rightarrow> endianness \<Rightarrow> alignment \<Rightarrow> (u32 \<times> byte list) option" where
  "ending32_words hash_ret p endian align =
     (if 4 \<le> length p then do {
        k \<leftarrow> readLE_align p endian align;
        let hash_ret = hash_ret + k * PRIME32 3;
        let hash_ret = rotl hash_ret 17 * PRIME32 4;
        ending32_words hash_ret (drop 4 p) endian align
      }
      else Some (hash_ret, p))"
  by pat_completeness auto
termination
  by (relation "measure (\<lambda>(h, p, e, a). length p)") auto

declare ending32_words.simps [simp del]

primrec ending32_bytes :: "byte list \<Rightarrow> u32 \<Rightarrow> u32" where
  "ending32_bytes [] hash_ret = hash_ret"
| "ending32_bytes (b # p) hash_ret =
     ending32_bytes p (rotl (hash_ret + ucast b * PRIME32 5) 11 * PRIME32 1)"

definition endian_align_sub_ending32 ::
  "u32 \<Rightarrow> byte list \<Rightarrow> endianness \<Rightarrow> alignment \<Rightarrow> u32 option" where
  "endian_align_sub_ending32 hash_ret p endian align = do {
     (hash_ret, p) \<leftarrow> ending32_words hash_ret p endian align;
     let hash_ret = ending32_bytes p hash_ret;
     let hash_ret = hash_ret XOR drop_bit 15 hash_ret;
     let hash_ret = hash_ret * PRIME32 2;
     let hash_ret = hash_ret XOR drop_bit 13 hash_ret;
     let hash_ret = hash_ret * PRIME32 3;
     let hash_ret = hash_ret XOR drop_bit 16 hash_ret;
     Some hash_ret
   }"

function ending64_words ::
  "u64 \<Rightarrow> byte list \<Rightarrow> endianness \<Rightarrow> alignment \<Rightarrow> (u64 \<times> byte list) option" where
  "ending64_words hash_ret p endian align =
     (if 8 \<le> length p then do {
        k \<leftarrow> readLE_align p endian align;
        let k1 = xxh_round 0 k;
        let hash_ret = hash_ret XOR k1;
        let hash_ret = rotl hash_ret 27 * PRIME64 1 + PRIME64 4;
        ending64_words hash_ret (drop 8 p) endian align
      }
      else Some (hash_ret, p))"
  by pat_completeness auto
termination
  by (relation "measure (\<lambda>(h, p, e, a). length p)") auto

declare ending64_words.simps [simp del]

definition ending64_half ::
  "u64 \<Rightarrow> byte list \<Rightarrow> endianness \<Rightarrow> alignment \<Rightarrow> (u64 \<times> byte list) option" where
  "ending64_half hash_ret p endian align =
     (if 4 \<le> length p then do {
        k \<leftarrow> (readLE_align p endian align :: u32 option);
        let hash_ret = hash_ret XOR (ucast k * PRIME64 1);
        let hash_ret = rotl hash_ret 23 * PRIME64 2 + PRIME64 3;
        Some (hash_ret, drop 4 p)
      }
      else Some (hash_ret, p))"

primrec ending64_bytes :: "byte list \<Rightarrow> u64 \<Rightarrow> u64" where
  "ending64_bytes [] hash_ret = hash_ret"
| "ending64_bytes (b # p) hash_ret =
     ending64_bytes p (rotl (hash_ret XOR (ucast b * PRIME64 5)) 11 * PRIME64 1)"

definition endian_align_sub_ending64 ::
  "u64 \<Rightarrow> byte list \<Rightarrow> endianness \<Rightarrow> alignment \<Rightarrow> u64 option" where
  "endian_align_sub_ending64 hash_ret p endian align = do {
     (hash_ret, p) \<leftarrow> ending64_words hash_ret p endian align;
     (hash_ret, p) \<leftarrow> ending64_half hash_ret p endian align;
     let hash_ret = ending64_bytes p hash_ret;
     let hash_ret = hash_ret XOR drop_bit 33 hash_ret;
     let hash_ret = hash_ret * PRIME64 2;
     let hash_ret = hash_ret XOR drop_bit 29 hash_ret;
     let hash_ret = hash_ret * PRIME64 3;
     let hash_ret = hash_ret XOR drop_bit 32 hash_ret;
     Some hash_ret
   }"

definition endian_align_sub_ending ::
  "'n::len word \<Rightarrow> byte list \<Rightarrow> endianness \<Rightarrow> alignment \<Rightarrow> 'n word option" where
  "endian_align_sub_ending hash_ret p endian align =
     (if LENGTH('n) = 32
      then map_option ucast (endian_align_sub_ending32 (ucast hash_ret) p endian align)
      else map_option ucast (endian_align_sub_ending64 (ucast hash_ret) p endian align))"

subsection \<open>The stripes\<close>

text \<open>One round of the four accumulators, reading four words from \<open>p\<close>.\<close>

definition stripe_round ::
  "'n::len lanes \<Rightarrow> byte list \<Rightarrow> endianness \<Rightarrow> alignment \<Rightarrow> ('n lanes \<times> byte list) option" where
  "stripe_round v p endian align =
     (case v of (v1, v2, v3, v4) \<Rightarrow> do {
        k \<leftarrow> readLE_align p endian align;
        let v1 = xxh_round v1 k;
        let p = drop (LENGTH('n) div 8) p;
        k \<leftarrow> readLE_align p endian align;
        let v2 = xxh_round v2 k;
        let p = drop (LENGTH('n) div 8) p;
        k \<leftarrow> readLE_align p endian align;
        let v3 = xxh_round v3 k;
        let p = drop (LENGTH('n) div 8) p;
        k \<leftarrow> readLE_align p endian align;
        let v4 = xxh_round v4 k;
        let p = drop (LENGTH('n) div 8) p;
        Some ((v1, v2, v3, v4), p)
      })"

text \<open>The \<open>do ... while (p <= limit)\<close> loop, where \<open>limit\<close> is \<open>bEnd - N / 2\<close>.\<close>

partial_function (option) stripe_loop ::
  "'n::len lanes \<Rightarrow> byte list \<Rightarrow> endianness \<Rightarrow> alignment \<Rightarrow> ('n lanes \<times> byte list) option" where
  "stripe_loop v p endian align = do {
     vp \<leftarrow> stripe_round v p endian align;
     (if LENGTH('n) div 2 \<le> length (snd vp) then stripe_loop (fst vp) (snd vp) endian align
      else Some vp)
   }"

declare stripe_loop.simps [code]

definition init_lanes :: "'n::len word \<Rightarrow> 'n lanes" where
  "init_lanes seed = (seed + PRIME 1 + PRIME 2, seed + PRIME 2, seed + 0, seed - PRIME 1)"

definition converge :: "'n::len lanes \<Rightarrow> 'n word" where
  "converge v =
     (case v of (v1, v2, v3, v4) \<Rightarrow>
        endian_align_sub_mergeround
          (rotl v1 1 + rotl v2 7 + rotl v3 12 + rotl v4 18) (v1, v2, v3, v4))"

definition endian_align ::
  "byte list \<Rightarrow> 'n::len word \<Rightarrow> endianness \<Rightarrow> alignment \<Rightarrow> 'n word option" where
  "endian_align input seed endian align = do {
     let len = length input;
     (hash_ret, p) \<leftarrow>
       (if LENGTH('n) div 2 \<le> len then do {
          (v, p) \<leftarrow> stripe_loop (init_lanes seed) input endian align;
          Some (converge v, p)
        }
        else Some (seed + PRIME 5, input));
     let hash_ret = hash_ret + of_nat len;
     endian_align_sub_ending hash_ret p endian align
   }"

definition xxhash :: "u64 \<Rightarrow> byte list \<Rightarrow> 'n::len word \<Rightarrow> endianness \<Rightarrow> 'n word option" where
  "xxhash address input seed endian =
     endian_align input seed (get_endian endian) (get_alignment LENGTH('n) address)"

text \<open>
  The overload for \<open>std::basic_string<char>\<close> at the default seed and
  endianness, as \<open>pmemkv\<close> calls it.
\<close>

definition byte_of_char :: "char \<Rightarrow> byte" where
  "byte_of_char c = of_char c"

definition xxhash_string :: "u64 \<Rightarrow> string \<Rightarrow> 'n::len word option" where
  "xxhash_string address input = xxhash address (map byte_of_char input) 0 unspecified"

section \<open>The reference\<close>

definition valid_width :: "'n::len itself \<Rightarrow> bool" where
  "valid_width t \<longleftrightarrow> LENGTH('n) = 32 \<or> LENGTH('n) = 64"

lemma valid_width_32 [simp]: "valid_width TYPE(32)"
  and valid_width_64 [simp]: "valid_width TYPE(64)"
  by (simp_all add: valid_width_def)

definition word_at :: "byte list \<Rightarrow> endianness \<Rightarrow> 'n::len word" where
  "word_at p endian =
     (let w = le_word (take (LENGTH('n) div 8) p)
      in if endian = little_endian then w else swap w)"

definition stripe :: "'n::len lanes \<Rightarrow> byte list \<Rightarrow> endianness \<Rightarrow> 'n lanes" where
  "stripe v p endian =
     (case v of (v1, v2, v3, v4) \<Rightarrow>
        let k = LENGTH('n) div 8 in
        (xxh_round v1 (word_at p endian), xxh_round v2 (word_at (drop k p) endian),
         xxh_round v3 (word_at (drop (k + k) p) endian),
         xxh_round v4 (word_at (drop (k + k + k) p) endian)))"

primrec stripes :: "nat \<Rightarrow> 'n::len lanes \<Rightarrow> byte list \<Rightarrow> endianness \<Rightarrow> 'n lanes" where
  "stripes 0 v p endian = v"
| "stripes (Suc n) v p endian =
     stripes n (stripe v p endian) (drop (LENGTH('n) div 2) p) endian"

text \<open>
  The reference for the tail of fewer than \<open>N / 2\<close> bytes, from the published
  description of the two hashes: the word of index \<open>i\<close> is read at its offset,
  the bytes behind the last word are mixed in one by one, and the result is
  finished by shifts and products.  The primes are written out.
\<close>

definition finish32 :: "u32 \<Rightarrow> u32" where
  "finish32 h =
     (let h = (h XOR drop_bit 15 h) * 2246822519;
          h = (h XOR drop_bit 13 h) * 3266489917
      in h XOR drop_bit 16 h)"

definition finish64 :: "u64 \<Rightarrow> u64" where
  "finish64 h =
     (let h = (h XOR drop_bit 33 h) * 14029467366897019727;
          h = (h XOR drop_bit 29 h) * 1609587929392839161
      in h XOR drop_bit 32 h)"

definition mix_word32 :: "byte list \<Rightarrow> endianness \<Rightarrow> u32 \<Rightarrow> nat \<Rightarrow> u32" where
  "mix_word32 p e h i = rotl (h + word_at (drop (4 * i) p) e * 3266489917) 17 * 668265263"

definition mix_byte32 :: "u32 \<Rightarrow> byte \<Rightarrow> u32" where
  "mix_byte32 h b = rotl (h + ucast b * 374761393) 11 * 2654435761"

definition tail32 :: "u32 \<Rightarrow> byte list \<Rightarrow> endianness \<Rightarrow> u32" where
  "tail32 h p e =
     (let n = length p div 4
      in finish32 (foldl mix_byte32 (foldl (mix_word32 p e) h [0..<n]) (drop (4 * n) p)))"

definition mix_word64 :: "byte list \<Rightarrow> endianness \<Rightarrow> u64 \<Rightarrow> nat \<Rightarrow> u64" where
  "mix_word64 p e h i =
     rotl (h XOR rotl (word_at (drop (8 * i) p) e * 14029467366897019727) 31 * 11400714785074694791) 27
       * 11400714785074694791 + 9650029242287828579"

definition mix_half64 :: "byte list \<Rightarrow> endianness \<Rightarrow> u64 \<Rightarrow> u64" where
  "mix_half64 p e h =
     rotl (h XOR ucast (word_at p e :: u32) * 11400714785074694791) 23
       * 14029467366897019727 + 1609587929392839161"

definition mix_byte64 :: "u64 \<Rightarrow> byte \<Rightarrow> u64" where
  "mix_byte64 h b = rotl (h XOR ucast b * 2870177450012600261) 11 * 11400714785074694791"

definition tail64 :: "u64 \<Rightarrow> byte list \<Rightarrow> endianness \<Rightarrow> u64" where
  "tail64 h p e =
     (let n = length p div 8; h = foldl (mix_word64 p e) h [0..<n]; q = drop (8 * n) p
      in finish64 (if 4 \<le> length q then foldl mix_byte64 (mix_half64 q e h) (drop 4 q)
                   else foldl mix_byte64 h q))"

definition tail_hash :: "'n::len word \<Rightarrow> byte list \<Rightarrow> endianness \<Rightarrow> 'n word" where
  "tail_hash h p e =
     (if LENGTH('n) = 32 then ucast (tail32 (ucast h) p e) else ucast (tail64 (ucast h) p e))"

text \<open>The reference hash of a byte string: all whole stripes, then the tail.\<close>

definition xxh_spec :: "byte list \<Rightarrow> 'n::len word \<Rightarrow> endianness \<Rightarrow> 'n word" where
  "xxh_spec input seed endian =
     (let W = LENGTH('n) div 2; n = length input div W;
          h = (if n = 0 then seed + PRIME 5 else converge (stripes n (init_lanes seed) input endian))
      in tail_hash (h + of_nat (length input)) (drop (n * W) input) endian)"

section \<open>The loops compute the reference\<close>

lemma readLE_align_in_range:
  "LENGTH('n) div 8 \<le> length p \<Longrightarrow>
   readLE_align p endian align = Some (word_at p endian :: 'n::len word)"
  by (simp add: readLE_align_def read_unaligned_def word_at_def)

lemma drop_four: "drop (4 * k) p = drop (k + k + k + k) p"
  by (rule arg_cong [where f = "\<lambda>n. drop n p"]) simp

lemma stripe_round_in_range:
  assumes "4 * (LENGTH('n) div 8) \<le> length p"
  shows "stripe_round (v :: 'n::len lanes) p endian align =
     Some (stripe v p endian, drop (4 * (LENGTH('n) div 8)) p)"
  using assms
  by (cases v) (simp add: stripe_round_def stripe_def readLE_align_in_range Let_def drop_four ac_simps)

lemma width_quarter: "valid_width TYPE('n::len) \<Longrightarrow> 4 * (LENGTH('n) div 8) = LENGTH('n) div 2"
  by (auto simp: valid_width_def)

lemma stripe_loop_eq:
  assumes w: "valid_width TYPE('n::len)" and "LENGTH('n) div 2 \<le> length p"
  shows "stripe_loop (v :: 'n lanes) p endian align =
    Some (stripes (length p div (LENGTH('n) div 2)) v p endian,
          drop (length p div (LENGTH('n) div 2) * (LENGTH('n) div 2)) p)"
  using assms(2)
proof (induction "length p" arbitrary: p v rule: less_induct)
  case less
  let ?W = "LENGTH('n) div 2"
  have W: "0 < ?W" using w by (auto simp: valid_width_def)
  have round: "stripe_round v p endian align = Some (stripe v p endian, drop ?W p)"
    using stripe_round_in_range [of p v] less.prems by (simp add: width_quarter [OF w])
  obtain n where n: "length p div ?W = Suc n" "(length p - ?W) div ?W = n"
    using less.prems W by (metis le_div_geq)
  show ?case
  proof (cases "?W \<le> length (drop ?W p)")
    case True
    have "length (drop ?W p) < length p" using W less.prems by simp
    from less.hyps [OF this True] show ?thesis
      using True n by (subst stripe_loop.simps) (simp add: round ac_simps)
  next
    case False
    then have "n = 0" using n W by simp
    with False n show ?thesis
      by (subst stripe_loop.simps) (simp add: round)
  qed
qed

text \<open>The primes of the code are those of the description.\<close>

lemma prime_values:
  "PRIME32 (Suc 0) = 2654435761" "PRIME32 2 = 2246822519" "PRIME32 3 = 3266489917"
  "PRIME32 4 = 668265263" "PRIME32 5 = 374761393"
  "PRIME64 (Suc 0) = 11400714785074694791" "PRIME64 2 = 14029467366897019727" "PRIME64 3 = 1609587929392839161"
  "PRIME64 4 = 9650029242287828579" "PRIME64 5 = 2870177450012600261"
  "(PRIME (Suc 0) :: u64) = 11400714785074694791" "(PRIME 2 :: u64) = 14029467366897019727"
  by (simp_all add: PRIME_def PRIME32_def PRIME64_def primes32_def primes64_def)

text \<open>A fold over the offsets takes the first word and goes on with the rest.\<close>

lemma foldl_offsets: "foldl f h [0..<Suc n] = foldl (\<lambda>h i. f h (Suc i)) (f h 0) [0..<n]"
proof -
  have "[0..<Suc n] = 0 # map Suc [0..<n]" by (simp add: upt_conv_Cons map_Suc_upt del: upt_Suc)
  then show ?thesis by (simp only: foldl.simps foldl_map)
qed

lemma ending32_words_eq:
  "ending32_words h p e align =
     Some (foldl (mix_word32 p e) h [0..<length p div 4], drop (4 * (length p div 4)) p)"
proof (induction h p e align rule: ending32_words.induct)
  case (1 h p e align)
  show ?case
  proof (cases "4 \<le> length p")
    case True
    then have read: "readLE_align p e align = Some (word_at p e :: u32)"
      by (simp add: readLE_align_in_range)
    have len: "length p div 4 = Suc (length (drop 4 p) div 4)" using True by (simp add: le_div_geq)
    have "(\<lambda>h i. mix_word32 p e h (Suc i)) = mix_word32 (drop 4 p) e"
      by (simp add: fun_eq_iff mix_word32_def add.commute)
    then show ?thesis
      using 1 [OF True read refl refl] True unfolding len foldl_offsets
      by (simp add: ending32_words.simps [of h p] read mix_word32_def prime_values Let_def add.commute)
  qed (simp add: ending32_words.simps [of h p])
qed

lemma ending32_bytes_eq: "ending32_bytes p h = foldl mix_byte32 h p"
  by (induction p arbitrary: h) (simp_all add: mix_byte32_def prime_values)

lemma ending64_words_eq:
  "ending64_words h p e align =
     Some (foldl (mix_word64 p e) h [0..<length p div 8], drop (8 * (length p div 8)) p)"
proof (induction h p e align rule: ending64_words.induct)
  case (1 h p e align)
  show ?case
  proof (cases "8 \<le> length p")
    case True
    then have read: "readLE_align p e align = Some (word_at p e :: u64)"
      by (simp add: readLE_align_in_range)
    have len: "length p div 8 = Suc (length (drop 8 p) div 8)" using True by (simp add: le_div_geq)
    have "(\<lambda>h i. mix_word64 p e h (Suc i)) = mix_word64 (drop 8 p) e"
      by (simp add: fun_eq_iff mix_word64_def add.commute)
    then show ?thesis
      using 1 [OF True read refl refl refl] True unfolding len foldl_offsets
      by (simp add: ending64_words.simps [of h p] read mix_word64_def xxh_round_def prime_values Let_def add.commute)
  qed (simp add: ending64_words.simps [of h p])
qed

lemma ending64_half_eq:
  "ending64_half h p e align = Some (if 4 \<le> length p then (mix_half64 p e h, drop 4 p) else (h, p))"
  by (simp add: ending64_half_def mix_half64_def readLE_align_in_range prime_values Let_def)

lemma ending64_bytes_eq: "ending64_bytes p h = foldl mix_byte64 h p"
  by (induction p arbitrary: h) (simp_all add: mix_byte64_def prime_values)

lemma endian_align_sub_ending_eq:
  "endian_align_sub_ending h p endian align = Some (tail_hash h p endian)"
  by (simp add: endian_align_sub_ending_def endian_align_sub_ending32_def endian_align_sub_ending64_def
      ending32_words_eq ending64_words_eq ending64_half_eq ending32_bytes_eq ending64_bytes_eq
      tail_hash_def tail32_def tail64_def finish32_def finish64_def prime_values Let_def)

lemma endian_align_eq_spec:
  assumes w: "valid_width TYPE('n::len)"
  shows "endian_align input (seed :: 'n word) endian align = Some (xxh_spec input seed endian)"
proof -
  let ?W = "LENGTH('n) div 2"
  have W: "0 < ?W" using w by (auto simp: valid_width_def)
  show ?thesis
  proof (cases "?W \<le> length input")
    case True
    then have "0 < length input div ?W"
      using W by (simp add: div_greater_zero_iff)
    then show ?thesis
      using True by (simp add: endian_align_def xxh_spec_def stripe_loop_eq [OF w True]
          endian_align_sub_ending_eq Let_def)
  next
    case False
    then show ?thesis
      by (simp add: endian_align_def xxh_spec_def endian_align_sub_ending_eq)
  qed
qed

end
