(* ===== verification/XXHashStream.thy ===== *)
theory XXHashStream
  imports XXHash
begin

text \<open>
  The streaming interface (\<open>hash_state_t\<close>) and the canonical representation
  (\<open>canonical_t\<close>) of \<open>native/src/xxhash.hpp\<close>.  The theory proves that a
  stream of updates keeps the invariant \<open>stream_inv\<close> (the accumulators have
  consumed every whole stripe, the buffer holds the rest), which settles for
  which inputs the digest agrees with the one-shot hash and what it is for the others, and that the canonical
  form round-trips.
\<close>

section \<open>The state\<close>

datatype error_code = ec_ok | ec_error

text \<open>
  \<open>mem\<close> is the array of four words seen as \<open>N / 2\<close> bytes, which is how the
  code accesses it; \<open>vs\<close> are \<open>v1\<close> to \<open>v4\<close>.
\<close>

record (overloaded) 'n hash_state =
  total_len :: u64
  vs :: "'n lanes"
  mem :: "byte list"
  memsize :: nat

definition hash_state_new :: "'n::len word \<Rightarrow> 'n hash_state" where
  "hash_state_new seed =
     \<lparr>total_len = 0, vs = init_lanes seed, mem = replicate (LENGTH('n) div 2) 0, memsize = 0\<rparr>"

definition hash_state_reset :: "'n::len word \<Rightarrow> 'n hash_state \<Rightarrow> error_code \<times> 'n hash_state" where
  "hash_state_reset seed s =
     (let s = s\<lparr>total_len := 0, vs := (0, 0, 0, 0), mem := replicate (LENGTH('n) div 2) 0,
                memsize := 0\<rparr>
      in (ec_ok, s\<lparr>vs := init_lanes seed\<rparr>))"

text \<open>Completing the buffered stripe with the first bytes of the input.\<close>

definition update_fill ::
  "byte list \<Rightarrow> endianness \<Rightarrow> 'n::len hash_state \<Rightarrow> ('n hash_state \<times> byte list) option" where
  "update_fill p endian s =
     (if memsize s \<noteq> 0 then do {
        let n = LENGTH('n) div 2 - memsize s;
        m \<leftarrow> c_memcpy (mem s) (int (memsize s)) p 0 (int n);
        (v, _) \<leftarrow> stripe_round (vs s) m endian unaligned;
        Some (s\<lparr>mem := m, vs := v, memsize := 0\<rparr>, drop n p)
      }
      else Some (s, p))"

text \<open>The whole stripes of the rest of the input, and the bytes kept for later.\<close>

definition update_rest ::
  "byte list \<Rightarrow> endianness \<Rightarrow> 'n::len hash_state \<Rightarrow> (error_code \<times> 'n hash_state) option" where
  "update_rest p endian s = do {
     (v, p) \<leftarrow>
       (if LENGTH('n) div 2 \<le> length p then stripe_loop (vs s) p endian unaligned
        else Some (vs s, p));
     let s = s\<lparr>vs := v\<rparr>;
     if p \<noteq> [] then do {
       m \<leftarrow> c_memcpy (mem s) 0 p 0 (int (length p));
       Some (ec_ok, s\<lparr>mem := m, memsize := length p\<rparr>)
     }
     else Some (ec_ok, s)
   }"

definition update_impl ::
  "byte list option \<Rightarrow> endianness \<Rightarrow> 'n::len hash_state \<Rightarrow> (error_code \<times> 'n hash_state) option" where
  "update_impl input endian s =
     (case input of
        None \<Rightarrow> Some (ec_error, s)
      | Some p \<Rightarrow> do {
          let s = s\<lparr>total_len := total_len s + of_nat (length p)\<rparr>;
          if memsize s + length p < LENGTH('n) div 2 then do {
            m \<leftarrow> c_memcpy (mem s) (int (memsize s)) p 0 (int (length p));
            Some (ec_ok, s\<lparr>mem := m, memsize := memsize s + length p\<rparr>)
          }
          else do {
            (s, p) \<leftarrow> update_fill p endian s;
            update_rest p endian s
          }
        })"

definition digest_impl :: "endianness \<Rightarrow> 'n::len hash_state \<Rightarrow> 'n word option" where
  "digest_impl endian s = do {
     let p = take (memsize s) (mem s);
     let hash_ret =
       (if of_nat (LENGTH('n) div 2) < total_len s then converge (vs s)
        else (case vs s of (v1, v2, v3, v4) \<Rightarrow> v3 + PRIME 5));
     let hash_ret = hash_ret + ucast (total_len s);
     endian_align_sub_ending hash_ret p endian unaligned
   }"

definition hash_update ::
  "byte list option \<Rightarrow> endianness \<Rightarrow> 'n::len hash_state \<Rightarrow> (error_code \<times> 'n hash_state) option" where
  "hash_update input endian s = update_impl input (get_endian endian) s"

definition hash_update_string ::
  "string \<Rightarrow> endianness \<Rightarrow> 'n::len hash_state \<Rightarrow> (error_code \<times> 'n hash_state) option" where
  "hash_update_string input endian s =
     update_impl (Some (map byte_of_char input)) (get_endian endian) s"

definition hash_digest :: "endianness \<Rightarrow> 'n::len hash_state \<Rightarrow> 'n word option" where
  "hash_digest endian s = digest_impl (get_endian endian) s"

text \<open>A client: hashing a sequence of chunks.\<close>

fun hash_chunks ::
  "byte list list \<Rightarrow> endianness \<Rightarrow> 'n::len hash_state \<Rightarrow> 'n hash_state option" where
  "hash_chunks [] endian s = Some s"
| "hash_chunks (c # cs) endian s = do {
     (_, s) \<leftarrow> hash_update (Some c) endian s;
     hash_chunks cs endian s
   }"

section \<open>Canonical form\<close>

definition canonical_new :: "'n::len word \<Rightarrow> byte list" where
  "canonical_new hash =
     (let hash = (if is_little_endian then swap hash else hash)
      in le_bytes (LENGTH('n) div 8) hash)"

definition canonical_get_hash :: "byte list \<Rightarrow> 'n::len word option" where
  "canonical_get_hash digest = readBE digest"

section \<open>Stripes of a growing input\<close>

lemma word_at_append:
  "LENGTH('n) div 8 \<le> length p \<Longrightarrow> word_at (p @ q) e = (word_at p e :: 'n::len word)"
  by (simp add: word_at_def)

lemma stripe_append:
  assumes "4 * (LENGTH('n) div 8) \<le> length p"
  shows "stripe (v :: 'n::len lanes) (p @ q) e = stripe v p e"
  using assms by (cases v) (simp add: stripe_def word_at_append Let_def)

lemma stripes_append:
  assumes w: "valid_width TYPE('n::len)" and "n * (LENGTH('n) div 2) \<le> length p"
  shows "stripes n (v :: 'n lanes) (p @ q) e = stripes n v p e"
  using assms(2)
proof (induction n arbitrary: v p)
  case 0
  show ?case by simp
next
  case (Suc n)
  then have le: "LENGTH('n) div 2 \<le> length p" by simp
  with Suc.prems show ?case
    using Suc.IH [of "drop (LENGTH('n) div 2) p"] stripe_append [of p v q e]
    by (simp add: width_quarter [OF w])
qed

lemma stripes_add:
  "stripes (n + m) (v :: 'n::len lanes) p e = stripes m (stripes n v p e) (drop (n * (LENGTH('n) div 2)) p) e"
  by (induction n arbitrary: v p) (simp_all add: ac_simps)

section \<open>The invariant of a stream\<close>

definition stream_inv :: "'n::len word \<Rightarrow> endianness \<Rightarrow> byte list \<Rightarrow> 'n hash_state \<Rightarrow> bool" where
  "stream_inv seed e D s \<longleftrightarrow>
     (let W = LENGTH('n) div 2; n = length D div W in
      total_len s = of_nat (length D) \<and> vs s = stripes n (init_lanes seed) D e \<and>
      memsize s = length D mod W \<and> length (mem s) = W \<and>
      take (memsize s) (mem s) = drop (n * W) D)"

lemma stream_inv_new: "stream_inv seed e [] (hash_state_new (seed :: 'n::len word))"
  by (simp add: stream_inv_def hash_state_new_def)

text \<open>Consuming whole stripes and storing the rest re-establishes the invariant.\<close>

lemma stream_finish:
  assumes w: "valid_width TYPE('n::len)" and s: "length (mem s) = LENGTH('n) div 2"
      "memsize s = 0" "total_len s = of_nat (length D)"
      "vs s = stripes n (init_lanes seed) D e" and n: "n * (LENGTH('n) div 2) \<le> length D"
    and p: "p = drop (n * (LENGTH('n) div 2)) D"
  shows "\<exists>s'. update_rest p e s = Some (ec_ok, s') \<and> stream_inv (seed :: 'n word) e D s'"
proof -
  let ?W = "LENGTH('n) div 2"
  let ?k = "length p div ?W"
  have W: "0 < ?W" using w by (auto simp: valid_width_def)
  define v' where "v' = stripes ?k (vs s) p e"
  define r where "r = drop (?k * ?W) p"
  have loop: "(if ?W \<le> length p then stripe_loop (vs s) p e unaligned else Some (vs s, p)) = Some (v', r)"
    using stripe_loop_eq [OF w, of p "vs s"] by (simp add: v'_def r_def)
  have len_r: "length r = length p mod ?W"
    by (simp add: r_def minus_div_mult_eq_mod)
  have "length D = n * ?W + (?k * ?W + length p mod ?W)"
    using n by (simp add: p div_mult_mod_eq)
  then have len: "length D = (n + ?k) * ?W + length r" "length r < ?W"
    using W by (simp_all only: len_r add_mult_distrib add.assoc mod_less_divisor)
  then have div: "length D div ?W = n + ?k" "length D mod ?W = length r"
    using W by (simp_all add: div_mult_self3)
  have v': "v' = stripes (n + ?k) (init_lanes seed) D e"
    by (simp add: v'_def s stripes_add p)
  have r: "r = drop ((n + ?k) * ?W) D"
    by (simp add: r_def p algebra_simps)
  have copy: "c_memcpy (mem s) 0 r 0 (int (length r)) = Some (r @ drop (length r) (mem s))"
    using c_memcpy_total [of 0 "length r" "mem s" 0 r] len(2) s(1) by simp
  have inv: "stream_inv seed e D (s\<lparr>vs := v', mem := c, memsize := length r\<rparr>)"
    if "length c = ?W" "take (length r) c = r" for c
    using that s(3) unfolding stream_inv_def Let_def div
    by (simp add: v' r [symmetric])
  show ?thesis
  proof (cases "r = []")
    case True
    have "s\<lparr>vs := v', mem := mem s, memsize := 0\<rparr> = s\<lparr>vs := v'\<rparr>"
      using s(2) by (intro hash_state.equality) simp_all
    with inv [of "mem s"] s(1) True show ?thesis
      by (simp add: update_rest_def loop)
  next
    case False
    have "length (r @ drop (length r) (mem s)) = ?W"
      using len(2) s(1) by simp
    from inv [OF this] False show ?thesis
      by (simp add: update_rest_def loop copy)
  qed
qed

lemma update_impl_inv:
  assumes w: "valid_width TYPE('n::len)" and inv: "stream_inv (seed :: 'n word) e D s"
  shows "\<exists>s'. update_impl (Some X) e s = Some (ec_ok, s') \<and> stream_inv seed e (D @ X) s'"
proof -
  let ?W = "LENGTH('n) div 2"
  define n where "n = length D div ?W"
  define m where "m = length D mod ?W"
  define T where "T = drop (n * ?W) D"
  have W: "0 < ?W" using w by (auto simp: valid_width_def)
  have len: "length D = n * ?W + m" "m < ?W" "length T = m"
    using W by (simp_all add: n_def m_def T_def minus_div_mult_eq_mod div_mult_mod_eq)
  have s: "total_len s = of_nat (length D)" "vs s = stripes n (init_lanes seed) D e"
    "memsize s = m" "length (mem s) = ?W" "take m (mem s) = T"
    using inv unfolding stream_inv_def Let_def n_def [symmetric] m_def [symmetric] T_def [symmetric]
    by auto
  show ?thesis
  proof (cases "m + length X < ?W")
    case True
    have "c_memcpy (mem s) (int m) X 0 (int (length X)) =
        Some (T @ X @ drop (m + length X) (mem s))"
      using c_memcpy_total [of m "length X" "mem s" 0 X] True s by simp
    moreover have "length (D @ X) div ?W = n" "length (D @ X) mod ?W = m + length X"
      using True len W by (simp_all add: add.assoc)
    ultimately show ?thesis
      using True s len stripes_append [OF w, of n D "init_lanes seed" X e]
      by (simp add: update_impl_def stream_inv_def Let_def T_def [symmetric])
  next
    case False
    define j where "j = (if m = 0 then 0 else ?W - m)"
    define n1 where "n1 = (if m = 0 then n else Suc n)"
    have j: "j \<le> length X" "n1 * ?W = length D + j" 
      using False len by (auto simp: j_def n1_def)
    define s1 where "s1 = s\<lparr>total_len := of_nat (length (D @ X)), memsize := 0,
       mem := (if m = 0 then mem s else T @ take j X), vs := stripes n1 (init_lanes seed) (D @ X) e\<rparr>"
    have first: "update_fill X e (s\<lparr>total_len := of_nat (length (D @ X))\<rparr>) = Some (s1, drop j X)"
    proof (cases "m = 0")
      case True
      then show ?thesis
        using s len stripes_append [OF w, of n D "init_lanes seed" X e]
        by (auto simp: update_fill_def s1_def j_def n1_def intro!: hash_state.equality)
    next
      case nz: False
      have "c_memcpy (mem s) (int m) X 0 (int (?W - m)) = Some (T @ take j X)"
        using c_memcpy_total [of m "?W - m" "mem s" 0 X] nz s len j(1)
        by (simp add: j_def)
      moreover have "stripe_round (vs s) (T @ take j X) e unaligned =
          Some (stripe (vs s) (T @ take j X) e, [])"
        using stripe_round_in_range [of "T @ take j X" "vs s" e unaligned] len j nz
        by (simp add: width_quarter [OF w] j_def)
      moreover have "stripe (vs s) (T @ take j X) e = stripes n1 (init_lanes seed) (D @ X) e"
      proof -
        have "stripes n1 (init_lanes seed) (D @ X) e = stripe (vs s) (drop (n * ?W) (D @ X)) e"
          using stripes_add [of n 1 "init_lanes seed" "D @ X" e] nz s(2) len
            stripes_append [OF w, of n D "init_lanes seed" X e]
          by (simp add: n1_def)
        also have "drop (n * ?W) (D @ X) = (T @ take j X) @ drop j X"
          using len by (simp add: T_def)
        also have "stripe (vs s) \<dots> e = stripe (vs s) (T @ take j X) e"
          using len j nz by (intro stripe_append) (simp add: width_quarter [OF w] j_def)
        finally show ?thesis ..
      qed
      ultimately show ?thesis
        using nz s by (simp add: update_fill_def s1_def j_def Let_def)
    qed
    have "length (mem s1) = ?W" "memsize s1 = 0" "total_len s1 = of_nat (length (D @ X))"
      "vs s1 = stripes n1 (init_lanes seed) (D @ X) e" "n1 * ?W \<le> length (D @ X)"
      "drop j X = drop (n1 * ?W) (D @ X)"
      using s len j by (auto simp: s1_def j_def)
    from stream_finish [OF w this] show ?thesis
      using False s(1,3) first by (simp add: update_impl_def Let_def)
  qed
qed

lemma hash_chunks_inv:
  assumes w: "valid_width TYPE('n::len)"
  shows "stream_inv (seed :: 'n word) (get_endian endian) D s \<Longrightarrow>
    \<exists>s'. hash_chunks cs endian s = Some s' \<and> stream_inv seed (get_endian endian) (D @ concat cs) s'"
proof (induction cs arbitrary: D s)
  case Nil
  then show ?case by simp
next
  case (Cons c cs)
  from update_impl_inv [OF w Cons.prems] obtain s1 where
    s1: "update_impl (Some c) (get_endian endian) s = Some (ec_ok, s1)"
      "stream_inv seed (get_endian endian) (D @ c) s1" by blast
  from Cons.IH [OF s1(2)] s1(1) show ?case
    by (simp add: hash_update_def)
qed

text \<open>What the digest of a stream computes, with the code's comparison \<open>total_len > N / 2\<close>.\<close>

lemma digest_impl_eq:
  assumes w: "valid_width TYPE('n::len)" and inv: "stream_inv (seed :: 'n word) e D s"
    and small: "length D < 2 ^ 64"
  shows "digest_impl e s =
    Some (let W = LENGTH('n) div 2; n = length D div W; v = stripes n (init_lanes seed) D e;
              h = (if W < length D then converge v else fst (snd (snd v)) + PRIME 5)
          in tail_hash (h + of_nat (length D)) (drop (n * W) D) e)"
proof -
  have len: "(of_nat (LENGTH('n) div 2) < total_len s) = (LENGTH('n) div 2 < length D)"
    using inv small w
    by (auto simp: stream_inv_def Let_def valid_width_def word_less_nat_alt unat_of_nat take_bit_nat_eq_self_iff)
  have cast: "ucast (total_len s) = (of_nat (length D) :: 'n word)"
    using inv w
    by (auto simp: stream_inv_def Let_def valid_width_def unsigned_of_nat word_of_nat_eq_iff min_def)
  have "vs s = stripes (length D div (LENGTH('n) div 2)) (init_lanes seed) D e"
    "take (memsize s) (mem s) = drop (length D div (LENGTH('n) div 2) * (LENGTH('n) div 2)) D"
    using inv by (auto simp: stream_inv_def Let_def)
  then show ?thesis
    by (auto simp: digest_impl_def Let_def len cast endian_align_sub_ending_eq split: prod.splits)
qed

section \<open>Properties of the hash\<close>

lemma swap_swap: "valid_width TYPE('n::len) \<Longrightarrow> swap (swap x) = (x :: 'n word)"
  using le_bytes_le_word [of "rev (le_bytes (LENGTH('n) div 8) x)", where 'a = 'n]
  by (auto simp: swap_def valid_width_def le_word_le_bytes take_bit_word_eq_self)

lemma streamed_digest_eq:
  assumes w: "valid_width TYPE('n::len)" and len: "length D \<noteq> LENGTH('n) div 2" "length D < 2 ^ 64"
    and inv: "stream_inv (seed :: 'n word) e D s"
  shows "digest_impl e s = Some (xxh_spec D seed e)"
proof -
  let ?W = "LENGTH('n) div 2"
  have "0 < ?W" using w by (auto simp: valid_width_def)
  then have "(length D div ?W = 0) = (\<not> ?W < length D)" 
    using len(1) by (auto simp: div_eq_0_iff)
  then show ?thesis
    by (cases "?W < length D")
      (simp_all add: digest_impl_eq [OF w inv len(2)] xxh_spec_def Let_def init_lanes_def)
qed

text \<open>The finishing steps lose nothing: shifts and products with odd numbers can be undone.\<close>

lemma xorshift_inj:
  assumes "x XOR drop_bit k x = y XOR drop_bit k y" "0 < k"
  shows "x = (y :: 'n::len word)"
proof -
  let ?z = "x XOR y"
  have "?z = drop_bit k ?z"
    using assms(1) by (metis (no_types, opaque_lifting) drop_bit_xor xor.assoc xor.commute xor_self_eq xor.right_neutral)
  then have "unat ?z = unat ?z div 2 ^ k"
    by (metis unsigned_drop_bit_eq drop_bit_eq_div drop_bit_take_bit unat_drop_bit_eq)
  moreover have "unat ?z div 2 ^ k < unat ?z" if "0 < unat ?z"
    by (intro div_less_dividend one_less_power that) (use assms(2) in simp_all)
  ultimately have "unat ?z = 0" by fastforce
  then have "?z = 0" by (simp only: unat_eq_0)
  then show ?thesis by (metis xor.assoc xor.left_neutral xor_self_eq)
qed

lemma mult_unit_inj: "p * q = 1 \<Longrightarrow> x * p = y * p \<Longrightarrow> x = y" for x :: "'a::comm_ring_1"
  by (metis mult.assoc mult.right_neutral)

lemma finish32_inj: "finish32 x = finish32 y \<Longrightarrow> x = y"
proof -
  have p: "(2246822519 :: u32) * 3066638151 = 1" "(3266489917 :: u32) * 2828982549 = 1" by simp_all
  show "finish32 x = finish32 y \<Longrightarrow> x = y"
    unfolding finish32_def Let_def
    by (drule xorshift_inj, simp, drule mult_unit_inj [OF p(2)], drule xorshift_inj, simp,
        drule mult_unit_inj [OF p(1)], drule xorshift_inj, simp_all)
qed

lemma finish64_inj: "finish64 x = finish64 y \<Longrightarrow> x = y"
proof -
  have p: "(14029467366897019727 :: u64) * 839798700976720815 = 1" "(1609587929392839161 :: u64) * 16855272203555305545 = 1" by simp_all
  show "finish64 x = finish64 y \<Longrightarrow> x = y"
    unfolding finish64_def Let_def
    by (drule xorshift_inj, simp, drule mult_unit_inj [OF p(2)], drule xorshift_inj, simp,
        drule mult_unit_inj [OF p(1)], drule xorshift_inj, simp_all)
qed

lemma ucast_same_width_inj:
  "LENGTH('a::len) = LENGTH('b::len) \<Longrightarrow> (ucast (x :: 'a word) :: 'b word) = ucast y \<longleftrightarrow> x = y"
  by (metis is_up order_refl ucast_up_ucast_id)

lemma tail_hash_Nil_eq_iff:
  assumes "valid_width TYPE('n::len)"
  shows "tail_hash h [] e = tail_hash (h' :: 'n word) [] e \<longleftrightarrow> h = h'"
  using assms
  by (auto simp: tail_hash_def tail32_def tail64_def valid_width_def Let_def ucast_same_width_inj
      dest!: finish32_inj finish64_inj)

text \<open>An input of exactly one stripe.\<close>

lemma one_stripe_digest:
  assumes w: "valid_width TYPE('n::len)" and len: "length D = LENGTH('n) div 2"
    and inv: "stream_inv (seed :: 'n word) e D s"
  shows "digest_impl e s =
    Some (tail_hash (xxh_round seed (word_at (drop (LENGTH('n) div 4) D) e) + PRIME 5 + of_nat (LENGTH('n) div 2)) [] e)"
proof -
  have "length D < 2 ^ 64" "0 < LENGTH('n) div 2" "LENGTH('n) div 8 + LENGTH('n) div 8 = LENGTH('n) div 4"
    using w len by (auto simp: valid_width_def)
  then show ?thesis
    using digest_impl_eq [OF w inv] len by (simp add: stripe_def init_lanes_def Let_def)
qed

lemma one_stripe_spec:
  assumes "valid_width TYPE('n::len)" "length D = LENGTH('n) div 2"
  shows "xxh_spec D (seed :: 'n word) e =
    tail_hash (converge (stripe (init_lanes seed) D e) + of_nat (LENGTH('n) div 2)) [] e"
  using assms by (auto simp: xxh_spec_def valid_width_def)

text \<open>
  C3: hashing a key reads no byte outside it, ends, and computes the reference
  hash of the key's bytes, at both widths and at every address (the alignment
  of the key does not matter).
\<close>

theorem xxhash_string_correct:
  "xxhash_string address key = Some (xxh_spec (map byte_of_char key) (0 :: u64) little_endian) \<and>
   xxhash_string address key = Some (xxh_spec (map byte_of_char key) (0 :: u32) little_endian)"
  by (simp_all add: xxhash_string_def xxhash_def endian_align_eq_spec get_endian_def
      XXH_CPU_LITTLE_ENDIAN_def)

text \<open>
  C2: for every way of cutting an input into chunks, the digest of the streamed
  chunks is the one-shot hash of the whole input, for every seed and endianness,
  unless the input is exactly \<open>N / 2\<close> bytes long.
\<close>

theorem streamed_hash_is_one_shot_hash:
  fixes seed :: "'n::len word"
  assumes "LENGTH('n) = 32 \<or> LENGTH('n) = 64"
    and "length (concat cs) \<noteq> LENGTH('n) div 2" "length (concat cs) < 2 ^ 64"
  shows "do { s \<leftarrow> hash_chunks cs endian (hash_state_new seed); hash_digest endian s } =
    xxhash address (concat cs) seed endian"
proof -
  have w: "valid_width TYPE('n)" using assms(1) by (simp add: valid_width_def)
  obtain s where "hash_chunks cs endian (hash_state_new seed) = Some s"
    "stream_inv seed (get_endian endian) (concat cs) s"
    using hash_chunks_inv [OF w stream_inv_new] by force
  then show ?thesis
    using streamed_digest_eq [OF w assms(2,3)]
    by (simp add: hash_digest_def xxhash_def endian_align_eq_spec [OF w])
qed

theorem streamed_hash_is_one_shot_hash_witness:
  "do { s \<leftarrow> hash_chunks [[1, 2], [], [3]] unspecified (hash_state_new (7 :: u64));
        hash_digest unspecified s } = xxhash 0 [1, 2, 3] 7 unspecified"
  using streamed_hash_is_one_shot_hash [of "[[1, 2], [], [3]]" unspecified "7 :: u64" 0] by simp

text \<open>
  C8: on every input of exactly one stripe (\<open>N / 2\<close> bytes), cut in any way,
  the streamed digest is computed from the seed and the third of the four words
  alone; so it is the one-shot hash only in the case that the third accumulator
  happens to coincide with the four accumulators merged.
\<close>

theorem streamed_hash_of_one_stripe:
  fixes seed :: "'n::len word"
  assumes "LENGTH('n) = 32 \<or> LENGTH('n) = 64" and "length (concat cs) = LENGTH('n) div 2"
  shows "let D = concat cs; e = get_endian endian; N = LENGTH('n);
             w3 = word_at (drop (N div 4) D) e;
             digest = do { s \<leftarrow> hash_chunks cs endian (hash_state_new seed); hash_digest endian s }
         in digest = Some (tail_hash (xxh_round seed w3 + PRIME 5 + of_nat (N div 2)) [] e) \<and>
            (digest = xxhash address D seed endian \<longleftrightarrow>
               xxh_round seed w3 + PRIME 5 = converge (stripe (init_lanes seed) D e))"
proof -
  have w: "valid_width TYPE('n)" using assms(1) by (simp add: valid_width_def)
  obtain s where s: "hash_chunks cs endian (hash_state_new seed) = Some s"
    "stream_inv seed (get_endian endian) (concat cs) s"
    using hash_chunks_inv [OF w stream_inv_new] by force
  from one_stripe_digest [OF w assms(2) s(2)] one_stripe_spec [OF w assms(2)] s(1) tail_hash_Nil_eq_iff [OF w]
  show ?thesis by (simp add: hash_digest_def xxhash_def endian_align_eq_spec [OF w] Let_def)
qed

theorem streamed_hash_of_one_stripe_witness:
  "do { s \<leftarrow> hash_chunks [replicate 30 0, [], [0, 0]] unspecified (hash_state_new (0 :: u64));
        hash_digest unspecified s } \<noteq> xxhash 0 (replicate 32 0) 0 unspecified"
proof -
  have "xxh_round (0 :: u64) (word_at (drop 16 (replicate 32 0)) little_endian) + PRIME 5 \<noteq>
      converge (stripe (init_lanes 0) (replicate 32 0) little_endian)" by code_simp
  moreover have "concat [replicate 30 0, [], [0, 0]] = (replicate 32 0 :: byte list)"
    by (simp add: eval_nat_numeral)
  ultimately show ?thesis
    using streamed_hash_of_one_stripe [where cs = "[replicate 30 0, [], [0, 0]]" and seed = "0 :: u64"
        and endian = unspecified and address = 0]
    by (auto simp: Let_def get_endian_def XXH_CPU_LITTLE_ENDIAN_def)
qed

text \<open>
  the canonical (big-endian) bytes of a hash read back to the hash, at both
  widths.
\<close>

theorem canonical_round_trip:
  "canonical_get_hash (canonical_new h) = Some (h :: u64) \<and>
   canonical_get_hash (canonical_new k) = Some (k :: u32)"
  by (simp_all add: canonical_get_hash_def canonical_new_def readBE_def read_unaligned_def
      is_little_endian_def get_endian_def XXH_CPU_LITTLE_ENDIAN_def swap_swap)

text \<open>
  the modelled hash gives the published xxHash values for these inputs, one
  below and one above the length of a stripe.
\<close>

theorem xxhash_published_values:
  "xxhash_string 0 ''abc'' = Some (0x32D153FF :: u32) \<and>
   xxhash_string 0 ''abc'' = Some (0x44BC2CF5AD770999 :: u64) \<and>
   xxhash_string 0 ''abcdefghijklmnopqrstuvwxyz0123456789'' = Some (0x64F23ECF1609B766 :: u64)"
  by code_simp

end
