(* ===== verification/PmemMemory.thy ===== *)
theory PmemMemory
  imports NvmPrelude
begin

text \<open>
  The persistent memory below the store.  The file system library behind
  \<open>native/src/memory_interface.h\<close> (\<open>TBPAlloc\<close>, \<open>TBPLoad\<close>,
  \<open>TBPStore\<close>) is not part of the repository, so it is a parameter: a record
  of functions on an unknown state \<open>'m\<close>.  The store also dereferences
  persistent addresses as ordinary pointers; the field \<open>direct\<close> is what such
  a dereference sees, \<open>None\<close> where nothing is mapped.

  \<open>tbp_laws\<close> states the behaviour the header documents and the store relies
  on.  The rest of the theory is the word-sized accessors of \<open>pmemkv\<close>
  (\<open>TBPSet\<close>, \<open>TBPGet\<close>, \<open>TBPAdd\<close>, \<open>TBPSub\<close>) and how they act on the
  fields of disjoint objects.
\<close>

section \<open>The interface\<close>

record 'm tbp =
  TBPAlloc :: "u64 \<Rightarrow> 'm \<Rightarrow> u64 \<times> 'm"
  TBPLoad :: "u64 \<Rightarrow> u64 \<Rightarrow> 'm \<Rightarrow> int \<times> byte list"
  TBPStore :: "u64 \<Rightarrow> byte list \<Rightarrow> 'm \<Rightarrow> int \<times> 'm"
  direct :: "'m \<Rightarrow> u64 \<Rightarrow> byte option"

text \<open>Address \<open>x\<close> lies in the object of \<open>n\<close> bytes at \<open>a\<close>.\<close>

definition in_obj :: "u64 \<Rightarrow> nat \<Rightarrow> u64 \<Rightarrow> bool" where
  "in_obj a n x \<longleftrightarrow> unat (x - a) < n"

definition obj_owned :: "(u64 \<Rightarrow> bool) \<Rightarrow> u64 \<Rightarrow> nat \<Rightarrow> bool" where
  "obj_owned own a n \<longleftrightarrow> (\<forall>x. in_obj a n x \<longrightarrow> own x)"

definition obj_disjoint :: "u64 \<Rightarrow> nat \<Rightarrow> u64 \<Rightarrow> nat \<Rightarrow> bool" where
  "obj_disjoint a n b k \<longleftrightarrow> (\<forall>x. \<not> (in_obj a n x \<and> in_obj b k x))"

text \<open>
  \<open>own m\<close> are the allocated addresses of state \<open>m\<close>, \<open>good\<close> the states the
  library keeps itself in.
  \<^item> allocation returns 0 on failure and otherwise an object of unallocated
    addresses, and leaves the content of allocated memory alone;
  \<^item> a store inside allocated memory succeeds and changes those bytes only;
  \<^item> a load inside allocated memory succeeds and returns the bytes;
  \<^item> allocated memory is mapped.
\<close>

definition alloc_law :: "'m tbp \<Rightarrow> ('m \<Rightarrow> u64 \<Rightarrow> bool) \<Rightarrow> ('m \<Rightarrow> bool) \<Rightarrow> bool" where
  "alloc_law T own good \<longleftrightarrow>
     (\<forall>m n p m'. good m \<longrightarrow> TBPAlloc T n m = (p, m') \<longrightarrow>
        good m' \<and> (\<forall>x. own m x \<longrightarrow> own m' x \<and> direct T m' x = direct T m x) \<and>
        (p \<noteq> 0 \<longrightarrow> (\<forall>x. in_obj p (unat n) x \<longrightarrow> own m' x \<and> \<not> own m x)))"

definition store_law :: "'m tbp \<Rightarrow> ('m \<Rightarrow> u64 \<Rightarrow> bool) \<Rightarrow> ('m \<Rightarrow> bool) \<Rightarrow> bool" where
  "store_law T own good \<longleftrightarrow>
     (\<forall>m a bs. good m \<longrightarrow> obj_owned (own m) a (length bs) \<longrightarrow> length bs < 2 ^ 64 \<longrightarrow>
        (\<exists>m'. TBPStore T a bs m = (0, m') \<and> good m' \<and> own m' = own m \<and>
          (\<forall>x. own m x \<longrightarrow> direct T m' x =
             (if in_obj a (length bs) x then Some (bs ! unat (x - a)) else direct T m x))))"

definition load_law :: "'m tbp \<Rightarrow> ('m \<Rightarrow> u64 \<Rightarrow> bool) \<Rightarrow> ('m \<Rightarrow> bool) \<Rightarrow> bool" where
  "load_law T own good \<longleftrightarrow>
     (\<forall>m a n. good m \<longrightarrow> obj_owned (own m) a (unat n) \<longrightarrow>
        TBPLoad T a n m = (0, map (\<lambda>i. the (direct T m (a + of_nat i))) [0..<unat n]))"

definition mapped_law :: "'m tbp \<Rightarrow> ('m \<Rightarrow> u64 \<Rightarrow> bool) \<Rightarrow> ('m \<Rightarrow> bool) \<Rightarrow> bool" where
  "mapped_law T own good \<longleftrightarrow> (\<forall>m x. good m \<longrightarrow> own m x \<longrightarrow> direct T m x \<noteq> None)"

definition tbp_laws :: "'m tbp \<Rightarrow> ('m \<Rightarrow> u64 \<Rightarrow> bool) \<Rightarrow> ('m \<Rightarrow> bool) \<Rightarrow> bool" where
  "tbp_laws T own good \<longleftrightarrow>
     alloc_law T own good \<and> store_law T own good \<and> load_law T own good \<and> mapped_law T own good"

section \<open>Word-sized accessors\<close>

text \<open>The return codes of the library are ignored by the code.\<close>

definition TBPSet :: "'m tbp \<Rightarrow> u64 \<Rightarrow> u64 \<Rightarrow> 'm \<Rightarrow> 'm" where
  "TBPSet T addr value m = snd (TBPStore T addr (le_bytes 8 value) m)"

text \<open>After a failed load the local \<open>ans\<close> is indeterminate.\<close>

definition TBPGet :: "'m tbp \<Rightarrow> u64 \<Rightarrow> 'm \<Rightarrow> u64 option" where
  "TBPGet T addr m =
     (case TBPLoad T addr 8 m of
        (rc, ans) \<Rightarrow> if rc = 0 \<and> length ans = 8 then Some (le_word ans) else None)"

definition TBPAdd :: "'m tbp \<Rightarrow> u64 \<Rightarrow> u64 \<Rightarrow> 'm \<Rightarrow> 'm option" where
  "TBPAdd T addr value m = do {
     tmp \<leftarrow> (case TBPLoad T addr 8 m of
        (rc, tmp) \<Rightarrow> if rc = 0 \<and> length tmp = 8 then Some (le_word tmp) else None);
     let tmp = tmp + value;
     Some (snd (TBPStore T addr (le_bytes 8 tmp) m))
   }"

definition TBPSub :: "'m tbp \<Rightarrow> u64 \<Rightarrow> u64 \<Rightarrow> 'm \<Rightarrow> 'm option" where
  "TBPSub T addr value m = do {
     tmp \<leftarrow> (case TBPLoad T addr 8 m of
        (rc, tmp) \<Rightarrow> if rc = 0 \<and> length tmp = 8 then Some (le_word tmp) else None);
     let tmp = tmp - value;
     Some (snd (TBPStore T addr (le_bytes 8 tmp) m))
   }"

text \<open>Reading bytes, and a 64-bit field, through a plain pointer.\<close>

primrec peek :: "(u64 \<Rightarrow> byte option) \<Rightarrow> u64 \<Rightarrow> nat \<Rightarrow> byte list option" where
  "peek v a 0 = Some []"
| "peek v a (Suc n) = do { b \<leftarrow> v a; bs \<leftarrow> peek v (a + 1) n; Some (b # bs) }"

definition deref64 :: "'m tbp \<Rightarrow> 'm \<Rightarrow> u64 \<Rightarrow> u64 option" where
  "deref64 T m a = map_option le_word (peek (direct T m) a 8)"

section \<open>Objects\<close>

lemma in_obj_add: "i < n \<Longrightarrow> i < 2 ^ 64 \<Longrightarrow> in_obj a n (a + of_nat i)"
  by (simp add: in_obj_def unat_of_nat take_bit_nat_eq_self)

lemma in_obj_sub: "in_obj (a + of_nat k) n x \<Longrightarrow> k + n \<le> m \<Longrightarrow> m < 2 ^ 64 \<Longrightarrow> in_obj a m x"
proof -
  assume x: "in_obj (a + of_nat k) n x" and "k + n \<le> m" "m < 2 ^ 64"
  have "x - a = of_nat (k + unat (x - (a + of_nat k)))"
    by simp
  also have "unat \<dots> = k + unat (x - (a + of_nat k))"
    using x \<open>k + n \<le> m\<close> \<open>m < 2 ^ 64\<close>
    by (subst unat_of_nat) (simp add: in_obj_def)
  finally show "in_obj a m x"
    using x \<open>k + n \<le> m\<close> by (simp add: in_obj_def)
qed

lemma obj_disjoint_sym: "obj_disjoint a n b k = obj_disjoint b k a n"
  by (auto simp: obj_disjoint_def)

lemma in_obj_sub_word:
  "in_obj (a + k) n x \<Longrightarrow> unat k + n \<le> m \<Longrightarrow> m < 2 ^ 64 \<Longrightarrow> in_obj a m x"
  using in_obj_sub [of a "unat k" n x m] by simp

lemma obj_owned_sub:
  "obj_owned P a m \<Longrightarrow> unat k + n \<le> m \<Longrightarrow> m < 2 ^ 64 \<Longrightarrow> obj_owned P (a + k) n"
  unfolding obj_owned_def using in_obj_sub_word [of a k n _ m] by blast

lemma obj_owned_prefix: "obj_owned P a m \<Longrightarrow> n \<le> m \<Longrightarrow> m < 2 ^ 64 \<Longrightarrow> obj_owned P a n"
  using obj_owned_sub [of P a m 0 n] by simp

lemma obj_owned_mono: "obj_owned P a n \<Longrightarrow> (\<And>x. P x \<Longrightarrow> Q x) \<Longrightarrow> obj_owned Q a n"
  by (auto simp: obj_owned_def)

lemma obj_owned_conj: "obj_owned (\<lambda>x. P x \<and> Q x) a n \<longleftrightarrow> obj_owned P a n \<and> obj_owned Q a n"
  by (auto simp: obj_owned_def)

lemma obj_disjoint_owned: "obj_disjoint a n b k = obj_owned (\<lambda>x. \<not> in_obj a n x) b k"
  by (auto simp: obj_disjoint_def obj_owned_def)

text \<open>Two fields of one object at different offsets do not overlap.\<close>

lemma fields_disjoint:
  assumes "unat i + n \<le> unat j" "unat j + k < 2 ^ 64"
  shows "obj_disjoint (a + i) n (a + j) k"
  unfolding obj_disjoint_def
proof (intro allI notI)
  fix x
  assume "in_obj (a + i) n x \<and> in_obj (a + j) k x"
  then have xi: "unat (x - (a + i)) < n" and xj: "unat (x - (a + j)) < k"
    by (auto simp: in_obj_def)
  have "x - a = of_nat (unat i + unat (x - (a + i)))" "x - a = of_nat (unat j + unat (x - (a + j)))"
    by simp_all
  then have "of_nat (unat i + unat (x - (a + i))) = (of_nat (unat j + unat (x - (a + j))) :: u64)"
    by metis
  then have "unat i + unat (x - (a + i)) = unat j + unat (x - (a + j))"
    using xi xj assms by (subst (asm) word_of_nat_eq_iff) (simp add: take_bit_nat_eq_self)
  with xi assms show False by linarith
qed

section \<open>Contents of objects\<close>

definition rd :: "'m tbp \<Rightarrow> 'm \<Rightarrow> u64 \<Rightarrow> nat \<Rightarrow> byte list" where
  "rd T m a n = map (\<lambda>i. the (direct T m (a + of_nat i))) [0..<n]"

definition fld :: "'m tbp \<Rightarrow> 'm \<Rightarrow> u64 \<Rightarrow> u64" where
  "fld T m a = le_word (rd T m a 8)"

definition same_on :: "'m tbp \<Rightarrow> (u64 \<Rightarrow> bool) \<Rightarrow> 'm \<Rightarrow> 'm \<Rightarrow> bool" where
  "same_on T P m m' \<longleftrightarrow> (\<forall>x. P x \<longrightarrow> direct T m' x = direct T m x)"

lemma length_rd [simp]: "length (rd T m a n) = n"
  by (simp add: rd_def)

lemma same_on_trans: "same_on T P m1 m2 \<Longrightarrow> same_on T P m2 m3 \<Longrightarrow> same_on T P m1 m3"
  by (simp add: same_on_def)

lemma same_on_mono: "same_on T P m m' \<Longrightarrow> (\<And>x. Q x \<Longrightarrow> P x) \<Longrightarrow> same_on T Q m m'"
  by (simp add: same_on_def)

lemma rd_same: "same_on T P m m' \<Longrightarrow> obj_owned P a n \<Longrightarrow> n \<le> 2 ^ 64 \<Longrightarrow> rd T m' a n = rd T m a n"
  by (simp add: rd_def same_on_def obj_owned_def in_obj_add)

lemma fld_same: "same_on T P m m' \<Longrightarrow> obj_owned P a 8 \<Longrightarrow> fld T m' a = fld T m a"
  by (simp add: fld_def rd_same)

section \<open>The laws at work\<close>

lemma tbp_allocD:
  assumes "tbp_laws T own good" "good m" "TBPAlloc T n m = (p, m')"
  shows "good m'" "\<And>x. own m x \<Longrightarrow> own m' x" "same_on T (own m) m m'"
    "p \<noteq> 0 \<Longrightarrow> obj_owned (own m') p (unat n)"
    "p \<noteq> 0 \<Longrightarrow> obj_owned (\<lambda>x. \<not> own m x) p (unat n)"
proof -
  from assms(1) have "alloc_law T own good" by (simp add: tbp_laws_def)
  from this [unfolded alloc_law_def, rule_format, OF assms(2,3)]
  show "good m'" "\<And>x. own m x \<Longrightarrow> own m' x" "same_on T (own m) m m'"
    "p \<noteq> 0 \<Longrightarrow> obj_owned (own m') p (unat n)"
    "p \<noteq> 0 \<Longrightarrow> obj_owned (\<lambda>x. \<not> own m x) p (unat n)"
    by (simp_all add: same_on_def obj_owned_def)
qed

lemma tbp_storeE:
  assumes "tbp_laws T own good" "good m" "obj_owned (own m) a (length bs)" "length bs < 2 ^ 64"
  obtains m' where "TBPStore T a bs m = (0, m')" "good m'" "own m' = own m"
    "same_on T (\<lambda>x. own m x \<and> \<not> in_obj a (length bs) x) m m'" "rd T m' a (length bs) = bs"
proof -
  from assms(1) have "store_law T own good" by (simp add: tbp_laws_def)
  from this [unfolded store_law_def, rule_format, OF assms(2-4)]
  obtain m' where m': "TBPStore T a bs m = (0, m')" "good m'" "own m' = own m"
    and d: "\<And>x. own m x \<Longrightarrow> direct T m' x =
             (if in_obj a (length bs) x then Some (bs ! unat (x - a)) else direct T m x)"
    by blast
  have "rd T m' a (length bs) = bs"
  proof (rule nth_equalityI)
    fix i
    assume "i < length (rd T m' a (length bs))"
    then have i: "i < length bs" "i < 2 ^ 64" using assms(4) by simp_all
    then have "in_obj a (length bs) (a + of_nat i)" by (rule in_obj_add)
    with i assms(3) show "rd T m' a (length bs) ! i = bs ! i"
      by (simp add: rd_def d obj_owned_def unat_of_nat take_bit_nat_eq_self)
  qed simp
  moreover have "same_on T (\<lambda>x. own m x \<and> \<not> in_obj a (length bs) x) m m'"
    by (simp add: same_on_def d)
  ultimately show thesis
    using that m' by blast
qed

lemma TBPSet_laws:
  assumes "tbp_laws T own good" "good m" "obj_owned (own m) a 8"
  shows "good (TBPSet T a v m)" "own (TBPSet T a v m) = own m"
    "same_on T (\<lambda>x. own m x \<and> \<not> in_obj a 8 x) m (TBPSet T a v m)"
    "fld T (TBPSet T a v m) a = v"
proof -
  obtain m' where "TBPStore T a (le_bytes 8 v) m = (0, m')" "good m'" "own m' = own m"
    "same_on T (\<lambda>x. own m x \<and> \<not> in_obj a 8 x) m m'" "rd T m' a 8 = le_bytes 8 v"
    by (rule tbp_storeE [OF assms(1,2), of a "le_bytes 8 v"]) (simp_all add: assms(3))
  then show "good (TBPSet T a v m)" "own (TBPSet T a v m) = own m"
    "same_on T (\<lambda>x. own m x \<and> \<not> in_obj a 8 x) m (TBPSet T a v m)"
    "fld T (TBPSet T a v m) a = v"
    by (simp_all add: TBPSet_def fld_def)
qed

lemma TBPGet_fld:
  assumes "tbp_laws T own good" "good m" "obj_owned (own m) a 8"
  shows "TBPGet T a m = Some (fld T m a)"
proof -
  have "TBPLoad T a 8 m = (0, rd T m a 8)"
    using assms unfolding tbp_laws_def load_law_def rd_def by simp
  then show ?thesis by (simp add: TBPGet_def fld_def)
qed

lemma TBPAdd_eq:
  "tbp_laws T own good \<Longrightarrow> good m \<Longrightarrow> obj_owned (own m) a 8 \<Longrightarrow>
   TBPAdd T a v m = Some (TBPSet T a (fld T m a + v) m)"
  using TBPGet_fld [of T own good m a]
  by (auto simp: TBPAdd_def TBPGet_def TBPSet_def split: prod.splits if_splits)

lemma TBPSub_eq:
  "tbp_laws T own good \<Longrightarrow> good m \<Longrightarrow> obj_owned (own m) a 8 \<Longrightarrow>
   TBPSub T a v m = Some (TBPSet T a (fld T m a - v) m)"
  using TBPGet_fld [of T own good m a]
  by (auto simp: TBPSub_def TBPGet_def TBPSet_def split: prod.splits if_splits)

lemma peek_rd:
  assumes "tbp_laws T own good" "good m"
  shows "obj_owned (own m) a n \<Longrightarrow> n < 2 ^ 64 \<Longrightarrow> peek (direct T m) a n = Some (rd T m a n)"
proof (induction n arbitrary: a)
  case 0
  show ?case by (simp add: rd_def)
next
  case (Suc n)
  have "own m a"
    using Suc.prems by (auto simp: obj_owned_def in_obj_def)
  then obtain b where b: "direct T m a = Some b"
    using assms unfolding tbp_laws_def mapped_law_def by blast
  have "peek (direct T m) (a + 1) n = Some (rd T m (a + 1) n)"
    using Suc.prems by (intro Suc.IH obj_owned_sub [of _ _ "Suc n"]) simp_all
  moreover have "rd T m a (Suc n) = b # rd T m (a + 1) n"
    by (simp add: rd_def b upt_conv_Cons map_Suc_upt [symmetric] ac_simps del: upt_Suc)
  ultimately show ?case by (simp add: b)
qed

lemma peek_unmapped: "v a = None \<Longrightarrow> 0 < n \<Longrightarrow> peek v a n = None"
  by (cases n) simp_all

lemma length_peek: "peek v a n = Some bs \<Longrightarrow> length bs = n"
  by (induction n arbitrary: a bs) (auto split: bind_splits)

lemma deref64_fld:
  "tbp_laws T own good \<Longrightarrow> good m \<Longrightarrow> obj_owned (own m) a 8 \<Longrightarrow> deref64 T m a = Some (fld T m a)"
  by (simp add: deref64_def fld_def peek_rd)

end
