(* ===== verification/PmemIndex.thy ===== *)
theory PmemIndex
  imports PmemMemory "HOL-Library.AList"
begin

text \<open>
  The volatile index of \<open>pmemkv\<close> (\<open>native/src/pmemkv.h\<close>): for each key
  hash a singly linked list of \<open>block_meta\<close> nodes under a
  \<open>block_meta_list\<close> header, reached through a
  \<open>libcuckoo::cuckoohash_map\<close>.  The theory models the two private functions
  that change it, \<open>update_meta\<close> and \<open>free_meta\<close>, on an explicit heap of the
  two structs, and proves that they keep the index a faithful, leak-free
  representation of the per-key block sequences.

  The hash map is code of another project: it is a parameter, a record of the
  operations the store calls, with \<open>cuckoo_laws\<close> as its contract.
  \<open>std::malloc\<close> answers are an input too: \<open>answers\<close> is the tape of addresses
  the allocator will hand out, and an answer that is null or not fresh is a
  failure.  Structs are heap cells of their own type, so that two live
  structs never overlap; \<open>sizeof\<close> counts them in \<open>bytes_allocated\<close>.
\<close>

section \<open>State\<close>

record block_meta =
  bm_next :: u64
  off :: u64
  bm_size :: u64

record block_meta_list =
  bml_head :: u64
  bml_tail :: u64
  total_size :: u64
  bml_length :: u64

record cheap =
  metas :: "u64 \<Rightarrow> block_meta option"
  lists :: "u64 \<Rightarrow> block_meta_list option"
  answers :: "u64 list"

record 'c cuckoo =
  cm_contains :: "'c \<Rightarrow> u64 \<Rightarrow> bool"
  cm_find :: "'c \<Rightarrow> u64 \<Rightarrow> u64 option"
  cm_insert :: "'c \<Rightarrow> u64 \<Rightarrow> u64 \<Rightarrow> 'c"
  cm_table :: "'c \<Rightarrow> (u64 \<times> u64) list"
  cm_clear :: "'c \<Rightarrow> 'c"
  cm_empty :: 'c

text \<open>
  What the map promises: \<open>contains\<close> agrees with \<open>find\<close>, \<open>insert\<close> of an
  absent key adds it, the locked table lists each binding once in some order,
  and \<open>clear\<close> removes all of them.
\<close>

definition cuckoo_laws :: "'c cuckoo \<Rightarrow> bool" where
  "cuckoo_laws C \<longleftrightarrow>
     (\<forall>c k. cm_contains C c k \<longleftrightarrow> cm_find C c k \<noteq> None) \<and>
     (\<forall>c k v. cm_find C c k = None \<longrightarrow> cm_find C (cm_insert C c k v) = (cm_find C c)(k \<mapsto> v)) \<and>
     (\<forall>c. map_of (cm_table C c) = cm_find C c \<and> distinct (map fst (cm_table C c))) \<and>
     (\<forall>c. cm_table C (cm_clear C c) = []) \<and>
     cm_table C (cm_empty C) = []"

record ('m, 'c) pmemkv =
  pm :: 'm
  bp :: u64
  heap :: cheap
  index_map :: 'c
  bytes_allocated :: u64

definition sizeof_block_meta :: u64 where "sizeof_block_meta = 24"
definition sizeof_block_meta_list :: u64 where "sizeof_block_meta_list = 32"

section \<open>Operations\<close>

definition std_malloc :: "cheap \<Rightarrow> u64 \<times> cheap" where
  "std_malloc h =
     (case answers h of
        [] \<Rightarrow> (0, h)
      | a # as \<Rightarrow>
          (if metas h a = None \<and> lists h a = None then a else 0, h\<lparr>answers := as\<rparr>))"

definition put_meta :: "u64 \<Rightarrow> block_meta \<Rightarrow> ('m, 'c) pmemkv \<Rightarrow> ('m, 'c) pmemkv" where
  "put_meta p v s = s\<lparr>heap := (heap s)\<lparr>metas := (metas (heap s))(p \<mapsto> v)\<rparr>\<rparr>"

definition put_list :: "u64 \<Rightarrow> block_meta_list \<Rightarrow> ('m, 'c) pmemkv \<Rightarrow> ('m, 'c) pmemkv" where
  "put_list p v s = s\<lparr>heap := (heap s)\<lparr>lists := (lists (heap s))(p \<mapsto> v)\<rparr>\<rparr>"

definition free_block_meta :: "u64 \<Rightarrow> ('m, 'c) pmemkv \<Rightarrow> ('m, 'c) pmemkv" where
  "free_block_meta p s = s\<lparr>heap := (heap s)\<lparr>metas := (metas (heap s))(p := None)\<rparr>\<rparr>"

definition free_block_meta_list :: "u64 \<Rightarrow> ('m, 'c) pmemkv \<Rightarrow> ('m, 'c) pmemkv" where
  "free_block_meta_list p s = s\<lparr>heap := (heap s)\<lparr>lists := (lists (heap s))(p := None)\<rparr>\<rparr>"

text \<open>
  \<open>update_meta(bep)\<close>.  The entry is read through the plain pointer
  \<open>bep\<close>: \<open>hdr.key\<close> at offset 8, \<open>hdr.size\<close> at 16, \<open>data\<close> at 24.
\<close>

definition update_meta_new ::
  "'m tbp \<Rightarrow> 'c cuckoo \<Rightarrow> u64 \<Rightarrow> ('m, 'c) pmemkv \<Rightarrow> (int \<times> ('m, 'c) pmemkv) option" where
  "update_meta_new T C bep s =
     (let (bm, h) = std_malloc (heap s); s = s\<lparr>heap := h\<rparr> in
      if bm = 0 then Some (- 1, s)
      else do {
        let s = s\<lparr>bytes_allocated := bytes_allocated s + sizeof_block_meta\<rparr>;
        o' \<leftarrow> deref64 T (pm s) (bep + 24);
        sz \<leftarrow> deref64 T (pm s) (bep + 16);
        let s = put_meta bm \<lparr>bm_next = 0, off = o', bm_size = sz\<rparr> s;
        let (bml, h) = std_malloc (heap s);
        let s = s\<lparr>heap := h\<rparr>;
        if bml = 0 then Some (- 1, s)
        else do {
          let s = s\<lparr>bytes_allocated := bytes_allocated s + sizeof_block_meta_list\<rparr>;
          let s = put_list bml \<lparr>bml_head = bm, bml_tail = bm, total_size = 0 + sz, bml_length = 0 + 1\<rparr> s;
          key \<leftarrow> deref64 T (pm s) (bep + 8);
          Some (0, s\<lparr>index_map := cm_insert C (index_map s) key bml\<rparr>)
        }
      })"

definition update_meta_append ::
  "'m tbp \<Rightarrow> 'c cuckoo \<Rightarrow> u64 \<Rightarrow> ('m, 'c) pmemkv \<Rightarrow> (int \<times> ('m, 'c) pmemkv) option" where
  "update_meta_append T C bep s = do {
     key \<leftarrow> deref64 T (pm s) (bep + 8);
     let bml = (case cm_find C (index_map s) key of None \<Rightarrow> 0 | Some l \<Rightarrow> l);
     let (bm, h) = std_malloc (heap s);
     let s = s\<lparr>heap := h\<rparr>;
     if bm = 0 then Some (- 1, s)
     else do {
       let s = s\<lparr>bytes_allocated := bytes_allocated s + sizeof_block_meta\<rparr>;
       o' \<leftarrow> deref64 T (pm s) (bep + 24);
       sz \<leftarrow> deref64 T (pm s) (bep + 16);
       let s = put_meta bm \<lparr>bm_next = 0, off = o', bm_size = sz\<rparr> s;
       l \<leftarrow> lists (heap s) bml;
       t \<leftarrow> metas (heap s) (bml_tail l);
       let s = put_meta (bml_tail l) (t\<lparr>bm_next := bm\<rparr>) s;
       Some (0, put_list bml (l\<lparr>bml_tail := bm, total_size := total_size l + sz,
                                bml_length := bml_length l + 1\<rparr>) s)
     }
   }"

definition update_meta ::
  "'m tbp \<Rightarrow> 'c cuckoo \<Rightarrow> u64 \<Rightarrow> ('m, 'c) pmemkv \<Rightarrow> (int \<times> ('m, 'c) pmemkv) option" where
  "update_meta T C bep s = do {
     key \<leftarrow> deref64 T (pm s) (bep + 8);
     if \<not> cm_contains C (index_map s) key then update_meta_new T C bep s
     else update_meta_append T C bep s
   }"

text \<open>The inner loop of \<open>free_meta\<close>, over one list of nodes.\<close>

partial_function (option) free_chain ::
  "u64 \<Rightarrow> ('m, 'c) pmemkv \<Rightarrow> ('m, 'c) pmemkv option" where
  "free_chain cur s =
     (if cur = 0 then Some s
      else do {
        bm \<leftarrow> metas (heap s) cur;
        let nxt = bm_next bm;
        let s = put_meta cur (bm\<lparr>bm_next := 0\<rparr>) s;
        let s = free_block_meta cur s;
        free_chain nxt (s\<lparr>bytes_allocated := bytes_allocated s - sizeof_block_meta\<rparr>)
      })"

text \<open>The outer loop, over the bindings of the locked table.\<close>

fun free_lists ::
  "(u64 \<times> u64) list \<Rightarrow> ('m, 'c) pmemkv \<Rightarrow> ('m, 'c) pmemkv option" where
  "free_lists [] s = Some s"
| "free_lists ((k, bml) # its) s = do {
     l \<leftarrow> lists (heap s) bml;
     s \<leftarrow> free_chain (bml_head l) s;
     let s = free_block_meta_list bml s;
     free_lists its (s\<lparr>bytes_allocated := bytes_allocated s - sizeof_block_meta_list\<rparr>)
   }"

definition free_meta :: "'c cuckoo \<Rightarrow> ('m, 'c) pmemkv \<Rightarrow> (int \<times> ('m, 'c) pmemkv) option" where
  "free_meta C s = do {
     s \<leftarrow> free_lists (cm_table C (index_map s)) s;
     let s = s\<lparr>index_map := cm_clear C (index_map s)\<rparr>;
     if bytes_allocated s = 0 then Some (0, s) else None
   }"

lemmas kv_upd_defs = put_meta_def put_list_def free_block_meta_def free_block_meta_list_def

section \<open>The index as block sequences\<close>

text \<open>
  A ghost node is the address of a \<open>block_meta\<close> with the \<open>off\<close> and
  \<open>size\<close> it records; \<open>chain m p ns\<close> says that following \<open>next\<close> from
  \<open>p\<close> visits exactly \<open>ns\<close> and ends in null.
\<close>

type_synonym node = "u64 \<times> u64 \<times> u64"

primrec chain :: "(u64 \<Rightarrow> block_meta option) \<Rightarrow> u64 \<Rightarrow> node list \<Rightarrow> bool" where
  "chain m p [] \<longleftrightarrow> p = 0"
| "chain m p (n # ns) \<longleftrightarrow> p = fst n \<and> p \<noteq> 0 \<and>
     (case m p of None \<Rightarrow> False
      | Some b \<Rightarrow> off b = fst (snd n) \<and> bm_size b = snd (snd n) \<and> chain m (bm_next b) ns)"

abbreviation node_addrs :: "node list \<Rightarrow> u64 set" where
  "node_addrs ns \<equiv> fst ` set ns"

definition header_of :: "node list \<Rightarrow> block_meta_list" where
  "header_of ns = \<lparr>bml_head = fst (hd ns), bml_tail = fst (last ns),
     total_size = sum_list (map (\<lambda>n. snd (snd n)) ns), bml_length = of_nat (length ns)\<rparr>"

definition index_ok ::
  "'c cuckoo \<Rightarrow> cheap \<Rightarrow> 'c \<Rightarrow> (u64 \<Rightarrow> node list) \<Rightarrow> bool" where
  "index_ok C h c ch \<longleftrightarrow>
     (\<forall>k. cm_find C c k = None \<longleftrightarrow> ch k = []) \<and>
     (\<forall>k l. cm_find C c k = Some l \<longrightarrow>
        lists h l = Some (header_of (ch k)) \<and> chain (metas h) (fst (hd (ch k))) (ch k)) \<and>
     (\<forall>k k' l. cm_find C c k = Some l \<longrightarrow> cm_find C c k' = Some l \<longrightarrow> k = k') \<and>
     (\<forall>k. distinct (map fst (ch k))) \<and>
     (\<forall>k k'. k \<noteq> k' \<longrightarrow> node_addrs (ch k) \<inter> node_addrs (ch k') = {}) \<and>
     dom (metas h) = (\<Union>k. node_addrs (ch k)) \<and> dom (lists h) = ran (cm_find C c)"

text \<open>The bytes of the structs the index consists of.\<close>

definition index_bytes :: "'c cuckoo \<Rightarrow> 'c \<Rightarrow> (u64 \<Rightarrow> node list) \<Rightarrow> nat" where
  "index_bytes C c ch = (\<Sum>k\<in>dom (cm_find C c). 24 * length (ch k) + 32)"

definition kv_index :: "'c cuckoo \<Rightarrow> ('m, 'c) pmemkv \<Rightarrow> (u64 \<Rightarrow> node list) \<Rightarrow> bool" where
  "kv_index C s ch \<longleftrightarrow> index_ok C (heap s) (index_map s) ch \<and>
     bytes_allocated s = of_nat (index_bytes C (index_map s) ch)"


section \<open>Chains\<close>

lemma chain_cong:
  "(\<And>a. a \<in> node_addrs ns \<Longrightarrow> m' a = m a) \<Longrightarrow> chain m' p ns = chain m p ns"
  by (induction ns arbitrary: p) (auto split: option.splits)

lemma chain_head: "chain m p ns \<Longrightarrow> ns \<noteq> [] \<Longrightarrow> p = fst (hd ns)"
  by (cases ns) auto

lemma chain_dom: "chain m p ns \<Longrightarrow> a \<in> node_addrs ns \<Longrightarrow> m a \<noteq> None \<and> a \<noteq> 0"
  by (induction ns arbitrary: p) (auto split: option.splits)

text \<open>Appending at the tail, the way \<open>update_meta\<close> does it.\<close>

lemma chain_snoc:
  assumes "chain m p ns" "ns \<noteq> []" "distinct (map fst ns)" "bm \<notin> node_addrs ns" "bm \<noteq> 0"
    and "m (fst (last ns)) = Some t"
  shows "chain (m(bm \<mapsto> \<lparr>bm_next = 0, off = o', bm_size = sz\<rparr>,
                  fst (last ns) \<mapsto> t\<lparr>bm_next := bm\<rparr>)) p (ns @ [(bm, o', sz)])"
  using assms
proof (induction ns arbitrary: p)
  case Nil
  then show ?case by simp
next
  case (Cons n ns)
  then obtain b where b: "m p = Some b" "p = fst n" "p \<noteq> 0"
    "off b = fst (snd n)" "bm_size b = snd (snd n)" "chain m (bm_next b) ns"
    by (auto split: option.splits)
  show ?case
  proof (cases "ns = []")
    case True
    with Cons.prems b show ?thesis by auto
  next
    case False
    then have "fst (last ns) \<in> node_addrs ns" by simp
    moreover have "p \<notin> node_addrs ns" "p \<noteq> bm"
      using Cons.prems(3,4) b(2) by (auto simp: image_iff)
    ultimately have "p \<noteq> fst (last ns)" "p \<noteq> bm"
      by metis+
    with Cons b False show ?thesis by auto
  qed
qed

lemma header_of_snoc:
  "ns \<noteq> [] \<Longrightarrow> header_of (ns @ [(bm, o', sz)]) =
     (header_of ns)\<lparr>bml_tail := bm, total_size := total_size (header_of ns) + sz,
       bml_length := bml_length (header_of ns) + 1\<rparr>"
  by (simp add: header_of_def)

section \<open>Freeing\<close>

lemma free_chain_eq:
  "chain (metas (heap s)) p ns \<Longrightarrow> distinct (map fst ns) \<Longrightarrow>
   free_chain p s = Some (s\<lparr>heap := (heap s)\<lparr>metas := metas (heap s) |` (- node_addrs ns)\<rparr>,
     bytes_allocated := bytes_allocated s - of_nat (24 * length ns)\<rparr>)"
proof (induction ns arbitrary: p s)
  case Nil
  then show ?case by (simp add: free_chain.simps)
next
  case (Cons n ns)
  then obtain b where b: "metas (heap s) p = Some b" "p = fst n" "p \<noteq> 0"
    "chain (metas (heap s)) (bm_next b) ns"
    by (auto split: option.splits)
  let ?s = "free_block_meta p (put_meta p (b\<lparr>bm_next := 0\<rparr>) s)"
  let ?s' = "?s\<lparr>bytes_allocated := bytes_allocated ?s - sizeof_block_meta\<rparr>"
  have m: "metas (heap ?s') = (metas (heap s))(p := None)"
    by (simp add: kv_upd_defs)
  have "p \<notin> node_addrs ns" using b(2) Cons.prems(2) by simp
  then have "chain ((metas (heap s))(p := None)) (bm_next b) ns = chain (metas (heap s)) (bm_next b) ns"
    by (intro chain_cong) (metis fun_upd_other)
  with b(4) have "chain ((metas (heap s))(p := None)) (bm_next b) ns"
    by blast
  then have "chain (metas (heap ?s')) (bm_next b) ns"
    by (simp only: m)
  from Cons.IH [OF this] Cons.prems(2)
  have "free_chain (bm_next b) ?s' =
     Some (?s'\<lparr>heap := (heap ?s')\<lparr>metas := metas (heap ?s') |` (- node_addrs ns)\<rparr>,
       bytes_allocated := bytes_allocated ?s' - of_nat (24 * length ns)\<rparr>)"
    by simp
  moreover have "metas (heap ?s') |` (- node_addrs ns) = metas (heap s) |` (- node_addrs (n # ns))"
    unfolding m by (rule ext) (simp add: b(2) restrict_map_def)
  ultimately show ?case
    using b(1,3) by (subst free_chain.simps)
      (simp add: kv_upd_defs sizeof_block_meta_def algebra_simps)
qed

lemma restrict_restrict_Compl: "m |` (- A) |` (- B) = m |` (- (A \<union> B))"
  by (rule ext) (simp add: restrict_map_def)

lemma free_lists_eq:
  assumes "distinct (map fst its)" "distinct (map snd its)"
    and "\<And>k l. (k, l) \<in> set its \<Longrightarrow>
       lists (heap s) l = Some (header_of (ch k)) \<and> chain (metas (heap s)) (fst (hd (ch k))) (ch k)"
    and "\<And>k. distinct (map fst (ch k))"
    and "\<And>k k'. k \<noteq> k' \<Longrightarrow> node_addrs (ch k) \<inter> node_addrs (ch k') = {}"
  shows "free_lists its s = Some (s\<lparr>heap := (heap s)\<lparr>
       metas := metas (heap s) |` (- (\<Union>k\<in>fst ` set its. node_addrs (ch k))),
       lists := lists (heap s) |` (- (snd ` set its))\<rparr>,
     bytes_allocated := bytes_allocated s - of_nat (\<Sum>k\<leftarrow>map fst its. 24 * length (ch k) + 32)\<rparr>)"
  using assms
proof (induction its arbitrary: s)
  case Nil
  then show ?case by simp
next
  case (Cons it its)
  obtain k l where it: "it = (k, l)" by (cases it)
  from Cons.prems(3) [of k l]
  have l: "lists (heap s) l = Some (header_of (ch k))"
    and c: "chain (metas (heap s)) (fst (hd (ch k))) (ch k)" by (simp_all add: it)
  define s1 where "s1 = s\<lparr>heap := (heap s)\<lparr>metas := metas (heap s) |` (- node_addrs (ch k)),
      lists := (lists (heap s))(l := None)\<rparr>,
     bytes_allocated := bytes_allocated s - of_nat (24 * length (ch k)) - 32\<rparr>"
  have "free_lists (it # its) s = free_lists its s1"
    using l free_chain_eq [OF c Cons.prems(4)]
    by (simp add: it header_of_def kv_upd_defs sizeof_block_meta_list_def s1_def)
  also have "\<dots> = Some (s1\<lparr>heap := (heap s1)\<lparr>
       metas := metas (heap s1) |` (- (\<Union>k\<in>fst ` set its. node_addrs (ch k))),
       lists := lists (heap s1) |` (- (snd ` set its))\<rparr>,
     bytes_allocated := bytes_allocated s1 - of_nat (\<Sum>k\<leftarrow>map fst its. 24 * length (ch k) + 32)\<rparr>)"
  proof (rule Cons.IH)
    fix k' l'
    assume in': "(k', l') \<in> set its"
    with Cons.prems(1,2) have "k' \<noteq> k" "l' \<noteq> l" by (auto simp: it image_iff)
    moreover from this have "node_addrs (ch k') \<inter> node_addrs (ch k) = {}"
      using Cons.prems(5) by blast
    moreover from this have "chain (metas (heap s1)) p (ch k') = chain (metas (heap s)) p (ch k')" for p
      by (intro chain_cong) (auto simp: s1_def restrict_map_def)
    ultimately show "lists (heap s1) l' = Some (header_of (ch k')) \<and>
        chain (metas (heap s1)) (fst (hd (ch k'))) (ch k')"
      using Cons.prems(3) [of k' l'] in' by (simp add: s1_def)
  qed (use Cons.prems in auto)
  finally show ?case
    by (simp add: s1_def it restrict_restrict_Compl fun_upd_restrict_conv algebra_simps)
      (simp add: restrict_map_def fun_eq_iff)
qed

section \<open>The hash map\<close>

lemma cuckoo_contains: "cuckoo_laws C \<Longrightarrow> cm_contains C c k \<longleftrightarrow> cm_find C c k \<noteq> None"
  by (simp add: cuckoo_laws_def)

lemma cuckoo_insert:
  "cuckoo_laws C \<Longrightarrow> cm_find C c k = None \<Longrightarrow> cm_find C (cm_insert C c k v) = (cm_find C c)(k \<mapsto> v)"
  by (simp add: cuckoo_laws_def)

lemma cuckoo_table:
  "cuckoo_laws C \<Longrightarrow> map_of (cm_table C c) = cm_find C c"
  "cuckoo_laws C \<Longrightarrow> distinct (map fst (cm_table C c))"
  by (simp_all add: cuckoo_laws_def)

lemma cuckoo_clear:
  "cuckoo_laws C \<Longrightarrow> cm_find C (cm_clear C c) = Map.empty"
  "cuckoo_laws C \<Longrightarrow> cm_find C (cm_empty C) = Map.empty"
  unfolding cuckoo_laws_def by (metis map_of.simps(1))+

lemma cuckoo_table_in:
  "cuckoo_laws C \<Longrightarrow> (k, l) \<in> set (cm_table C c) \<longleftrightarrow> cm_find C c k = Some l"
  using cuckoo_table [of C c] by (metis map_of_eq_Some_iff)

lemma finite_dom_find: "cuckoo_laws C \<Longrightarrow> finite (dom (cm_find C c))"
  using cuckoo_table(1) [of C c] finite_dom_map_of by metis

lemma fst_table: "cuckoo_laws C \<Longrightarrow> fst ` set (cm_table C c) = dom (cm_find C c)"
  using cuckoo_table(1) [of C c] by (metis dom_map_of_conv_image_fst)

lemma snd_table: "cuckoo_laws C \<Longrightarrow> snd ` set (cm_table C c) = ran (cm_find C c)"
  using cuckoo_table [of C c] by (metis ran_distinct)

lemma table_sum:
  "cuckoo_laws C \<Longrightarrow> (\<Sum>k\<leftarrow>map fst (cm_table C c). f k) = (\<Sum>k\<in>dom (cm_find C c). f k :: nat)"
  using sum.distinct_set_conv_list [OF cuckoo_table(2), of C f c] by (simp add: fst_table)


section \<open>The index invariant\<close>

lemma index_okD:
  assumes "index_ok C h c ch"
  shows "cm_find C c k = None \<longleftrightarrow> ch k = []"
    and "cm_find C c k = Some l \<Longrightarrow> lists h l = Some (header_of (ch k))"
    and "cm_find C c k = Some l \<Longrightarrow> chain (metas h) (fst (hd (ch k))) (ch k)"
    and "cm_find C c k = Some l \<Longrightarrow> cm_find C c k' = Some l \<Longrightarrow> k = k'"
    and "distinct (map fst (ch k))"
    and "k \<noteq> k' \<Longrightarrow> node_addrs (ch k) \<inter> node_addrs (ch k') = {}"
    and "dom (metas h) = (\<Union>k. node_addrs (ch k))"
    and "dom (lists h) = ran (cm_find C c)"
proof -
  note ok = assms [unfolded index_ok_def]
  show "cm_find C c k = None \<longleftrightarrow> ch k = []" "distinct (map fst (ch k))"
    "cm_find C c k = Some l \<Longrightarrow> lists h l = Some (header_of (ch k))"
    "cm_find C c k = Some l \<Longrightarrow> chain (metas h) (fst (hd (ch k))) (ch k)"
    "k \<noteq> k' \<Longrightarrow> node_addrs (ch k) \<inter> node_addrs (ch k') = {}"
    "dom (metas h) = (\<Union>k. node_addrs (ch k))" "dom (lists h) = ran (cm_find C c)"
    using ok by simp_all
  from ok have "\<forall>k k' l. cm_find C c k = Some l \<longrightarrow> cm_find C c k' = Some l \<longrightarrow> k = k'"
    by simp
  then show "cm_find C c k = Some l \<Longrightarrow> cm_find C c k' = Some l \<Longrightarrow> k = k'"
    by simp
qed

lemma index_chain: "index_ok C h c ch \<Longrightarrow> ch k \<noteq> [] \<Longrightarrow> chain (metas h) (fst (hd (ch k))) (ch k)"
  using index_okD(1,3) [of C h c ch k] by (cases "cm_find C c k") auto

lemma index_free: "index_ok C h c ch \<Longrightarrow> metas h a = None \<Longrightarrow> a \<notin> node_addrs (ch k)"
  using index_okD(7) [of C h c ch] by blast

lemma inj_on_table: "cuckoo_laws C \<Longrightarrow> index_ok C h c ch \<Longrightarrow> distinct (map snd (cm_table C c))"
  using cuckoo_table(2) [of C c] unfolding distinct_map
  by (auto simp: inj_on_def cuckoo_table_in dest: index_okD(4))

lemma UN_fun_upd: "f (g k) \<subseteq> f v \<Longrightarrow> (\<Union>x. f ((g(k := v)) x)) = f v \<union> (\<Union>x. f (g x))"
  by (simp add: set_eq_iff) (metis subsetD)

lemma restrict_Compl_dom: "m |` (- dom m) = Map.empty"
  by (rule ext) (simp add: restrict_map_def domIff)

lemma UN_support: "(\<And>k. k \<notin> D \<Longrightarrow> A k = {}) \<Longrightarrow> (\<Union>k\<in>D. A k) = (\<Union>k. A k)"
  by blast

lemma free_meta_correct:
  assumes "cuckoo_laws C" "kv_index C s ch"
  obtains s' where "free_meta C s = Some (0, s')"
    "metas (heap s') = Map.empty" "lists (heap s') = Map.empty"
    "kv_index C s' (\<lambda>_. [])" "bytes_allocated s' = 0" "pm s' = pm s" "bp s' = bp s"
proof -
  let ?c = "index_map s" and ?its = "cm_table C (index_map s)"
  from assms(2) have ok: "index_ok C (heap s) ?c ch"
    and b: "bytes_allocated s = of_nat (index_bytes C ?c ch)" by (simp_all add: kv_index_def)
  define s1 where "s1 = s\<lparr>heap := (heap s)\<lparr>metas := Map.empty, lists := Map.empty\<rparr>,
    bytes_allocated := 0\<rparr>"
  have "node_addrs (ch k) = {}" if "k \<notin> dom (cm_find C ?c)" for k
    using that by (simp add: domIff index_okD(1) [OF ok])
  then have dm: "(\<Union>k\<in>fst ` set ?its. node_addrs (ch k)) = dom (metas (heap s))"
    unfolding index_okD(7) [OF ok] fst_table [OF assms(1)]
    by (rule UN_support)
  have "free_lists ?its s = Some (s\<lparr>heap := (heap s)\<lparr>
       metas := metas (heap s) |` (- (\<Union>k\<in>fst ` set ?its. node_addrs (ch k))),
       lists := lists (heap s) |` (- (snd ` set ?its))\<rparr>,
     bytes_allocated := bytes_allocated s - of_nat (\<Sum>k\<leftarrow>map fst ?its. 24 * length (ch k) + 32)\<rparr>)"
  proof (rule free_lists_eq [OF cuckoo_table(2) [OF assms(1)] inj_on_table [OF assms(1) ok]])
    fix k l
    assume "(k, l) \<in> set ?its"
    then have "cm_find C ?c k = Some l" by (simp add: cuckoo_table_in [OF assms(1)])
    then show "lists (heap s) l = Some (header_of (ch k)) \<and>
        chain (metas (heap s)) (fst (hd (ch k))) (ch k)"
      by (simp add: index_okD(2,3) [OF ok])
  qed (fact index_okD(5) [OF ok], fact index_okD(6) [OF ok])
  also have "\<dots> = Some s1"
    unfolding dm snd_table [OF assms(1)] index_okD(8) [OF ok, symmetric] table_sum [OF assms(1)]
      b index_bytes_def s1_def by (simp add: restrict_Compl_dom)
  finally have "free_meta C s = Some (0, s1\<lparr>index_map := cm_clear C ?c\<rparr>)"
    by (simp add: free_meta_def s1_def)
  then show thesis
    by (rule that) (simp_all add: s1_def kv_index_def index_ok_def index_bytes_def
        cuckoo_clear [OF assms(1)])
qed


section \<open>Appending to the index\<close>

lemma std_mallocD:
  assumes "std_malloc h = (a, h')"
  shows "metas h' = metas h" "lists h' = lists h"
    "a \<noteq> 0 \<Longrightarrow> metas h a = None \<and> lists h a = None"
  using assms by (auto simp: std_malloc_def split: list.splits if_splits)

lemma index_ok_cong:
  "metas h' = metas h \<Longrightarrow> lists h' = lists h \<Longrightarrow> index_ok C h' c ch = index_ok C h c ch"
  by (simp add: index_ok_def)

text \<open>A new node in a fresh cell leaves every other list as it is.\<close>

lemma index_chain_frame:
  assumes "index_ok C h c ch" "k' \<noteq> k" "cm_find C c k' = Some l"
    and "metas h bm = None" "A \<subseteq> insert bm (node_addrs (ch k))" "\<And>a. a \<notin> A \<Longrightarrow> m' a = metas h a"
  shows "chain m' (fst (hd (ch k'))) (ch k')"
proof -
  have "chain m' (fst (hd (ch k'))) (ch k') = chain (metas h) (fst (hd (ch k'))) (ch k')"
  proof (rule chain_cong)
    fix a
    assume "a \<in> node_addrs (ch k')"
    then have "a \<notin> node_addrs (ch k)" "a \<noteq> bm"
      using index_okD(6) [OF assms(1,2)] index_free [OF assms(1,4), of k'] by auto
    with assms(5) have "a \<notin> A" by auto
    then show "m' a = metas h a" by (rule assms(6))
  qed
  with index_okD(3) [OF assms(1,3)] show ?thesis by simp
qed

lemma index_ok_insert:
  assumes "cuckoo_laws C" "index_ok C h c ch" "cm_find C c k = None"
    and "metas h bm = None" "bm \<noteq> 0" "lists h l = None"
    and h': "metas h' = (metas h)(bm \<mapsto> \<lparr>bm_next = 0, off = o', bm_size = sz\<rparr>)"
      "lists h' = (lists h)(l \<mapsto> header_of [(bm, o', sz)])"
  shows "index_ok C h' (cm_insert C c k l) (ch(k := [(bm, o', sz)]))"
proof -
  note ok = index_okD [OF assms(2)]
  have f: "cm_find C (cm_insert C c k l) = (cm_find C c)(k \<mapsto> l)"
    by (rule cuckoo_insert [OF assms(1,3)])
  have e: "ch k = []" using ok(1) [of k] assms(3) by simp
  have l: "cm_find C c k' \<noteq> Some l" for k' using ok(2) [of k' l] assms(6) by auto
  have fr: "chain (metas h') (fst (hd (ch k'))) (ch k')" if "k' \<noteq> k" "cm_find C c k' = Some l'" for k' l'
    by (rule index_chain_frame [OF assms(2) that assms(4), of "{bm}"]) (auto simp: h'(1))
  show ?thesis
    unfolding index_ok_def f
  proof (intro conjI allI impI)
    fix k' l'
    assume "((cm_find C c)(k \<mapsto> l)) k' = Some l'"
    then show "lists h' l' = Some (header_of ((ch(k := [(bm, o', sz)])) k'))"
      "chain (metas h') (fst (hd ((ch(k := [(bm, o', sz)])) k'))) ((ch(k := [(bm, o', sz)])) k')"
      using ok(2) [of k' l'] fr [of k' l'] l [of k'] assms(5)
      by (auto simp: h' split: if_splits)
  next
    fix k1 k2 :: u64
    assume "k1 \<noteq> k2"
    then show "node_addrs ((ch(k := [(bm, o', sz)])) k1) \<inter> node_addrs ((ch(k := [(bm, o', sz)])) k2) = {}"
      using ok(6) [of k1 k2] index_free [OF assms(2,4)] by simp
  next
    show "dom (metas h') = (\<Union>k'. node_addrs ((ch(k := [(bm, o', sz)])) k'))"
      using e by (subst UN_fun_upd) (simp_all add: h'(1) ok(7))
    show "dom (lists h') = ran ((cm_find C c)(k \<mapsto> l))"
      using ok(8) assms(3) by (simp add: h'(2))
  qed (use ok(1,4,5) l in \<open>auto split: if_splits\<close>)
qed

lemma index_ok_append:
  assumes "index_ok C h c ch" "cm_find C c k = Some l"
    and "metas h bm = None" "bm \<noteq> 0" "metas h (fst (last (ch k))) = Some t"
    and h': "metas h' = (metas h)(bm \<mapsto> \<lparr>bm_next = 0, off = o', bm_size = sz\<rparr>,
        fst (last (ch k)) \<mapsto> t\<lparr>bm_next := bm\<rparr>)"
      "lists h' = (lists h)(l \<mapsto> header_of (ch k @ [(bm, o', sz)]))"
  shows "index_ok C h' c (ch(k := ch k @ [(bm, o', sz)]))"
proof -
  let ?ch = "ch(k := ch k @ [(bm, o', sz)])"
  note ok = index_okD [OF assms(1)]
  have e: "ch k \<noteq> []" using ok(1) [of k] assms(2) by simp
  then have last: "fst (last (ch k)) \<in> node_addrs (ch k)" by simp
  have fr: "chain (metas h') (fst (hd (ch k'))) (ch k')" if "k' \<noteq> k" "cm_find C c k' = Some l'" for k' l'
    by (rule index_chain_frame [OF assms(1) that assms(3), of "{bm, fst (last (ch k))}"])
      (simp_all add: last h'(1))
  have own: "chain (metas h') (fst (hd (ch k))) (ch k @ [(bm, o', sz)])"
    unfolding h'(1)
    by (rule chain_snoc [OF ok(3) [OF assms(2)] e ok(5) index_free [OF assms(1,3)] assms(4,5)])
  show ?thesis
    unfolding index_ok_def
  proof (intro conjI allI impI)
    fix k' l'
    assume k': "cm_find C c k' = Some l'"
    have "l' \<noteq> l" if "k' \<noteq> k" using ok(4) [OF assms(2), of k'] k' that by auto
    then show "lists h' l' = Some (header_of (?ch k'))"
      using ok(2) [OF k'] k' assms(2) by (cases "k' = k") (simp_all add: h'(2))
    show "chain (metas h') (fst (hd (?ch k'))) (?ch k')"
      using own fr [OF _ k'] e by (cases "k' = k") simp_all
  next
    fix k1 k2 :: u64
    assume "k1 \<noteq> k2"
    then show "node_addrs (?ch k1) \<inter> node_addrs (?ch k2) = {}"
      using ok(6) [of k1 k2] index_free [OF assms(1,3)] by auto
  next
    have "dom (metas h') = insert bm (dom (metas h))"
      using assms(5) by (auto simp: h'(1))
    then show "dom (metas h') = (\<Union>k'. node_addrs (?ch k'))"
      by (subst UN_fun_upd) (auto simp: ok(7))
    have "l \<in> dom (lists h)" using ok(2) [OF assms(2)] by auto
    then show "dom (lists h') = ran (cm_find C c)"
      using ok(8) by (auto simp: h'(2))
  next
    fix k1 k2 l'
    assume "cm_find C c k1 = Some l'" "cm_find C c k2 = Some l'"
    then show "k1 = k2" by (rule ok(4))
  qed (use ok(1,5) index_free [OF assms(1,3)] e in \<open>auto split: if_splits\<close>)
qed

lemma index_bytes_insert:
  assumes "cuckoo_laws C" "cm_find C c k = None"
  shows "index_bytes C (cm_insert C c k l) (ch(k := ns)) = index_bytes C c ch + 24 * length ns + 32"
proof -
  have "(\<Sum>k'\<in>dom (cm_find C c). 24 * length ((ch(k := ns)) k') + 32) = index_bytes C c ch"
    unfolding index_bytes_def by (rule sum.cong) (use assms(2) in auto)
  with assms show ?thesis
    by (simp add: index_bytes_def cuckoo_insert finite_dom_find domIff)
qed

lemma index_bytes_append:
  assumes "cuckoo_laws C" "cm_find C c k = Some l"
  shows "index_bytes C c (ch(k := ch k @ [n])) = index_bytes C c ch + 24"
proof -
  have k: "k \<in> dom (cm_find C c)" using assms(2) by blast
  have "(\<Sum>k'\<in>dom (cm_find C c) - {k}. 24 * length ((ch(k := ch k @ [n])) k') + 32)
      = (\<Sum>k'\<in>dom (cm_find C c) - {k}. 24 * length (ch k') + 32)"
    by (rule sum.cong) auto
  then show ?thesis
    unfolding index_bytes_def sum.remove [OF finite_dom_find [OF assms(1)] k] by simp
qed


section \<open>Correctness of \<open>update_meta\<close>\<close>

definition can_malloc :: "nat \<Rightarrow> cheap \<Rightarrow> bool" where
  "can_malloc n h \<longleftrightarrow> n \<le> length (answers h) \<and> distinct (take n (answers h)) \<and>
     (\<forall>a \<in> set (take n (answers h)). a \<noteq> 0 \<and> metas h a = None \<and> lists h a = None)"

definition mallocs_needed :: "'c cuckoo \<Rightarrow> 'c \<Rightarrow> u64 \<Rightarrow> nat" where
  "mallocs_needed C c k = (if cm_find C c k = None then 2 else 1)"

text \<open>\<open>bep\<close> points to an entry with these fields.\<close>

definition entry_at :: "'m tbp \<Rightarrow> 'm \<Rightarrow> u64 \<Rightarrow> u64 \<Rightarrow> u64 \<Rightarrow> u64 \<Rightarrow> bool" where
  "entry_at T m bep key sz dat \<longleftrightarrow> deref64 T m (bep + 8) = Some key \<and>
     deref64 T m (bep + 16) = Some sz \<and> deref64 T m (bep + 24) = Some dat"

definition index_kept :: "('m, 'c) pmemkv \<Rightarrow> ('m, 'c) pmemkv \<Rightarrow> bool" where
  "index_kept s s' \<longleftrightarrow> index_map s' = index_map s \<and> lists (heap s') = lists (heap s) \<and>
     metas (heap s) \<subseteq>\<^sub>m metas (heap s')"

definition update_meta_post ::
  "'c cuckoo \<Rightarrow> (u64 \<Rightarrow> node list) \<Rightarrow> u64 \<Rightarrow> u64 \<Rightarrow> u64 \<Rightarrow> ('m, 'c) pmemkv \<Rightarrow> int \<Rightarrow> ('m, 'c) pmemkv \<Rightarrow> bool" where
  "update_meta_post C ch key sz dat s rc s' \<longleftrightarrow> pm s' = pm s \<and> bp s' = bp s \<and>
     (if rc = 0 then \<exists>bm. kv_index C s' (ch(key := ch key @ [(bm, dat, sz)]))
      else rc = - 1 \<and> index_kept s s') \<and>
     (can_malloc (mallocs_needed C (index_map s) key) (heap s) \<longrightarrow> rc = 0)"

lemma can_malloc_1:
  assumes "can_malloc (Suc n) h" "std_malloc h = (a, h')"
  shows "a \<noteq> 0" "can_malloc n h'" "a \<notin> set (take n (answers h'))"
  using assms by (auto simp: can_malloc_def std_malloc_def take_Suc_conv_app_nth split: list.splits if_splits)

lemma can_malloc_put:
  "can_malloc n h \<Longrightarrow> bm \<notin> set (take n (answers h)) \<Longrightarrow> can_malloc n (h\<lparr>metas := (metas h)(bm \<mapsto> v)\<rparr>)"
  by (auto simp: can_malloc_def)

lemma update_meta_new_leak:
  assumes "cm_find C (index_map s) key = None" "entry_at T (pm s) bep key sz dat"
    and "std_malloc (heap s) = (bm, h1)" "bm \<noteq> 0"
    and "std_malloc (h1\<lparr>metas := (metas h1)(bm \<mapsto> \<lparr>bm_next = 0, off = dat, bm_size = sz\<rparr>)\<rparr>) = (0, h2)"
  shows "update_meta_new T C bep s = Some (- 1, s\<lparr>heap := h2, bytes_allocated := bytes_allocated s + 24\<rparr>)"
  using assms by (simp add: update_meta_new_def entry_at_def put_meta_def sizeof_block_meta_def)

lemma update_meta_new_correct:
  assumes "cuckoo_laws C" "kv_index C s ch" "entry_at T (pm s) bep key sz dat"
    and "cm_find C (index_map s) key = None"
  shows "\<exists>rc s'. update_meta_new T C bep s = Some (rc, s') \<and> update_meta_post C ch key sz dat s rc s'"
proof -
  obtain bm h1 where m1: "std_malloc (heap s) = (bm, h1)" by fastforce
  note h1 = std_mallocD [OF m1]
  let ?cell = "\<lparr>bm_next = 0, off = dat, bm_size = sz\<rparr>"
  let ?h1 = "h1\<lparr>metas := (metas h1)(bm \<mapsto> ?cell)\<rparr>"
  obtain bml h2 where m2: "std_malloc ?h1 = (bml, h2)" by fastforce
  note h2 = std_mallocD [OF m2]
  note e = assms(3) [unfolded entry_at_def]
  have ch: "ch key = []" and ok: "index_ok C (heap s) (index_map s) ch"
    using assms(2,4) index_okD(1) [of C "heap s" "index_map s" ch key] by (auto simp: kv_index_def)
  show ?thesis
  proof (cases "bm = 0")
    case True
    then have "\<not> can_malloc 2 (heap s)"
      using can_malloc_1(1) [of 1 "heap s"] m1 by (auto simp: numeral_2_eq_2)
    with True show ?thesis
      by (auto simp: update_meta_new_def m1 update_meta_post_def index_kept_def h1
          mallocs_needed_def assms(4))
  next
    case bm: False
    show ?thesis
    proof (cases "bml = 0")
      case True
      have "\<not> can_malloc 2 (heap s)"
      proof
        assume "can_malloc 2 (heap s)"
        then have "can_malloc (Suc 0) h1" "bm \<notin> set (take (Suc 0) (answers h1))"
          using can_malloc_1(2,3) [of 1, OF _ m1] by (simp_all add: numeral_2_eq_2)
        from can_malloc_1(1) [OF can_malloc_put [OF this] m2] True show False by simp
      qed
      moreover have "update_meta_new T C bep s =
          Some (- 1, s\<lparr>heap := h2, bytes_allocated := bytes_allocated s + 24\<rparr>)"
        using update_meta_new_leak [OF assms(4,3) m1 bm] m2 True by simp
      ultimately show ?thesis
        using h1 h2 bm by (auto simp: update_meta_post_def index_kept_def
            mallocs_needed_def assms(4) map_le_def)
    next
      case False
      let ?s = "s\<lparr>heap := h2\<lparr>lists := (lists h2)(bml \<mapsto> header_of [(bm, dat, sz)])\<rparr>,
        bytes_allocated := bytes_allocated s + 56, index_map := cm_insert C (index_map s) key bml\<rparr>"
      have "update_meta_new T C bep s = Some (0, ?s)"
        using False bm by (simp add: update_meta_new_def m1 e put_meta_def m2 put_list_def
            header_of_def sizeof_block_meta_def sizeof_block_meta_list_def)
      moreover have "index_ok C (heap ?s) (index_map ?s) (ch(key := [(bm, dat, sz)]))"
        by (simp, rule index_ok_insert [OF assms(1) ok assms(4)]) (use h1 h2 bm False in auto)
      then have "kv_index C ?s (ch(key := [(bm, dat, sz)]))"
        using assms(2) index_bytes_insert [OF assms(1,4)] by (simp add: kv_index_def)
      ultimately show ?thesis
        unfolding update_meta_post_def by (intro exI [of _ 0] exI [of _ ?s]) (auto simp: ch)
    qed
  qed
qed

lemma update_meta_append_correct:
  assumes "cuckoo_laws C" "kv_index C s ch" "entry_at T (pm s) bep key sz dat"
    and l: "cm_find C (index_map s) key = Some l"
  shows "\<exists>rc s'. update_meta_append T C bep s = Some (rc, s') \<and> update_meta_post C ch key sz dat s rc s'"
proof -
  obtain bm h1 where m1: "std_malloc (heap s) = (bm, h1)" by fastforce
  note h1 = std_mallocD [OF m1]
  note e = assms(3) [unfolded entry_at_def]
  have ok: "index_ok C (heap s) (index_map s) ch" and ch: "ch key \<noteq> []"
    using assms(2,4) index_okD(1) [of C "heap s" "index_map s" ch key] by (auto simp: kv_index_def)
  have lh: "lists (heap s) l = Some (header_of (ch key))" by (rule index_okD(2) [OF ok l])
  show ?thesis
  proof (cases "bm = 0")
    case True
    then have "\<not> can_malloc 1 (heap s)"
      using can_malloc_1(1) [of 0 "heap s"] m1 by auto
    with True show ?thesis
      by (auto simp: update_meta_append_def m1 update_meta_post_def index_kept_def h1 e
          mallocs_needed_def l)
  next
    case bm: False
    let ?t = "fst (last (ch key))"
    have "?t \<in> node_addrs (ch key)" using ch by simp
    moreover from this obtain t where t: "metas (heap s) ?t = Some t"
      using chain_dom [OF index_chain [OF ok ch]] by blast
    ultimately have tbm: "?t \<noteq> bm" using h1(3) bm by auto
    let ?s = "s\<lparr>heap := h1\<lparr>metas := (metas h1)(bm \<mapsto> \<lparr>bm_next = 0, off = dat, bm_size = sz\<rparr>,
          ?t \<mapsto> t\<lparr>bm_next := bm\<rparr>), lists := (lists h1)(l \<mapsto> header_of (ch key @ [(bm, dat, sz)]))\<rparr>,
        bytes_allocated := bytes_allocated s + 24\<rparr>"
    have "update_meta_append T C bep s = Some (0, ?s)"
      using bm t tbm by (simp add: update_meta_append_def m1 e put_meta_def put_list_def h1 l lh
          header_of_snoc [OF ch] sizeof_block_meta_def) (simp add: header_of_def)
    moreover have "index_ok C (heap ?s) (index_map ?s) (ch(key := ch key @ [(bm, dat, sz)]))"
      by (simp, rule index_ok_append [OF ok l _ bm t]) (use h1 bm in auto)
    then have "kv_index C ?s (ch(key := ch key @ [(bm, dat, sz)]))"
      using assms(2) index_bytes_append [OF assms(1,4)] by (simp add: kv_index_def)
    ultimately show ?thesis
      unfolding update_meta_post_def by (intro exI [of _ 0] exI [of _ ?s]) auto
  qed
qed

lemma update_meta_correct:
  assumes "cuckoo_laws C" "kv_index C s ch" "entry_at T (pm s) bep key sz dat"
  shows "\<exists>rc s'. update_meta T C bep s = Some (rc, s') \<and> update_meta_post C ch key sz dat s rc s'"
  using update_meta_new_correct [OF assms] update_meta_append_correct [OF assms] assms(3)
  by (cases "cm_find C (index_map s) key")
    (simp_all add: update_meta_def entry_at_def cuckoo_contains [OF assms(1)])


section \<open>A failed allocation\<close>

text \<open>
  When the second of the two allocations for a new key fails, the node of the
  first one is counted in \<open>bytes_allocated\<close> but reachable from nowhere.
\<close>

lemma update_meta_no_memory:
  assumes "answers (heap s) = []" "entry_at T (pm s) bep key sz dat"
  shows "update_meta T C bep s = Some (- 1, s)"
  using assms by (simp add: update_meta_def update_meta_new_def update_meta_append_def entry_at_def
      std_malloc_def Let_def)

lemma free_lists_leaked:
  assumes "cuckoo_laws C" "kv_index C s ch" "metas (heap s) bm = None"
    and "metas h2 = (metas (heap s))(bm \<mapsto> v)" "lists h2 = lists (heap s)"
  shows "free_meta C (s\<lparr>heap := h2, bytes_allocated := bytes_allocated s + 24\<rparr>) = None"
proof -
  let ?s = "s\<lparr>heap := h2, bytes_allocated := bytes_allocated s + 24\<rparr>"
  let ?its = "cm_table C (index_map s)"
  have ok: "index_ok C (heap s) (index_map s) ch"
    and b: "bytes_allocated s = of_nat (index_bytes C (index_map s) ch)"
    using assms(2) by (simp_all add: kv_index_def)
  have "chain (metas h2) p (ch k) = chain (metas (heap s)) p (ch k)" for p k
    using index_free [OF ok assms(3), of k] by (intro chain_cong) (auto simp: assms(4))
  then have "free_lists ?its ?s = Some (?s\<lparr>heap := (heap ?s)\<lparr>
       metas := metas (heap ?s) |` (- (\<Union>k\<in>fst ` set ?its. node_addrs (ch k))),
       lists := lists (heap ?s) |` (- (snd ` set ?its))\<rparr>,
     bytes_allocated := bytes_allocated ?s - of_nat (\<Sum>k\<leftarrow>map fst ?its. 24 * length (ch k) + 32)\<rparr>)"
    by (intro free_lists_eq [OF cuckoo_table(2) [OF assms(1)] inj_on_table [OF assms(1) ok]])
      (simp_all add: cuckoo_table_in [OF assms(1)] index_okD(2,3,5,6) [OF ok] assms(5))
  then show ?thesis
    unfolding free_meta_def table_sum [OF assms(1)] by (simp add: b index_bytes_def)
qed

section \<open>An association list is a hash map\<close>

definition alist_cuckoo :: "(u64 \<times> u64) list cuckoo" where
  "alist_cuckoo = \<lparr>cm_contains = (\<lambda>c k. map_of c k \<noteq> None), cm_find = map_of,
     cm_insert = (\<lambda>c k v. if map_of c k = None then (k, v) # c else c),
     cm_table = AList.clearjunk, cm_clear = (\<lambda>_. []), cm_empty = []\<rparr>"

lemma alist_cuckoo_laws: "cuckoo_laws alist_cuckoo"
  by (simp add: cuckoo_laws_def alist_cuckoo_def map_of_clearjunk distinct_clearjunk)

end
