(* ===== verification/PmemKV.thy ===== *)
theory PmemKV
  imports PmemIndex XXHash
begin

text \<open>
  The key-value store \<open>pmemkv\<close> (\<open>native/src/pmemkv.h\<close>): a persistent,
  append-only list of block entries under a root object, plus the volatile
  index of theory \<open>PmemIndex\<close>.  Every public operation is a function on the
  class state \<open>('m, 'c) pmemkv\<close>; persistent fields are reached at their
  offsets in the structs:

  \<^item> \<open>block_entry\<close> (32 bytes): \<open>hdr.next\<close> 0, \<open>hdr.key\<close> 8, \<open>hdr.size\<close> 16,
    \<open>data\<close> 24;
  \<^item> \<open>base\<close> (64 bytes): \<open>head\<close> 0, \<open>tail\<close> 8, \<open>rwlock\<close> 16 (a 40 byte
    \<open>std::mutex\<close>), \<open>bytes_written\<close> 56.

  Where the code calls \<open>TBPGet\<close> or \<open>TBPSet\<close> the model does, and where it
  dereferences the persistent pointer itself the model uses \<open>deref64\<close>.
\<close>

section \<open>Operations\<close>

definition sizeof_block_entry :: u64 where "sizeof_block_entry = 32"
definition sizeof_base :: u64 where "sizeof_base = 64"

record memory_block =
  mb_data :: "byte list"
  mb_size :: u64

record memory_meta =
  meta :: "u64 option list option"
  mm_length :: "u64 option"

datatype dump_line = KeyValue u64 "byte list" | BytesWritten u64 | OffSize u64 u64

text \<open>\<open>xxh::xxhash<64>(key)\<close>; the address of the characters does not matter.\<close>

definition key_hash :: "string \<Rightarrow> u64 option" where
  "key_hash key = xxhash_string 0 key"

definition create :: "'m tbp \<Rightarrow> ('m, 'c) pmemkv \<Rightarrow> ('m, 'c) pmemkv" where
  "create T s =
     (let (p, m) = TBPAlloc T sizeof_base (pm s);
          m = TBPSet T p 0 m;
          m = TBPSet T (p + 8) 0 m;
          m = TBPSet T (p + 56) 0 m
      in s\<lparr>bp := p, pm := m\<rparr>)"

definition pmemkv_new :: "'m tbp \<Rightarrow> 'c cuckoo \<Rightarrow> 'm \<Rightarrow> u64 list \<Rightarrow> ('m, 'c) pmemkv" where
  "pmemkv_new T C m tape =
     create T \<lparr>pm = m, bp = 0, heap = \<lparr>metas = Map.empty, lists = Map.empty, answers = tape\<rparr>,
       index_map = cm_empty C, bytes_allocated = 0\<rparr>"

text \<open>\<open>put\<close>: the new entry is filled in, then linked, then indexed.\<close>

definition put_entry ::
  "'m tbp \<Rightarrow> u64 \<Rightarrow> byte list \<Rightarrow> u64 \<Rightarrow> 'm \<Rightarrow> (u64 \<times> 'm) option" where
  "put_entry T key_i buf count m = do {
     let (bep, m) = TBPAlloc T sizeof_block_entry m;
     let (d, m) = TBPAlloc T count m;
     let m = TBPSet T (bep + 24) d m;
     dat \<leftarrow> deref64 T m (bep + 24);
     if length buf < unat count then None
     else do {
       let m = snd (TBPStore T dat (take (unat count) buf) m);
       let m = TBPSet T bep 0 m;
       let m = TBPSet T (bep + 8) key_i m;
       let m = TBPSet T (bep + 16) count m;
       Some (bep, m)
     }
   }"

definition put_link :: "'m tbp \<Rightarrow> u64 \<Rightarrow> u64 \<Rightarrow> u64 \<Rightarrow> 'm \<Rightarrow> 'm option" where
  "put_link T root bep count m = do {
     tl \<leftarrow> TBPGet T (root + 8) m;
     m \<leftarrow> (if tl = 0 then Some (TBPSet T root bep m)
          else do { t \<leftarrow> deref64 T m (root + 8); Some (TBPSet T t bep m) });
     let m = TBPSet T (root + 8) bep m;
     TBPAdd T (root + 56) count m
   }"

definition put ::
  "'m tbp \<Rightarrow> 'c cuckoo \<Rightarrow> string \<Rightarrow> byte list \<Rightarrow> u64 \<Rightarrow> ('m, 'c) pmemkv \<Rightarrow>
   (int \<times> ('m, 'c) pmemkv) option" where
  "put T C key buf count s = do {
     key_i \<leftarrow> key_hash key;
     (bep, m) \<leftarrow> put_entry T key_i buf count (pm s);
     m \<leftarrow> put_link T (bp s) bep count m;
     (rc, s) \<leftarrow> update_meta T C bep (s\<lparr>pm := m\<rparr>);
     if rc \<noteq> 0 then Some (- 1, s) else Some (0, s)
   }"

partial_function (option) get_loop ::
  "'m tbp \<Rightarrow> ('m, 'c) pmemkv \<Rightarrow> u64 \<Rightarrow> u64 \<Rightarrow> memory_block \<Rightarrow> memory_block option" where
  "get_loop T s bm read_offset mb =
     (if bm = 0 then Some mb
      else do {
        b \<leftarrow> metas (heap s) bm;
        if read_offset + bm_size b \<le> mb_size mb then do {
          bs \<leftarrow> peek (direct T (pm s)) (off b) (unat (bm_size b));
          d \<leftarrow> c_memcpy (mb_data mb) (uint read_offset) bs 0 (uint (bm_size b));
          let read_offset = read_offset + bm_size b;
          if read_offset \<le> mb_size mb
          then get_loop T s (bm_next b) read_offset (mb\<lparr>mb_data := d\<rparr>)
          else None
        } else Some mb
      })"

definition get ::
  "'m tbp \<Rightarrow> 'c cuckoo \<Rightarrow> string \<Rightarrow> memory_block \<Rightarrow> ('m, 'c) pmemkv \<Rightarrow> (int \<times> memory_block) option" where
  "get T C key mb s = do {
     key_i \<leftarrow> key_hash key;
     if \<not> cm_contains C (index_map s) key_i then Some (- 1, mb)
     else do {
       bml \<leftarrow> cm_find C (index_map s) key_i;
       l \<leftarrow> lists (heap s) bml;
       mb \<leftarrow> get_loop T s (bml_head l) 0 mb;
       Some (0, mb)
     }
   }"

definition get_value_size :: "'c cuckoo \<Rightarrow> string \<Rightarrow> ('m, 'c) pmemkv \<Rightarrow> (int \<times> u64) option" where
  "get_value_size C key s = do {
     key_i \<leftarrow> key_hash key;
     if \<not> cm_contains C (index_map s) key_i then Some (- 1, 0)
     else do {
       bml \<leftarrow> cm_find C (index_map s) key_i;
       l \<leftarrow> lists (heap s) bml;
       Some (0, total_size l)
     }
   }"

definition set_meta :: "u64 option list \<Rightarrow> u64 \<Rightarrow> u64 \<Rightarrow> u64 option list option" where
  "set_meta xs i v = (if unat i < length xs then Some (xs[unat i := Some v]) else None)"

partial_function (option) get_meta_loop ::
  "('m, 'c) pmemkv \<Rightarrow> u64 \<Rightarrow> u64 \<Rightarrow> memory_meta \<Rightarrow> (u64 \<times> memory_meta) option" where
  "get_meta_loop s nxt index mm =
     (if nxt = 0 then Some (index, mm)
      else do {
        xs \<leftarrow> meta mm;
        b \<leftarrow> metas (heap s) nxt;
        xs \<leftarrow> set_meta xs index (off b);
        xs \<leftarrow> set_meta xs (index + 1) (bm_size b);
        get_meta_loop s (bm_next b) (index + 2) (mm\<lparr>meta := Some xs\<rparr>)
      })"

text \<open>For an absent key only the local copy of the pointer \<open>mm\<close> is cleared.\<close>

definition get_meta ::
  "'c cuckoo \<Rightarrow> string \<Rightarrow> memory_meta \<Rightarrow> ('m, 'c) pmemkv \<Rightarrow> (int \<times> memory_meta) option" where
  "get_meta C key mm s = do {
     key_i \<leftarrow> key_hash key;
     if \<not> cm_contains C (index_map s) key_i then Some (0, mm)
     else do {
       bml \<leftarrow> cm_find C (index_map s) key_i;
       l \<leftarrow> lists (heap s) bml;
       (index, mm) \<leftarrow> get_meta_loop s (bml_head l) 0 mm;
       Some (0, mm\<lparr>mm_length := Some index\<rparr>)
     }
   }"

definition get_meta_size :: "'c cuckoo \<Rightarrow> string \<Rightarrow> ('m, 'c) pmemkv \<Rightarrow> (int \<times> u64) option" where
  "get_meta_size C key s = do {
     key_i \<leftarrow> key_hash key;
     if \<not> cm_contains C (index_map s) key_i then Some (- 1, 0)
     else do {
       bml \<leftarrow> cm_find C (index_map s) key_i;
       l \<leftarrow> lists (heap s) bml;
       Some (0, bml_length l)
     }
   }"

text \<open>Printing a \<open>char*\<close> reads up to the first null byte of the buffer.\<close>

definition c_string :: "byte list \<Rightarrow> byte list option" where
  "c_string bs = (if 0 \<in> set bs then Some (takeWhile (\<lambda>b. b \<noteq> 0) bs) else None)"

partial_function (option) dump_all_loop ::
  "'m tbp \<Rightarrow> (nat \<Rightarrow> bool) \<Rightarrow> 'm \<Rightarrow> u64 \<Rightarrow> dump_line list \<Rightarrow> dump_line list option" where
  "dump_all_loop T grant m next_bep out =
     (if next_bep = 0 then Some out
      else do {
        data_addr \<leftarrow> TBPGet T (next_bep + 24) m;
        data_size \<leftarrow> TBPGet T (next_bep + 16) m;
        data_key \<leftarrow> TBPGet T (next_bep + 8) m;
        data_next \<leftarrow> TBPGet T next_bep m;
        sz \<leftarrow> deref64 T m (next_bep + 16);
        tmp \<leftarrow> c_malloc grant (uint sz);
        let (rc, bs) = TBPLoad T data_addr data_size m;
        if rc = 0 \<and> length bs \<le> length tmp then do {
          v \<leftarrow> c_string bs;
          dump_all_loop T grant m data_next (out @ [KeyValue data_key v])
        } else None
      })"

definition dump_all ::
  "'m tbp \<Rightarrow> (nat \<Rightarrow> bool) \<Rightarrow> ('m, 'c) pmemkv \<Rightarrow> (int \<times> dump_line list) option" where
  "dump_all T grant s = do {
     next_bep \<leftarrow> TBPGet T (bp s) (pm s);
     out \<leftarrow> dump_all_loop T grant (pm s) next_bep [];
     Some (0, out)
   }"

partial_function (option) dump_chain ::
  "(u64 \<Rightarrow> block_meta option) \<Rightarrow> u64 \<Rightarrow> dump_line list \<Rightarrow> dump_line list option" where
  "dump_chain m ptr out =
     (if ptr = 0 then Some out
      else do {
        b \<leftarrow> m ptr;
        dump_chain m (bm_next b) (out @ [OffSize (off b) (bm_size b)])
      })"

fun dump_lists :: "cheap \<Rightarrow> (u64 \<times> u64) list \<Rightarrow> dump_line list \<Rightarrow> dump_line list option" where
  "dump_lists h [] out = Some out"
| "dump_lists h ((k, bml) # its) out = do {
     l \<leftarrow> lists h bml;
     out \<leftarrow> dump_chain (metas h) (bml_head l) out;
     dump_lists h its out
   }"

definition dump_meta :: "'m tbp \<Rightarrow> 'c cuckoo \<Rightarrow> ('m, 'c) pmemkv \<Rightarrow> (int \<times> dump_line list) option" where
  "dump_meta T C s = do {
     w \<leftarrow> TBPGet T (bp s + 56) (pm s);
     out \<leftarrow> dump_lists (heap s) (cm_table C (index_map s)) [BytesWritten w];
     Some (0, out)
   }"

partial_function (option) free_all_loop :: "'m tbp \<Rightarrow> u64 \<Rightarrow> u64 \<Rightarrow> 'm \<Rightarrow> 'm option" where
  "free_all_loop T root next_bep m =
     (if next_bep = 0 then Some m
      else do {
        data_size \<leftarrow> TBPGet T (next_bep + 16) m;
        nxt \<leftarrow> TBPGet T next_bep m;
        m \<leftarrow> TBPSub T (root + 56) data_size m;
        free_all_loop T root nxt m
      })"

definition free_all :: "'m tbp \<Rightarrow> 'c cuckoo \<Rightarrow> ('m, 'c) pmemkv \<Rightarrow> (int \<times> ('m, 'c) pmemkv) option" where
  "free_all T C s = do {
     next_bep \<leftarrow> TBPGet T (bp s) (pm s);
     m \<leftarrow> free_all_loop T (bp s) next_bep (pm s);
     let m = TBPSet T (bp s) 0 m;
     let m = TBPSet T (bp s + 8) 0 m;
     w \<leftarrow> TBPGet T (bp s + 56) m;
     if w \<noteq> 0 then None
     else do {
       (rc, s) \<leftarrow> free_meta C (s\<lparr>pm := m\<rparr>);
       if rc \<noteq> 0 then Some (- 1, s) else Some (0, s)
     }
   }"

definition get_root :: "('m, 'c) pmemkv \<Rightarrow> u64" where
  "get_root s = bp s"

definition open_kv :: "('m, 'c) pmemkv \<Rightarrow> int \<times> ('m, 'c) pmemkv" where
  "open_kv s = (0, s)"

definition close :: "'c cuckoo \<Rightarrow> ('m, 'c) pmemkv \<Rightarrow> ('m, 'c) pmemkv option" where
  "close C s = do { (rc, s) \<leftarrow> free_meta C s; Some s }"

definition pmemkv_delete :: "'c cuckoo \<Rightarrow> ('m, 'c) pmemkv \<Rightarrow> ('m, 'c) pmemkv option" where
  "pmemkv_delete C s = close C s"

end
