(* ===== verification/PmemLog.thy ===== *)
theory PmemLog
  imports PmemKV
begin

text \<open>
  The persistent half of the store: the linked list of block entries under the
  root object represents a log of \<open>(key, bytes)\<close> records.  \<open>log_ok\<close> is the
  representation invariant: root and entries are pairwise disjoint allocated
  objects, following \<open>hdr.next\<close> from \<open>head\<close> visits them in order,
  \<open>tail\<close> is the last one and \<open>bytes_written\<close> the sum of the sizes.  The
  lemmas show that creating the root establishes it, that filling an entry and
  linking it (the two halves of \<open>put\<close>) append one record, and that the walk
  of \<open>free_all\<close> ends with a counter of 0.
\<close>

record entry =
  eaddr :: u64
  ekey :: u64
  edata :: u64
  ebytes :: "byte list"

type_synonym obj = "u64 \<times> nat"

abbreviation disjoint_objs :: "obj \<Rightarrow> obj \<Rightarrow> bool" where
  "disjoint_objs x y \<equiv> obj_disjoint (fst x) (snd x) (fst y) (snd y)"

definition entry_objs :: "entry \<Rightarrow> obj list" where
  "entry_objs e = [(eaddr e, 32), (edata e, length (ebytes e))]"

definition log_objs :: "u64 \<Rightarrow> entry list \<Rightarrow> obj list" where
  "log_objs root es = (root, 64) # concat (map entry_objs es)"

definition node_ok :: "'m tbp \<Rightarrow> 'm \<Rightarrow> entry \<Rightarrow> bool" where
  "node_ok T m e \<longleftrightarrow> eaddr e \<noteq> 0 \<and> (ebytes e = [] \<or> edata e \<noteq> 0) \<and> length (ebytes e) < 2 ^ 64 \<and>
     fld T m (eaddr e + 8) = ekey e \<and> fld T m (eaddr e + 16) = of_nat (length (ebytes e)) \<and>
     fld T m (eaddr e + 24) = edata e \<and> rd T m (edata e) (length (ebytes e)) = ebytes e"

primrec seg :: "'m tbp \<Rightarrow> 'm \<Rightarrow> u64 \<Rightarrow> entry list \<Rightarrow> u64 \<Rightarrow> bool" where
  "seg T m p [] q \<longleftrightarrow> p = q"
| "seg T m p (e # es) q \<longleftrightarrow> p = eaddr e \<and> node_ok T m e \<and> seg T m (fld T m p) es q"

definition total_bytes :: "entry list \<Rightarrow> nat" where
  "total_bytes es = (\<Sum>e\<leftarrow>es. length (ebytes e))"

definition tail_of :: "entry list \<Rightarrow> u64" where
  "tail_of es = (if es = [] then 0 else eaddr (last es))"

definition log_ok ::
  "'m tbp \<Rightarrow> ('m \<Rightarrow> u64 \<Rightarrow> bool) \<Rightarrow> ('m \<Rightarrow> bool) \<Rightarrow> 'm \<Rightarrow> u64 \<Rightarrow> entry list \<Rightarrow> bool" where
  "log_ok T own good m root es \<longleftrightarrow> good m \<and>
     sorted_wrt disjoint_objs (log_objs root es) \<and>
     (\<forall>x \<in> set (log_objs root es). obj_owned (own m) (fst x) (snd x)) \<and>
     seg T m (fld T m root) es 0 \<and> fld T m (root + 8) = tail_of es \<and>
     fld T m (root + 56) = of_nat (total_bytes es)"

section \<open>Fields\<close>

lemma fields_apart:
  "unat i + 8 \<le> unat j \<or> unat j + 8 \<le> unat i \<Longrightarrow> unat i + 8 < 2 ^ 64 \<Longrightarrow> unat j + 8 < 2 ^ 64 \<Longrightarrow>
   obj_disjoint (a + i) 8 (a + j) 8"
  using fields_disjoint [of i 8 j 8 a] fields_disjoint [of j 8 i 8 a] by (metis obj_disjoint_sym)

lemma fields_apart_0:
  "8 \<le> unat j \<Longrightarrow> unat j + 8 < 2 ^ 64 \<Longrightarrow> obj_disjoint a 8 (a + j) 8 \<and> obj_disjoint (a + j) 8 a 8"
  using fields_apart [of 0 j a] fields_apart [of j 0 a] by simp

lemma obj_disjoint_sub:
  assumes "obj_disjoint a n b k" "unat i + n' \<le> n" "n < 2 ^ 64" "unat j + k' \<le> k" "k < 2 ^ 64"
  shows "obj_disjoint (a + i) n' (b + j) k'"
  using assms(1) in_obj_sub_word [OF _ assms(2,3)] in_obj_sub_word [OF _ assms(4,5)]
  unfolding obj_disjoint_def by blast

text \<open>Writing one field of memory that the library keeps.\<close>

lemma fld_TBPSet:
  assumes "tbp_laws T own good" "good m" "obj_owned (own m) a 8"
  shows "fld T (TBPSet T a v m) a = v"
    and "obj_disjoint a 8 b 8 \<Longrightarrow> obj_owned (own m) b 8 \<Longrightarrow> fld T (TBPSet T a v m) b = fld T m b"
    and "obj_disjoint a 8 b n \<Longrightarrow> obj_owned (own m) b n \<Longrightarrow> n < 2 ^ 64 \<Longrightarrow>
         rd T (TBPSet T a v m) b n = rd T m b n"
proof -
  note s = TBPSet_laws [OF assms, of v]
  show "fld T (TBPSet T a v m) a = v" by (rule s(4))
  show "fld T (TBPSet T a v m) b = fld T m b" if "obj_disjoint a 8 b 8" "obj_owned (own m) b 8"
    using that by (intro fld_same [OF s(3)]) (simp add: obj_owned_conj obj_disjoint_owned)
  show "rd T (TBPSet T a v m) b n = rd T m b n"
    if "obj_disjoint a 8 b n" "obj_owned (own m) b n" "n < 2 ^ 64"
    using that by (intro rd_same [OF s(3)]) (simp_all add: obj_owned_conj obj_disjoint_owned)
qed

lemma same_on_TBPSet:
  assumes "tbp_laws T own good" "good m" "obj_owned (own m) a 8" "same_on T P m0 m"
    and "\<And>x. P x \<Longrightarrow> own m x \<and> \<not> in_obj a 8 x"
  shows "same_on T P m0 (TBPSet T a v m)"
  using assms(4,5) TBPSet_laws(3) [OF assms(1-3), of v] by (simp add: same_on_def)

lemma same_on_refl [simp]: "same_on T P m m"
  by (simp add: same_on_def)

section \<open>Segments\<close>

lemma seg_append: "seg T m p (xs @ ys) q \<longleftrightarrow> (\<exists>r. seg T m p xs r \<and> seg T m r ys q)"
  by (induction xs arbitrary: p) auto

lemma node_ok_frame:
  assumes "same_on T P m m'" "obj_owned P (eaddr e + 8) 24" "obj_owned P (edata e) (length (ebytes e))"
  shows "node_ok T m e \<Longrightarrow> node_ok T m' e"
proof -
  have "obj_owned P (eaddr e + 8) 8" "obj_owned P ((eaddr e + 8) + 8) 8" "obj_owned P ((eaddr e + 8) + 16) 8"
    using obj_owned_prefix [OF assms(2), of 8] obj_owned_sub [OF assms(2), of 8 8]
      obj_owned_sub [OF assms(2), of 16 8] by simp_all
  then have "fld T m' (eaddr e + 8) = fld T m (eaddr e + 8)" "fld T m' (eaddr e + 16) = fld T m (eaddr e + 16)"
    "fld T m' (eaddr e + 24) = fld T m (eaddr e + 24)"
    using fld_same [OF assms(1)] by (simp_all add: add.assoc)
  then show "node_ok T m e \<Longrightarrow> node_ok T m' e"
    using rd_same [OF assms(1,3)] by (simp add: node_ok_def)
qed

lemma seg_frame:
  assumes "same_on T P m m'" "\<And>x. x \<in> set (concat (map entry_objs es)) \<Longrightarrow> obj_owned P (fst x) (snd x)"
  shows "seg T m p es q \<Longrightarrow> seg T m' p es q"
  using assms(2)
proof (induction es arbitrary: p)
  case Nil
  then show ?case by simp
next
  case (Cons e es)
  have own: "obj_owned P (eaddr e) 32" "obj_owned P (edata e) (length (ebytes e))"
    using Cons.prems(2) [of "(eaddr e, 32)"] Cons.prems(2) [of "(edata e, length (ebytes e))"]
    by (simp_all add: entry_objs_def)
  have "node_ok T m' e"
    using Cons.prems(1) obj_owned_sub [OF own(1), of 8 24]
    by (intro node_ok_frame [OF assms(1) _ own(2)]) simp_all
  moreover have "fld T m' (eaddr e) = fld T m (eaddr e)"
    using obj_owned_prefix [OF own(1), of 8] by (intro fld_same [OF assms(1)]) simp
  ultimately show ?case
    using Cons by auto
qed

section \<open>Creating the root\<close>

definition alloc_ok :: "'m tbp \<Rightarrow> u64 \<Rightarrow> 'm \<Rightarrow> bool" where
  "alloc_ok T n m \<longleftrightarrow> n = 0 \<or> fst (TBPAlloc T n m) \<noteq> 0"

lemma tbp_alloc_ok:
  assumes "tbp_laws T own good" "good m" "TBPAlloc T n m = (p, m')" "alloc_ok T n m"
  shows "obj_owned (own m') p (unat n)" "obj_owned (\<lambda>x. \<not> own m x) p (unat n)"
  using tbp_allocD(4,5) [OF assms(1-3)] assms(3,4) unfolding alloc_ok_def
  by (auto simp: obj_owned_def in_obj_def)

lemma create_log:
  assumes "tbp_laws T own good" "good (pm s)" "alloc_ok T 64 (pm s)"
  shows "log_ok T own good (pm (create T s)) (bp (create T s)) []"
proof -
  obtain p m where a: "TBPAlloc T 64 (pm s) = (p, m)" by fastforce
  have g: "good m" by (rule tbp_allocD(1) [OF assms(1,2) a])
  have o64: "obj_owned (own m) p 64"
    using tbp_alloc_ok(1) [OF assms(1,2) a assms(3)] by simp
  then have o: "obj_owned (own m) p 8" "obj_owned (own m) (p + 8) 8" "obj_owned (own m) (p + 56) 8"
    using obj_owned_prefix [OF o64, of 8] obj_owned_sub [OF o64, of 8 8] obj_owned_sub [OF o64, of 56 8]
    by simp_all
  note [simp] = TBPSet_laws(1,2) [OF assms(1)] fld_TBPSet(1,2) [OF assms(1)] o g
  have "fields": "obj_disjoint p 8 (p + 8) 8" "obj_disjoint (p + 8) 8 p 8" "obj_disjoint (p + 56) 8 p 8"
    "obj_disjoint (p + 56) 8 (p + 8) 8"
    using fields_apart_0 [of 8 p] fields_apart_0 [of 56 p] fields_apart [of 56 8 p] by simp_all
  show ?thesis
    by (simp add: create_def a sizeof_base_def log_ok_def log_objs_def tail_of_def total_bytes_def
        o64 "fields")
qed

section \<open>Filling an entry\<close>

definition can_alloc :: "'m tbp \<Rightarrow> u64 \<Rightarrow> 'm \<Rightarrow> bool" where
  "can_alloc T count m \<longleftrightarrow> alloc_ok T 32 m \<and>
     alloc_ok T count (snd (TBPAlloc T 32 m))"

lemma obj_owned_fields:
  assumes "obj_owned P a 32"
  shows "obj_owned P a 8" "obj_owned P (a + 8) 8" "obj_owned P (a + 16) 8" "obj_owned P (a + 24) 8"
  using obj_owned_prefix [OF assms, of 8] obj_owned_sub [OF assms, of 8 8]
    obj_owned_sub [OF assms, of 16 8] obj_owned_sub [OF assms, of 24 8] by simp_all

lemma in_obj_fields:
  "in_obj a 8 x \<Longrightarrow> in_obj a 32 x" "in_obj (a + 8) 8 x \<Longrightarrow> in_obj a 32 x"
  "in_obj (a + 16) 8 x \<Longrightarrow> in_obj a 32 x" "in_obj (a + 24) 8 x \<Longrightarrow> in_obj a 32 x"
  using in_obj_sub_word [of a 0 8 x 32] in_obj_sub_word [of a 8 8 x 32]
    in_obj_sub_word [of a 16 8 x 32] in_obj_sub_word [of a 24 8 x 32] by simp_all

lemma obj_disjoint_fields:
  assumes "obj_disjoint a 32 b n" "n < 2 ^ 64"
  shows "obj_disjoint a 8 b n" "obj_disjoint (a + 8) 8 b n" "obj_disjoint (a + 16) 8 b n"
    "obj_disjoint (a + 24) 8 b n"
proof -
  have n: "unat (0 :: u64) + n \<le> n" by simp
  note sub = obj_disjoint_sub [OF assms(1) _ _ n assms(2), simplified]
  show "obj_disjoint a 8 b n" "obj_disjoint (a + 8) 8 b n" "obj_disjoint (a + 16) 8 b n"
    "obj_disjoint (a + 24) 8 b n"
    using sub [of 0 8] sub [of 8 8] sub [of 16 8] sub [of 24 8] by simp_all
qed

lemma entry_fields_apart:
  "obj_disjoint a 8 (a + 8) 8" "obj_disjoint a 8 (a + 16) 8" "obj_disjoint a 8 (a + 24) 8"
  "obj_disjoint (a + 8) 8 a 8" "obj_disjoint (a + 8) 8 (a + 16) 8" "obj_disjoint (a + 8) 8 (a + 24) 8"
  "obj_disjoint (a + 16) 8 a 8" "obj_disjoint (a + 16) 8 (a + 8) 8" "obj_disjoint (a + 16) 8 (a + 24) 8"
  using fields_apart_0 [of 8 a] fields_apart_0 [of 16 a] fields_apart_0 [of 24 a]
    fields_apart [of 8 16 a] fields_apart [of 16 8 a] fields_apart [of 8 24 a] fields_apart [of 16 24 a]
  by simp_all

lemma fill_header:
  fixes k :: u64
  assumes "tbp_laws T own good" "good m" "obj_owned (own m) bep 32" "fld T m (bep + 24) = d"
    and "obj_owned (own m) d (length bs)" "obj_disjoint bep 32 d (length bs)" "length bs < 2 ^ 64"
    and "rd T m d (length bs) = bs" "bep \<noteq> 0" "bs = [] \<or> d \<noteq> 0"
  defines "m' \<equiv> TBPSet T (bep + 16) (of_nat (length bs)) (TBPSet T (bep + 8) k (TBPSet T bep 0 m))"
  shows "good m'" "own m' = own m" "same_on T (\<lambda>x. own m x \<and> \<not> in_obj bep 32 x) m m'"
    "node_ok T m' \<lparr>eaddr = bep, ekey = k, edata = d, ebytes = bs\<rparr>" "fld T m' bep = 0"
proof -
  note [simp] = TBPSet_laws(1,2) [OF assms(1)] fld_TBPSet [OF assms(1)] assms(2)
    obj_owned_fields [OF assms(3)] obj_disjoint_fields [OF assms(6,7)] entry_fields_apart
  show "good m'" "own m' = own m" "fld T m' bep = 0"
    by (simp_all add: m'_def)
  show "node_ok T m' \<lparr>eaddr = bep, ekey = k, edata = d, ebytes = bs\<rparr>"
    using assms(4-10) by (simp add: m'_def node_ok_def)
  show "same_on T (\<lambda>x. own m x \<and> \<not> in_obj bep 32 x) m m'"
    unfolding m'_def by (intro same_on_TBPSet [OF assms(1)]) (auto dest: in_obj_fields)
qed

lemma put_entry_ok:
  assumes "tbp_laws T own good" "good m" "can_alloc T count m" "unat count \<le> length buf"
  obtains e m' where "put_entry T key_i buf count m = Some (eaddr e, m')" "good m'"
    "\<And>x. own m x \<Longrightarrow> own m' x" "same_on T (own m) m m'"
    "ekey e = key_i" "ebytes e = take (unat count) buf"
    "\<And>x. x \<in> set (entry_objs e) \<Longrightarrow> obj_owned (own m') (fst x) (snd x)"
    "\<And>x. x \<in> set (entry_objs e) \<Longrightarrow> obj_owned (\<lambda>y. \<not> own m y) (fst x) (snd x)"
    "sorted_wrt disjoint_objs (entry_objs e)" "node_ok T m' e" "fld T m' (eaddr e) = 0"
proof -
  obtain bep m1 where a1: "TBPAlloc T 32 m = (bep, m1)" by fastforce
  obtain d m2 where a2: "TBPAlloc T count m1 = (d, m2)" by fastforce
  let ?n = "unat count"
  have ok: "alloc_ok T 32 m" "bep \<noteq> 0" "alloc_ok T count m1"
    using assms(3) by (simp_all add: can_alloc_def alloc_ok_def a1)
  note l1 = tbp_allocD [OF assms(1,2) a1] and l2 = tbp_allocD [OF assms(1) tbp_allocD(1) [OF assms(1,2) a1] a2]
  have o32: "obj_owned (own m1) bep 32" "obj_owned (\<lambda>x. \<not> own m x) bep 32"
    using tbp_alloc_ok [OF assms(1,2) a1 ok(1)] by simp_all
  have od: "obj_owned (own m2) d ?n" "obj_owned (\<lambda>x. \<not> own m1 x) d ?n"
    using tbp_alloc_ok [OF assms(1) l1(1) a2 ok(3)] by simp_all
  have o2: "obj_owned (own m2) bep 32" by (rule obj_owned_mono [OF o32(1) l2(2)])
  have nd: "obj_owned (\<lambda>x. \<not> own m x) d ?n" using od(2) l1(2) by (auto simp: obj_owned_def)
  have dj: "obj_disjoint bep 32 d ?n"
    using o32(1) od(2) by (auto simp: obj_disjoint_def obj_owned_def)
  have f: "obj_owned (own m2) bep 8" "obj_owned (own m2) (bep + 8) 8" "obj_owned (own m2) (bep + 16) 8"
    "obj_owned (own m2) (bep + 24) 8"
    using obj_owned_prefix [OF o2, of 8] obj_owned_sub [OF o2, of 8 8] obj_owned_sub [OF o2, of 16 8]
      obj_owned_sub [OF o2, of 24 8] by simp_all
  define m3 where "m3 = TBPSet T (bep + 24) d m2"
  have n: "length (take ?n buf) = ?n" "?n < 2 ^ 64"
    using assms(4) unsigned_less [where 'a = nat, of count] by simp_all
  note s3 = TBPSet_laws [OF assms(1) l2(1) obj_owned_fields(4) [OF o2], of d, folded m3_def]
  have st: "obj_owned (own m3) d (length (take ?n buf))" "length (take ?n buf) < 2 ^ 64"
    using od(1) n s3(2) by simp_all
  obtain m4 where m4: "TBPStore T d (take ?n buf) m3 = (0, m4)" "good m4" "own m4 = own m3"
    "same_on T (\<lambda>x. own m3 x \<and> \<not> in_obj d ?n x) m3 m4" "rd T m4 d ?n = take ?n buf"
    by (rule tbp_storeE [OF assms(1) s3(1) st, unfolded n(1)])
  have f4: "fld T m4 (bep + 24) = d"
    using fld_same [OF m4(4), of "bep + 24"] obj_disjoint_fields(4) [OF dj n(2)] s3(2,4)
      obj_owned_fields(4) [OF o2] by (simp add: obj_owned_conj obj_disjoint_owned [symmetric] obj_disjoint_sym)
  let ?e = "\<lparr>eaddr = bep, ekey = key_i, edata = d, ebytes = take ?n buf\<rparr>"
  define m7 where "m7 = TBPSet T (bep + 16) count (TBPSet T (bep + 8) key_i (TBPSet T bep 0 m4))"
  have c: "count = of_nat (length (take ?n buf))" using n(1) by simp
  have own4: "own m4 = own m2" using m4(3) s3(2) by simp
  have d0: "take ?n buf = [] \<or> d \<noteq> 0"
    using ok(3) by (auto simp: alloc_ok_def a2)
  have f7: "good m7" "own m7 = own m4" "same_on T (\<lambda>x. own m4 x \<and> \<not> in_obj bep 32 x) m4 m7"
    "node_ok T m7 ?e" "fld T m7 bep = 0"
    using fill_header [OF assms(1) m4(2) _ f4, of "take ?n buf" key_i] o2 od(1) dj n m4(5) ok(2) d0
    unfolding m7_def own4 by (simp_all flip: c)
  have "same_on T (own m) m m7"
    unfolding same_on_def
  proof (intro allI impI)
    fix x
    assume x: "own m x"
    then have "own m1 x" "own m2 x" "\<not> in_obj bep 32 x" "\<not> in_obj d ?n x"
      using l1(2) l2(2) o32(2) nd by (auto simp: obj_owned_def)
    moreover from this have "\<not> in_obj (bep + 24) 8 x" using in_obj_fields(4) by blast
    ultimately show "direct T m7 x = direct T m x"
      using x l1(3) l2(3) s3(2,3) m4(3,4) f7(3) by (simp add: same_on_def)
  qed
  moreover have "put_entry T key_i buf count m = Some (bep, m7)"
    using assms(4) s3(1,4) deref64_fld [OF assms(1) s3(1)] obj_owned_fields(4) [OF o2] m4(1)
    by (simp add: put_entry_def sizeof_block_entry_def a1 a2 m7_def s3(2) flip: m3_def)
  ultimately show thesis
    using f7(1,2,4,5) l1(2) l2(2) o2 od(1) o32(2) nd dj n
    by (intro that [of ?e m7]) (auto simp: entry_objs_def own4)
qed


section \<open>Linking an entry\<close>

lemma log_okD:
  assumes "log_ok T own good m root es"
  shows "good m" "sorted_wrt disjoint_objs (log_objs root es)"
    "\<And>x. x \<in> set (log_objs root es) \<Longrightarrow> obj_owned (own m) (fst x) (snd x)"
    "seg T m (fld T m root) es 0" "fld T m (root + 8) = tail_of es"
    "fld T m (root + 56) = of_nat (total_bytes es)" "obj_owned (own m) root 64"
    "obj_owned (own m) root 8" "obj_owned (own m) (root + 8) 8" "obj_owned (own m) (root + 56) 8"
proof -
  show o: "obj_owned (own m) root 64"
    using assms unfolding log_ok_def log_objs_def by simp
  show "obj_owned (own m) root 8" "obj_owned (own m) (root + 8) 8" "obj_owned (own m) (root + 56) 8"
    using obj_owned_prefix [OF o, of 8] obj_owned_sub [OF o, of 8 8] obj_owned_sub [OF o, of 56 8]
    by simp_all
qed (use assms in \<open>simp_all add: log_ok_def\<close>)

lemma log_ok_frame:
  assumes "log_ok T own good m root es" "good m'" "\<And>x. own m x \<Longrightarrow> own m' x" "same_on T (own m) m m'"
  shows "log_ok T own good m' root es"
proof -
  note ok = log_okD [OF assms(1)]
  have "seg T m' (fld T m root) es 0"
    by (rule seg_frame [OF assms(4) _ ok(4)]) (rule ok(3), simp add: log_objs_def)
  moreover have "fld T m' root = fld T m root" "fld T m' (root + 8) = fld T m (root + 8)"
    "fld T m' (root + 56) = fld T m (root + 56)"
    using fld_same [OF assms(4)] ok(8-10) by simp_all
  ultimately show ?thesis
    using assms(2) ok(2,5,6) obj_owned_mono [OF ok(3) assms(3)] by (simp add: log_ok_def)
qed

lemma seg_nodes: "seg T m p es q \<Longrightarrow> e \<in> set es \<Longrightarrow> node_ok T m e"
  by (induction es arbitrary: p) auto

lemma tail_of_eq_0: "seg T m p es q \<Longrightarrow> tail_of es = 0 \<longleftrightarrow> es = []"
  using seg_nodes [of T m p es q "last es"] by (auto simp: tail_of_def node_ok_def)

lemma log_objs_snoc: "log_objs root (es @ [e]) = log_objs root es @ entry_objs e"
  by (simp add: log_objs_def)

lemma total_bytes_snoc: "total_bytes (es @ [e]) = total_bytes es + length (ebytes e)"
  by (simp add: total_bytes_def)

lemma root_fields:
  "in_obj root 8 x \<Longrightarrow> in_obj root 64 x" "in_obj (root + 8) 8 x \<Longrightarrow> in_obj root 64 x"
  "in_obj (root + 56) 8 x \<Longrightarrow> in_obj root 64 x"
  using in_obj_sub_word [of root 0 8 x 64] in_obj_sub_word [of root 8 8 x 64]
    in_obj_sub_word [of root 56 8 x 64] by simp_all

text \<open>The field that receives the link: \<open>head\<close>, or \<open>next\<close> of the last entry.\<close>

definition link_field :: "u64 \<Rightarrow> entry list \<Rightarrow> u64" where
  "link_field root es = (if es = [] then root else eaddr (last es))"

definition linked :: "'m tbp \<Rightarrow> u64 \<Rightarrow> entry list \<Rightarrow> entry \<Rightarrow> 'm \<Rightarrow> 'm" where
  "linked T root es e m = TBPSet T (root + 56) (of_nat (total_bytes (es @ [e])))
     (TBPSet T (root + 8) (eaddr e) (TBPSet T (link_field root es) (eaddr e) m))"

lemma link_field_obj:
  assumes "log_ok T own good m root es"
  shows "obj_owned (own m) (link_field root es) 8"
    "\<exists>x \<in> set (log_objs root es). \<forall>y. in_obj (link_field root es) 8 y \<longrightarrow> in_obj (fst x) (snd x) y"
    "es \<noteq> [] \<Longrightarrow> obj_disjoint root 64 (link_field root es) 8"
proof -
  have l: "(eaddr (last es), 32) \<in> set (concat (map entry_objs es))" if "es \<noteq> []"
    using that last_in_set by (force simp: entry_objs_def)
  show x: "\<exists>x \<in> set (log_objs root es). \<forall>y. in_obj (link_field root es) 8 y \<longrightarrow> in_obj (fst x) (snd x) y"
    using l in_obj_fields(1) root_fields(1)
    by (cases "es = []") (force simp: link_field_def log_objs_def)+
  with log_okD(3) [OF assms] show "obj_owned (own m) (link_field root es) 8"
    unfolding obj_owned_def by blast
  show "obj_disjoint root 64 (link_field root es) 8" if "es \<noteq> []"
    using log_okD(2) [OF assms] l [OF that] in_obj_fields(1) that
    by (fastforce simp: log_objs_def link_field_def obj_disjoint_def)
qed

lemma link_field_apart:
  assumes "log_ok T own good m root es"
  shows "obj_disjoint (root + 8) 8 (link_field root es) 8" "obj_disjoint (root + 56) 8 (link_field root es) 8"
proof -
  have "obj_disjoint (root + 8) 8 (link_field root es) 8 \<and> obj_disjoint (root + 56) 8 (link_field root es) 8"
  proof (cases "es = []")
    case True
    then show ?thesis
      using fields_apart_0 [of 8 root] fields_apart_0 [of 56 root] by (simp add: link_field_def)
  next
    case False
    then show ?thesis
      using link_field_obj(3) [OF assms] root_fields(2,3) unfolding obj_disjoint_def by blast
  qed
  then show "obj_disjoint (root + 8) 8 (link_field root es) 8" "obj_disjoint (root + 56) 8 (link_field root es) 8"
    by simp_all
qed

lemma put_link_eq:
  assumes "tbp_laws T own good" "log_ok T own good m root es"
  shows "put_link T root (eaddr e) (of_nat (length (ebytes e))) m = Some (linked T root es e m)"
proof -
  note ok = log_okD [OF assms(2)]
  note [simp] = TBPSet_laws(1,2) [OF assms(1)] fld_TBPSet(1,2) [OF assms(1)] ok(1,8-10)
    link_field_obj(1) [OF assms(2)]
  let ?x = "link_field root es"
  have x: "obj_disjoint ?x 8 (root + 56) 8" "obj_disjoint (root + 8) 8 (root + 56) 8"
    using link_field_apart(2) [OF assms(2)] fields_apart [of 8 56 root]
    by (simp_all add: obj_disjoint_sym)
  let ?m = "TBPSet T (root + 8) (eaddr e) (TBPSet T ?x (eaddr e) m)"
  have "fld T ?m (root + 56) = of_nat (total_bytes es)"
    using x ok(6) by simp
  moreover have "TBPAdd T (root + 56) v ?m = Some (TBPSet T (root + 56) (fld T ?m (root + 56) + v) ?m)" for v
    by (rule TBPAdd_eq [OF assms(1)]) simp_all
  ultimately have add: "TBPAdd T (root + 56) (of_nat (length (ebytes e))) ?m = Some (linked T root es e m)"
    by (simp add: linked_def total_bytes_snoc)
  have "TBPGet T (root + 8) m = Some (tail_of es)" "deref64 T m (root + 8) = Some (tail_of es)"
    using TBPGet_fld [OF assms(1) ok(1,9)] deref64_fld [OF assms(1) ok(1,9)] ok(5) by simp_all
  then have "put_link T root (eaddr e) v m = TBPAdd T (root + 56) v ?m" for v
    using tail_of_eq_0 [OF ok(4)]
    by (cases "es = []") (simp_all add: put_link_def link_field_def tail_of_def)
  with add show ?thesis by simp
qed

lemma linked_frame:
  assumes "tbp_laws T own good" "log_ok T own good m root es"
  shows "good (linked T root es e m)" "own (linked T root es e m) = own m"
    "same_on T (\<lambda>x. own m x \<and> \<not> in_obj root 64 x \<and> \<not> in_obj (link_field root es) 8 x) m (linked T root es e m)"
    "fld T (linked T root es e m) (link_field root es) = eaddr e"
    "fld T (linked T root es e m) (root + 8) = eaddr e"
    "fld T (linked T root es e m) (root + 56) = of_nat (total_bytes (es @ [e]))"
    "es \<noteq> [] \<Longrightarrow> fld T (linked T root es e m) root = fld T m root"
proof -
  note ok = log_okD [OF assms(2)]
  note [simp] = TBPSet_laws(1,2) [OF assms(1)] fld_TBPSet(1,2) [OF assms(1)] ok(1,8-10)
    link_field_obj(1) [OF assms(2)]
  let ?x = "link_field root es"
  have x: "obj_disjoint (root + 8) 8 ?x 8" "obj_disjoint (root + 56) 8 ?x 8"
    using link_field_apart [OF assms(2)] by blast+
  have r: "obj_disjoint (root + 56) 8 (root + 8) 8" "obj_disjoint (root + 8) 8 root 8"
    "obj_disjoint (root + 56) 8 root 8"
    using fields_apart_0 [of 8 root] fields_apart_0 [of 56 root] fields_apart [of 56 8 root]
    by simp_all
  show "good (linked T root es e m)" "own (linked T root es e m) = own m"
    "fld T (linked T root es e m) ?x = eaddr e" "fld T (linked T root es e m) (root + 8) = eaddr e"
    "fld T (linked T root es e m) (root + 56) = of_nat (total_bytes (es @ [e]))"
    using x r(1) by (simp_all add: linked_def)
  show "fld T (linked T root es e m) root = fld T m root" if "es \<noteq> []"
  proof -
    have "obj_disjoint ?x 8 root 8"
      using link_field_obj(3) [OF assms(2) that] root_fields(1) unfolding obj_disjoint_def by blast
    with r show ?thesis by (simp add: linked_def)
  qed
  show "same_on T (\<lambda>x. own m x \<and> \<not> in_obj root 64 x \<and> \<not> in_obj (link_field root es) 8 x) m
     (linked T root es e m)"
    unfolding linked_def by (intro same_on_TBPSet [OF assms(1)]) (auto dest: root_fields)
qed

lemma sorted_wrt_disjointD:
  "sorted_wrt disjoint_objs (xs @ ys) \<Longrightarrow> x \<in> set xs \<Longrightarrow> y \<in> set ys \<Longrightarrow> disjoint_objs x y"
  by (simp add: sorted_wrt_append)

text \<open>Which objects the link writes leave alone.\<close>

lemma linked_spares_new:
  assumes "log_ok T own good m root es" "obj_owned (own m) a n"
    and "\<And>x. x \<in> set (log_objs root es) \<Longrightarrow> disjoint_objs x (a, n)"
  shows "obj_owned (\<lambda>x. own m x \<and> \<not> in_obj root 64 x \<and> \<not> in_obj (link_field root es) 8 x) a n"
proof -
  have "disjoint_objs (root, 64) (a, n)" by (rule assms(3)) (simp add: log_objs_def)
  moreover obtain x where x: "x \<in> set (log_objs root es)"
    "\<forall>y. in_obj (link_field root es) 8 y \<longrightarrow> in_obj (fst x) (snd x) y"
    using link_field_obj(2) [OF assms(1)] by blast
  moreover note assms(3) [OF x(1)]
  ultimately show ?thesis
    using assms(2) unfolding obj_owned_def obj_disjoint_def by (metis fst_conv snd_conv)
qed

lemma obj_disjoint_head: "obj_disjoint a 32 b n \<Longrightarrow> obj_disjoint a 8 b n"
  using in_obj_fields(1) unfolding obj_disjoint_def by blast

lemma obj_owned_spared:
  "obj_owned P a n \<Longrightarrow> obj_disjoint r k a n \<Longrightarrow> obj_disjoint f j a n \<Longrightarrow>
   obj_owned (\<lambda>y. P y \<and> \<not> in_obj r k y \<and> \<not> in_obj f j y) a n"
  by (simp add: obj_owned_conj obj_disjoint_owned)

lemma linked_spares_old:
  assumes "log_ok T own good m root (xs @ [l])" "x \<in> set (concat (map entry_objs xs)) \<or> x = (edata l, length (ebytes l)) \<or> x = (eaddr l + 8, 24)"
  shows "obj_owned (\<lambda>y. own m y \<and> \<not> in_obj root 64 y \<and> \<not> in_obj (link_field root (xs @ [l])) 8 y) (fst x) (snd x)"
proof -
  note ok = log_okD [OF assms(1)]
  have d: "sorted_wrt disjoint_objs (((root, 64) # concat (map entry_objs xs)) @ entry_objs l)"
    using ok(2) by (simp add: log_objs_def)
  have l8: "in_obj (eaddr l + 8) 24 y \<Longrightarrow> in_obj (eaddr l) 32 y" for y
    using in_obj_sub_word [of "eaddr l" 8 24 y 32] by simp
  have own_l: "obj_owned (own m) (eaddr l) 32" "obj_owned (own m) (edata l) (length (ebytes l))"
    using ok(3) [of "(eaddr l, 32)"] ok(3) [of "(edata l, length (ebytes l))"]
    by (simp_all add: log_objs_def entry_objs_def)
  have rl: "obj_disjoint root 64 (eaddr l) 32" "obj_disjoint root 64 (edata l) (length (ebytes l))"
    "obj_disjoint (eaddr l) 32 (edata l) (length (ebytes l))"
    using d by (simp_all add: sorted_wrt_append entry_objs_def)
  have apart: "obj_disjoint (eaddr l) 8 (eaddr l + 8) 24"
    using fields_disjoint [of 0 8 8 24 "eaddr l"] by simp
  have lf: "link_field root (xs @ [l]) = eaddr l" by (simp add: link_field_def)
  consider (old) "x \<in> set (concat (map entry_objs xs))" | (dat) "x = (edata l, length (ebytes l))"
    | (hdr) "x = (eaddr l + 8, 24)" using assms(2) by blast
  then show ?thesis
  proof cases
    case old
    have "disjoint_objs (root, 64) x" "disjoint_objs x (eaddr l, 32)"
      using d old by (auto simp: sorted_wrt_append entry_objs_def)
    moreover have "obj_owned (own m) (fst x) (snd x)"
      using ok(3) [of x] old by (auto simp: log_objs_def)
    ultimately show ?thesis
      by (simp add: lf obj_owned_spared obj_disjoint_head obj_disjoint_sym)
  next
    case dat
    with rl own_l show ?thesis by (simp add: lf obj_owned_spared obj_disjoint_head)
  next
    case hdr
    have "obj_owned (own m) (eaddr l + 8) 24" "obj_disjoint root 64 (eaddr l + 8) 24"
      using own_l(1) rl(1) l8 unfolding obj_owned_def obj_disjoint_def by blast+
    with hdr apart show ?thesis by (simp add: lf obj_owned_spared)
  qed
qed

lemma linked_seg:
  assumes "tbp_laws T own good" "log_ok T own good m root es"
    and e: "node_ok T m e" "fld T m (eaddr e) = 0"
      "\<And>x. x \<in> set (entry_objs e) \<Longrightarrow> obj_owned (own m) (fst x) (snd x)"
      "\<And>x y. x \<in> set (log_objs root es) \<Longrightarrow> y \<in> set (entry_objs e) \<Longrightarrow> disjoint_objs x y"
  defines "m' \<equiv> linked T root es e m"
  shows "seg T m' (fld T m' root) (es @ [e]) 0"
proof -
  note ok = log_okD [OF assms(2)] and fr = linked_frame [OF assms(1,2), of e, folded m'_def]
  let ?P = "\<lambda>x. own m x \<and> \<not> in_obj root 64 x \<and> \<not> in_obj (link_field root es) 8 x"
  have new: "obj_owned ?P (fst x) (snd x)" if "x \<in> set (entry_objs e)" for x
    using linked_spares_new [OF assms(2) e(3) [OF that]] e(4) [OF _ that] by (metis prod.collapse)
  have "seg T m (eaddr e) [e] 0" using e(1,2) by simp
  then have n: "seg T m' (eaddr e) [e] 0"
    by (rule seg_frame [OF fr(3), rotated]) (use new in simp)
  show ?thesis
  proof (cases es rule: rev_cases)
    case Nil
    then show ?thesis using n fr(4) by (simp add: link_field_def)
  next
    case (snoc xs l)
    have old: "seg T m (fld T m root) xs (eaddr l)" "node_ok T m l"
      using ok(4) by (auto simp: snoc seg_append)
    have sp: "obj_owned ?P (fst x) (snd x)" if "x \<in> set (concat (map entry_objs xs)) \<or>
        x = (edata l, length (ebytes l)) \<or> x = (eaddr l + 8, 24)" for x
      using linked_spares_old [OF assms(2) [unfolded snoc] that] by (simp only: snoc)
    have "seg T m' (fld T m root) xs (eaddr l)"
      by (rule seg_frame [OF fr(3) _ old(1)]) (use sp in blast)
    moreover have "node_ok T m' l"
      using sp [of "(edata l, length (ebytes l))"] sp [of "(eaddr l + 8, 24)"]
      by (intro node_ok_frame [OF fr(3) _ _ old(2)]) simp_all
    ultimately have "seg T m' (fld T m root) ((xs @ [l]) @ [e]) 0"
      using n fr(4) by (auto simp: seg_append snoc link_field_def)
    then show ?thesis using fr(7) by (simp add: snoc)
  qed
qed

lemma linked_log:
  assumes "tbp_laws T own good" "log_ok T own good m root es"
    and e: "node_ok T m e" "fld T m (eaddr e) = 0"
      "\<And>x. x \<in> set (entry_objs e) \<Longrightarrow> obj_owned (own m) (fst x) (snd x)"
      "\<And>x y. x \<in> set (log_objs root es) \<Longrightarrow> y \<in> set (entry_objs e) \<Longrightarrow> disjoint_objs x y"
    and "sorted_wrt disjoint_objs (entry_objs e)"
  shows "log_ok T own good (linked T root es e m) root (es @ [e])"
  unfolding log_ok_def
  using linked_seg [OF assms(1-6)] linked_frame [OF assms(1,2), of e] log_okD(2,3) [OF assms(2)] e(3,4)
    assms(7)
  by (auto simp: log_objs_snoc sorted_wrt_append tail_of_def)

section \<open>The persistent part of \<open>put\<close>\<close>

lemma log_entry_at:
  assumes "tbp_laws T own good" "log_ok T own good m root es" "e \<in> set es"
  shows "entry_at T m (eaddr e) (ekey e) (of_nat (length (ebytes e))) (edata e)"
proof -
  have "(eaddr e, 32) \<in> set (log_objs root es)"
    using assms(3) by (force simp: log_objs_def entry_objs_def)
  from log_okD(3) [OF assms(2) this] have o: "obj_owned (own m) (eaddr e) 32" by simp
  have "node_ok T m e" by (rule seg_nodes [OF log_okD(4) [OF assms(2)] assms(3)])
  then show ?thesis
    using obj_owned_fields(2-4) [OF o] deref64_fld [OF assms(1) log_okD(1) [OF assms(2)]]
    by (simp add: entry_at_def node_ok_def)
qed

lemma put_log:
  assumes "tbp_laws T own good" "log_ok T own good m root es"
    and "can_alloc T count m" "unat count \<le> length buf"
  obtains e m1 m2 where "put_entry T key_i buf count m = Some (eaddr e, m1)"
    "put_link T root (eaddr e) count m1 = Some m2" "log_ok T own good m2 root (es @ [e])"
    "ekey e = key_i" "ebytes e = take (unat count) buf"
proof -
  note ok = log_okD [OF assms(2)]
  obtain e m1 where m1: "put_entry T key_i buf count m = Some (eaddr e, m1)" "good m1"
    "\<And>x. own m x \<Longrightarrow> own m1 x" "same_on T (own m) m m1"
    and e: "ekey e = key_i" "ebytes e = take (unat count) buf"
    "\<And>x. x \<in> set (entry_objs e) \<Longrightarrow> obj_owned (own m1) (fst x) (snd x)"
    "\<And>x. x \<in> set (entry_objs e) \<Longrightarrow> obj_owned (\<lambda>y. \<not> own m y) (fst x) (snd x)"
    "sorted_wrt disjoint_objs (entry_objs e)" "node_ok T m1 e" "fld T m1 (eaddr e) = 0"
    by (rule put_entry_ok [OF assms(1) ok(1) assms(3,4), of key_i]) blast
  have log1: "log_ok T own good m1 root es"
    by (rule log_ok_frame [OF assms(2) m1(2-4)])
  have dj: "disjoint_objs x y" if "x \<in> set (log_objs root es)" "y \<in> set (entry_objs e)" for x y
    using ok(3) [OF that(1)] e(4) [OF that(2)] unfolding obj_owned_def obj_disjoint_def by blast
  have "log_ok T own good (linked T root es e m1) root (es @ [e])"
    by (rule linked_log [OF assms(1) log1 e(6,7,3) dj e(5)])
  moreover have "count = of_nat (length (ebytes e))"
    using assms(4) by (simp add: e(2))
  then have "put_link T root (eaddr e) count m1 = Some (linked T root es e m1)"
    using put_link_eq [OF assms(1) log1, of e] by simp
  ultimately show thesis
    using that m1(1) e(1,2) by blast
qed

section \<open>Sizes\<close>

lemma card_in_obj: "n \<le> 2 ^ 64 \<Longrightarrow> card {x. in_obj a n x} = n"
proof -
  assume n: "n \<le> 2 ^ 64"
  have "{x. in_obj a n x} = (\<lambda>i. a + of_nat i) ` {..<n}"
  proof (intro equalityI subsetI)
    fix x
    assume "x \<in> {x. in_obj a n x}"
    then show "x \<in> (\<lambda>i. a + of_nat i) ` {..<n}"
      by (intro image_eqI [of _ _ "unat (x - a)"]) (simp_all add: in_obj_def)
  qed (use n in \<open>auto intro: in_obj_add\<close>)
  moreover have "inj_on (\<lambda>i. a + of_nat i :: u64) {..<n}"
    using n by (auto simp: inj_on_def word_of_nat_eq_iff take_bit_nat_eq_self)
  ultimately show ?thesis by (simp add: card_image)
qed

lemma disjoint_objs_card:
  "sorted_wrt disjoint_objs xs \<Longrightarrow> (\<And>x. x \<in> set xs \<Longrightarrow> snd x \<le> 2 ^ 64) \<Longrightarrow>
   (\<Sum>x\<leftarrow>xs. snd x) = card (\<Union>x\<in>set xs. {y. in_obj (fst x) (snd x) y})"
proof (induction xs)
  case Nil
  show ?case by simp
next
  case (Cons x xs)
  have "{y. in_obj (fst x) (snd x) y} \<inter> (\<Union>x\<in>set xs. {y. in_obj (fst x) (snd x) y}) = {}"
    using Cons.prems(1) by (fastforce simp: obj_disjoint_def)
  then have "card (\<Union>x\<in>set (x # xs). {y. in_obj (fst x) (snd x) y}) =
      card {y. in_obj (fst x) (snd x) y} + card (\<Union>x\<in>set xs. {y. in_obj (fst x) (snd x) y})"
    by (simp add: card_Un_disjoint)
  with Cons show ?case by (simp add: card_in_obj)
qed

lemma log_total_bound:
  assumes "log_ok T own good m root es"
  shows "total_bytes es + 32 * length es + 64 \<le> 2 ^ 64"
proof -
  have n: "snd x \<le> 2 ^ 64" if "x \<in> set (log_objs root es)" for x
    using that seg_nodes [OF log_okD(4) [OF assms]]
    by (fastforce simp: log_objs_def entry_objs_def node_ok_def)
  have "(\<Sum>x\<leftarrow>log_objs root es. snd x) = 64 + (32 * length es + total_bytes es)"
    unfolding log_objs_def total_bytes_def
    by (induction es) (simp_all add: entry_objs_def)
  then have "64 + (32 * length es + total_bytes es)
      = card (\<Union>x\<in>set (log_objs root es). {y. in_obj (fst x) (snd x) y})"
    using disjoint_objs_card [OF log_okD(2) [OF assms] n] by simp
  also have "\<dots> \<le> card (UNIV :: u64 set)"
    by (rule card_mono) simp_all
  finally show ?thesis by (simp add: card_word)
qed

section \<open>Walking the log\<close>

text \<open>\<open>free_all\<close> subtracts each size from the counter and changes nothing else.\<close>

lemma free_all_walk:
  assumes "tbp_laws T own good" "obj_owned (own m) root 64" "good m" "seg T m p es 0"
    and "\<And>x. x \<in> set (concat (map entry_objs es)) \<Longrightarrow>
       obj_owned (own m) (fst x) (snd x) \<and> obj_disjoint root 64 (fst x) (snd x)"
  shows "\<exists>m'. free_all_loop T root p m = Some m' \<and> good m' \<and> own m' = own m \<and>
     same_on T (\<lambda>x. own m x \<and> \<not> in_obj (root + 56) 8 x) m m' \<and>
     fld T m' (root + 56) = fld T m (root + 56) - of_nat (total_bytes es)"
  using assms(2-)
proof (induction es arbitrary: p m)
  case Nil
  then show ?case by (simp add: free_all_loop.simps total_bytes_def)
next
  case (Cons e es)
  have p: "p = eaddr e" "p \<noteq> 0" "node_ok T m e" "seg T m (fld T m p) es 0"
    using Cons.prems(3) by (auto simp: node_ok_def)
  have oe: "obj_owned (own m) (eaddr e) 32" "obj_disjoint root 64 (eaddr e) 32"
    using Cons.prems(4) [of "(eaddr e, 32)"] by (simp_all add: entry_objs_def)
  have o56: "obj_owned (own m) (root + 56) 8"
    using obj_owned_sub [OF Cons.prems(1), of 56 8] by simp
  define v where "v = (of_nat (length (ebytes e)) :: u64)"
  define m1 where "m1 = TBPSet T (root + 56) (fld T m (root + 56) - v) m"
  note s1 = TBPSet_laws [OF assms(1) Cons.prems(2) o56, of "fld T m (root + 56) - v", folded m1_def]
  have step: "free_all_loop T root p m = free_all_loop T root (fld T m p) m1"
    using p(1-3) TBPGet_fld [OF assms(1) Cons.prems(2)] obj_owned_fields [OF oe(1)]
    by (subst free_all_loop.simps)
      (simp add: TBPSub_eq [OF assms(1) Cons.prems(2) o56] node_ok_def m1_def v_def)
  have "seg T m1 (fld T m p) es 0"
  proof (rule seg_frame [OF s1(3) _ p(4)])
    fix x
    assume "x \<in> set (concat (map entry_objs es))"
    with Cons.prems(4) [of x] show "obj_owned (\<lambda>x. own m x \<and> \<not> in_obj (root + 56) 8 x) (fst x) (snd x)"
      using root_fields(3) unfolding obj_owned_def obj_disjoint_def by auto
  qed
  then obtain m' where "free_all_loop T root (fld T m p) m1 = Some m'" "good m'" "own m' = own m"
    "same_on T (\<lambda>x. own m x \<and> \<not> in_obj (root + 56) 8 x) m1 m'"
    "fld T m' (root + 56) = fld T m (root + 56) - v - of_nat (total_bytes es)"
    using Cons.IH [OF _ s1(1), of "fld T m p"] Cons.prems(1,4) s1(2,4) by auto
  then show ?case
    using step s1(3) same_on_trans by (force simp: total_bytes_def v_def)
qed

lemma free_all_log:
  assumes "tbp_laws T own good" "log_ok T own good m root es"
  obtains m' where "TBPGet T root m = Some (fld T m root)"
    "free_all_loop T root (fld T m root) m = Some m'"
    "TBPGet T (root + 56) (TBPSet T (root + 8) 0 (TBPSet T root 0 m')) = Some 0"
    "log_ok T own good (TBPSet T (root + 8) 0 (TBPSet T root 0 m')) root []"
proof -
  note ok = log_okD [OF assms(2)]
  have objs: "obj_owned (own m) (fst x) (snd x) \<and> obj_disjoint root 64 (fst x) (snd x)"
    if "x \<in> set (concat (map entry_objs es))" for x
    using that ok(2,3) by (auto simp: log_objs_def)
  obtain m' where m': "free_all_loop T root (fld T m root) m = Some m'" "good m'" "own m' = own m"
    "fld T m' (root + 56) = 0"
    using free_all_walk [OF assms(1) ok(7,1,4) objs] ok(6) by auto
  note [simp] = TBPSet_laws(1,2) [OF assms(1)] fld_TBPSet(1,2) [OF assms(1)] ok(7-10) m'(2-4)
  have f: "obj_disjoint root 8 (root + 56) 8" "obj_disjoint (root + 8) 8 (root + 56) 8"
    "obj_disjoint (root + 8) 8 root 8"
    using fields_apart_0 [of 56 root] fields_apart_0 [of 8 root] fields_apart [of 8 56 root] by simp_all
  then have z: "fld T (TBPSet T (root + 8) 0 (TBPSet T root 0 m')) (root + 56) = 0" by simp
  have "TBPGet T (root + 56) (TBPSet T (root + 8) 0 (TBPSet T root 0 m')) = Some 0"
    using TBPGet_fld [OF assms(1), of "TBPSet T (root + 8) 0 (TBPSet T root 0 m')" "root + 56"] z by simp
  moreover have "log_ok T own good (TBPSet T (root + 8) 0 (TBPSet T root 0 m')) root []"
    using z f by (simp add: log_ok_def log_objs_def tail_of_def total_bytes_def)
  ultimately show thesis
    using that m'(1) TBPGet_fld [OF assms(1) ok(1,8)] by blast
qed

text \<open>\<open>dump_all\<close> prints every record, when all of them hold a null byte.\<close>

lemma dump_all_walk:
  assumes "tbp_laws T own good" "good m" "seg T m p es 0"
    and "\<And>x. x \<in> set (concat (map entry_objs es)) \<Longrightarrow> obj_owned (own m) (fst x) (snd x)"
    and "\<And>e. e \<in> set es \<Longrightarrow> grant (length (ebytes e))"
  shows "dump_all_loop T grant m p out =
     (if \<forall>e\<in>set es. 0 \<in> set (ebytes e)
      then Some (out @ map (\<lambda>e. KeyValue (ekey e) (takeWhile (\<lambda>b. b \<noteq> 0) (ebytes e))) es) else None)"
  using assms(3-)
proof (induction es arbitrary: p out)
  case Nil
  then show ?case by (simp add: dump_all_loop.simps)
next
  case (Cons e es)
  have p: "p = eaddr e" "p \<noteq> 0" "node_ok T m e" "seg T m (fld T m p) es 0"
    using Cons.prems(1) by (auto simp: node_ok_def)
  let ?n = "length (ebytes e)"
  have oe: "obj_owned (own m) (eaddr e) 32" "obj_owned (own m) (edata e) ?n"
    using Cons.prems(2) [of "(eaddr e, 32)"] Cons.prems(2) [of "(edata e, ?n)"]
    by (simp_all add: entry_objs_def)
  have n: "unat (of_nat ?n :: u64) = ?n" "?n < 2 ^ 64"
    using p(3) by (simp_all add: node_ok_def unat_of_nat)
  have "TBPLoad T (edata e) (of_nat ?n) m = (0, ebytes e)"
    using assms(1,2) oe(2) n(1) p(3)
    unfolding tbp_laws_def load_law_def node_ok_def rd_def by simp
  moreover have "uint (of_nat ?n :: u64) = int ?n"
    by (simp only: n(1) uint_nat)
  then have "c_malloc grant (uint (of_nat ?n :: u64)) = Some (replicate ?n None)"
    using Cons.prems(3) [of e] n(2) by (simp add: c_malloc_def Let_def)
  ultimately have step: "dump_all_loop T grant m p out =
     (if 0 \<in> set (ebytes e)
      then dump_all_loop T grant m (fld T m p) (out @ [KeyValue (ekey e) (takeWhile (\<lambda>b. b \<noteq> 0) (ebytes e))])
      else None)"
    using p(1-3) TBPGet_fld [OF assms(1,2)] deref64_fld [OF assms(1,2)] obj_owned_fields [OF oe(1)]
    by (subst dump_all_loop.simps) (simp add: node_ok_def c_string_def)
  show ?case
    unfolding step using Cons.IH [OF p(4)] Cons.prems(2,3) by auto
qed

end
