(* ===== verification/PmemSim.thy ===== *)
theory PmemSim
  imports PmemMemory
begin

text \<open>
  A small instance of the persistent memory interface: a growing array of
  bytes that starts at address 4096, every allocation at its end, at most
  \<open>2 ^ 32\<close> bytes.  It shows that \<open>tbp_laws\<close> can be met and gives the
  concrete inputs of the store's theorems something to run on.
\<close>

type_synonym sim = "byte list"

definition sim_index :: "u64 \<Rightarrow> nat" where
  "sim_index x = unat (x - 4096)"

definition sim_own :: "sim \<Rightarrow> u64 \<Rightarrow> bool" where
  "sim_own m x \<longleftrightarrow> sim_index x < length m"

definition sim_good :: "sim \<Rightarrow> bool" where
  "sim_good m \<longleftrightarrow> length m \<le> 2 ^ 32"

definition sim_alloc :: "u64 \<Rightarrow> sim \<Rightarrow> u64 \<times> sim" where
  "sim_alloc n m =
     (if n \<le> 2 ^ 32 \<and> of_nat (length m) + n \<le> 2 ^ 32
      then (4096 + of_nat (length m), m @ replicate (unat n) 0) else (0, m))"

definition sim_load :: "u64 \<Rightarrow> u64 \<Rightarrow> sim \<Rightarrow> int \<times> byte list" where
  "sim_load a n m =
     (if n = 0 \<or> sim_index a + unat n \<le> length m then (0, take (unat n) (drop (sim_index a) m))
      else (- 1, []))"

definition sim_store :: "u64 \<Rightarrow> byte list \<Rightarrow> sim \<Rightarrow> int \<times> sim" where
  "sim_store a bs m =
     (if bs = [] then (0, m)
      else if sim_index a + length bs \<le> length m
      then (0, take (sim_index a) m @ bs @ drop (sim_index a + length bs) m) else (- 1, m))"

definition sim_direct :: "sim \<Rightarrow> u64 \<Rightarrow> byte option" where
  "sim_direct m x = (if sim_own m x then Some (m ! sim_index x) else None)"

definition sim_tbp :: "sim tbp" where
  "sim_tbp = \<lparr>TBPAlloc = sim_alloc, TBPLoad = sim_load, TBPStore = sim_store, direct = sim_direct\<rparr>"

lemmas sim_defs = sim_tbp_def sim_alloc_def sim_load_def sim_store_def sim_direct_def

lemma unat_offset: "k + i < 2 ^ 64 \<Longrightarrow> unat (x - a) = k \<Longrightarrow> unat (x + of_nat i - a :: u64) = k + i"
proof -
  assume "k + i < 2 ^ 64" "unat (x - a) = k"
  moreover have "x + of_nat i - a = of_nat (unat (x - a) + i)" by simp
  ultimately show ?thesis by (simp only: unat_of_nat) (simp add: take_bit_nat_eq_self)
qed

text \<open>An owned object lies in the array as one piece.\<close>

lemma sim_owned_range:
  assumes "sim_good m" "obj_owned (sim_own m) a n" "0 < n"
  shows "sim_index a + n \<le> length m"
proof (rule ccontr)
  assume "\<not> ?thesis"
  moreover have k: "sim_index a < length m"
    using assms(2,3) by (simp add: obj_owned_def sim_own_def in_obj_def)
  ultimately obtain i where i: "i < n" "sim_index a + i = length m"
    by (metis add_diff_inverse_nat less_diff_conv2 linorder_not_le not_less_iff_gr_or_eq less_imp_le_nat
        nat_add_left_cancel_less)
  then have l: "sim_index a + i < 2 ^ 64" using assms(1) by (simp add: sim_good_def)
  have "in_obj a n (a + of_nat i)" using i l by (intro in_obj_add) simp_all
  with assms(2) have "sim_index (a + of_nat i) < length m" by (simp add: obj_owned_def sim_own_def)
  moreover have "sim_index (a + of_nat i) = sim_index a + i"
    unfolding sim_index_def by (rule unat_offset) (use l in \<open>simp_all add: sim_index_def\<close>)
  ultimately show False using i(2) by simp
qed

lemma sim_index_obj:
  assumes "sim_good m" "sim_index a + n \<le> length m" "in_obj a n x"
  shows "sim_index x = sim_index a + unat (x - a)"
proof -
  have "unat (x - a) < n" using assms(3) by (simp add: in_obj_def)
  then have "sim_index a + unat (x - a) < 2 ^ 64" using assms(1,2) by (simp add: sim_good_def)
  from unat_offset [OF this, of a 4096] show ?thesis by (simp add: sim_index_def)
qed

lemma sim_alloc_law: "alloc_law sim_tbp sim_own sim_good"
  unfolding alloc_law_def
proof (intro allI impI)
  fix m n p m'
  assume g: "sim_good m" and a: "TBPAlloc sim_tbp n m = (p, m')"
  show "sim_good m' \<and> (\<forall>x. sim_own m x \<longrightarrow> sim_own m' x \<and> direct sim_tbp m' x = direct sim_tbp m x) \<and>
      (p \<noteq> 0 \<longrightarrow> (\<forall>x. in_obj p (unat n) x \<longrightarrow> sim_own m' x \<and> \<not> sim_own m x))"
  proof (cases "n \<le> 2 ^ 32 \<and> of_nat (length m) + n \<le> 2 ^ 32")
    case False
    with a g show ?thesis by (auto simp: sim_defs)
  next
    case True
    then have p: "p = 4096 + of_nat (length m)" "m' = m @ replicate (unat n) 0"
      using a by (simp_all add: sim_defs)
    have l: "length m \<le> 2 ^ 32" "unat n \<le> 2 ^ 32"
      using g True by (simp_all add: sim_good_def word_le_nat_alt)
    have "unat (of_nat (length m) + n) = length m + unat n"
      using l by (subst unat_add_lem [THEN iffD1]) (simp_all add: unat_of_nat)
    then have n: "length m + unat n \<le> 2 ^ 32"
      using True by (simp add: word_le_nat_alt)
    have ip: "sim_index p = length m"
      using l by (simp add: p sim_index_def unat_of_nat)
    have "sim_good m'" using n by (simp add: sim_good_def p)
    moreover have "sim_own m' x \<and> \<not> sim_own m x" if "in_obj p (unat n) x" for x
      using sim_index_obj [OF \<open>sim_good m'\<close> _ that] ip that
      by (simp add: p(2) sim_own_def) (simp add: in_obj_def p(1))
    ultimately show ?thesis by (auto simp: p sim_own_def sim_defs nth_append)
  qed
qed

lemma sim_store_law: "store_law sim_tbp sim_own sim_good"
  unfolding store_law_def
proof (intro allI impI)
  fix m a and bs :: "byte list"
  assume g: "sim_good m" and o: "obj_owned (sim_own m) a (length bs)"
  show "\<exists>m'. TBPStore sim_tbp a bs m = (0, m') \<and> sim_good m' \<and> sim_own m' = sim_own m \<and>
      (\<forall>x. sim_own m x \<longrightarrow> direct sim_tbp m' x =
         (if in_obj a (length bs) x then Some (bs ! unat (x - a)) else direct sim_tbp m x))"
  proof (cases "bs = []")
    case True
    with g show ?thesis by (simp add: sim_defs in_obj_def)
  next
    case False
    let ?k = "sim_index a"
    have r: "?k + length bs \<le> length m" using sim_owned_range [OF g o] False by simp
    let ?m = "take ?k m @ bs @ drop (?k + length bs) m"
    have len: "length ?m = length m" using r by simp
    have "?m ! sim_index x = (if in_obj a (length bs) x then bs ! unat (x - a) else m ! sim_index x)"
      if "sim_own m x" for x
    proof (cases "in_obj a (length bs) x")
      case True
      with sim_index_obj [OF g r True] r show ?thesis
        by (simp add: nth_append in_obj_def)
    next
      case out: False
      have "\<not> (?k \<le> sim_index x \<and> sim_index x < ?k + length bs)"
      proof
        assume x: "?k \<le> sim_index x \<and> sim_index x < ?k + length bs"
        then have "x - a = of_nat (sim_index x - ?k)"
          by (simp add: sim_index_def of_nat_diff)
        then have "unat (x - a) \<le> sim_index x - ?k"
          by (simp only: unat_of_nat mod_less_eq_dividend)
        with x out show False unfolding in_obj_def by linarith
      qed
      with out that r show ?thesis by (auto simp: nth_append sim_own_def)
    qed
    with False r len g show ?thesis
      by (simp add: sim_defs sim_good_def sim_own_def [abs_def])
  qed
qed

lemma sim_load_law: "load_law sim_tbp sim_own sim_good"
  unfolding load_law_def
proof (intro allI impI)
  fix m a and n :: u64
  assume g: "sim_good m" and o: "obj_owned (sim_own m) a (unat n)"
  show "TBPLoad sim_tbp a n m = (0, map (\<lambda>i. the (direct sim_tbp m (a + of_nat i))) [0..<unat n])"
  proof (cases "n = 0")
    case True
    then show ?thesis by (simp add: sim_defs)
  next
    case False
    then have r: "sim_index a + unat n \<le> length m"
      using sim_owned_range [OF g o] by (simp add: unat_gt_0)
    have "sim_index (a + of_nat i) = sim_index a + i" if "i < unat n" for i
      unfolding sim_index_def
      by (rule unat_offset) (use that r g in \<open>simp_all add: sim_index_def sim_good_def\<close>)
    with False r show ?thesis
      by (intro prod_eqI nth_equalityI) (simp_all add: sim_defs sim_own_def)
  qed
qed

lemma sim_laws: "tbp_laws sim_tbp sim_own sim_good"
  using sim_alloc_law sim_store_law sim_load_law
  by (simp add: tbp_laws_def mapped_law_def sim_defs)

end
