(* ===== verification/PmemStore.thy ===== *)
theory PmemStore
  imports PmemLog PmemSim
begin

text \<open>
  The store as a whole.  \<open>kv_repr\<close> joins the persistent log and the volatile
  index and relates the class state to its abstract content, the sequence of
  \<open>(key hash, bytes)\<close> records put so far.  Every operation of \<open>pmemkv\<close> is
  proved against that abstraction, on success and on failure, and the
  interface the callers rely on is the locale \<open>block_store\<close>, interpreted on
  the model.  The properties themselves are in theory \<open>PmemStoreProps\<close>.
\<close>

section \<open>The abstract store\<close>

type_synonym log = "(u64 \<times> byte list) list"

definition log_of :: "entry list \<Rightarrow> log" where
  "log_of es = map (\<lambda>e. (ekey e, ebytes e)) es"

definition blocks :: "u64 \<Rightarrow> log \<Rightarrow> byte list list" where
  "blocks k lg = map snd (filter (\<lambda>r. fst r = k) lg)"

definition value_of :: "u64 \<Rightarrow> log \<Rightarrow> byte list" where
  "value_of k lg = concat (blocks k lg)"

text \<open>The whole blocks that fit in \<open>n\<close> bytes, taken in order.\<close>

fun fitting :: "nat \<Rightarrow> byte list list \<Rightarrow> byte list" where
  "fitting n [] = []"
| "fitting n (b # bs) = (if length b \<le> n then b @ fitting (n - length b) bs else [])"

definition hash_of :: "string \<Rightarrow> u64" where
  "hash_of key = xxh_spec (map byte_of_char key) 0 little_endian"

lemma key_hash_eq: "key_hash key = Some (hash_of key)"
  by (simp add: key_hash_def hash_of_def xxhash_string_def xxhash_def endian_align_eq_spec
      get_endian_def XXH_CPU_LITTLE_ENDIAN_def)

lemma fitting_all: "length (concat bs) \<le> n \<Longrightarrow> fitting n bs = concat bs"
  by (induction n bs rule: fitting.induct) auto

lemma length_fitting: "length (fitting n bs) \<le> n"
  by (induction n bs rule: fitting.induct) auto

lemma blocks_snoc: "blocks k (lg @ [(k', b)]) = blocks k lg @ (if k' = k then [b] else [])"
  by (simp add: blocks_def)

section \<open>The representation\<close>

definition blocks_at :: "u64 \<Rightarrow> entry list \<Rightarrow> (u64 \<times> u64) list" where
  "blocks_at k es = map (\<lambda>e. (edata e, of_nat (length (ebytes e)))) (filter (\<lambda>e. ekey e = k) es)"

definition kv_ok ::
  "'m tbp \<Rightarrow> 'c cuckoo \<Rightarrow> ('m \<Rightarrow> u64 \<Rightarrow> bool) \<Rightarrow> ('m \<Rightarrow> bool) \<Rightarrow> ('m, 'c) pmemkv \<Rightarrow>
   entry list \<Rightarrow> (u64 \<Rightarrow> node list) \<Rightarrow> bool" where
  "kv_ok T C own good s es ch \<longleftrightarrow> log_ok T own good (pm s) (bp s) es \<and> kv_index C s ch \<and>
     (\<forall>k. map snd (ch k) = blocks_at k es)"

definition kv_repr ::
  "'m tbp \<Rightarrow> 'c cuckoo \<Rightarrow> ('m \<Rightarrow> u64 \<Rightarrow> bool) \<Rightarrow> ('m \<Rightarrow> bool) \<Rightarrow> ('m, 'c) pmemkv \<Rightarrow> log \<Rightarrow> bool" where
  "kv_repr T C own good s lg \<longleftrightarrow> tbp_laws T own good \<and> cuckoo_laws C \<and>
     (\<exists>es ch. kv_ok T C own good s es ch \<and> log_of es = lg)"

lemma kv_reprE:
  assumes "kv_repr T C own good s lg"
  obtains es ch where "tbp_laws T own good" "cuckoo_laws C" "log_ok T own good (pm s) (bp s) es"
    "kv_index C s ch" "\<And>k. map snd (ch k) = blocks_at k es" "log_of es = lg"
  using assms by (auto simp: kv_repr_def kv_ok_def)

lemma kv_reprI:
  "tbp_laws T own good \<Longrightarrow> cuckoo_laws C \<Longrightarrow> log_ok T own good (pm s) (bp s) es \<Longrightarrow> kv_index C s ch \<Longrightarrow>
   (\<And>k. map snd (ch k) = blocks_at k es) \<Longrightarrow> log_of es = lg \<Longrightarrow> kv_repr T C own good s lg"
  by (auto simp: kv_repr_def kv_ok_def)

lemma blocks_at_log:
  assumes "map snd ns = blocks_at k es"
  shows "length ns = length (blocks k (log_of es))" "ns = [] \<longleftrightarrow> blocks k (log_of es) = []"
proof -
  show l: "length ns = length (blocks k (log_of es))"
    using arg_cong [OF assms, of length] by (simp add: blocks_at_def blocks_def log_of_def filter_map comp_def)
  then show "ns = [] \<longleftrightarrow> blocks k (log_of es) = []" by (metis length_0_conv)
qed

text \<open>The node of a key points at the bytes of the corresponding block.\<close>

definition node_bytes :: "'m tbp \<Rightarrow> 'm \<Rightarrow> node \<Rightarrow> byte list \<Rightarrow> bool" where
  "node_bytes T m n bs \<longleftrightarrow> peek (direct T m) (fst (snd n)) (unat (snd (snd n))) = Some bs \<and>
     length bs = unat (snd (snd n))"

lemma log_node_bytes:
  assumes "tbp_laws T own good" "log_ok T own good m root es" "map snd ns = blocks_at k es"
  shows "list_all2 (node_bytes T m) ns (blocks k (log_of es))"
proof -
  have e: "peek (direct T m) (edata e) (length (ebytes e)) = Some (ebytes e) \<and>
      unat (of_nat (length (ebytes e)) :: u64) = length (ebytes e)" if "e \<in> set es" for e
  proof -
    have n: "node_ok T m e" by (rule seg_nodes [OF log_okD(4) [OF assms(2)] that])
    have "(edata e, length (ebytes e)) \<in> set (log_objs root es)"
      using that by (force simp: log_objs_def entry_objs_def)
    from log_okD(3) [OF assms(2) this] n show ?thesis
      using peek_rd [OF assms(1) log_okD(1) [OF assms(2)], of "edata e" "length (ebytes e)"]
      by (simp add: node_ok_def unat_of_nat)
  qed
  have "list_all2 (\<lambda>p bs. peek (direct T m) (fst p) (unat (snd p)) = Some bs \<and> length bs = unat (snd p))
      (blocks_at k es) (blocks k (log_of es))"
    using e by (auto simp: blocks_at_def blocks_def log_of_def filter_map comp_def list_all2_conv_all_nth
        dest!: nth_mem)
  then show ?thesis
    unfolding assms(3) [symmetric] node_bytes_def [abs_def] by (simp add: list_all2_map1)
qed

section \<open>Reading\<close>

lemma total_value:
  "sum_list (map length (blocks k (log_of es))) \<le> total_bytes es"
  by (induction es) (auto simp: blocks_def log_of_def total_bytes_def)

lemma get_loop_correct:
  assumes "chain (metas (heap s)) p ns" "list_all2 (node_bytes T (pm s)) ns bss"
    and "unat ro + sum_list (map length bss) < 2 ^ 64"
    and "unat ro \<le> unat (mb_size mb)" "unat (mb_size mb) \<le> length (mb_data mb)"
  shows "get_loop T s p ro mb =
     (let F = fitting (unat (mb_size mb) - unat ro) bss in
      Some (mb\<lparr>mb_data := take (unat ro) (mb_data mb) @ F @ drop (unat ro + length F) (mb_data mb)\<rparr>))"
  using assms
proof (induction ns arbitrary: p ro mb bss)
  case Nil
  then show ?case by (simp add: get_loop.simps)
next
  case (Cons n ns)
  then obtain bs bss' where bss: "bss = bs # bss'" "node_bytes T (pm s) n bs"
    "list_all2 (node_bytes T (pm s)) ns bss'" by (auto simp: list_all2_Cons1)
  from Cons.prems(1) obtain b where b: "metas (heap s) p = Some b" "p \<noteq> 0" "off b = fst (snd n)"
    "bm_size b = snd (snd n)" "chain (metas (heap s)) (bm_next b) ns"
    by (auto split: option.splits)
  have pk: "peek (direct T (pm s)) (off b) (unat (bm_size b)) = Some bs" "length bs = unat (bm_size b)"
    using bss(2) by (simp_all add: node_bytes_def b)
  have ro: "unat (ro + bm_size b) = unat ro + length bs"
    using Cons.prems(3) pk(2) by (subst unat_add_lem [THEN iffD1]) (simp_all add: bss(1))
  show ?case
  proof (cases "unat ro + length bs \<le> unat (mb_size mb)")
    case False
    then have "\<not> ro + bm_size b \<le> mb_size mb" using ro by (simp add: word_le_nat_alt)
    then have "get_loop T s p ro mb = Some mb"
      by (subst get_loop.simps) (simp add: b(1,2))
    with False Cons.prems(4) show ?thesis by (simp add: bss(1))
  next
    case True
    let ?d = "take (unat ro) (mb_data mb) @ bs @ drop (unat ro + length bs) (mb_data mb)"
    have le: "ro + bm_size b \<le> mb_size mb" using True ro by (simp add: word_le_nat_alt)
    have "c_memcpy (mb_data mb) (int (unat ro)) bs (int 0) (int (length bs)) = Some ?d"
      using c_memcpy_total [of "unat ro" "length bs" "mb_data mb" 0 bs] True Cons.prems(5) by simp
    then have cp: "c_memcpy (mb_data mb) (uint ro) bs 0 (uint (bm_size b)) = Some ?d"
      by (simp add: pk(2))
    have "get_loop T s p ro mb = get_loop T s (bm_next b) (ro + bm_size b) (mb\<lparr>mb_data := ?d\<rparr>)"
      by (subst get_loop.simps) (simp add: b(1,2) pk(1) cp le)
    also have "\<dots> = (let F = fitting (unat (mb_size mb) - (unat ro + length bs)) bss' in
      Some (mb\<lparr>mb_data := take (unat ro + length bs) ?d @ F @ drop (unat ro + length bs + length F) ?d\<rparr>))"
      using Cons.IH [OF b(5) bss(3), of "ro + bm_size b" "mb\<lparr>mb_data := ?d\<rparr>"] True Cons.prems(3-5)
      by (simp add: ro bss(1))
    finally show ?thesis
      using True Cons.prems(4,5) by (simp add: bss(1) Let_def ac_simps)
  qed
qed

text \<open>Lookups of the index, in terms of the abstract log.\<close>

lemma kv_lookup:
  assumes "cuckoo_laws C" "kv_index C s ch" "map snd (ch k) = blocks_at k es"
  shows "cm_contains C (index_map s) k \<longleftrightarrow> blocks k (log_of es) \<noteq> []"
    and "blocks k (log_of es) \<noteq> [] \<Longrightarrow> \<exists>l. cm_find C (index_map s) k = Some l \<and>
         lists (heap s) l = Some (header_of (ch k)) \<and> chain (metas (heap s)) (fst (hd (ch k))) (ch k)"
  using blocks_at_log(2) [OF assms(3)] assms(2) index_okD(1-3) [of C "heap s" "index_map s" ch k]
  by (auto simp: cuckoo_contains [OF assms(1)] kv_index_def)

lemma header_total:
  assumes "map snd ns = blocks_at k es"
  shows "total_size (header_of ns) = of_nat (length (value_of k (log_of es)))"
    "bml_length (header_of ns) = of_nat (length (blocks k (log_of es)))"
proof -
  have "sum_list (map (\<lambda>n. snd (snd n)) ns) = sum_list (map snd (blocks_at k es))"
    by (simp add: comp_def flip: assms)
  also have "\<dots> = of_nat (length (value_of k (log_of es)))"
    unfolding blocks_at_def value_of_def blocks_def log_of_def by (induction es) auto
  finally show "total_size (header_of ns) = of_nat (length (value_of k (log_of es)))"
    by (simp add: header_of_def)
  show "bml_length (header_of ns) = of_nat (length (blocks k (log_of es)))"
    using blocks_at_log(1) [OF assms] by (simp add: header_of_def)
qed

section \<open>Operations against the abstract store\<close>

lemma new_repr:
  assumes "tbp_laws T own good" "cuckoo_laws C" "good m" "alloc_ok T 64 m"
  shows "kv_repr T C own good (pmemkv_new T C m tape) []"
proof (rule kv_reprI [OF assms(1,2)])
  let ?s = "\<lparr>pm = m, bp = 0, heap = \<lparr>metas = Map.empty, lists = Map.empty, answers = tape\<rparr>,
       index_map = cm_empty C, bytes_allocated = 0\<rparr>"
  show "log_ok T own good (pm (pmemkv_new T C m tape)) (bp (pmemkv_new T C m tape)) []"
    using create_log [OF assms(1), of ?s] assms(3,4) by (simp add: pmemkv_new_def)
  show "kv_index C (pmemkv_new T C m tape) (\<lambda>_. [])"
    by (simp add: pmemkv_new_def create_def kv_index_def index_ok_def index_bytes_def
        cuckoo_clear [OF assms(2)] split: prod.splits)
qed (simp_all add: blocks_at_def log_of_def)

definition put_post ::
  "'m tbp \<Rightarrow> 'c cuckoo \<Rightarrow> ('m \<Rightarrow> u64 \<Rightarrow> bool) \<Rightarrow> ('m \<Rightarrow> bool) \<Rightarrow> log \<Rightarrow> string \<Rightarrow> byte list \<Rightarrow>
   ('m, 'c) pmemkv \<Rightarrow> int \<Rightarrow> ('m, 'c) pmemkv \<Rightarrow> bool" where
  "put_post T C own good lg key bs s rc s' \<longleftrightarrow>
     (if rc = 0 then kv_repr T C own good s' (lg @ [(hash_of key, bs)])
      else rc = - 1 \<and> index_kept s s' \<and>
        (\<exists>es. log_ok T own good (pm s') (bp s') es \<and> log_of es = lg @ [(hash_of key, bs)])) \<and>
     (can_malloc (mallocs_needed C (index_map s) (hash_of key)) (heap s) \<longrightarrow> rc = 0)"

lemma put_correct:
  assumes "kv_repr T C own good s lg" "can_alloc T count (pm s)" "unat count \<le> length buf"
  shows "\<exists>rc s'. put T C key buf count s = Some (rc, s') \<and>
     put_post T C own good lg key (take (unat count) buf) s rc s'"
proof -
  obtain es ch where laws: "tbp_laws T own good" "cuckoo_laws C" and log: "log_ok T own good (pm s) (bp s) es"
    and ix: "kv_index C s ch" "\<And>k. map snd (ch k) = blocks_at k es" and lg: "log_of es = lg"
    by (rule kv_reprE [OF assms(1)]) blast
  let ?k = "hash_of key" and ?bs = "take (unat count) buf"
  obtain e m1 m2 where e: "put_entry T ?k buf count (pm s) = Some (eaddr e, m1)"
    "put_link T (bp s) (eaddr e) count m1 = Some m2" "log_ok T own good m2 (bp s) (es @ [e])"
    "ekey e = ?k" "ebytes e = ?bs"
    by (rule put_log [OF laws(1) log assms(2,3), of ?k])
  have c: "of_nat (length (ebytes e)) = count" using assms(3) by (simp add: e(5))
  let ?s = "s\<lparr>pm := m2\<rparr>"
  have "entry_at T (pm ?s) (eaddr e) ?k count (edata e)"
    using log_entry_at [OF laws(1) e(3), of e] by (simp add: e(4) c)
  moreover have "kv_index C ?s ch" using ix(1) by (simp add: kv_index_def)
  ultimately obtain rc s' where u: "update_meta T C (eaddr e) ?s = Some (rc, s')"
    "update_meta_post C ch ?k count (edata e) ?s rc s'"
    using update_meta_correct [OF laws(2)] by blast
  have put: "put T C key buf count s = Some (rc, s')"
    using u by (auto simp: put_def key_hash_eq e(1,2) update_meta_post_def split: if_splits)
  have lg': "log_of (es @ [e]) = lg @ [(?k, ?bs)]"
    using lg by (simp add: log_of_def e(4,5))
  have "kv_repr T C own good s' (lg @ [(?k, ?bs)])" if "rc = 0"
  proof -
    from u(2) that obtain bm where "kv_index C s' (ch(?k := ch ?k @ [(bm, edata e, count)]))"
      "pm s' = m2" "bp s' = bp s" by (auto simp: update_meta_post_def)
    then show ?thesis
      using ix(2) e(3,4) lg' c by (intro kv_reprI [OF laws, of _ "es @ [e]"]) (auto simp: blocks_at_def)
  qed
  moreover have "rc = - 1 \<and> index_kept s s' \<and> log_ok T own good (pm s') (bp s') (es @ [e])" if "rc \<noteq> 0"
    using u(2) that e(3) by (auto simp: update_meta_post_def index_kept_def)
  ultimately show ?thesis
    using put u(2) lg' by (auto simp: put_post_def update_meta_post_def)
qed

lemma put_no_memory:
  assumes "kv_repr T C own good s lg" "can_alloc T count (pm s)" "unat count \<le> length buf"
    and "answers (heap s) = []"
  shows "\<exists>m. put T C key buf count s = Some (- 1, s\<lparr>pm := m\<rparr>)"
proof -
  obtain es where laws: "tbp_laws T own good" and log: "log_ok T own good (pm s) (bp s) es"
    by (rule kv_reprE [OF assms(1)]) blast
  let ?k = "hash_of key"
  obtain e m1 m2 where e: "put_entry T ?k buf count (pm s) = Some (eaddr e, m1)"
    "put_link T (bp s) (eaddr e) count m1 = Some m2" "log_ok T own good m2 (bp s) (es @ [e])"
    by (rule put_log [OF laws log assms(2,3), of ?k])
  have "update_meta T C (eaddr e) (s\<lparr>pm := m2\<rparr>) = Some (- 1, s\<lparr>pm := m2\<rparr>)"
    by (rule update_meta_no_memory [where sz = "of_nat (length (ebytes e))"])
      (use assms(4) log_entry_at [OF laws e(3), of e] in simp_all)
  then show ?thesis by (intro exI [of _ m2]) (simp add: put_def key_hash_eq e(1,2))
qed

lemma get_correct:
  assumes "kv_repr T C own good s lg" "unat (mb_size mb) \<le> length (mb_data mb)"
  shows "get T C key mb s =
     (let F = fitting (unat (mb_size mb)) (blocks (hash_of key) lg) in
      if blocks (hash_of key) lg = [] then Some (- 1, mb)
      else Some (0, mb\<lparr>mb_data := F @ drop (length F) (mb_data mb)\<rparr>))"
proof -
  obtain es ch where laws: "tbp_laws T own good" "cuckoo_laws C" and log: "log_ok T own good (pm s) (bp s) es"
    and ix: "kv_index C s ch" "\<And>k. map snd (ch k) = blocks_at k es" and lg: "log_of es = lg"
    by (rule kv_reprE [OF assms(1)]) blast
  let ?k = "hash_of key"
  note look = kv_lookup [OF laws(2) ix(1) ix(2) [of ?k], unfolded lg]
  show ?thesis
  proof (cases "blocks ?k lg = []")
    case True
    with look(1) show ?thesis by (simp add: get_def key_hash_eq Let_def)
  next
    case False
    then obtain l where l: "cm_find C (index_map s) ?k = Some l" "lists (heap s) l = Some (header_of (ch ?k))"
      "chain (metas (heap s)) (fst (hd (ch ?k))) (ch ?k)" using look(2) by blast
    have "unat (0 :: u64) + sum_list (map length (blocks ?k lg)) < 2 ^ 64"
      using log_total_bound [OF log] total_value [of ?k es] by (simp add: lg)
    from get_loop_correct [OF l(3) _ this, of T mb] log_node_bytes [OF laws(1) log ix(2) [of ?k]]
    have "get_loop T s (fst (hd (ch ?k))) 0 mb =
        (let F = fitting (unat (mb_size mb)) (blocks ?k lg) in
         Some (mb\<lparr>mb_data := F @ drop (length F) (mb_data mb)\<rparr>))"
      using assms(2) by (simp add: lg)
    with False look(1) l(1,2) show ?thesis
      by (simp add: get_def key_hash_eq header_of_def Let_def)
  qed
qed

lemma sizes_correct:
  assumes "kv_repr T C own good s lg"
  shows "get_value_size C key s =
     (if blocks (hash_of key) lg = [] then Some (- 1, 0)
      else Some (0, of_nat (length (value_of (hash_of key) lg))))"
    "get_meta_size C key s =
     (if blocks (hash_of key) lg = [] then Some (- 1, 0)
      else Some (0, of_nat (length (blocks (hash_of key) lg))))"
    "length (value_of (hash_of key) lg) < 2 ^ 64" "length (blocks (hash_of key) lg) < 2 ^ 59"
proof -
  obtain es ch where laws: "tbp_laws T own good" "cuckoo_laws C" and log: "log_ok T own good (pm s) (bp s) es"
    and ix: "kv_index C s ch" "\<And>k. map snd (ch k) = blocks_at k es" and lg: "log_of es = lg"
    by (rule kv_reprE [OF assms(1)]) blast
  note look = kv_lookup [OF laws(2) ix(1) ix(2) [of "hash_of key"], unfolded lg]
    and hd = header_total [OF ix(2) [of "hash_of key"], unfolded lg]
  show "get_value_size C key s = (if blocks (hash_of key) lg = [] then Some (- 1, 0)
      else Some (0, of_nat (length (value_of (hash_of key) lg))))"
    "get_meta_size C key s = (if blocks (hash_of key) lg = [] then Some (- 1, 0)
      else Some (0, of_nat (length (blocks (hash_of key) lg))))"
    using look hd by (auto simp: get_value_size_def get_meta_size_def key_hash_eq)
  show "length (value_of (hash_of key) lg) < 2 ^ 64"
    using log_total_bound [OF log] total_value [of "hash_of key" es]
    by (simp add: lg value_of_def length_concat)
  have "length (blocks (hash_of key) lg) \<le> length es"
    by (simp add: blocks_def log_of_def flip: lg)
  then show "length (blocks (hash_of key) lg) < 2 ^ 59"
    using log_total_bound [OF log] by simp
qed

lemma free_all_correct:
  assumes "kv_repr T C own good s lg"
  obtains s' where "free_all T C s = Some (0, s')" "kv_repr T C own good s' []"
    "metas (heap s') = Map.empty" "lists (heap s') = Map.empty" "bytes_allocated s' = 0"
proof -
  obtain es ch where laws: "tbp_laws T own good" "cuckoo_laws C" and log: "log_ok T own good (pm s) (bp s) es"
    and ix: "kv_index C s ch"
    by (rule kv_reprE [OF assms(1)]) blast
  obtain m' where m': "TBPGet T (bp s) (pm s) = Some (fld T (pm s) (bp s))"
    "free_all_loop T (bp s) (fld T (pm s) (bp s)) (pm s) = Some m'"
    "TBPGet T (bp s + 56) (TBPSet T (bp s + 8) 0 (TBPSet T (bp s) 0 m')) = Some 0"
    "log_ok T own good (TBPSet T (bp s + 8) 0 (TBPSet T (bp s) 0 m')) (bp s) []"
    by (rule free_all_log [OF laws(1) log])
  let ?s = "s\<lparr>pm := TBPSet T (bp s + 8) 0 (TBPSet T (bp s) 0 m')\<rparr>"
  have "kv_index C ?s ch" using ix by (simp add: kv_index_def)
  then obtain s' where s': "free_meta C ?s = Some (0, s')" "metas (heap s') = Map.empty"
    "lists (heap s') = Map.empty" "kv_index C s' (\<lambda>_. [])" "bytes_allocated s' = 0"
    "pm s' = pm ?s" "bp s' = bp ?s"
    by (rule free_meta_correct [OF laws(2)])
  have "free_all T C s = Some (0, s')"
    by (simp add: free_all_def m'(1-3) s'(1))
  moreover have "kv_repr T C own good s' []"
    using m'(4) s'(4,6,7) by (intro kv_reprI [OF laws, of _ "[]"]) (simp_all add: blocks_at_def log_of_def)
  ultimately show thesis using that s'(2,3,5) by blast
qed

lemma delete_correct:
  assumes "kv_repr T C own good s lg"
  obtains s' where "pmemkv_delete C s = Some s'" "metas (heap s') = Map.empty"
    "lists (heap s') = Map.empty" "bytes_allocated s' = 0" "pm s' = pm s"
proof -
  obtain es ch where laws: "tbp_laws T own good" "cuckoo_laws C" and ix: "kv_index C s ch"
    by (rule kv_reprE [OF assms(1)]) blast
  obtain s' where "free_meta C s = Some (0, s')" "metas (heap s') = Map.empty"
    "lists (heap s') = Map.empty" "bytes_allocated s' = 0" "pm s' = pm s"
    by (rule free_meta_correct [OF laws(2) ix])
  then show thesis
    by (intro that [of s']) (simp_all add: pmemkv_delete_def close_def)
qed

section \<open>Block metadata\<close>

text \<open>The flat array of alternating offsets and sizes.\<close>

definition flat_blocks :: "node list \<Rightarrow> u64 list" where
  "flat_blocks ns = concat (map (\<lambda>n. [fst (snd n), snd (snd n)]) ns)"

lemma length_flat_blocks [simp]: "length (flat_blocks ns) = 2 * length ns"
  by (induction ns) (simp_all add: flat_blocks_def)

lemma get_meta_loop_correct:
  assumes "chain (metas (heap s)) p ns" "meta mm = Some xs" "unat i + 2 * length ns \<le> length xs"
    "length xs < 2 ^ 64"
  shows "get_meta_loop s p i mm = Some (i + of_nat (2 * length ns),
     mm\<lparr>meta := Some (take (unat i) xs @ map Some (flat_blocks ns) @ drop (unat i + 2 * length ns) xs)\<rparr>)"
  using assms
proof (induction ns arbitrary: p i mm xs)
  case Nil
  then show ?case by (simp add: get_meta_loop.simps flat_blocks_def)
next
  case (Cons n ns)
  from Cons.prems(1) obtain b where b: "metas (heap s) p = Some b" "p \<noteq> 0" "off b = fst (snd n)"
    "bm_size b = snd (snd n)" "chain (metas (heap s)) (bm_next b) ns"
    by (auto split: option.splits)
  let ?j = "unat i"
  have i: "unat (i + 1) = ?j + 1" "unat (i + 2) = ?j + 2"
    using Cons.prems(3,4) by (subst unat_add_lem [THEN iffD1]; simp)+
  define ys where "ys = xs[?j := Some (off b), ?j + 1 := Some (bm_size b)]"
  have "get_meta_loop s p i mm = get_meta_loop s (bm_next b) (i + 2) (mm\<lparr>meta := Some ys\<rparr>)"
    using Cons.prems(2-4) b(1,2) i
    by (subst get_meta_loop.simps) (simp add: set_meta_def ys_def)
  also have "\<dots> = Some (i + 2 + of_nat (2 * length ns), mm\<lparr>meta := Some (take (?j + 2) ys @
      map Some (flat_blocks ns) @ drop (?j + 2 + 2 * length ns) ys)\<rparr>)"
    using Cons.IH [OF b(5), of "mm\<lparr>meta := Some ys\<rparr>" ys "i + 2"] Cons.prems(3,4)
    by (simp add: ys_def i)
  also have "take (?j + 2) ys = take ?j xs @ [Some (off b), Some (bm_size b)]"
    using Cons.prems(3) by (simp add: ys_def take_update_swap take_Suc_conv_app_nth
        list_update_append numeral_2_eq_2)
  finally show ?case
    by (simp add: ys_def b flat_blocks_def add.assoc)
qed

section \<open>The interface of the store\<close>

text \<open>
  What a caller of the store relies on: appending a block either fails or adds
  it at the end of its key, reading returns the whole blocks that fit, and the
  reported size is that of all blocks of the key.  \<open>rep s lg\<close> is the
  representation relation of the provider.
\<close>

text \<open>A sequence of puts, stopped by the first one without room.\<close>

fun run_puts ::
  "(string \<Rightarrow> byte list \<Rightarrow> 's \<Rightarrow> bool) \<Rightarrow> (string \<Rightarrow> byte list \<Rightarrow> 's \<Rightarrow> (int \<times> 's) option) \<Rightarrow>
   (string \<times> byte list) list \<Rightarrow> 's \<Rightarrow> 's option" where
  "run_puts r p [] s = Some s"
| "run_puts r p ((k, b) # ops) s =
     (if r k b s then do { (rc, s') \<leftarrow> p k b s; run_puts r p ops s' } else None)"

definition log_puts :: "(string \<times> byte list) list \<Rightarrow> log" where
  "log_puts ops = map (\<lambda>(k, b). (hash_of k, b)) ops"

locale block_store =
  fixes rep :: "'s \<Rightarrow> log \<Rightarrow> bool"
    and put_op :: "string \<Rightarrow> byte list \<Rightarrow> 's \<Rightarrow> (int \<times> 's) option"
    and get_op :: "string \<Rightarrow> memory_block \<Rightarrow> 's \<Rightarrow> (int \<times> memory_block) option"
    and size_op :: "string \<Rightarrow> 's \<Rightarrow> (int \<times> u64) option"
    and room :: "string \<Rightarrow> byte list \<Rightarrow> 's \<Rightarrow> bool"
  assumes put_law: "rep s lg \<Longrightarrow> room k b s \<Longrightarrow>
      \<exists>s'. put_op k b s = Some (0, s') \<and> rep s' (lg @ [(hash_of k, b)])"
    and get_law: "rep s lg \<Longrightarrow> blocks (hash_of k) lg \<noteq> [] \<Longrightarrow> unat (mb_size mb) \<le> length (mb_data mb) \<Longrightarrow>
      \<exists>mb'. get_op k mb s = Some (0, mb') \<and>
        (let F = fitting (unat (mb_size mb)) (blocks (hash_of k) lg)
         in mb_data mb' = F @ drop (length F) (mb_data mb))"
    and size_law: "rep s lg \<Longrightarrow> blocks (hash_of k) lg \<noteq> [] \<Longrightarrow>
      \<exists>n. size_op k s = Some (0, n) \<and> unat n = length (value_of (hash_of k) lg)"
begin

lemma run_puts_rep:
  "rep s lg \<Longrightarrow> run_puts room put_op ops s = Some s' \<Longrightarrow> rep s' (lg @ log_puts ops)"
proof (induction ops arbitrary: s lg)
  case Nil
  then show ?case by (simp add: log_puts_def)
next
  case (Cons op ops)
  obtain k b where op: "op = (k, b)" by (cases op)
  with Cons.prems(2) have "room k b s" by (simp split: if_splits)
  then obtain t where "put_op k b s = Some (0, t)" "rep t (lg @ [(hash_of k, b)])"
    using put_law [OF Cons.prems(1)] by blast
  with Cons.prems(2) \<open>room k b s\<close> Cons.IH [of t "lg @ [(hash_of k, b)]"] show ?case
    by (simp add: op log_puts_def)
qed

text \<open>A buffer of the reported size receives the whole value.\<close>

lemma sized_get:
  assumes "rep s lg" "blocks (hash_of k) lg \<noteq> []"
  shows "\<exists>n. size_op k s = Some (0, n) \<and> unat n = length (value_of (hash_of k) lg) \<and>
     (\<forall>d. length d = unat n \<longrightarrow> (\<exists>mb'. get_op k \<lparr>mb_data = d, mb_size = n\<rparr> s = Some (0, mb') \<and>
        mb_data mb' = value_of (hash_of k) lg))"
proof -
  obtain n where n: "size_op k s = Some (0, n)" "unat n = length (value_of (hash_of k) lg)"
    using size_law [OF assms] by blast
  have "\<exists>mb'. get_op k \<lparr>mb_data = d, mb_size = n\<rparr> s = Some (0, mb') \<and>
        mb_data mb' = value_of (hash_of k) lg" if "length d = unat n" for d
    using get_law [OF assms, of "\<lparr>mb_data = d, mb_size = n\<rparr>"] that n(2)
      fitting_all [of "blocks (hash_of k) lg" "unat n"]
    by (auto simp: Let_def value_of_def)
  with n show ?thesis by blast
qed

end

definition kv_put :: "'m tbp \<Rightarrow> 'c cuckoo \<Rightarrow> string \<Rightarrow> byte list \<Rightarrow> ('m, 'c) pmemkv \<Rightarrow> (int \<times> ('m, 'c) pmemkv) option" where
  "kv_put T C key b s = put T C key b (of_nat (length b)) s"

definition kv_room :: "'m tbp \<Rightarrow> 'c cuckoo \<Rightarrow> string \<Rightarrow> byte list \<Rightarrow> ('m, 'c) pmemkv \<Rightarrow> bool" where
  "kv_room T C key b s \<longleftrightarrow> unat (of_nat (length b) :: u64) = length b \<and> can_alloc T (of_nat (length b)) (pm s) \<and>
     can_malloc (mallocs_needed C (index_map s) (hash_of key)) (heap s)"

interpretation kv: block_store "kv_repr T C own good" "kv_put T C" "get T C" "get_value_size C" "kv_room T C"
  for T :: "'m tbp" and C :: "'c cuckoo" and own good
proof unfold_locales
  fix s :: "('m, 'c) pmemkv" and lg k b
  assume r: "kv_repr T C own good s lg" "kv_room T C k b s"
  have n: "unat (of_nat (length b) :: u64) = length b"
    using r(2) by (simp add: kv_room_def)
  have "\<exists>rc s'. put T C k b (of_nat (length b)) s = Some (rc, s') \<and>
      put_post T C own good lg k (take (unat (of_nat (length b) :: u64)) b) s rc s'"
    using r n by (intro put_correct) (simp_all add: kv_room_def)
  then show "\<exists>s'. kv_put T C k b s = Some (0, s') \<and> kv_repr T C own good s' (lg @ [(hash_of k, b)])"
    using r(2) by (auto simp: kv_put_def put_post_def kv_room_def n)
next
  fix s :: "('m, 'c) pmemkv" and lg k and mb :: memory_block
  assume "kv_repr T C own good s lg" "blocks (hash_of k) lg \<noteq> []" "unat (mb_size mb) \<le> length (mb_data mb)"
  then show "\<exists>mb'. get T C k mb s = Some (0, mb') \<and> (let F = fitting (unat (mb_size mb)) (blocks (hash_of k) lg)
         in mb_data mb' = F @ drop (length F) (mb_data mb))"
    by (simp add: get_correct Let_def)
next
  fix s :: "('m, 'c) pmemkv" and lg k
  assume "kv_repr T C own good s lg" "blocks (hash_of k) lg \<noteq> []"
  then show "\<exists>n. get_value_size C k s = Some (0, n) \<and> unat n = length (value_of (hash_of k) lg)"
    using sizes_correct(1,3) [of T C own good s lg k] by (simp add: unat_of_nat)
qed

section \<open>A store to run on\<close>

definition sample_kv :: "(sim, (u64 \<times> u64) list) pmemkv" where
  "sample_kv = pmemkv_new sim_tbp alist_cuckoo [] [16, 48, 96, 128]"

definition sample_kv1 :: "(sim, (u64 \<times> u64) list) pmemkv" where
  "sample_kv1 = snd (the (put sim_tbp alist_cuckoo ''a'' [1, 2, 0] 3 sample_kv))"

lemma sample_repr: "kv_repr sim_tbp alist_cuckoo sim_own sim_good sample_kv []"
  unfolding sample_kv_def
  by (rule new_repr [OF sim_laws alist_cuckoo_laws]) (simp_all add: sim_good_def alloc_ok_def sim_defs)

lemma sample_alloc: "can_alloc sim_tbp 3 (pm sample_kv)"
  by code_simp

lemma sample_malloc: "can_malloc (mallocs_needed alist_cuckoo (index_map sample_kv) k) (heap sample_kv)"
  by (simp add: sample_kv_def pmemkv_new_def create_def alist_cuckoo_def mallocs_needed_def can_malloc_def
      split: prod.splits)

lemma unat_eq_word: "unat w = n \<Longrightarrow> w = of_nat n" for w :: u64
  by auto

lemma sample_repr1: "kv_repr sim_tbp alist_cuckoo sim_own sim_good sample_kv1 [(hash_of ''a'', [1, 2, 0])]"
  using put_correct [OF sample_repr sample_alloc, of "[1, 2, 0]" "''a''"] sample_malloc
  by (auto simp: put_post_def sample_kv1_def)

lemma flat_blocks_nth:
  "i < length ns \<Longrightarrow> flat_blocks ns ! (2 * i) = fst (snd (ns ! i)) \<and>
     flat_blocks ns ! (2 * i + 1) = snd (snd (ns ! i))"
proof (induction ns arbitrary: i)
  case Nil
  then show ?case by simp
next
  case (Cons n ns)
  then show ?case by (cases i) (simp_all add: flat_blocks_def)
qed

text \<open>\<open>get_meta\<close> with room for all blocks of the key.\<close>

lemma get_meta_correct:
  assumes "kv_repr T C own good s lg" "blocks (hash_of key) lg \<noteq> []" "meta mm = Some xs"
    and "2 * length (blocks (hash_of key) lg) \<le> length xs" "length xs < 2 ^ 64"
  obtains ns where "get_meta C key mm s = Some (0, mm\<lparr>meta := Some (map Some (flat_blocks ns) @
      drop (2 * length ns) xs), mm_length := Some (of_nat (2 * length ns))\<rparr>)"
    "length ns = length (blocks (hash_of key) lg)"
    "list_all2 (node_bytes T (pm s)) ns (blocks (hash_of key) lg)"
    "\<forall>n \<in> set ns. snd (snd n) = 0 \<or> fst (snd n) \<noteq> 0"
proof -
  obtain es ch where laws: "tbp_laws T own good" "cuckoo_laws C" and log: "log_ok T own good (pm s) (bp s) es"
    and ix: "kv_index C s ch" "\<And>k. map snd (ch k) = blocks_at k es" and lg: "log_of es = lg"
    by (rule kv_reprE [OF assms(1)]) blast
  let ?k = "hash_of key" and ?ns = "ch (hash_of key)"
  obtain l where l: "cm_find C (index_map s) ?k = Some l" "lists (heap s) l = Some (header_of ?ns)"
    "chain (metas (heap s)) (fst (hd ?ns)) ?ns"
    using kv_lookup(2) [OF laws(2) ix(1) ix(2) [of ?k]] assms(2) lg by blast
  have n: "length ?ns = length (blocks ?k lg)" using blocks_at_log(1) [OF ix(2) [of ?k]] lg by simp
  have c: "cm_contains C (index_map s) ?k"
    using kv_lookup(1) [OF laws(2) ix(1) ix(2) [of ?k]] assms(2) lg by simp
  have "get_meta_loop s (fst (hd ?ns)) 0 mm = Some (0 + of_nat (2 * length ?ns),
      mm\<lparr>meta := Some (take (unat (0 :: u64)) xs @ map Some (flat_blocks ?ns) @
        drop (unat (0 :: u64) + 2 * length ?ns) xs)\<rparr>)"
    using assms(4,5) by (intro get_meta_loop_correct [OF l(3) assms(3)]) (simp_all add: n)
  then have "get_meta C key mm s = Some (0, mm\<lparr>meta := Some (map Some (flat_blocks ?ns) @
      drop (2 * length ?ns) xs), mm_length := Some (of_nat (2 * length ?ns))\<rparr>)"
    using l(1,2) c by (simp add: get_meta_def key_hash_eq header_of_def)
  moreover have "list_all2 (node_bytes T (pm s)) ?ns (blocks ?k lg)"
    using log_node_bytes [OF laws(1) log ix(2) [of ?k]] by (simp add: lg)
  moreover have "snd (snd n) = 0 \<or> fst (snd n) \<noteq> 0" if "n \<in> set ?ns" for n
  proof -
    have "snd n \<in> set (blocks_at ?k es)" using that by (simp flip: ix(2))
    then obtain e where "e \<in> set es" "snd n = (edata e, of_nat (length (ebytes e)))"
      by (auto simp: blocks_at_def)
    with seg_nodes [OF log_okD(4) [OF log], of e] show ?thesis by (auto simp: node_ok_def)
  qed
  ultimately show thesis using that n by blast
qed

end
