(* ===== verification/PmemStoreProps.thy ===== *)
theory PmemStoreProps
  imports PmemStore
begin

text \<open>
  What the store does for its callers, one property per theorem: appending,
  reading, reported sizes, block addresses, clearing and destruction, and what
  happens when an allocation fails or a store is opened again.  The concrete
  inputs run on the persistent memory of theory \<open>PmemSim\<close>.
\<close>

section \<open>Properties\<close>

text \<open>
  C9: \<open>put\<close> on a store that represents a log, with persistent memory for the
  entry and its data, always returns.  With return code 0 the store represents
  the log with the new record appended under the hash of the key.  The only
  other code is \<open>-1\<close>: then the record is in the persistent list, but no index
  entry changed.  It returns 0 whenever \<open>malloc\<close> serves the one or two requests
  for the index.
\<close>

theorem put_appends_record:
  assumes "kv_repr T C own good s lg" "can_alloc T count (pm s)" "unat count \<le> length buf"
  shows "\<exists>rc s'. put T C key buf count s = Some (rc, s') \<and>
     (rc = 0 \<longrightarrow> kv_repr T C own good s' (lg @ [(hash_of key, take (unat count) buf)])) \<and>
     (rc \<noteq> 0 \<longrightarrow> rc = - 1 \<and> index_kept s s' \<and>
        (\<exists>es. log_ok T own good (pm s') (bp s') es \<and>
              log_of es = lg @ [(hash_of key, take (unat count) buf)])) \<and>
     (can_malloc (mallocs_needed C (index_map s) (hash_of key)) (heap s) \<longrightarrow> rc = 0)"
  using put_correct [OF assms, of key] by (auto simp: put_post_def)

theorem put_appends_record_witness:
  "\<exists>s'. put sim_tbp alist_cuckoo ''k'' [7, 8, 9, 10] 3 sample_kv = Some (0, s') \<and>
     kv_repr sim_tbp alist_cuckoo sim_own sim_good s' [(hash_of ''k'', [7, 8, 9])]"
  using put_appends_record [OF sample_repr sample_alloc, of "[7, 8, 9, 10]" "''k''"] sample_malloc
  by auto

text \<open>
  C11: \<open>get\<close> into a buffer of at least \<open>mb->size\<close> bytes returns \<open>-1\<close> and
  leaves the buffer alone when nothing was put under the key; otherwise it returns
  0 and the buffer starts with the longest run of whole blocks of the key that fits
  in \<open>mb->size\<close>, in the order they were put, the rest of the buffer being
  unchanged.  The walk always ends and never reads outside a block.
\<close>

theorem get_returns_fitting_blocks:
  assumes "kv_repr T C own good s lg" "unat (mb_size mb) \<le> length (mb_data mb)"
  shows "get T C key mb s =
     (let F = fitting (unat (mb_size mb)) (blocks (hash_of key) lg) in
      if blocks (hash_of key) lg = [] then Some (- 1, mb)
      else Some (0, mb\<lparr>mb_data := F @ drop (length F) (mb_data mb)\<rparr>))"
  by (rule get_correct [OF assms])

theorem get_returns_fitting_blocks_witness:
  "get sim_tbp alist_cuckoo ''a'' \<lparr>mb_data = [9, 9, 9, 9], mb_size = 4\<rparr> sample_kv1
     = Some (0, \<lparr>mb_data = [1, 2, 0, 9], mb_size = 4\<rparr>) \<and>
   get sim_tbp alist_cuckoo ''a'' \<lparr>mb_data = [9, 9, 9, 9], mb_size = 2\<rparr> sample_kv1
     = Some (0, \<lparr>mb_data = [9, 9, 9, 9], mb_size = 2\<rparr>)"
  using get_returns_fitting_blocks [OF sample_repr1, of "\<lparr>mb_data = [9, 9, 9, 9], mb_size = 4\<rparr>" "''a''"]
    get_returns_fitting_blocks [OF sample_repr1, of "\<lparr>mb_data = [9, 9, 9, 9], mb_size = 2\<rparr>" "''a''"]
  by (simp add: blocks_def)

text \<open>
  C13: the sizes the index reports are exact: the sum of the block lengths and the
  number of blocks put under the key, or \<open>-1\<close> and 0 for an absent key.  Neither
  can wrap around: all blocks are disjoint parts of one 64-bit address space.
\<close>

theorem reported_sizes_exact:
  assumes "kv_repr T C own good s lg"
  shows "get_value_size C key s = (if blocks (hash_of key) lg = [] then Some (- 1, 0)
       else Some (0, of_nat (length (value_of (hash_of key) lg)))) \<and>
     get_meta_size C key s = (if blocks (hash_of key) lg = [] then Some (- 1, 0)
       else Some (0, of_nat (length (blocks (hash_of key) lg)))) \<and>
     length (value_of (hash_of key) lg) < 2 ^ 64 \<and> length (blocks (hash_of key) lg) < 2 ^ 59"
  using sizes_correct [OF assms, of key] by (intro conjI) blast+

theorem reported_sizes_exact_witness:
  "get_value_size alist_cuckoo ''a'' sample_kv1 = Some (0, 3) \<and>
   get_meta_size alist_cuckoo ''a'' sample_kv1 = Some (0, 1) \<and>
   get_value_size alist_cuckoo ''a'' sample_kv = Some (- 1, 0)"
  using reported_sizes_exact [OF sample_repr1, of "''a''"] reported_sizes_exact [OF sample_repr, of "''a''"]
  by (simp add: blocks_def value_of_def)

text \<open>
  C10: end to end.  On a new store, after any sequence of puts that find room, the
  reported size of a key that was put is the length of the concatenation, in order,
  of exactly the blocks put under that key, and \<open>get\<close> with a buffer of that size
  fills it with them, provided no two of the keys share a 64-bit hash.
\<close>

theorem puts_then_get:
  assumes "tbp_laws T own good" "cuckoo_laws C" "good m" "alloc_ok T 64 m"
    and "run_puts (kv_room T C) (kv_put T C) ops (pmemkv_new T C m tape) = Some s'"
    and "key \<in> fst ` set ops" "inj_on hash_of (fst ` set ops)"
  shows "\<exists>n. get_value_size C key s' = Some (0, n) \<and>
     unat n = length (concat (map snd (filter (\<lambda>op. fst op = key) ops))) \<and>
     (\<forall>d. length d = unat n \<longrightarrow> (\<exists>mb'. get T C key \<lparr>mb_data = d, mb_size = n\<rparr> s' = Some (0, mb') \<and>
        mb_data mb' = concat (map snd (filter (\<lambda>op. fst op = key) ops))))"
proof -
  have rep: "kv_repr T C own good s' (log_puts ops)"
    using kv.run_puts_rep [OF new_repr [OF assms(1-4)] assms(5)] by simp
  have "hash_of (fst op) = hash_of key \<longleftrightarrow> fst op = key" if "op \<in> set ops" for op
    using inj_on_eq_iff [OF assms(7), of "fst op" key] assms(6) that by simp
  then have "filter (\<lambda>op. hash_of (fst op) = hash_of key) ops = filter (\<lambda>op. fst op = key) ops"
    by (rule filter_cong [OF refl])
  then have eq: "blocks (hash_of key) (log_puts ops) = map snd (filter (\<lambda>op. fst op = key) ops)"
    by (simp add: blocks_def log_puts_def filter_map comp_def case_prod_beta)
  then have "blocks (hash_of key) (log_puts ops) \<noteq> []"
    using assms(6) by (auto simp: filter_empty_conv)
  from kv.sized_get [OF rep this] show ?thesis by (simp add: value_of_def eq)
qed

theorem puts_then_get_witness:
  "\<exists>s' mb'. run_puts (kv_room sim_tbp alist_cuckoo) (kv_put sim_tbp alist_cuckoo)
       [(''a'', [1]), (''a'', [2])] (pmemkv_new sim_tbp alist_cuckoo [] [16, 48, 96]) = Some s' \<and>
     get_value_size alist_cuckoo ''a'' s' = Some (0, 2) \<and>
     get sim_tbp alist_cuckoo ''a'' \<lparr>mb_data = [0, 0], mb_size = 2\<rparr> s' = Some (0, mb') \<and>
     mb_data mb' = [1, 2]"
proof -
  let ?s = "pmemkv_new sim_tbp alist_cuckoo [] [16, 48, 96]"
  have "run_puts (kv_room sim_tbp alist_cuckoo) (kv_put sim_tbp alist_cuckoo)
       [(''a'', [1]), (''a'', [2])] ?s \<noteq> None"
    by code_simp
  then obtain s' where s': "run_puts (kv_room sim_tbp alist_cuckoo) (kv_put sim_tbp alist_cuckoo)
       [(''a'', [1]), (''a'', [2])] ?s = Some s'"
    by blast
  have "\<exists>n. get_value_size alist_cuckoo ''a'' s' = Some (0, n) \<and> unat n = Suc (Suc 0) \<and>
     (\<forall>d. length d = unat n \<longrightarrow>
        (\<exists>mb'. get sim_tbp alist_cuckoo ''a'' \<lparr>mb_data = d, mb_size = n\<rparr> s' = Some (0, mb') \<and>
          mb_data mb' = [1, 2]))"
    using puts_then_get [OF sim_laws alist_cuckoo_laws _ _ s', of "''a''"]
    by (simp add: sim_good_def alloc_ok_def sim_defs)
  then obtain n where n: "get_value_size alist_cuckoo ''a'' s' = Some (0, n)" "unat n = Suc (Suc 0)"
    "\<And>d. length d = unat n \<Longrightarrow>
        \<exists>mb'. get sim_tbp alist_cuckoo ''a'' \<lparr>mb_data = d, mb_size = n\<rparr> s' = Some (0, mb') \<and>
          mb_data mb' = [1, 2]"
    by blast
  moreover have "n = 2" using unat_eq_word [OF n(2)] by simp
  ultimately show ?thesis using s' n(3) [of "[0, 0]"] by auto
qed

text \<open>
  \<open>get_meta\<close> with an array large enough writes one pair per block of the key,
  in order, and the number of words written; each pair is the address and the
  length of that block's bytes in persistent memory.
\<close>

theorem get_meta_addresses_blocks:
  assumes "kv_repr T C own good s lg" "blocks (hash_of key) lg \<noteq> []" "meta mm = Some xs"
    and "2 * length (blocks (hash_of key) lg) \<le> length xs" "length xs < 2 ^ 64"
  shows "\<exists>fl. get_meta C key mm s = Some (0, mm\<lparr>meta := Some (map Some fl @ drop (length fl) xs),
        mm_length := Some (of_nat (length fl))\<rparr>) \<and>
     length fl = 2 * length (blocks (hash_of key) lg) \<and>
     (\<forall>i < length (blocks (hash_of key) lg).
        peek (direct T (pm s)) (fl ! (2 * i)) (unat (fl ! (2 * i + 1))) = Some (blocks (hash_of key) lg ! i))"
proof -
  let ?bs = "blocks (hash_of key) lg"
  obtain ns where ns: "get_meta C key mm s = Some (0, mm\<lparr>meta := Some (map Some (flat_blocks ns) @
      drop (2 * length ns) xs), mm_length := Some (of_nat (2 * length ns))\<rparr>)"
    "length ns = length ?bs" "list_all2 (node_bytes T (pm s)) ns ?bs"
    by (rule get_meta_correct [OF assms])
  have "peek (direct T (pm s)) (flat_blocks ns ! (2 * i)) (unat (flat_blocks ns ! (2 * i + 1))) = Some (?bs ! i)"
    if "i < length ?bs" for i
    using ns(2,3) that flat_blocks_nth [of i ns] by (simp add: list_all2_conv_all_nth node_bytes_def)
  with ns(1,2) show ?thesis by (intro exI [of _ "flat_blocks ns"]) simp
qed

theorem get_meta_addresses_blocks_witness:
  "\<exists>a. get_meta alist_cuckoo ''a'' \<lparr>meta = Some [None, None], mm_length = None\<rparr> sample_kv1 =
     Some (0, \<lparr>meta = Some [Some a, Some 3], mm_length = Some 2\<rparr>) \<and>
   peek (direct sim_tbp (pm sample_kv1)) a 3 = Some [1, 2, 0]"
proof -
  let ?mm = "\<lparr>meta = Some [None, None], mm_length = None\<rparr>"
  have b: "blocks (hash_of ''a'') [(hash_of ''a'', [1, 2, 0])] = [[1, 2, 0]]" by (simp add: blocks_def)
  obtain fl where fl: "get_meta alist_cuckoo ''a'' ?mm sample_kv1 = Some (0, ?mm\<lparr>meta := Some (map Some fl @
        drop (length fl) [None, None]), mm_length := Some (of_nat (length fl))\<rparr>)" "length fl = 2"
    "peek (direct sim_tbp (pm sample_kv1)) (fl ! 0) (unat (fl ! 1)) = Some [1, 2, 0]"
    using get_meta_addresses_blocks [OF sample_repr1, of "''a''" ?mm "[None, None]"] by (auto simp: b)
  from fl(2) obtain a n where an: "fl = [a, n]" by (auto simp: length_Suc_conv numeral_2_eq_2)
  have u: "unat n = 3" using length_peek [OF fl(3)] by (simp add: an)
  then have "n = 3" using unat_eq_word [OF u] by simp
  with fl u show ?thesis by (simp add: an)
qed

text \<open>
  C14: \<open>free_all\<close> always succeeds: both assertions hold, the store is then an
  empty store, and every block of memory the index had allocated is freed.
\<close>

theorem free_all_empties:
  assumes "kv_repr T C own good s lg"
  shows "\<exists>s'. free_all T C s = Some (0, s') \<and> kv_repr T C own good s' [] \<and>
     metas (heap s') = Map.empty \<and> lists (heap s') = Map.empty \<and> bytes_allocated s' = 0"
  using free_all_correct [OF assms] by blast

theorem free_all_empties_witness:
  "\<exists>s'. free_all sim_tbp alist_cuckoo sample_kv1 = Some (0, s') \<and>
     kv_repr sim_tbp alist_cuckoo sim_own sim_good s' [] \<and> metas (heap s') = Map.empty"
  using free_all_empties [OF sample_repr1] by blast

text \<open>
  C15: the destructor always succeeds on a store that represents a log: the walk over
  the index ends, the assertion on \<open>bytes_allocated\<close> holds, nothing is leaked or
  freed twice, and persistent memory is not touched.
\<close>

theorem destructor_frees_index:
  assumes "kv_repr T C own good s lg"
  shows "\<exists>s'. pmemkv_delete C s = Some s' \<and> metas (heap s') = Map.empty \<and>
     lists (heap s') = Map.empty \<and> bytes_allocated s' = 0 \<and> pm s' = pm s"
  using delete_correct [OF assms] by blast

theorem destructor_frees_index_witness:
  "\<exists>s'. pmemkv_delete alist_cuckoo sample_kv1 = Some s' \<and> metas (heap s') = Map.empty \<and>
     lists (heap s') = Map.empty"
  using destructor_frees_index [OF sample_repr1] by blast

text \<open>
  the counter \<open>bytes_written\<close> of the root object is the number of bytes put,
  with no wrap-around.
\<close>

theorem bytes_written_exact:
  assumes "kv_repr T C own good s lg"
  shows "TBPGet T (get_root s + 56) (pm s) = Some (of_nat (\<Sum>r\<leftarrow>lg. length (snd r))) \<and>
     (\<Sum>r\<leftarrow>lg. length (snd r)) < 2 ^ 64"
proof -
  obtain es ch where laws: "tbp_laws T own good" and log: "log_ok T own good (pm s) (bp s) es"
    and lg: "log_of es = lg"
    by (rule kv_reprE [OF assms(1)]) blast
  have "total_bytes es = (\<Sum>r\<leftarrow>lg. length (snd r))"
    by (simp add: total_bytes_def log_of_def comp_def flip: lg)
  with TBPGet_fld [OF laws log_okD(1,10) [OF log]] log_okD(6) [OF log] log_total_bound [OF log]
  show ?thesis by (simp add: get_root_def)
qed

theorem bytes_written_exact_witness:
  "TBPGet sim_tbp (get_root sample_kv1 + 56) (pm sample_kv1) = Some 3"
  using bytes_written_exact [OF sample_repr1] by simp

text \<open>
  C17: \<open>dump_all\<close> on a store whose block sizes \<open>malloc\<close> serves prints every record
  in order when each block holds a null byte, which ends the printed text; if one
  holds none, the output reads past the end of the copied block.
\<close>

theorem dump_all_needs_terminators:
  assumes "kv_repr T C own good s lg" "\<forall>r \<in> set lg. grant (length (snd r))"
  shows "dump_all T grant s = (if \<forall>r \<in> set lg. 0 \<in> set (snd r)
     then Some (0, map (\<lambda>r. KeyValue (fst r) (takeWhile (\<lambda>b. b \<noteq> 0) (snd r))) lg) else None)"
proof -
  obtain es ch where laws: "tbp_laws T own good" and log: "log_ok T own good (pm s) (bp s) es"
    and lg: "log_of es = lg"
    by (rule kv_reprE [OF assms(1)]) blast
  note ok = log_okD [OF log]
  have "grant (length (ebytes e))" if "e \<in> set es" for e
    using assms(2) that by (auto simp: log_of_def simp flip: lg)
  moreover have "obj_owned (own (pm s)) (fst x) (snd x)" if "x \<in> set (concat (map entry_objs es))" for x
    using ok(3) [of x] that by (auto simp: log_objs_def)
  ultimately have "dump_all_loop T grant (pm s) (fld T (pm s) (bp s)) [] =
     (if \<forall>e\<in>set es. 0 \<in> set (ebytes e)
      then Some ([] @ map (\<lambda>e. KeyValue (ekey e) (takeWhile (\<lambda>b. b \<noteq> 0) (ebytes e))) es) else None)"
    using dump_all_walk [OF laws ok(1,4), of grant "[]"] by blast
  then show ?thesis
    using TBPGet_fld [OF laws ok(1,8)] by (auto simp: dump_all_def log_of_def comp_def simp flip: lg)
qed

theorem dump_all_needs_terminators_witness:
  "dump_all sim_tbp (\<lambda>_. True) sample_kv1 = Some (0, [KeyValue (hash_of ''a'') [1, 2]])"
  using dump_all_needs_terminators [OF sample_repr1, of "\<lambda>_. True"] by simp

section \<open>Failures\<close>

text \<open>
  C16: when \<open>malloc\<close> serves the node of a key's first block but not its list header,
  \<open>put\<close> returns \<open>-1\<close> and leaves the node counted but unreachable, so that the
  assertion in the destructor fails afterwards.
\<close>

theorem failed_put_breaks_destructor:
  assumes "kv_repr T C own good s lg" "can_alloc T count (pm s)" "unat count \<le> length buf"
    and "blocks (hash_of key) lg = []" "answers (heap s) = [a]" "can_malloc 1 (heap s)"
  shows "\<exists>s'. put T C key buf count s = Some (- 1, s') \<and> pmemkv_delete C s' = None"
proof -
  obtain es ch where laws: "tbp_laws T own good" "cuckoo_laws C" and log: "log_ok T own good (pm s) (bp s) es"
    and ix: "kv_index C s ch" "\<And>k. map snd (ch k) = blocks_at k es" and lg: "log_of es = lg"
    by (rule kv_reprE [OF assms(1)]) blast
  let ?k = "hash_of key"
  obtain e m1 m2 where e: "put_entry T ?k buf count (pm s) = Some (eaddr e, m1)"
    "put_link T (bp s) (eaddr e) count m1 = Some m2" "log_ok T own good m2 (bp s) (es @ [e])" "ekey e = ?k"
    by (rule put_log [OF laws(1) log assms(2,3), of ?k])
  let ?s = "s\<lparr>pm := m2\<rparr>" and ?v = "\<lparr>bm_next = 0, off = edata e, bm_size = of_nat (length (ebytes e))\<rparr>"
  define h1 where "h1 = (heap s)\<lparr>answers := []\<rparr>"
  define h2 where "h2 = h1\<lparr>metas := (metas h1)(a \<mapsto> ?v)\<rparr>"
  have a: "a \<noteq> 0" "metas (heap s) a = None" "lists (heap s) a = None"
    using assms(5,6) by (simp_all add: can_malloc_def)
  have m1: "std_malloc (heap ?s) = (a, h1)" using a by (simp add: std_malloc_def assms(5) h1_def)
  have m2: "std_malloc h2 = (0, h2)" by (simp add: std_malloc_def h1_def h2_def)
  have at: "entry_at T (pm ?s) (eaddr e) ?k (of_nat (length (ebytes e))) (edata e)"
    using log_entry_at [OF laws(1) e(3), of e] by (simp add: e(4))
  have none: "cm_find C (index_map ?s) ?k = None"
    using kv_lookup(1) [OF laws(2) ix(1) ix(2) [of ?k]] assms(4) lg by (simp add: cuckoo_contains [OF laws(2)])
  have "update_meta T C (eaddr e) ?s =
      Some (- 1, ?s\<lparr>heap := h2, bytes_allocated := bytes_allocated ?s + 24\<rparr>)"
    using update_meta_new_leak [OF none at m1 a(1), of h2] m2 at none
    by (simp add: update_meta_def entry_at_def cuckoo_contains [OF laws(2)] h2_def)
  then have "put T C key buf count s = Some (- 1, ?s\<lparr>heap := h2, bytes_allocated := bytes_allocated ?s + 24\<rparr>)"
    by (simp add: put_def key_hash_eq e(1,2))
  moreover have "kv_index C ?s ch" using ix(1) by (simp add: kv_index_def)
  from free_lists_leaked [OF laws(2) this, of a h2 ?v] a(2)
  have "free_meta C (?s\<lparr>heap := h2, bytes_allocated := bytes_allocated ?s + 24\<rparr>) = None"
    by (simp add: h1_def h2_def)
  ultimately show ?thesis
    by (auto simp: pmemkv_delete_def close_def)
qed

theorem failed_put_breaks_destructor_witness:
  "\<exists>s'. put sim_tbp alist_cuckoo ''k'' [5] 1 (pmemkv_new sim_tbp alist_cuckoo [] [16]) = Some (- 1, s') \<and>
     pmemkv_delete alist_cuckoo s' = None"
proof -
  let ?s = "pmemkv_new sim_tbp alist_cuckoo [] [16]"
  have r: "kv_repr sim_tbp alist_cuckoo sim_own sim_good ?s []"
    by (rule new_repr [OF sim_laws alist_cuckoo_laws]) (simp_all add: sim_good_def alloc_ok_def sim_defs)
  have "can_alloc sim_tbp 1 (pm ?s)" by code_simp
  moreover have "answers (heap ?s) = [16]" "can_malloc 1 (heap ?s)"
    by (simp_all add: pmemkv_new_def create_def can_malloc_def split: prod.splits)
  ultimately show ?thesis
    using failed_put_breaks_destructor [OF r, of 1 "[5]" "''k''" 16] by (simp add: blocks_def)
qed

text \<open>
  \<open>put\<close> does not look at the result of \<open>TBPAlloc\<close>: when it reports failure by 0,
  and the page at address 0 is never mapped, \<open>put\<close> dereferences a null-based pointer.
\<close>

theorem put_ignores_alloc_failure:
  assumes "fst (TBPAlloc T sizeof_block_entry (pm s)) = 0" "\<forall>m. direct T m 24 = None"
  shows "put T C key buf count s = None"
proof -
  obtain m1 where m1: "TBPAlloc T sizeof_block_entry (pm s) = (0, m1)"
    using assms(1) by (metis prod.collapse)
  obtain d m2 where m2: "TBPAlloc T count m1 = (d, m2)" by fastforce
  have "deref64 T m 24 = None" for m using assms(2) by (simp add: deref64_def peek_unmapped)
  then have "put_entry T k buf count (pm s) = None" for k
    by (simp add: put_entry_def m1 m2)
  then show ?thesis by (simp add: put_def key_hash_eq)
qed

theorem put_ignores_alloc_failure_witness:
  "put (sim_tbp\<lparr>TBPAlloc := \<lambda>_ m. (0, m), direct := \<lambda>m x. if x < 4096 then None else sim_direct m x\<rparr>)
     alist_cuckoo ''k'' [5] 1 sample_kv = None"
  using put_ignores_alloc_failure [of "sim_tbp\<lparr>TBPAlloc := \<lambda>_ m. (0, m),
      direct := \<lambda>m x. if x < 4096 then None else sim_direct m x\<rparr>" sample_kv alist_cuckoo "''k''" "[5]" 1]
  by simp

text \<open>
  A store object created over the persistent memory of an earlier one starts empty,
  \<open>open\<close> does not change that, and the earlier data is not found under any key.
\<close>

lemma reopened_store_is_empty:
  assumes "kv_repr T C own good s lg" "alloc_ok T 64 (pm s)" "unat (mb_size mb) \<le> length (mb_data mb)"
  shows "kv_repr T C own good (snd (open_kv (pmemkv_new T C (pm s) tape))) [] \<and>
     get T C key mb (snd (open_kv (pmemkv_new T C (pm s) tape))) = Some (- 1, mb)"
proof -
  obtain es ch where laws: "tbp_laws T own good" "cuckoo_laws C" and log: "log_ok T own good (pm s) (bp s) es"
    by (rule kv_reprE [OF assms(1)]) blast
  have r: "kv_repr T C own good (pmemkv_new T C (pm s) tape) []"
    by (rule new_repr [OF laws log_okD(1) [OF log] assms(2)])
  with get_correct [OF r assms(3)] show ?thesis by (simp add: open_kv_def blocks_def)
qed

end
