(* ===== verification/PmemJni.thy ===== *)
theory PmemJni
  imports PmemStore PmemBuffer
begin

text \<open>
  The JNI layer (\<open>native/src/lib_jni_pmdk.cpp\<close>): the functions the Java classes
  \<open>PersistentMemoryPool\<close> and \<open>PmemBuffer\<close> call.  Java holds the C++ objects
  as \<open>jlong\<close> handles, so the state is a table of live objects by address;
  using a handle that is not in the table is undefined.  All stores share the
  persistent memory; each keeps its index in its own part of the C heap.

  What the Java side passes is an argument: the result of
  \<open>GetStringUTFChars\<close> (\<open>None\<close> when it is null), the content behind
  \<open>GetDirectBufferAddress\<close>, the elements of a \<open>jbyteArray\<close>.  A native
  function whose body ends without the \<open>return\<close> its type asks for has no
  defined result: \<open>missing_return\<close>.
\<close>

section \<open>State\<close>

record ('m, 'c) jni =
  j_pm :: 'm
  kvs :: "u64 \<Rightarrow> ('m, 'c) pmemkv option"
  bufs :: "u64 \<Rightarrow> PmemBuffer option"
  new_addrs :: "u64 list"

text \<open>\<open>operator new\<close>: a fresh address, or \<open>std::bad_alloc\<close>, which nothing catches.\<close>

definition cpp_new :: "('m, 'c) jni \<Rightarrow> (u64 \<times> ('m, 'c) jni) option" where
  "cpp_new w =
     (case new_addrs w of
        [] \<Rightarrow> None
      | a # as \<Rightarrow>
          if a \<noteq> 0 \<and> kvs w a = None \<and> bufs w a = None then Some (a, w\<lparr>new_addrs := as\<rparr>) else None)"

definition missing_return :: "'a option" where
  "missing_return = None"

definition kv_at :: "u64 \<Rightarrow> ('m, 'c) jni \<Rightarrow> ('m, 'c) pmemkv option" where
  "kv_at h w = map_option (\<lambda>s. s\<lparr>pm := j_pm w\<rparr>) (kvs w h)"

definition set_kv :: "u64 \<Rightarrow> ('m, 'c) pmemkv \<Rightarrow> ('m, 'c) jni \<Rightarrow> ('m, 'c) jni" where
  "set_kv h s w = w\<lparr>kvs := (kvs w)(h \<mapsto> s), j_pm := pm s\<rparr>"

section \<open>\<open>PersistentMemoryPool\<close>\<close>

definition nativeOpenDevice ::
  "'m tbp \<Rightarrow> 'c cuckoo \<Rightarrow> u64 list \<Rightarrow> ('m, 'c) jni \<Rightarrow> (u64 \<times> ('m, 'c) jni) option" where
  "nativeOpenDevice T C tape w = do {
     (a, w) \<leftarrow> cpp_new w;
     let kv = pmemkv_new T C (j_pm w) tape;
     Some (a, set_kv a kv w)
   }"

text \<open>The return code of \<open>put\<close> is dropped; the \<open>jint\<close> size becomes a \<open>uint64_t\<close>.\<close>

definition nativeSetBlock ::
  "'m tbp \<Rightarrow> 'c cuckoo \<Rightarrow> u64 \<Rightarrow> string option \<Rightarrow> byte list option \<Rightarrow> int \<Rightarrow> bool \<Rightarrow>
   ('m, 'c) jni \<Rightarrow> ('m, 'c) jni option" where
  "nativeSetBlock T C kv key byteBuffer dataSize set_clean w =
     (case byteBuffer of
        None \<Rightarrow> Some w
      | Some buf \<Rightarrow> do {
          key_str \<leftarrow> key;
          pmkv \<leftarrow> kv_at kv w;
          (rc, pmkv) \<leftarrow> put T C key_str buf (word_of_int dataSize) pmkv;
          Some (set_kv kv pmkv w)
        })"

text \<open>\<open>SetLongArrayRegion\<close> copies \<open>n\<close> words that must have been written.\<close>

primrec written_words :: "nat \<Rightarrow> u64 option list \<Rightarrow> u64 list option" where
  "written_words 0 xs = Some []"
| "written_words (Suc n) xs =
     (case xs of [] \<Rightarrow> None
      | x # xs \<Rightarrow> do { v \<leftarrow> x; vs \<leftarrow> written_words n xs; Some (v # vs) })"

definition nativeGetBlockIndex ::
  "'c cuckoo \<Rightarrow> (nat \<Rightarrow> bool) \<Rightarrow> u64 \<Rightarrow> string option \<Rightarrow> ('m, 'c) jni \<Rightarrow> u64 list option" where
  "nativeGetBlockIndex C grant kv key w = do {
     key_str \<leftarrow> key;
     pmkv \<leftarrow> kv_at kv w;
     (rc, size) \<leftarrow> get_meta_size C key_str pmkv;
     if \<not> grant 16 then None
     else do {
       let n = unat (size * 2 * 8);
       let mm = \<lparr>meta = (if grant n then Some (replicate (n div 8) None) else None), mm_length = None\<rparr>;
       (rc, mm) \<leftarrow> get_meta C key_str mm pmkv;
       len \<leftarrow> mm_length mm;
       xs \<leftarrow> meta mm;
       written_words (unat len) xs
     }
   }"

definition nativeGetBlockSize :: "'c cuckoo \<Rightarrow> u64 \<Rightarrow> string option \<Rightarrow> ('m, 'c) jni \<Rightarrow> u64 option" where
  "nativeGetBlockSize C kv key w = do {
     key_str \<leftarrow> key;
     pmkv \<leftarrow> kv_at kv w;
     (rc, value_size) \<leftarrow> get_value_size C key_str pmkv;
     Some value_size
   }"

definition closeDevice_body ::
  "'m tbp \<Rightarrow> 'c cuckoo \<Rightarrow> u64 \<Rightarrow> ('m, 'c) jni \<Rightarrow> ('m, 'c) jni option" where
  "closeDevice_body T C kv w = do {
     pmkv \<leftarrow> kv_at kv w;
     (rc, pmkv) \<leftarrow> free_all T C pmkv;
     pmkv \<leftarrow> pmemkv_delete C pmkv;
     Some (w\<lparr>kvs := (kvs w)(kv := None), j_pm := pm pmkv\<rparr>)
   }"

definition nativeCloseDevice ::
  "'m tbp \<Rightarrow> 'c cuckoo \<Rightarrow> u64 \<Rightarrow> ('m, 'c) jni \<Rightarrow> (int \<times> ('m, 'c) jni) option" where
  "nativeCloseDevice T C kv w = do { w \<leftarrow> closeDevice_body T C kv w; missing_return }"

section \<open>\<open>PmemBuffer\<close>\<close>

definition set_buf :: "u64 \<Rightarrow> PmemBuffer \<Rightarrow> ('m, 'c) jni \<Rightarrow> ('m, 'c) jni" where
  "set_buf h b w = w\<lparr>bufs := (bufs w)(h \<mapsto> b)\<rparr>"

definition nativeNewPmemBuffer :: "('m, 'c) jni \<Rightarrow> (u64 \<times> ('m, 'c) jni) option" where
  "nativeNewPmemBuffer w = do { (a, w) \<leftarrow> cpp_new w; Some (a, set_buf a PmemBuffer_new w) }"

definition nativeNewPmemBufferBySize ::
  "(nat \<Rightarrow> bool) \<Rightarrow> int \<Rightarrow> ('m, 'c) jni \<Rightarrow> (u64 \<times> ('m, 'c) jni) option" where
  "nativeNewPmemBufferBySize grant len w = do {
     (a, w) \<leftarrow> cpp_new w;
     Some (a, set_buf a (PmemBuffer_new_size grant len) w)
   }"

text \<open>\<open>addr\<close> is a persistent address; \<open>load\<close> reads the bytes behind it.\<close>

definition nativeLoadPmemBuffer ::
  "'m tbp \<Rightarrow> (nat \<Rightarrow> bool) \<Rightarrow> u64 \<Rightarrow> u64 \<Rightarrow> int \<Rightarrow> ('m, 'c) jni \<Rightarrow> ('m, 'c) jni option" where
  "nativeLoadPmemBuffer T grant pmBuffer addr len w = do {
     b \<leftarrow> bufs w pmBuffer;
     src \<leftarrow> (if addr = 0 then Some None
            else map_option (\<lambda>bs. Some (map Some bs)) (peek (direct T (j_pm w)) addr (nat len)));
     (rc, b) \<leftarrow> PmemBuffer_load grant src len b;
     Some (set_buf pmBuffer b w)
   }"

text \<open>
  The pointer \<open>ret_data + off\<close> into the elements of the Java array: null
  only for null elements at offset 0.
\<close>

definition array_from :: "cell list option \<Rightarrow> int \<Rightarrow> cell list option option" where
  "array_from arr i =
     (case arr of
        None \<Rightarrow> if i = 0 then Some None else None
      | Some xs \<Rightarrow> if 0 \<le> i \<and> i \<le> int (length xs) then Some (Some (drop (nat i) xs)) else None)"

definition array_put_back :: "cell list option \<Rightarrow> int \<Rightarrow> cell list option \<Rightarrow> cell list option" where
  "array_put_back arr i dst =
     (case (arr, dst) of (Some xs, Some ys) \<Rightarrow> Some (take (nat i) xs @ ys) | _ \<Rightarrow> arr)"

definition nativeReadBytesFromPmemBuffer ::
  "u64 \<Rightarrow> cell list option \<Rightarrow> int \<Rightarrow> int \<Rightarrow> ('m, 'c) jni \<Rightarrow> (int \<times> cell list option \<times> ('m, 'c) jni) option" where
  "nativeReadBytesFromPmemBuffer pmBuffer arr i len w = do {
     b \<leftarrow> bufs w pmBuffer;
     dst \<leftarrow> array_from arr i;
     (read_len, dst, b) \<leftarrow> PmemBuffer_read dst len b;
     Some (read_len, array_put_back arr i dst, set_buf pmBuffer b w)
   }"

definition nativeWriteBytesToPmemBuffer ::
  "(nat \<Rightarrow> bool) \<Rightarrow> u64 \<Rightarrow> cell list option \<Rightarrow> int \<Rightarrow> int \<Rightarrow> ('m, 'c) jni \<Rightarrow> (int \<times> ('m, 'c) jni) option" where
  "nativeWriteBytesToPmemBuffer grant pmBuffer arr i len w = do {
     b \<leftarrow> bufs w pmBuffer;
     src \<leftarrow> array_from arr i;
     (read_len, b) \<leftarrow> PmemBuffer_write grant src len b;
     Some (read_len, set_buf pmBuffer b w)
   }"

definition nativeGetPmemBufferRemaining :: "u64 \<Rightarrow> ('m, 'c) jni \<Rightarrow> int option" where
  "nativeGetPmemBufferRemaining pmBuffer w = do {
     b \<leftarrow> bufs w pmBuffer;
     let r = PmemBuffer_getRemaining b;
     missing_return
   }"

definition nativeGetPmemBufferDataAddr :: "u64 \<Rightarrow> ('m, 'c) jni \<Rightarrow> cptr option" where
  "nativeGetPmemBufferDataAddr pmBuffer w = map_option PmemBuffer_getDataAddr (bufs w pmBuffer)"

definition nativeCleanPmemBuffer :: "u64 \<Rightarrow> ('m, 'c) jni \<Rightarrow> (int \<times> ('m, 'c) jni) option" where
  "nativeCleanPmemBuffer pmBuffer w = do {
     b \<leftarrow> bufs w pmBuffer;
     let w = set_buf pmBuffer (PmemBuffer_clean b) w;
     missing_return
   }"

definition nativeDeletePmemBuffer :: "u64 \<Rightarrow> ('m, 'c) jni \<Rightarrow> (int \<times> ('m, 'c) jni) option" where
  "nativeDeletePmemBuffer pmBuffer w =
     (if pmBuffer = 0 then Some (0, w)
      else do { b \<leftarrow> bufs w pmBuffer; Some (0, w\<lparr>bufs := (bufs w)(pmBuffer := None)\<rparr>) })"

section \<open>Reading blocks through the Java interface\<close>

lemma kv_at_set_kv [simp]: "kv_at h (set_kv h s w) = Some s"
  by (simp add: kv_at_def set_kv_def)

lemma written_words_all: "written_words (length vs) (map Some vs @ xs) = Some vs"
  by (induction vs) simp_all

lemma block_index_correct:
  assumes "kv_at h w = Some s" "kv_repr T C own good s lg" "blocks (hash_of key) lg \<noteq> []"
    and "grants g" "length (blocks (hash_of key) lg) < 2 ^ 27"
  obtains ns where "nativeGetBlockIndex C g h (Some key) w = Some (flat_blocks ns)"
    "length ns = length (blocks (hash_of key) lg)"
    "list_all2 (node_bytes T (j_pm w)) ns (blocks (hash_of key) lg)"
    "\<forall>n \<in> set ns. snd (snd n) = 0 \<or> fst (snd n) \<noteq> 0"
proof -
  define n where "n = length (blocks (hash_of key) lg)"
  have n: "n < 2 ^ 27" using assms(5) by (simp add: n_def)
  have u: "unat (of_nat n * 2 * 8 :: u64) = 16 * n"
  proof -
    have "(of_nat n * 2 * 8 :: u64) = of_nat (16 * n)" by simp
    then show ?thesis using n by (simp only: unat_of_nat) simp
  qed
  have gr: "g 16" "g (16 * n)" using assms(4) n by (simp_all add: grants_def)
  let ?xs = "replicate (2 * n) (None :: u64 option)"
  let ?mm = "\<lparr>meta = Some ?xs, mm_length = None\<rparr>"
  obtain ns where ns: "get_meta C key ?mm s = Some (0, ?mm\<lparr>meta := Some (map Some (flat_blocks ns) @
      drop (2 * length ns) ?xs), mm_length := Some (of_nat (2 * length ns))\<rparr>)"
    "length ns = length (blocks (hash_of key) lg)"
    "list_all2 (node_bytes T (pm s)) ns (blocks (hash_of key) lg)"
    "\<forall>n \<in> set ns. snd (snd n) = 0 \<or> fst (snd n) \<noteq> 0"
    by (rule get_meta_correct [OF assms(2,3), of ?mm ?xs]) (use n in \<open>simp_all add: n_def\<close>)
  have ln: "length ns = n" using ns(2) by (simp add: n_def)
  have "get_meta_size C key s = Some (0, of_nat n)"
    using sizes_correct(2) [OF assms(2), of key] assms(3) by (simp add: n_def)
  moreover have "unat (of_nat (2 * n) :: u64) = 2 * n"
    using n by (simp only: unat_of_nat) simp
  moreover have "written_words (2 * n) (map Some (flat_blocks ns) @ []) = Some (flat_blocks ns)"
    using written_words_all [of "flat_blocks ns" "[]"] by (simp add: ln)
  ultimately have "nativeGetBlockIndex C g h (Some key) w = Some (flat_blocks ns)"
    using ns(1) assms(1) gr u by (simp add: nativeGetBlockIndex_def ln del: of_nat_mult)
  moreover have "pm s = j_pm w" using assms(1) by (auto simp: kv_at_def)
  ultimately show thesis using that ns(2-4) by simp
qed

lemma load_and_read_block:
  assumes "grants g" "bufs w p = Some b" "buffer_ok b" "remaining b = 0"
    and "node_bytes T (j_pm w) n bs" "fst (snd n) \<noteq> 0" "bs \<noteq> []" "length bs < 2 ^ 31"
  obtains w1 where "nativeLoadPmemBuffer T g p (fst (snd n)) (uint (snd (snd n))) w = Some w1"
    "\<And>arr. length arr = length bs \<Longrightarrow>
       \<exists>w2. nativeReadBytesFromPmemBuffer p (Some arr) 0 (int (length bs)) w1 =
         Some (int (length bs), Some (map Some bs), w2)"
proof -
  have bs: "peek (direct T (j_pm w)) (fst (snd n)) (length bs) = Some bs" "uint (snd (snd n)) = int (length bs)"
    using assms(5) by (simp_all add: node_bytes_def uint_nat del: of_nat_unat)
  let ?src = "map Some bs"
  obtain b1 where b1: "PmemBuffer_load g (Some ?src) (int (length bs)) b = Some (int (length bs), b1)"
    "buffer_ok b1" "unread b1 = kept_by_load (int (length bs)) b @ take (nat (int (length bs))) ?src"
    using load_spec [OF assms(1,3), of "int (length bs)" ?src] assms(4,7,8) by auto
  have "kept_by_load (int (length bs)) b = []"
    using assms(3,4) length_unread [of b] by (simp add: kept_by_load_def)
  then have un: "unread b1 = ?src" using b1(3) by simp
  then have rem: "remaining b1 = int (length bs)"
    using length_unread [OF b1(2)] b1(2) by (simp add: buffer_ok_def)
  let ?w1 = "set_buf p b1 w"
  have "nativeLoadPmemBuffer T g p (fst (snd n)) (uint (snd (snd n))) w = Some ?w1"
    using bs assms(2,6) b1(1) by (simp add: nativeLoadPmemBuffer_def)
  moreover have "\<exists>w2. nativeReadBytesFromPmemBuffer p (Some arr) 0 (int (length bs)) ?w1 =
      Some (int (length bs), Some (map Some bs), w2)" if arr: "length arr = length bs" for arr
  proof -
    obtain b2 where "PmemBuffer_read (Some arr) (int (length bs)) b1 =
        Some (int (length bs), Some ?src, b2)"
      using read_spec [OF b1(2), of "int (length bs)" arr "length bs"] rem un arr by auto
    then show ?thesis
      by (simp add: nativeReadBytesFromPmemBuffer_def array_from_def array_put_back_def set_buf_def)
  qed
  ultimately show thesis using that by blast
qed

section \<open>Properties\<close>

definition sample_jni :: "(sim, (u64 \<times> u64) list) jni" where
  "sample_jni = \<lparr>j_pm = pm sample_kv1, kvs = [8 \<mapsto> sample_kv1], bufs = [16 \<mapsto> PmemBuffer_new], new_addrs = []\<rparr>"

lemma sample_jni_kv: "kv_at 8 sample_jni = Some sample_kv1"
  by (simp add: kv_at_def sample_jni_def)

text \<open>
  C12: the read path of a shuffle block.  For a key with non-empty blocks,
  \<open>nativeGetBlockIndex\<close> returns an address and a length per block; loading each
  pair into an empty buffer and reading it back through the Java array delivers
  exactly the bytes of that block.
\<close>

theorem block_read_path:
  assumes "kv_at h w = Some s" "kv_repr T C own good s lg" "blocks (hash_of key) lg \<noteq> []"
    and "grants g" "length (blocks (hash_of key) lg) < 2 ^ 27"
    and "\<forall>bs \<in> set (blocks (hash_of key) lg). bs \<noteq> [] \<and> length bs < 2 ^ 31"
    and "bufs w p = Some b" "buffer_ok b" "remaining b = 0"
  shows "\<exists>fl. nativeGetBlockIndex C g h (Some key) w = Some fl \<and>
     length fl = 2 * length (blocks (hash_of key) lg) \<and>
     (\<forall>i < length (blocks (hash_of key) lg).
        let bs = blocks (hash_of key) lg ! i in
        \<exists>w1. nativeLoadPmemBuffer T g p (fl ! (2 * i)) (uint (fl ! (2 * i + 1))) w = Some w1 \<and>
          (\<forall>arr. length arr = length bs \<longrightarrow>
             (\<exists>w2. nativeReadBytesFromPmemBuffer p (Some arr) 0 (int (length bs)) w1 =
                Some (int (length bs), Some (map Some bs), w2))))"
proof -
  let ?bl = "blocks (hash_of key) lg"
  obtain ns where ns: "nativeGetBlockIndex C g h (Some key) w = Some (flat_blocks ns)"
    "length ns = length ?bl" "list_all2 (node_bytes T (j_pm w)) ns ?bl"
    "\<forall>n \<in> set ns. snd (snd n) = 0 \<or> fst (snd n) \<noteq> 0"
    by (rule block_index_correct [OF assms(1-5)])
  have "\<exists>w1. nativeLoadPmemBuffer T g p (flat_blocks ns ! (2 * i)) (uint (flat_blocks ns ! (2 * i + 1))) w = Some w1 \<and>
      (\<forall>arr. length arr = length (?bl ! i) \<longrightarrow>
         (\<exists>w2. nativeReadBytesFromPmemBuffer p (Some arr) 0 (int (length (?bl ! i))) w1 =
            Some (int (length (?bl ! i)), Some (map Some (?bl ! i)), w2)))" if i: "i < length ?bl" for i
  proof -
    have nb: "node_bytes T (j_pm w) (ns ! i) (?bl ! i)"
      using ns(3) i by (auto simp: list_all2_conv_all_nth)
    moreover have b: "?bl ! i \<noteq> []" "length (?bl ! i) < 2 ^ 31" using assms(6) i by auto
    moreover have "fst (snd (ns ! i)) \<noteq> 0"
      using ns(2,4) i nb b(1) nth_mem [of i ns] by (fastforce simp: node_bytes_def)
    ultimately obtain w1 where "nativeLoadPmemBuffer T g p (fst (snd (ns ! i))) (uint (snd (snd (ns ! i)))) w = Some w1"
      "\<And>arr. length arr = length (?bl ! i) \<Longrightarrow>
         \<exists>w2. nativeReadBytesFromPmemBuffer p (Some arr) 0 (int (length (?bl ! i))) w1 =
           Some (int (length (?bl ! i)), Some (map Some (?bl ! i)), w2)"
      using load_and_read_block [OF assms(4,7-9), of T "ns ! i" "?bl ! i"] by blast
    then show ?thesis using flat_blocks_nth [of i ns] ns(2) i by auto
  qed
  then show ?thesis using ns(1,2) by (intro exI [of _ "flat_blocks ns"]) (simp add: Let_def)
qed

theorem block_read_path_witness:
  "\<exists>a n w1 w2. nativeGetBlockIndex alist_cuckoo (\<lambda>_. True) 8 (Some ''a'') sample_jni = Some [a, n] \<and>
     nativeLoadPmemBuffer sim_tbp (\<lambda>_. True) 16 a (uint n) sample_jni = Some w1 \<and>
     nativeReadBytesFromPmemBuffer 16 (Some [None, None, None]) 0 3 w1 =
       Some (3, Some [Some 1, Some 2, Some 0], w2)"
proof -
  have b: "blocks (hash_of ''a'') [(hash_of ''a'', [1, 2, 0])] = [[1, 2, 0]]" by (simp add: blocks_def)
  have "bufs sample_jni 16 = Some PmemBuffer_new" "remaining PmemBuffer_new = 0"
    by (simp_all add: sample_jni_def PmemBuffer_new_def)
  from block_read_path [OF sample_jni_kv sample_repr1, of "''a''" "\<lambda>_. True", unfolded b, OF _ _ _ _ this(1) _ this(2)]
  obtain fl w1 where fl: "nativeGetBlockIndex alist_cuckoo (\<lambda>_. True) 8 (Some ''a'') sample_jni = Some fl"
    "length fl = 2" "nativeLoadPmemBuffer sim_tbp (\<lambda>_. True) 16 (fl ! 0) (uint (fl ! 1)) sample_jni = Some w1"
    and r: "\<And>arr. length arr = 3 \<Longrightarrow> \<exists>w2. nativeReadBytesFromPmemBuffer 16 (Some arr) 0 3 w1 =
       Some (3, Some [Some 1, Some 2, Some 0], w2)"
    by (auto simp: Let_def)
  from fl(2) obtain a n where "fl = [a, n]" by (auto simp: length_Suc_conv numeral_2_eq_2)
  with fl r [of "[None, None, None]"] show ?thesis by auto
qed

text \<open>
  \<open>nativeGetBlockIndex\<close> has no defined result for a key that was never put:
  \<open>get_meta\<close> clears only its own copy of the pointer, and the length that is then
  used was never written.
\<close>

theorem block_index_of_absent_key_undefined:
  assumes "kv_at h w = Some s" "kv_repr T C own good s lg" "blocks (hash_of key) lg = []"
  shows "nativeGetBlockIndex C g h (Some key) w = None \<and> nativeGetBlockSize C h (Some key) w = Some 0"
proof -
  have sz: "get_meta_size C key s = Some (- 1, 0)" "get_value_size C key s = Some (- 1, 0)"
    using sizes_correct(1,2) [OF assms(2), of key] assms(3) by simp_all
  obtain es ch where laws: "cuckoo_laws C" and ix: "kv_index C s ch" "\<And>k. map snd (ch k) = blocks_at k es"
    and lg: "log_of es = lg"
    by (rule kv_reprE [OF assms(2)]) blast
  have "\<not> cm_contains C (index_map s) (hash_of key)"
    using kv_lookup(1) [OF laws ix(1) ix(2) [of "hash_of key"]] assms(3) lg by simp
  then have "get_meta C key mm s = Some (0, mm)" for mm
    by (simp add: get_meta_def key_hash_eq)
  with sz assms(1) show ?thesis
    by (simp add: nativeGetBlockIndex_def nativeGetBlockSize_def Let_def)
qed

theorem block_index_of_absent_key_undefined_witness:
  "nativeGetBlockIndex alist_cuckoo (\<lambda>_. True) 8 (Some ''zz'')
     (sample_jni\<lparr>kvs := [8 \<mapsto> sample_kv], j_pm := pm sample_kv\<rparr>) = None"
  using block_index_of_absent_key_undefined [of 8 "sample_jni\<lparr>kvs := [8 \<mapsto> sample_kv], j_pm := pm sample_kv\<rparr>",
      OF _ sample_repr]
  by (simp add: kv_at_def blocks_def)

text \<open>
  Closing a device releases everything the store allocated and removes the object,
  but the function then runs off its end: neither it nor the functions that report the
  remaining bytes and clean a buffer ever give Java a defined result.
\<close>

theorem functions_without_return:
  assumes "kv_at h w = Some s" "kv_repr T C own good s lg"
  shows "(\<exists>w'. closeDevice_body T C h w = Some w' \<and> kvs w' h = None) \<and>
     nativeCloseDevice T C h w = None \<and>
     nativeGetPmemBufferRemaining p w = None \<and> nativeCleanPmemBuffer p w = None"
proof -
  obtain s1 where s1: "free_all T C s = Some (0, s1)" "kv_repr T C own good s1 []"
    by (rule free_all_correct [OF assms(2)])
  obtain s2 where "pmemkv_delete C s1 = Some s2"
    by (rule delete_correct [OF s1(2)])
  with s1(1) assms(1) show ?thesis
    by (simp add: closeDevice_body_def nativeCloseDevice_def nativeGetPmemBufferRemaining_def
        nativeCleanPmemBuffer_def missing_return_def)
qed

theorem functions_without_return_witness:
  "(\<exists>w'. closeDevice_body sim_tbp alist_cuckoo 8 sample_jni = Some w' \<and> kvs w' 8 = None) \<and>
   nativeCloseDevice sim_tbp alist_cuckoo 8 sample_jni = None"
  using functions_without_return [OF sample_jni_kv sample_repr1, of 16] by simp

text \<open>
  \<open>nativeSetBlock\<close> reports nothing.  When the index cannot be extended it
  returns normally, and the block it was given is not found afterwards: the size of a
  new key is still 0.
\<close>

theorem set_block_hides_failure:
  assumes "kv_at h w = Some s" "kv_repr T C own good s lg" "blocks (hash_of key) lg = []"
    and "can_alloc T (word_of_int n) (pm s)" "0 \<le> n" "n < 2 ^ 31" "nat n \<le> length buf"
    and "answers (heap s) = []"
  shows "\<exists>w'. nativeSetBlock T C h (Some key) (Some buf) n c w = Some w' \<and>
     nativeGetBlockSize C h (Some key) w' = Some 0"
proof -
  have "uint (word_of_int n :: u64) = n"
    using assms(5,6) by (simp add: uint_word_of_int)
  then have u: "unat (word_of_int n :: u64) \<le> length buf"
    using assms(7) by (metis unat_eq_nat_uint)
  obtain m where "put T C key buf (word_of_int n) s = Some (- 1, s\<lparr>pm := m\<rparr>)"
    using put_no_memory [OF assms(2,4) u assms(8)] by blast
  moreover have "get_value_size C key (s\<lparr>pm := m\<rparr>) = get_value_size C key s"
    unfolding get_value_size_def by (simp cong: if_cong)
  moreover have "get_value_size C key s = Some (- 1, 0)"
    using sizes_correct(1) [OF assms(2), of key] assms(3) by simp
  ultimately show ?thesis
    using assms(1) by (simp add: nativeSetBlock_def nativeGetBlockSize_def)
qed

theorem set_block_hides_failure_witness:
  "\<exists>w'. nativeSetBlock sim_tbp alist_cuckoo 8 (Some ''b'') (Some [5]) 1 False
      (sample_jni\<lparr>kvs := [8 \<mapsto> pmemkv_new sim_tbp alist_cuckoo [] []],
        j_pm := pm (pmemkv_new sim_tbp alist_cuckoo [] [])\<rparr>) = Some w' \<and>
     nativeGetBlockSize alist_cuckoo 8 (Some ''b'') w' = Some 0"
proof -
  let ?s = "pmemkv_new sim_tbp alist_cuckoo [] []"
  have r: "kv_repr sim_tbp alist_cuckoo sim_own sim_good ?s []"
    by (rule new_repr [OF sim_laws alist_cuckoo_laws]) (simp_all add: sim_good_def alloc_ok_def sim_defs)
  have "can_alloc sim_tbp (word_of_int 1) (pm ?s)" by code_simp
  moreover have "answers (heap ?s) = []"
    by (simp add: pmemkv_new_def create_def split: prod.splits)
  ultimately show ?thesis
    using set_block_hides_failure [of 8 "sample_jni\<lparr>kvs := [8 \<mapsto> ?s], j_pm := pm ?s\<rparr>" ?s, OF _ r,
        of "''b''" 1 "[5]" False]
    by (simp add: kv_at_def blocks_def)
qed

end
