(* ===== verification/CatchString.thy ===== *)
theory CatchString
  imports NvmPrelude "HOL-Library.Sublist" "HOL-Library.Multiset"
begin

text \<open>
  The string layer of the bundled unit test framework
  (\<open>native/src/catch.hpp\<close>): the \<open>std::string\<close> searches it uses,
  \<open>catch_string_manip\<close>, the non-owning \<open>StringRef\<close>, wildcard patterns, and
  the string and vector matchers.  A \<open>std::string\<close> is a list of characters, a
  \<open>size_t\<close> position a natural number, and \<open>npos\<close> is \<open>None\<close>.
\<close>

section \<open>\<open>std::string\<close>\<close>

text \<open>\<open>s.find(p)\<close>, \<open>s.find(p, pos)\<close> and \<open>s.rfind(p, pos)\<close>.\<close>

fun str_find :: "'a list \<Rightarrow> 'a list \<Rightarrow> nat option" where
  "str_find p [] = (if p = [] then Some 0 else None)"
| "str_find p (c # s) =
     (if take (length p) (c # s) = p then Some 0 else map_option Suc (str_find p s))"

definition str_find_from :: "'a list \<Rightarrow> 'a list \<Rightarrow> nat \<Rightarrow> nat option" where
  "str_find_from p s i = (if i \<le> length s then map_option ((+) i) (str_find p (drop i s)) else None)"

fun str_rfind :: "'a list \<Rightarrow> 'a list \<Rightarrow> nat \<Rightarrow> nat option" where
  "str_rfind p s 0 = (if take (length p) s = p then Some 0 else None)"
| "str_rfind p s (Suc i) =
     (if Suc i + length p \<le> length s \<and> take (length p) (drop (Suc i) s) = p then Some (Suc i)
      else str_rfind p s i)"

text \<open>\<open>s.substr(pos, n)\<close> throws when \<open>pos\<close> is beyond the end; \<open>n\<close> is clamped.\<close>

definition str_substr :: "'a list \<Rightarrow> nat \<Rightarrow> nat \<Rightarrow> 'a list option" where
  "str_substr s i n = (if i \<le> length s then Some (take n (drop i s)) else None)"

definition str_substr_end :: "'a list \<Rightarrow> nat \<Rightarrow> 'a list option" where
  "str_substr_end s i = (if i \<le> length s then Some (drop i s) else None)"

text \<open>\<open>std::tolower\<close> and \<open>std::isalnum\<close> in the C locale.\<close>

definition toLowerCh :: "char \<Rightarrow> char" where
  "toLowerCh c = (let n = of_char c :: nat in if 65 \<le> n \<and> n \<le> 90 then char_of (n + 32) else c)"

definition is_alnum :: "char \<Rightarrow> bool" where
  "is_alnum c = (let n = of_char c :: nat in
     48 \<le> n \<and> n \<le> 57 \<or> 65 \<le> n \<and> n \<le> 90 \<or> 97 \<le> n \<and> n \<le> 122)"

text \<open>Decimal output of an unsigned number.\<close>

fun show_nat :: "nat \<Rightarrow> string" where
  "show_nat n = (if n < 10 then [char_of (48 + n)] else show_nat (n div 10) @ [char_of (48 + n mod 10)])"

declare show_nat.simps [simp del]

section \<open>\<open>catch_string_manip\<close>\<close>

definition startsWith :: "string \<Rightarrow> string \<Rightarrow> bool" where
  "startsWith s p \<longleftrightarrow> length p \<le> length s \<and> take (length p) s = p"

definition startsWith_ch :: "string \<Rightarrow> char \<Rightarrow> bool" where
  "startsWith_ch s c \<longleftrightarrow> s \<noteq> [] \<and> s ! 0 = c"

definition endsWith :: "string \<Rightarrow> string \<Rightarrow> bool" where
  "endsWith s p \<longleftrightarrow> length p \<le> length s \<and> take (length p) (rev s) = rev p"

definition endsWith_ch :: "string \<Rightarrow> char \<Rightarrow> bool" where
  "endsWith_ch s c \<longleftrightarrow> s \<noteq> [] \<and> s ! (length s - 1) = c"

definition contains :: "string \<Rightarrow> string \<Rightarrow> bool" where
  "contains s p \<longleftrightarrow> str_find p s \<noteq> None"

definition toLowerInPlace :: "string \<Rightarrow> string" where
  "toLowerInPlace s = map toLowerCh s"

definition toLower :: "string \<Rightarrow> string" where
  "toLower s = (let lc = s in toLowerInPlace lc)"

definition whitespaceChars :: string where
  "whitespaceChars = [CHR 0x0A, CHR 0x0D, CHR 0x09, CHR '' '']"

fun find_first_not_of :: "string \<Rightarrow> string \<Rightarrow> nat option" where
  "find_first_not_of ws [] = None"
| "find_first_not_of ws (c # s) = (if c \<notin> set ws then Some 0 else map_option Suc (find_first_not_of ws s))"

definition find_last_not_of :: "string \<Rightarrow> string \<Rightarrow> nat option" where
  "find_last_not_of ws s = map_option (\<lambda>i. length s - 1 - i) (find_first_not_of ws (rev s))"

definition trim :: "string \<Rightarrow> string option" where
  "trim str =
     (case (find_first_not_of whitespaceChars str, find_last_not_of whitespaceChars str) of
        (None, _) \<Rightarrow> Some []
      | (Some start, Some stop) \<Rightarrow> str_substr str start (1 + stop - start)
      | (Some start, None) \<Rightarrow> None)"

text \<open>
  The loop of \<open>replaceInPlace\<close>; \<open>None\<close> when it does not end.  The
  unsigned difference \<open>str.size() - withThis.size()\<close> is never negative here,
  since \<open>str\<close> contains \<open>withThis\<close>.
\<close>

partial_function (option) replace_loop ::
  "string \<Rightarrow> string \<Rightarrow> string \<Rightarrow> nat \<Rightarrow> string option" where
  "replace_loop replaceThis withThis str i = do {
     a \<leftarrow> str_substr str 0 i;
     b \<leftarrow> str_substr_end str (i + length replaceThis);
     let str = a @ withThis @ b;
     if i < length str - length withThis
     then (case str_find_from replaceThis str (i + length withThis) of
             None \<Rightarrow> Some str
           | Some i \<Rightarrow> replace_loop replaceThis withThis str i)
     else Some str
   }"

declare replace_loop.simps [code]

definition replaceInPlace :: "string \<Rightarrow> string \<Rightarrow> string \<Rightarrow> (bool \<times> string) option" where
  "replaceInPlace str replaceThis withThis =
     (case str_find replaceThis str of
        None \<Rightarrow> Some (False, str)
      | Some i \<Rightarrow> map_option (Pair True) (replace_loop replaceThis withThis str i))"

text \<open>The scan of \<open>splitStringRef\<close> from position \<open>p\<close> with the current \<open>start\<close>.\<close>

function split_loop :: "string \<Rightarrow> char \<Rightarrow> nat \<Rightarrow> nat \<Rightarrow> string list \<Rightarrow> nat \<times> string list" where
  "split_loop str delimiter p start acc =
     (if p < length str
      then if str ! p = delimiter
        then split_loop str delimiter (Suc p) (Suc p)
               (if p - start > 1 then acc @ [take (p - start) (drop start str)] else acc)
        else split_loop str delimiter (Suc p) start acc
      else (start, acc))"
  by auto
termination by (relation "measure (\<lambda>(str, _, p, _). length str - p)") auto

declare split_loop.simps [simp del]

definition splitStringRef :: "string \<Rightarrow> char \<Rightarrow> string list" where
  "splitStringRef str delimiter =
     (let (start, acc) = split_loop str delimiter 0 0 [] in
      if start < length str then acc @ [take (length str - start) (drop start str)] else acc)"

definition pluralise :: "nat \<Rightarrow> string \<Rightarrow> string" where
  "pluralise cnt label = show_nat cnt @ '' '' @ label @ (if cnt \<noteq> 1 then ''s'' else [])"

section \<open>\<open>StringRef\<close>\<close>

text \<open>
  A view of \<open>m_size\<close> characters at an offset of a character array;
  \<open>m_data\<close> is the owned null-terminated copy, once one has been made.
\<close>

record StringRef =
  sr_array :: string
  sr_start :: nat
  m_size :: nat
  m_data :: "string option"

abbreviation nul :: char where "nul \<equiv> CHR 0x00"

definition StringRef_empty :: StringRef where
  "StringRef_empty = \<lparr>sr_array = [nul], sr_start = 0, m_size = 0, m_data = None\<rparr>"

definition StringRef_sized :: "string \<Rightarrow> nat \<Rightarrow> nat \<Rightarrow> StringRef" where
  "StringRef_sized rawChars start n = \<lparr>sr_array = rawChars, sr_start = start, m_size = n, m_data = None\<rparr>"

text \<open>From a C string: \<open>strlen\<close> needs a terminator.\<close>

definition StringRef_raw :: "string \<Rightarrow> StringRef option" where
  "StringRef_raw rawChars =
     (if nul \<in> set rawChars then Some (StringRef_sized rawChars 0 (length (takeWhile (\<lambda>c. c \<noteq> nul) rawChars)))
      else None)"

definition StringRef_std :: "string \<Rightarrow> StringRef" where
  "StringRef_std s = StringRef_sized (s @ [nul]) 0 (length s)"

definition StringRef_copy :: "StringRef \<Rightarrow> StringRef" where
  "StringRef_copy r = r\<lparr>m_data := None\<rparr>"

definition StringRef_move :: "StringRef \<Rightarrow> StringRef \<times> StringRef" where
  "StringRef_move r = (r, r\<lparr>m_data := None\<rparr>)"

text \<open>Assignment frees the owned copy of the target.\<close>

definition StringRef_assign :: "StringRef \<Rightarrow> StringRef \<Rightarrow> StringRef" where
  "StringRef_assign self r = self\<lparr>m_data := None, sr_array := sr_array r, sr_start := sr_start r, m_size := m_size r\<rparr>"

definition StringRef_swap :: "StringRef \<Rightarrow> StringRef \<Rightarrow> StringRef \<times> StringRef" where
  "StringRef_swap a b = (b, a)"

definition StringRef_at :: "StringRef \<Rightarrow> nat \<Rightarrow> char option" where
  "StringRef_at r i = (let k = sr_start r + i in if k < length (sr_array r) then Some (sr_array r ! k) else None)"

definition StringRef_string :: "StringRef \<Rightarrow> string option" where
  "StringRef_string r =
     (if sr_start r + m_size r \<le> length (sr_array r) then Some (take (m_size r) (drop (sr_start r) (sr_array r)))
      else None)"

definition isOwned :: "StringRef \<Rightarrow> bool" where
  "isOwned r \<longleftrightarrow> m_data r \<noteq> None"

definition isSubstring :: "StringRef \<Rightarrow> bool option" where
  "isSubstring r = map_option (\<lambda>c. c \<noteq> nul) (StringRef_at r (m_size r))"

definition takeOwnership :: "StringRef \<Rightarrow> StringRef option" where
  "takeOwnership r =
     (if \<not> isOwned r then map_option (\<lambda>s. r\<lparr>m_data := Some (s @ [nul])\<rparr>) (StringRef_string r) else Some r)"

text \<open>
  The characters the pointer returned by \<open>c_str\<close> points at, up to the end of
  their array, and the view afterwards.
\<close>

definition StringRef_c_str :: "StringRef \<Rightarrow> (string \<times> StringRef) option" where
  "StringRef_c_str r = do {
     sub \<leftarrow> isSubstring r;
     if \<not> sub then Some (drop (sr_start r) (sr_array r), r)
     else do {
       r \<leftarrow> takeOwnership r;
       d \<leftarrow> m_data r;
       Some (d, r)
     }
   }"

definition StringRef_substr :: "StringRef \<Rightarrow> nat \<Rightarrow> nat \<Rightarrow> StringRef" where
  "StringRef_substr r start n =
     (if start < m_size r then StringRef_sized (sr_array r) (sr_start r + start) n else StringRef_empty)"

text \<open>\<open>strncmp\<close> stops at a terminator common to both sides.\<close>

fun strncmp_eq :: "string \<Rightarrow> string \<Rightarrow> nat \<Rightarrow> bool option" where
  "strncmp_eq a b 0 = Some True"
| "strncmp_eq (x # a) (y # b) (Suc n) =
     (if x \<noteq> y then Some False else if x = nul then Some True else strncmp_eq a b n)"
| "strncmp_eq a b (Suc n) = None"

definition StringRef_eq :: "StringRef \<Rightarrow> StringRef \<Rightarrow> bool option" where
  "StringRef_eq a b =
     (if m_size a = m_size b
      then strncmp_eq (drop (sr_start a) (sr_array a)) (drop (sr_start b) (sr_array b)) (m_size a)
      else Some False)"

definition byte_2_lead :: nat where "byte_2_lead = 0xC0"
definition byte_3_lead :: nat where "byte_3_lead = 0xE0"
definition byte_4_lead :: nat where "byte_4_lead = 0xF0"

text \<open>The number of code units the byte \<open>c\<close> announces beyond itself.\<close>

definition lead_extra :: "char \<Rightarrow> nat" where
  "lead_extra c =
     (let n = of_char c in
      if and n byte_2_lead = byte_2_lead
      then 1 + (if and n byte_3_lead = byte_3_lead then 1 else 0) + (if and n byte_4_lead = byte_4_lead then 1 else 0)
      else 0)"

definition numberOfCharacters :: "StringRef \<Rightarrow> u64 option" where
  "numberOfCharacters r =
     map_option (\<lambda>s. of_nat (m_size r) - of_nat (sum_list (map lead_extra s))) (StringRef_string r)"

definition StringRef_plus :: "StringRef \<Rightarrow> StringRef \<Rightarrow> string option" where
  "StringRef_plus a b = do { x \<leftarrow> StringRef_string a; y \<leftarrow> StringRef_string b; Some (x @ y) }"

definition StringRef_ne :: "StringRef \<Rightarrow> StringRef \<Rightarrow> bool option" where
  "StringRef_ne a b = map_option Not (StringRef_eq a b)"

text \<open>The operators that mix a view with a C string or append it to a \<open>std::string\<close>.\<close>

definition StringRef_plus_raw :: "StringRef \<Rightarrow> string \<Rightarrow> string option" where
  "StringRef_plus_raw a rhs = do {
     x \<leftarrow> StringRef_string a; r \<leftarrow> StringRef_raw rhs; y \<leftarrow> StringRef_string r; Some (x @ y) }"

definition raw_plus_StringRef :: "string \<Rightarrow> StringRef \<Rightarrow> string option" where
  "raw_plus_StringRef lhs b = do {
     l \<leftarrow> StringRef_raw lhs; x \<leftarrow> StringRef_string l; y \<leftarrow> StringRef_string b; Some (x @ y) }"

definition string_append_StringRef :: "string \<Rightarrow> StringRef \<Rightarrow> string option" where
  "string_append_StringRef lhs r = map_option (\<lambda>y. lhs @ y) (StringRef_string r)"

section \<open>Wildcard patterns\<close>

datatype CaseSensitive = CaseYes | CaseNo

definition adjustCase :: "CaseSensitive \<Rightarrow> string \<Rightarrow> string" where
  "adjustCase cs str = (case cs of CaseNo \<Rightarrow> toLower str | CaseYes \<Rightarrow> str)"

datatype WildcardPosition = NoWildcard | WildcardAtStart | WildcardAtEnd | WildcardAtBothEnds

record WildcardPattern =
  m_caseSensitivity :: CaseSensitive
  m_wildcard :: WildcardPosition
  m_pattern :: string

text \<open>\<open>m_wildcard | WildcardAtEnd\<close>.\<close>

definition or_at_end :: "WildcardPosition \<Rightarrow> WildcardPosition" where
  "or_at_end w = (case w of
     NoWildcard \<Rightarrow> WildcardAtEnd | WildcardAtStart \<Rightarrow> WildcardAtBothEnds
   | WildcardAtEnd \<Rightarrow> WildcardAtEnd | WildcardAtBothEnds \<Rightarrow> WildcardAtBothEnds)"

definition WildcardPattern_new :: "string \<Rightarrow> CaseSensitive \<Rightarrow> WildcardPattern" where
  "WildcardPattern_new pat cs =
     (let w = \<lparr>m_caseSensitivity = cs, m_wildcard = NoWildcard, m_pattern = adjustCase cs pat\<rparr>;
          w = (if startsWith_ch (m_pattern w) CHR ''*''
               then w\<lparr>m_pattern := drop 1 (m_pattern w), m_wildcard := WildcardAtStart\<rparr> else w);
          w = (if endsWith_ch (m_pattern w) CHR ''*''
               then w\<lparr>m_pattern := take (length (m_pattern w) - 1) (m_pattern w),
                      m_wildcard := or_at_end (m_wildcard w)\<rparr> else w)
      in w)"

definition WildcardPattern_matches :: "WildcardPattern \<Rightarrow> string \<Rightarrow> bool" where
  "WildcardPattern_matches w str =
     (let s = adjustCase (m_caseSensitivity w) str in
      case m_wildcard w of
        NoWildcard \<Rightarrow> m_pattern w = s
      | WildcardAtStart \<Rightarrow> endsWith s (m_pattern w)
      | WildcardAtEnd \<Rightarrow> startsWith s (m_pattern w)
      | WildcardAtBothEnds \<Rightarrow> contains s (m_pattern w))"

section \<open>Matchers\<close>

text \<open>
  A matcher object: its \<open>match\<close> and \<open>describe\<close>, or a combination of
  matchers.
\<close>

datatype 'a matcher =
    Matcher "'a \<Rightarrow> bool" string
  | MatchAllOf "'a matcher list"
  | MatchAnyOf "'a matcher list"
  | MatchNotOf "'a matcher"

fun all_of :: "('m \<Rightarrow> bool) \<Rightarrow> 'm list \<Rightarrow> bool" where
  "all_of f [] = True"
| "all_of f (m # ms) = (if \<not> f m then False else all_of f ms)"

fun any_of :: "('m \<Rightarrow> bool) \<Rightarrow> 'm list \<Rightarrow> bool" where
  "any_of f [] = False"
| "any_of f (m # ms) = (if f m then True else any_of f ms)"

lemma all_of_iff [simp]: "all_of f ms \<longleftrightarrow> (\<forall>m \<in> set ms. f m)"
  by (induction ms) auto

lemma any_of_iff [simp]: "any_of f ms \<longleftrightarrow> (\<exists>m \<in> set ms. f m)"
  by (induction ms) auto

lemma all_of_cong [fundef_cong]:
  "ms = ms' \<Longrightarrow> (\<And>m. m \<in> set ms' \<Longrightarrow> f m = g m) \<Longrightarrow> all_of f ms = all_of g ms'"
  by simp

lemma any_of_cong [fundef_cong]:
  "ms = ms' \<Longrightarrow> (\<And>m. m \<in> set ms' \<Longrightarrow> f m = g m) \<Longrightarrow> any_of f ms = any_of g ms'"
  by simp

fun matcher_match :: "'a matcher \<Rightarrow> 'a \<Rightarrow> bool" where
  "matcher_match (Matcher f d) x = f x"
| "matcher_match (MatchAllOf ms) x = all_of (\<lambda>m. matcher_match m x) ms"
| "matcher_match (MatchAnyOf ms) x = any_of (\<lambda>m. matcher_match m x) ms"
| "matcher_match (MatchNotOf m) x = (\<not> matcher_match m x)"

fun join_with :: "string \<Rightarrow> string list \<Rightarrow> string" where
  "join_with sep [] = []"
| "join_with sep [d] = d"
| "join_with sep (d # ds) = d @ sep @ join_with sep ds"

fun matcher_describe :: "'a matcher \<Rightarrow> string" where
  "matcher_describe (Matcher f d) = d"
| "matcher_describe (MatchAllOf ms) = ''( '' @ join_with '' and '' (map matcher_describe ms) @ '' )''"
| "matcher_describe (MatchAnyOf ms) = ''( '' @ join_with '' or '' (map matcher_describe ms) @ '' )''"
| "matcher_describe (MatchNotOf m) = ''not '' @ matcher_describe m"

text \<open>
  \<open>toString\<close> fills the cache of the object at its first call;
  \<open>matcher_describe\<close> is the description of a combination none of whose parts was
  extended after its own first \<open>toString\<close>.
\<close>

definition matcher_toString :: "'a matcher \<Rightarrow> string \<Rightarrow> string \<times> string" where
  "matcher_toString m m_cachedToString =
     (let c = (if m_cachedToString = [] then matcher_describe m else m_cachedToString) in (c, c))"

text \<open>The operators: \<open>&&\<close> and \<open>||\<close> extend a combination of their own kind on the left.\<close>

fun matcher_and :: "'a matcher \<Rightarrow> 'a matcher \<Rightarrow> 'a matcher" where
  "matcher_and (MatchAllOf ms) m = MatchAllOf (ms @ [m])"
| "matcher_and l m = MatchAllOf [l, m]"

fun matcher_or :: "'a matcher \<Rightarrow> 'a matcher \<Rightarrow> 'a matcher" where
  "matcher_or (MatchAnyOf ms) m = MatchAnyOf (ms @ [m])"
| "matcher_or l m = MatchAnyOf [l, m]"

definition matcher_not :: "'a matcher \<Rightarrow> 'a matcher" where
  "matcher_not m = MatchNotOf m"

subsection \<open>Strings\<close>

record CasedString =
  cs_case :: CaseSensitive
  cs_str :: string

definition CasedString_new :: "string \<Rightarrow> CaseSensitive \<Rightarrow> CasedString" where
  "CasedString_new str cs = \<lparr>cs_case = cs, cs_str = adjustCase cs str\<rparr>"

definition adjustString :: "CasedString \<Rightarrow> string \<Rightarrow> string" where
  "adjustString c str = (case cs_case c of CaseNo \<Rightarrow> toLower str | CaseYes \<Rightarrow> str)"

definition caseSensitivitySuffix :: "CasedString \<Rightarrow> string" where
  "caseSensitivitySuffix c = (case cs_case c of CaseNo \<Rightarrow> '' (case insensitive)'' | CaseYes \<Rightarrow> [])"

definition StringMatcherBase_describe :: "string \<Rightarrow> CasedString \<Rightarrow> string" where
  "StringMatcherBase_describe operation c =
     operation @ '': '' @ [CHR 0x22] @ cs_str c @ [CHR 0x22] @ caseSensitivitySuffix c"

definition EqualsMatcher :: "CasedString \<Rightarrow> string matcher" where
  "EqualsMatcher c = Matcher (\<lambda>src. adjustString c src = cs_str c) (StringMatcherBase_describe ''equals'' c)"

definition ContainsMatcher :: "CasedString \<Rightarrow> string matcher" where
  "ContainsMatcher c = Matcher (\<lambda>src. contains (adjustString c src) (cs_str c)) (StringMatcherBase_describe ''contains'' c)"

definition StartsWithMatcher :: "CasedString \<Rightarrow> string matcher" where
  "StartsWithMatcher c = Matcher (\<lambda>src. startsWith (adjustString c src) (cs_str c)) (StringMatcherBase_describe ''starts with'' c)"

definition EndsWithMatcher :: "CasedString \<Rightarrow> string matcher" where
  "EndsWithMatcher c = Matcher (\<lambda>src. endsWith (adjustString c src) (cs_str c)) (StringMatcherBase_describe ''ends with'' c)"

definition Equals :: "string \<Rightarrow> CaseSensitive \<Rightarrow> string matcher" where
  "Equals str cs = EqualsMatcher (CasedString_new str cs)"

definition Contains :: "string \<Rightarrow> CaseSensitive \<Rightarrow> string matcher" where
  "Contains str cs = ContainsMatcher (CasedString_new str cs)"

definition EndsWith :: "string \<Rightarrow> CaseSensitive \<Rightarrow> string matcher" where
  "EndsWith str cs = EndsWithMatcher (CasedString_new str cs)"

definition StartsWith :: "string \<Rightarrow> CaseSensitive \<Rightarrow> string matcher" where
  "StartsWith str cs = StartsWithMatcher (CasedString_new str cs)"

subsection \<open>Vectors\<close>

text \<open>\<open>stringify\<close> of the element type is the parameter \<open>str\<close>.\<close>

definition VectorContainsElement :: "('a \<Rightarrow> string) \<Rightarrow> 'a \<Rightarrow> 'a list matcher" where
  "VectorContainsElement str comparator =
     Matcher (any_of (\<lambda>el. el = comparator)) (''Contains: '' @ str comparator)"

definition VectorContains :: "('a list \<Rightarrow> string) \<Rightarrow> 'a list \<Rightarrow> 'a list matcher" where
  "VectorContains str comparator =
     Matcher (\<lambda>v. if length comparator > length v then False
                  else all_of (\<lambda>c. any_of (\<lambda>el. el = c) v) comparator) (''Contains: '' @ str comparator)"

fun vec_eq :: "'a list \<Rightarrow> 'a list \<Rightarrow> bool" where
  "vec_eq (x # xs) (y # ys) = (if x \<noteq> y then False else vec_eq xs ys)"
| "vec_eq _ _ = True"

definition VectorEquals :: "('a list \<Rightarrow> string) \<Rightarrow> 'a list \<Rightarrow> 'a list matcher" where
  "VectorEquals str comparator =
     Matcher (\<lambda>v. if length comparator \<noteq> length v then False else vec_eq comparator v) (''Equals: '' @ str comparator)"

text \<open>\<open>std::is_permutation\<close> on ranges of equal length: each element occurs equally often.\<close>

definition is_permutation :: "'a list \<Rightarrow> 'a list \<Rightarrow> bool" where
  "is_permutation xs ys \<longleftrightarrow> (\<forall>x \<in> set xs. count_list xs x = count_list ys x)"

definition VectorUnorderedEquals :: "('a list \<Rightarrow> string) \<Rightarrow> 'a list \<Rightarrow> 'a list matcher" where
  "VectorUnorderedEquals str tgt =
     Matcher (\<lambda>v. if length tgt \<noteq> length v then False else is_permutation tgt v) (''UnorderedEquals: '' @ str tgt)"

section \<open>Searches\<close>

lemma take_prefix_iff: "take (length p) s = p \<longleftrightarrow> prefix p s"
  by (metis append_eq_conv_conj append_take_drop_id prefix_def)

lemma startsWith_prefix: "startsWith s p \<longleftrightarrow> prefix p s"
  by (auto simp: startsWith_def take_prefix_iff prefix_length_le)

lemma endsWith_suffix: "endsWith s p \<longleftrightarrow> suffix p s"
  using take_prefix_iff [of "rev p" "rev s"]
  by (auto simp: endsWith_def suffix_to_prefix dest: prefix_length_le)

lemma str_find_Some:
  "str_find p s = Some i \<Longrightarrow> prefix p (drop i s) \<and> i \<le> length s \<and> (\<forall>j < i. \<not> prefix p (drop j s))"
proof (induction s arbitrary: i)
  case Nil
  then show ?case by (simp split: if_splits)
next
  case (Cons c s)
  show ?case
  proof (cases "prefix p (c # s)")
    case True
    with Cons.prems show ?thesis by (simp add: take_prefix_iff)
  next
    case False
    with Cons.prems obtain j where j: "str_find p s = Some j" "i = Suc j"
      by (auto simp: take_prefix_iff)
    with Cons.IH [OF j(1)] False show ?thesis
      by (auto simp: less_Suc_eq_0_disj)
  qed
qed

lemma str_find_None: "str_find p s = None \<longleftrightarrow> \<not> sublist p s"
  by (induction s) (auto simp: take_prefix_iff sublist_Cons_right)

lemma contains_sublist: "contains s p \<longleftrightarrow> sublist p s"
  using str_find_None [of p s] by (simp add: contains_def)

lemma str_find_occurs: "str_find p s = Some i \<Longrightarrow> s = take i s @ p @ drop (i + length p) s"
proof -
  assume "str_find p s = Some i"
  then have "prefix p (drop i s)" using str_find_Some by blast
  then obtain z where z: "drop i s = p @ z" by (auto simp: prefix_def)
  then have "drop (i + length p) s = z"
    by (metis add.commute append_eq_conv_conj drop_drop)
  with z show ?thesis by (metis append_take_drop_id)
qed

section \<open>Replacing\<close>

text \<open>The reference: occurrences are replaced from left to right.\<close>

function replace_all :: "string \<Rightarrow> string \<Rightarrow> string \<Rightarrow> string" where
  "replace_all r w s =
     (if r = [] then s
      else case str_find r s of
        None \<Rightarrow> s
      | Some i \<Rightarrow> take i s @ w @ replace_all r w (drop (i + length r) s))"
  by auto
termination
proof (relation "measure (\<lambda>(r, w, s). length s)", goal_cases)
  case (2 r w s i)
  have "i + length r \<le> length s" "0 < length r"
    using str_find_Some [OF 2(2)] prefix_length_le [of r "drop i s"] 2(1) by auto
  then have "length s - (i + length r) < length s" by arith
  then show ?case by simp
qed simp

declare replace_all.simps [simp del]

lemma replace_loop_correct:
  assumes "r \<noteq> []"
  shows "str_find r s = Some i \<Longrightarrow> replace_loop r w (pre @ s) (length pre + i) = Some (pre @ replace_all r w s)"
proof (induction "length s" arbitrary: s i pre rule: less_induct)
  case less
  let ?t = "drop (i + length r) s"
  have occ: "s = take i s @ r @ ?t" by (rule str_find_occurs [OF less.prems])
  have i: "i + length r \<le> length s"
    using str_find_Some [OF less.prems] prefix_length_le [of r "drop i s"] by auto
  let ?pre = "pre @ take i s @ w"
  have a: "str_substr (pre @ s) 0 (length pre + i) = Some (pre @ take i s)"
    by (simp add: str_substr_def)
  have b: "str_substr_end (pre @ s) (length pre + i + length r) = Some ?t"
    using i by (simp add: str_substr_end_def)
  have len: "length pre + i < length (?pre @ ?t) - length w \<longleftrightarrow> ?t \<noteq> []"
    using i by auto
  have rest: "str_find_from r (?pre @ ?t) (length pre + i + length w) = map_option ((+) (length ?pre)) (str_find r ?t)"
    using i by (simp add: str_find_from_def ac_simps)
  have ra: "replace_all r w s = take i s @ w @ replace_all r w ?t"
    using assms less.prems by (subst replace_all.simps) simp
  show ?case
  proof (cases "str_find r ?t")
    case None
    moreover from this have "replace_all r w ?t = ?t" by (subst replace_all.simps) simp
    ultimately show ?thesis
      using a b rest len by (subst replace_loop.simps) (simp add: ra Let_def)
  next
    case (Some j)
    then have ne: "?t \<noteq> []" using assms by (auto split: if_splits)
    have "0 < length r" using assms by simp
    with i have "length s - (i + length r) < length s" by arith
    then have "length ?t < length s" by simp
    from less.hyps [OF this Some, of ?pre] show ?thesis
      using a b rest len ne Some i
      by (subst replace_loop.simps) (auto simp: ra Let_def ac_simps split: option.splits)
  qed
qed

text \<open>With an empty pattern the position moves along with the growing string.\<close>

lemma replace_loop_empty_pattern: "replace_loop r w s i = Some t \<Longrightarrow> r = [] \<longrightarrow> length s \<le> i"
proof (erule replace_loop.raw_induct [rotated])
  fix f :: "string \<Rightarrow> string \<Rightarrow> string \<Rightarrow> nat \<Rightarrow> string option" and r w s i t
  assume f: "\<And>r w s i t. f r w s i = Some t \<Longrightarrow> r = [] \<longrightarrow> length s \<le> i"
    and body: "do { a \<leftarrow> str_substr s 0 i;
     b \<leftarrow> str_substr_end s (i + length r);
     let s = a @ w @ b;
     if i < length s - length w
     then (case str_find_from r s (i + length w) of None \<Rightarrow> Some s | Some i \<Rightarrow> f r w s i)
     else Some s } = Some t"
  show "r = [] \<longrightarrow> length s \<le> i"
  proof (rule ccontr)
    assume "\<not> (r = [] \<longrightarrow> length s \<le> i)"
    then have r: "r = []" and i: "i < length s" by auto
    let ?s = "take i s @ w @ drop i s"
    have "str_find_from [] ?s (i + length w) = Some (i + length w)"
      using i by (cases "drop i s") (auto simp: str_find_from_def)
    with body i have "f [] w ?s (i + length w) = Some t"
      by (auto simp: r str_substr_def str_substr_end_def Let_def)
    from f [OF this] i show False by simp
  qed
qed

lemma replace_loop_empty: "i < length s \<Longrightarrow> replace_loop [] w s i = None"
  using replace_loop_empty_pattern [of "[]" w s i] by (cases "replace_loop [] w s i") auto

section \<open>Trimming and splitting\<close>

lemma find_first_not_of_eq:
  "find_first_not_of ws s = (if set s \<subseteq> set ws then None else Some (length (takeWhile (\<lambda>c. c \<in> set ws) s)))"
  by (induction s) auto

lemma trim_eq:
  "trim s = Some (rev (dropWhile (\<lambda>c. c \<in> set whitespaceChars) (rev (dropWhile (\<lambda>c. c \<in> set whitespaceChars) s))))"
proof -
  let ?P = "\<lambda>c. c \<in> set whitespaceChars"
  show ?thesis
  proof (cases "set s \<subseteq> set whitespaceChars")
    case True
    then have e: "dropWhile ?P s = []" by (simp add: dropWhile_eq_Nil_conv subset_iff)
    show ?thesis unfolding e using True by (simp add: trim_def find_first_not_of_eq)
  next
    case False
    let ?a = "length (takeWhile ?P s)" and ?b = "length (takeWhile ?P (rev s))"
    let ?m = "rev (dropWhile ?P (rev (dropWhile ?P s)))"
    have dw: "dropWhile ?P s = drop ?a s" by (simp add: dropWhile_eq_drop)
    have ne: "\<not> (\<forall>c \<in> set (dropWhile ?P s). ?P c)"
      using False by (metis (no_types, lifting) set_append set_takeWhileD subsetI takeWhile_dropWhile_id Un_iff)
    have "takeWhile ?P (rev s) = takeWhile ?P (rev (dropWhile ?P s) @ rev (takeWhile ?P s))"
      by (metis rev_append takeWhile_dropWhile_id)
    also have "\<dots> = takeWhile ?P (rev (dropWhile ?P s))"
      using ne by (auto intro: takeWhile_append1)
    finally have tb: "takeWhile ?P (rev s) = takeWhile ?P (rev (dropWhile ?P s))" .
    have "?m = rev (drop ?b (rev (dropWhile ?P s)))"
      by (simp only: tb dropWhile_eq_drop [of ?P "rev (dropWhile ?P s)"])
    also have "\<dots> = rev (drop ?b (rev (drop ?a s)))" by (simp only: dw)
    also have "\<dots> = take (length s - ?a - ?b) (drop ?a s)"
      using rev_drop [of ?b "rev (drop ?a s)"] by simp
    finally have m: "?m = take (length s - ?a - ?b) (drop ?a s)" .
    have "?a + ?b < length s"
    proof -
      have "?b < length (dropWhile ?P s)"
        unfolding tb using ne by (metis length_rev length_takeWhile_le le_neq_implies_less set_rev
            takeWhile_eq_all_conv takeWhile_eq_take take_all_iff)
      then show ?thesis by (simp add: dw)
    qed
    then have "1 + (length s - 1 - ?b) - ?a = length s - ?a - ?b" "?a \<le> length s" by auto
    with False m show ?thesis
      by (simp add: trim_def find_first_not_of_eq find_last_not_of_def str_substr_def)
  qed
qed

text \<open>The pieces of a string between delimiters.\<close>

fun pieces :: "char \<Rightarrow> string \<Rightarrow> string list" where
  "pieces d [] = [[]]"
| "pieces d (c # s) = (if c = d then [] # pieces d s
     else case pieces d s of p # ps \<Rightarrow> (c # p) # ps | [] \<Rightarrow> [[c]])"

lemma pieces_append_piece:
  "d \<notin> set p \<Longrightarrow> pieces d (p @ s) = (p @ hd (pieces d s)) # tl (pieces d s)"
proof (induction p)
  case Nil
  have "pieces d s \<noteq> []" by (induction s) (auto split: list.splits)
  then show ?case by simp
qed auto

lemma split_loop_eq:
  assumes "start \<le> p" "p \<le> length s" "d \<notin> set (take (p - start) (drop start s))"
  shows "split_loop s d p start acc =
     (let ps = pieces d (drop start s) in
      (length s - length (last ps), acc @ filter (\<lambda>x. 1 < length x) (butlast ps)))"
  using assms
proof (induction "length s - p" arbitrary: p start acc rule: less_induct)
  case less
  let ?w = "take (p - start) (drop start s)"
  have w: "drop start s = ?w @ drop p s"
    using less.prems(1) by (metis append_take_drop_id drop_drop le_add_diff_inverse2)
  have lw: "length ?w = p - start" using less.prems by simp
  show ?case
  proof (cases "p < length s")
    case False
    then have "drop start s = ?w" using w by simp
    with less.prems(3) have "pieces d (drop start s) = [drop start s]"
      using pieces_append_piece [of d ?w "[]"] by simp
    with False less.prems show ?thesis by (subst split_loop.simps) simp
  next
    case True
    then have dp: "drop p s = s ! p # drop (Suc p) s" by (simp add: Cons_nth_drop_Suc)
    show ?thesis
    proof (cases "s ! p = d")
      case d: True
      have "pieces d (drop start s) = ?w # pieces d (drop (Suc p) s)"
        using pieces_append_piece [OF less.prems(3), of "drop p s"] w dp d by simp
      moreover have "pieces d (drop (Suc p) s) \<noteq> []" by (cases "drop (Suc p) s") (auto split: list.splits)
      ultimately show ?thesis
        using less.hyps [of "Suc p" "Suc p"] True d lw by (subst split_loop.simps) (simp add: Let_def)
    next
      case False
      have "take (Suc p - start) (drop start s) = ?w @ [s ! p]"
        using True less.prems(1) by (simp add: Suc_diff_le take_Suc_conv_app_nth)
      then show ?thesis
        using less.hyps [of "Suc p" start acc] less.prems True False by (subst split_loop.simps) simp
    qed
  qed
qed

lemma pieces_not_Nil [simp]: "pieces d s \<noteq> []"
  by (induction s) (auto split: list.splits)

lemma pieces_single: "pieces d s = [p] \<Longrightarrow> p = s"
  by (induction s arbitrary: p) (auto split: list.splits if_splits)

lemma splitStringRef_eq:
  "splitStringRef s d = filter (\<lambda>x. 1 < length x) (butlast (pieces d s)) @
     (if last (pieces d s) = [] then [] else [last (pieces d s)])"
proof -
  have "\<exists>pre. s = pre @ last (pieces d s)" for s
  proof (induction s)
    case (Cons c s)
    then obtain pre where pre: "s = pre @ last (pieces d s)" by blast
    have ne: "pieces d s \<noteq> []" by (cases s) (auto split: list.splits)
    then show ?case
    proof (cases "c = d \<or> tl (pieces d s) \<noteq> []")
      case True
      then have "last (pieces d (c # s)) = last (pieces d s)"
        using ne by (auto split: list.splits)
      with pre show ?thesis by (metis append_Cons)
    next
      case False
      then obtain p where "pieces d s = [p]" using ne by (cases "pieces d s") auto
      moreover from this have "p = s" by (rule pieces_single)
      ultimately show ?thesis using False by simp
    qed
  qed simp
  then obtain pre where pre: "s = pre @ last (pieces d s)" by blast
  define l where "l = last (pieces d s)"
  have len: "length s = length pre + length l" and dr: "drop (length pre) s = l"
    using arg_cong [OF pre, of length] arg_cong [OF pre, of "drop (length pre)"] by (simp_all add: l_def)
  have "split_loop s d 0 0 [] = (length pre, filter (\<lambda>x. 1 < length x) (butlast (pieces d s)))"
    using split_loop_eq [of 0 0 s d "[]"] by (simp add: Let_def len flip: l_def)
  then show ?thesis
    using len dr by (simp add: splitStringRef_def flip: l_def)
qed

section \<open>Characters of a view\<close>

text \<open>A well-formed encoded character: a lead byte and the continuation bytes it announces.\<close>

definition utf8_char :: "string \<Rightarrow> bool" where
  "utf8_char s \<longleftrightarrow> s \<noteq> [] \<and> length s = 1 + lead_extra (hd s) \<and>
     (\<forall>c \<in> set (tl s). lead_extra c = 0)"

lemma numberOfCharacters_utf8:
  assumes "\<forall>u \<in> set us. utf8_char u"
  shows "numberOfCharacters (StringRef_std (concat us)) = Some (of_nat (length us))"
proof -
  have one: "sum_list (map lead_extra u) + 1 = length u" if "utf8_char u" for u
    using that by (cases u) (auto simp: utf8_char_def)
  have "length (concat us) = sum_list (map lead_extra (concat us)) + length us"
    using assms
  proof (induction us)
    case (Cons u us)
    with one [of u] show ?case by simp
  qed simp
  then show ?thesis
    by (simp add: numberOfCharacters_def StringRef_string_def StringRef_std_def StringRef_sized_def)
qed

lemma c_str_terminated:
  assumes "StringRef_string r = Some s" "sr_start r + m_size r < length (sr_array r)" "m_data r = None"
  shows "\<exists>cs r'. StringRef_c_str r = Some (cs, r') \<and> take (m_size r + 1) cs = s @ [nul]"
proof -
  let ?c = "sr_array r ! (sr_start r + m_size r)"
  have s: "s = take (m_size r) (drop (sr_start r) (sr_array r))"
    using assms(1) by (simp add: StringRef_string_def split: if_splits)
  have "take (m_size r + 1) (drop (sr_start r) (sr_array r)) = s @ [?c]"
    using assms(2) by (simp add: s take_Suc_conv_app_nth)
  then show ?thesis
    using assms by (cases "?c = nul")
      (auto simp: StringRef_c_str_def isSubstring_def StringRef_at_def takeOwnership_def isOwned_def s)
qed

lemma strncmp_eq_iff:
  "n \<le> length a \<Longrightarrow> n \<le> length b \<Longrightarrow> nul \<notin> set (take n a) \<Longrightarrow>
   strncmp_eq a b n = Some (take n a = take n b)"
  by (induction a b n rule: strncmp_eq.induct) auto

lemma StringRef_eq_iff:
  assumes "StringRef_string a = Some x" "StringRef_string b = Some y" "nul \<notin> set x"
  shows "StringRef_eq a b = Some (x = y)"
proof (cases "m_size a = m_size b")
  case True
  then show ?thesis
    using assms by (auto simp: StringRef_eq_def StringRef_string_def strncmp_eq_iff split: if_splits)
next
  case False
  moreover have "length x = m_size a" "length y = m_size b"
    using assms by (auto simp: StringRef_string_def split: if_splits)
  ultimately show ?thesis by (auto simp: StringRef_eq_def)
qed

section \<open>Matching\<close>

lemma toLower_append [simp]: "toLower (s @ t) = toLower s @ toLower t"
  by (simp add: toLower_def toLowerInPlace_def)

lemma toLowerCh_nonletter:
  assumes "of_char d < (65 :: nat)"
  shows "toLowerCh c = d \<longleftrightarrow> c = d"
proof (cases "65 \<le> (of_char c :: nat) \<and> of_char c \<le> (90 :: nat)")
  case True
  have "of_char (char_of (of_char c + 32 :: nat)) = (of_char c + 32 :: nat)" using True by simp
  with assms True have "char_of (of_char c + 32 :: nat) \<noteq> d" by auto
  moreover have "c \<noteq> d" using True assms by auto
  ultimately show ?thesis using True by (simp add: toLowerCh_def)
next
  case False
  then show ?thesis by (auto simp: toLowerCh_def)
qed

lemma toLowerCh_star [simp]: "toLowerCh c = CHR ''*'' \<longleftrightarrow> c = CHR ''*''"
  by (rule toLowerCh_nonletter) simp

text \<open>The usual meaning of a pattern: a star stands for any sequence.\<close>

fun glob :: "string \<Rightarrow> string \<Rightarrow> bool" where
  "glob [] s \<longleftrightarrow> s = []"
| "glob (p # ps) s \<longleftrightarrow>
     (if p = CHR ''*'' then \<exists>i \<le> length s. glob ps (drop i s)
      else s \<noteq> [] \<and> hd s = p \<and> glob ps (tl s))"

lemma glob_star: "glob (CHR ''*'' # ps) s \<longleftrightarrow> (\<exists>u v. s = u @ v \<and> glob ps v)"
  by simp (metis append_eq_conv_conj append_take_drop_id length_append le_add1)

lemma glob_literal: "CHR ''*'' \<notin> set p \<Longrightarrow> glob (p @ q) s \<longleftrightarrow> (\<exists>v. s = p @ v \<and> glob q v)"
proof (induction p arbitrary: s)
  case (Cons c p)
  then show ?case by (cases s) auto
qed simp

lemma glob_all [simp]: "glob [CHR ''*''] s"
  by auto

lemma adjustCase_star [simp]: "CHR ''*'' \<in> set (adjustCase cs s) \<longleftrightarrow> CHR ''*'' \<in> set s"
proof (cases cs)
  case CaseNo
  have "CHR ''*'' \<in> toLowerCh ` set s \<longleftrightarrow> CHR ''*'' \<in> set s"
    unfolding image_iff by (metis toLowerCh_star)
  with CaseNo show ?thesis by (simp add: adjustCase_def toLower_def toLowerInPlace_def)
qed (simp add: adjustCase_def)

lemma adjustCase_append: "adjustCase cs (s @ t) = adjustCase cs s @ adjustCase cs t"
  by (cases cs) (simp_all add: adjustCase_def)

lemma adjustCase_Nil [simp]: "adjustCase cs [] = []"
  by (cases cs) (simp_all add: adjustCase_def toLower_def toLowerInPlace_def)

lemma adjustCase_lit [simp]: "adjustCase cs (CHR ''*'' # s) = CHR ''*'' # adjustCase cs s"
  by (cases cs) (simp_all add: adjustCase_def toLower_def toLowerInPlace_def)

lemma starts_star_iff: "CHR ''*'' \<notin> set p \<Longrightarrow> \<not> startsWith_ch p CHR ''*''"
  by (cases p) (auto simp: startsWith_ch_def)

lemma ends_star_iff: "CHR ''*'' \<notin> set p \<Longrightarrow> \<not> endsWith_ch p CHR ''*''"
  by (cases p rule: rev_cases) (auto simp: endsWith_ch_def)

lemma starts_star_Cons [simp]: "startsWith_ch (c # p) d \<longleftrightarrow> c = d"
  by (simp add: startsWith_ch_def)

lemma ends_star_snoc [simp]: "endsWith_ch (p @ [c]) d \<longleftrightarrow> c = d"
  by (simp add: endsWith_ch_def)

text \<open>The fields of a pattern with stars at its ends only.\<close>

lemma WildcardPattern_new_ends:
  assumes "CHR ''*'' \<notin> set core"
  shows "WildcardPattern_new core cs = \<lparr>m_caseSensitivity = cs, m_wildcard = NoWildcard, m_pattern = adjustCase cs core\<rparr>"
    and "WildcardPattern_new (CHR ''*'' # core) cs =
       \<lparr>m_caseSensitivity = cs, m_wildcard = WildcardAtStart, m_pattern = adjustCase cs core\<rparr>"
    and "core \<noteq> [] \<Longrightarrow> WildcardPattern_new (core @ [CHR ''*'']) cs =
       \<lparr>m_caseSensitivity = cs, m_wildcard = WildcardAtEnd, m_pattern = adjustCase cs core\<rparr>"
    and "WildcardPattern_new (CHR ''*'' # core @ [CHR ''*'']) cs =
       \<lparr>m_caseSensitivity = cs, m_wildcard = WildcardAtBothEnds, m_pattern = adjustCase cs core\<rparr>"
proof -
  define p where "p = adjustCase cs core"
  have p: "CHR ''*'' \<notin> set p" using assms by (simp add: p_def)
  note new = WildcardPattern_new_def Let_def adjustCase_append or_at_end_def
  note ns = starts_star_iff [OF p] ends_star_iff [OF p]
  show "WildcardPattern_new core cs = \<lparr>m_caseSensitivity = cs, m_wildcard = NoWildcard, m_pattern = adjustCase cs core\<rparr>"
    "WildcardPattern_new (CHR ''*'' # core) cs =
       \<lparr>m_caseSensitivity = cs, m_wildcard = WildcardAtStart, m_pattern = adjustCase cs core\<rparr>"
    "WildcardPattern_new (CHR ''*'' # core @ [CHR ''*'']) cs =
       \<lparr>m_caseSensitivity = cs, m_wildcard = WildcardAtBothEnds, m_pattern = adjustCase cs core\<rparr>"
    using ns by (simp_all add: new flip: p_def)
  assume "core \<noteq> []"
  then have "p \<noteq> []" by (cases cs) (simp_all add: p_def adjustCase_def toLower_def toLowerInPlace_def)
  then have "\<not> startsWith_ch (p @ [CHR ''*'']) CHR ''*''" using p by (cases p) auto
  then show "WildcardPattern_new (core @ [CHR ''*'']) cs =
       \<lparr>m_caseSensitivity = cs, m_wildcard = WildcardAtEnd, m_pattern = adjustCase cs core\<rparr>"
    by (simp add: new flip: p_def)
qed

text \<open>
  C18: a pattern with no star, a star in front, a star at the back, or both, matches exactly the
  strings it denotes, a star standing for any sequence of characters; with \<open>CaseNo\<close> both sides
  are compared in lower case.
\<close>

theorem wildcard_semantics:
  assumes "CHR ''*'' \<notin> set core" "l \<in> {[], ''*''}" "r \<in> {[], ''*''}"
  shows "WildcardPattern_matches (WildcardPattern_new (l @ core @ r) cs) s \<longleftrightarrow>
         glob (adjustCase cs (l @ core @ r)) (adjustCase cs s)"
proof -
  define p t where "p = adjustCase cs core" and "t = adjustCase cs s"
  have p: "CHR ''*'' \<notin> set p" using assms(1) by (simp add: p_def)
  have g: "glob p u \<longleftrightarrow> u = p" "glob (p @ [CHR ''*'']) u \<longleftrightarrow> (\<exists>v. u = p @ v)" for u
    using glob_literal [OF p, of "[]" u] glob_literal [OF p, of "[CHR ''*'']" u] glob_all by auto
  note m = WildcardPattern_matches_def Let_def adjustCase_append startsWith_prefix endsWith_suffix
    contains_sublist prefix_def suffix_def sublist_def WildcardPattern_new_ends [OF assms(1)]
  consider "l = []" "r = []" | "l = ''*''" "r = []" | "l = []" "r = ''*''" | "l = ''*''" "r = ''*''"
    using assms(2,3) by auto
  then show ?thesis
  proof cases
    case 1
    then show ?thesis using g by (auto simp: m simp flip: p_def t_def)
  next
    case 2
    then show ?thesis by (simp add: m g glob_star flip: p_def t_def del: glob.simps(2))
  next
    case 3
    then show ?thesis
    proof (cases "core = []")
      case True
      with 3 show ?thesis using WildcardPattern_new_ends(2) [of "[]" cs]
        by (simp add: WildcardPattern_matches_def endsWith_suffix del: glob.simps(2))
    next
      case False
      with 3 show ?thesis by (simp add: m g flip: p_def t_def del: glob.simps(2))
    qed
  next
    case 4
    then show ?thesis by (simp add: m g glob_star flip: p_def t_def del: glob.simps(2)) metis
  qed
qed

theorem wildcard_semantics_witness:
  "WildcardPattern_matches (WildcardPattern_new (''*'' @ ''Get'' @ []) CaseNo) ''putTHENgeT''"
proof -
  have "glob (adjustCase CaseNo (''*'' @ ''Get'' @ [])) (adjustCase CaseNo ''putTHENgeT'')" by code_simp
  then show ?thesis
    using wildcard_semantics [of "''Get''" "''*''" "[]" CaseNo "''putTHENgeT''"] by simp
qed

text \<open>
  C19: \<open>replaceInPlace\<close> replaces the occurrences of a non-empty string from left to right and
  says whether there was one; with an empty pattern and a non-empty string it never returns.
\<close>

theorem replaceInPlace_correct:
  "replaceInPlace str replaceThis withThis =
     (if replaceThis = [] \<and> str \<noteq> [] then None
      else if replaceThis = [] then Some (True, withThis)
      else Some (contains str replaceThis, replace_all replaceThis withThis str))"
proof (cases "replaceThis = []")
  case True
  then have f: "str_find replaceThis str = Some 0" by (cases str) simp_all
  show ?thesis
  proof (cases "str = []")
    case True
    with f \<open>replaceThis = []\<close> show ?thesis
      by (simp add: replaceInPlace_def replace_loop.simps str_substr_def str_substr_end_def)
  next
    case False
    with f True show ?thesis by (simp add: replaceInPlace_def replace_loop_empty)
  qed
next
  case False
  show ?thesis
  proof (cases "str_find replaceThis str")
    case None
    with False show ?thesis
      by (subst replace_all.simps) (simp add: replaceInPlace_def contains_def)
  next
    case (Some i)
    with replace_loop_correct [OF False Some, of withThis "[]"] False show ?thesis
      by (simp add: replaceInPlace_def contains_def)
  qed
qed

text \<open>
  \<open>splitStringRef\<close> returns the pieces between the delimiters in order, but leaves out
  every piece of fewer than two characters except a last one of one character.
\<close>

theorem splitStringRef_drops_single_characters:
  "splitStringRef str delimiter =
     filter (\<lambda>x. 1 < length x) (butlast (pieces delimiter str)) @
     filter (\<lambda>x. 0 < length x) [last (pieces delimiter str)]"
  using splitStringRef_eq [of str delimiter] by auto

end
