(* ===== verification/CatchTestCase.thy ===== *)
theory CatchTestCase
  imports CatchString "HOL-Library.List_Lexorder" "HOL-Library.Char_ord"
begin

text \<open>
  Test cases of the unit test framework (\<open>native/src/catch.hpp\<close>):
  source positions, the description of a test case with its tags and special
  properties (\<open>catch_test_case_info\<close>), and the registry of tag aliases
  (\<open>catch_tag_alias_registry\<close>).  An exception the code throws is the left
  value of a sum; a pointer to an \<open>ITestInvoker\<close> is a number.
\<close>

section \<open>Source positions\<close>

record SourceLineInfo =
  sl_file :: string
  sl_line :: nat

definition SourceLineInfo_empty :: "SourceLineInfo \<Rightarrow> bool" where
  "SourceLineInfo_empty i \<longleftrightarrow> sl_file i = []"

definition SourceLineInfo_eq :: "SourceLineInfo \<Rightarrow> SourceLineInfo \<Rightarrow> bool" where
  "SourceLineInfo_eq a b \<longleftrightarrow> sl_line a = sl_line b \<and> sl_file a = sl_file b"

definition SourceLineInfo_less :: "SourceLineInfo \<Rightarrow> SourceLineInfo \<Rightarrow> bool" where
  "SourceLineInfo_less a b \<longleftrightarrow> sl_line a < sl_line b \<or> (sl_line a = sl_line b \<and> sl_file a \<noteq> sl_file b \<and> sl_file a < sl_file b)"

definition SourceLineInfo_print :: "SourceLineInfo \<Rightarrow> string" where
  "SourceLineInfo_print i = sl_file i @ '':'' @ show_nat (sl_line i)"

lemma SourceLineInfo_total:
  "SourceLineInfo_less a b \<or> SourceLineInfo_eq a b \<or> SourceLineInfo_less b a"
  by (auto simp: SourceLineInfo_less_def SourceLineInfo_eq_def)

text \<open>What the framework throws from the code modelled here.\<close>

datatype catch_error =
    ReservedTag string SourceLineInfo
  | AliasForm string SourceLineInfo
  | AliasRegistered string SourceLineInfo SourceLineInfo
  | DuplicateTest string SourceLineInfo SourceLineInfo
  | OutOfRange

section \<open>Test case information\<close>

abbreviation (input) SP_None :: nat where "SP_None \<equiv> 0"
abbreviation (input) IsHidden :: nat where "IsHidden \<equiv> 2 ^ 1"
abbreviation (input) ShouldFail :: nat where "ShouldFail \<equiv> 2 ^ 2"
abbreviation (input) MayFail :: nat where "MayFail \<equiv> 2 ^ 3"
abbreviation (input) SP_Throws :: nat where "SP_Throws \<equiv> 2 ^ 4"
abbreviation (input) NonPortable :: nat where "NonPortable \<equiv> 2 ^ 5"
abbreviation (input) SP_Benchmark :: nat where "SP_Benchmark \<equiv> 2 ^ 6"

record TestCaseInfo =
  name :: string
  className :: string
  description :: string
  tags :: "string list"
  lcaseTags :: "string list"
  lineInfo :: SourceLineInfo
  properties :: nat

record TestCase = TestCaseInfo +
  test :: nat

definition parseSpecialTag :: "string \<Rightarrow> nat" where
  "parseSpecialTag tag =
     (if startsWith_ch tag CHR ''.'' \<or> tag = ''!hide'' then IsHidden
      else if tag = ''!throws'' then SP_Throws
      else if tag = ''!shouldfail'' then ShouldFail
      else if tag = ''!mayfail'' then MayFail
      else if tag = ''!nonportable'' then NonPortable
      else if tag = ''!benchmark'' then SP_Benchmark OR IsHidden
      else SP_None)"

definition isReservedTag :: "string \<Rightarrow> bool" where
  "isReservedTag tag \<longleftrightarrow> parseSpecialTag tag = SP_None \<and> length tag > 0 \<and> \<not> is_alnum (tag ! 0)"

definition enforceNotReservedTag :: "string \<Rightarrow> SourceLineInfo \<Rightarrow> catch_error + unit" where
  "enforceNotReservedTag tag li = (if \<not> isReservedTag tag then Inr () else Inl (ReservedTag tag li))"

text \<open>The locals of \<open>makeTestCase\<close> and its loop over the characters.\<close>

record tag_state =
  ts_isHidden :: bool
  ts_tags :: "string list"
  ts_desc :: string
  ts_tag :: string
  ts_inTag :: bool

definition close_tag :: "SourceLineInfo \<Rightarrow> tag_state \<Rightarrow> catch_error + tag_state" where
  "close_tag li s =
     (let prop = parseSpecialTag (ts_tag s);
          checked = (if prop AND IsHidden \<noteq> 0 then Inr (s\<lparr>ts_isHidden := True\<rparr>)
                     else if prop = SP_None
                       then (case enforceNotReservedTag (ts_tag s) li of Inl e \<Rightarrow> Inl e | Inr _ \<Rightarrow> Inr s)
                       else Inr s)
      in case checked of
           Inl e \<Rightarrow> Inl e
         | Inr s \<Rightarrow>
             let tag = (if startsWith_ch (ts_tag s) CHR ''.'' \<and> length (ts_tag s) > 1
                        then drop 1 (ts_tag s) else ts_tag s)
             in Inr (s\<lparr>ts_tags := ts_tags s @ [tag], ts_tag := [], ts_inTag := False\<rparr>))"

definition tag_char :: "SourceLineInfo \<Rightarrow> char \<Rightarrow> tag_state \<Rightarrow> catch_error + tag_state" where
  "tag_char li c s =
     (if \<not> ts_inTag s
      then if c = CHR ''['' then Inr (s\<lparr>ts_inTag := True\<rparr>) else Inr (s\<lparr>ts_desc := ts_desc s @ [c]\<rparr>)
      else if c = CHR '']'' then close_tag li s
      else Inr (s\<lparr>ts_tag := ts_tag s @ [c]\<rparr>))"

fun tag_loop :: "SourceLineInfo \<Rightarrow> string \<Rightarrow> tag_state \<Rightarrow> catch_error + tag_state" where
  "tag_loop li [] s = Inr s"
| "tag_loop li (c # cs) s = (case tag_char li c s of Inl e \<Rightarrow> Inl e | Inr s \<Rightarrow> tag_loop li cs s)"

definition tag_state_init :: tag_state where
  "tag_state_init = \<lparr>ts_isHidden = False, ts_tags = [], ts_desc = [], ts_tag = [], ts_inTag = False\<rparr>"

text \<open>\<open>std::sort\<close> and \<open>std::unique\<close> on strings.\<close>

definition unique_adj :: "'a list \<Rightarrow> 'a list" where
  "unique_adj xs = remdups_adj xs"

fun lcase_loop :: "string list \<Rightarrow> TestCaseInfo \<Rightarrow> TestCaseInfo" where
  "lcase_loop [] info = info"
| "lcase_loop (tag # ts) info =
     (let lcaseTag = toLower tag
      in lcase_loop ts (info\<lparr>properties := properties info OR parseSpecialTag lcaseTag,
                             lcaseTags := lcaseTags info @ [lcaseTag]\<rparr>))"

definition setTags :: "TestCaseInfo \<Rightarrow> string list \<Rightarrow> TestCaseInfo" where
  "setTags info ts =
     (let ts = sort ts; ts = unique_adj ts; info = info\<lparr>lcaseTags := []\<rparr>
      in (lcase_loop ts info)\<lparr>tags := ts\<rparr>)"

definition TestCaseInfo_new ::
  "string \<Rightarrow> string \<Rightarrow> string \<Rightarrow> string list \<Rightarrow> SourceLineInfo \<Rightarrow> TestCaseInfo" where
  "TestCaseInfo_new nm cn desc ts li =
     setTags \<lparr>name = nm, className = cn, description = desc, tags = [], lcaseTags = [], lineInfo = li,
              properties = SP_None\<rparr> ts"

definition TestCase_new :: "nat \<Rightarrow> TestCaseInfo \<Rightarrow> TestCase" where
  "TestCase_new testCase info = TestCaseInfo.extend info \<lparr>test = testCase\<rparr>"

record NameAndTags =
  nt_name :: string
  nt_tags :: string

definition makeTestCase ::
  "nat \<Rightarrow> string \<Rightarrow> NameAndTags \<Rightarrow> SourceLineInfo \<Rightarrow> catch_error + TestCase" where
  "makeTestCase testCase cn nt li =
     (case tag_loop li (nt_tags nt) tag_state_init of
        Inl e \<Rightarrow> Inl e
      | Inr s \<Rightarrow>
          let ts = (if ts_isHidden s then ts_tags s @ [''.''] else ts_tags s);
              info = TestCaseInfo_new (nt_name nt) cn (ts_desc s) ts li
          in Inr (TestCase_new testCase info))"

definition isHidden :: "'a TestCaseInfo_scheme \<Rightarrow> bool" where
  "isHidden i \<longleftrightarrow> properties i AND IsHidden \<noteq> 0"

definition throws :: "'a TestCaseInfo_scheme \<Rightarrow> bool" where
  "throws i \<longleftrightarrow> properties i AND SP_Throws \<noteq> 0"

definition okToFail :: "'a TestCaseInfo_scheme \<Rightarrow> bool" where
  "okToFail i \<longleftrightarrow> properties i AND (ShouldFail OR MayFail) \<noteq> 0"

definition expectedToFail :: "'a TestCaseInfo_scheme \<Rightarrow> bool" where
  "expectedToFail i \<longleftrightarrow> properties i AND ShouldFail \<noteq> 0"

definition tagsAsString :: "'a TestCaseInfo_scheme \<Rightarrow> string" where
  "tagsAsString i = concat (map (\<lambda>tag. ''['' @ tag @ '']'') (tags i))"

definition withName :: "TestCase \<Rightarrow> string \<Rightarrow> TestCase" where
  "withName t newName = t\<lparr>name := newName\<rparr>"

definition TestCase_eq :: "TestCase \<Rightarrow> TestCase \<Rightarrow> bool" where
  "TestCase_eq a b \<longleftrightarrow> test a = test b \<and> name a = name b \<and> className a = className b"

definition TestCase_less :: "TestCase \<Rightarrow> TestCase \<Rightarrow> bool" where
  "TestCase_less a b \<longleftrightarrow> name a < name b"

section \<open>Tag aliases\<close>

record TagAlias =
  ta_tag :: string
  ta_lineInfo :: SourceLineInfo

text \<open>A \<open>std::map\<close> is the list of its entries in the order of the keys.\<close>

type_synonym TagAliasRegistry = "(string \<times> TagAlias) list"

fun map_insert :: "'k::linorder \<Rightarrow> 'v \<Rightarrow> ('k \<times> 'v) list \<Rightarrow> ('k \<times> 'v) list" where
  "map_insert k v [] = [(k, v)]"
| "map_insert k v ((k', v') # m) =
     (if k < k' then (k, v) # (k', v') # m else if k = k' then (k', v') # m else (k', v') # map_insert k v m)"

definition TagAlias_find :: "TagAliasRegistry \<Rightarrow> string \<Rightarrow> TagAlias option" where
  "TagAlias_find r alias = map_of r alias"

definition expand_alias :: "string \<times> TagAlias \<Rightarrow> string \<Rightarrow> string" where
  "expand_alias kvp spec =
     (case str_find (fst kvp) spec of
        None \<Rightarrow> spec
      | Some i \<Rightarrow> take i spec @ ta_tag (snd kvp) @ drop (i + length (fst kvp)) spec)"

definition expandAliases :: "TagAliasRegistry \<Rightarrow> string \<Rightarrow> string" where
  "expandAliases r spec = fold expand_alias r spec"

definition TagAlias_add ::
  "TagAliasRegistry \<Rightarrow> string \<Rightarrow> string \<Rightarrow> SourceLineInfo \<Rightarrow> catch_error + TagAliasRegistry" where
  "TagAlias_add r alias tag li =
     (if \<not> (startsWith alias ''[@'' \<and> endsWith_ch alias CHR '']'') then Inl (AliasForm alias li)
      else case TagAlias_find r alias of
        Some first \<Rightarrow> Inl (AliasRegistered alias (ta_lineInfo first) li)
      | None \<Rightarrow> Inr (map_insert alias \<lparr>ta_tag = tag, ta_lineInfo = li\<rparr> r))"

section \<open>The tags of a test case\<close>

text \<open>The closed bracketed parts of a tag string, in order, and the text outside.\<close>

fun tag_parts :: "bool \<Rightarrow> string \<Rightarrow> string \<Rightarrow> string list" where
  "tag_parts b t [] = []"
| "tag_parts False t (c # cs) = tag_parts (c = CHR ''['') t cs"
| "tag_parts True t (c # cs) =
     (if c = CHR '']'' then t # tag_parts False [] cs else tag_parts True (t @ [c]) cs)"

definition special_hidden :: "string \<Rightarrow> bool" where
  "special_hidden t \<longleftrightarrow> parseSpecialTag t AND IsHidden \<noteq> 0"

definition strip_dot :: "string \<Rightarrow> string" where
  "strip_dot t = (if startsWith_ch t CHR ''.'' \<and> 1 < length t then tl t else t)"

lemma special_hidden_iff:
  "special_hidden t \<longleftrightarrow> startsWith_ch t CHR ''.'' \<or> t = ''!hide'' \<or> t = ''!benchmark''"
  by (simp add: special_hidden_def parseSpecialTag_def)

lemma hidden_not_reserved: "special_hidden t \<Longrightarrow> \<not> isReservedTag t"
  by (auto simp: isReservedTag_def special_hidden_def)

lemma close_tag_eq:
  "close_tag li s =
     (if isReservedTag (ts_tag s) then Inl (ReservedTag (ts_tag s) li)
      else Inr (s\<lparr>ts_isHidden := ts_isHidden s \<or> special_hidden (ts_tag s),
                  ts_tags := ts_tags s @ [strip_dot (ts_tag s)], ts_tag := [], ts_inTag := False\<rparr>))"
  using hidden_not_reserved [of "ts_tag s"]
  by (auto simp: special_hidden_def close_tag_def Let_def enforceNotReservedTag_def strip_dot_def isReservedTag_def drop_Suc)

lemma tag_loop_eq:
  "(case tag_loop li cs s of
      Inl e \<Rightarrow> \<exists>t \<in> set (tag_parts (ts_inTag s) (ts_tag s) cs). isReservedTag t \<and> e = ReservedTag t li
    | Inr s' \<Rightarrow> (\<forall>t \<in> set (tag_parts (ts_inTag s) (ts_tag s) cs). \<not> isReservedTag t) \<and>
        ts_tags s' = ts_tags s @ map strip_dot (tag_parts (ts_inTag s) (ts_tag s) cs) \<and>
        (ts_isHidden s' \<longleftrightarrow> ts_isHidden s \<or> (\<exists>t \<in> set (tag_parts (ts_inTag s) (ts_tag s) cs). special_hidden t)))"
  if "ts_inTag s \<or> ts_tag s = []"
  using that
proof (induction cs arbitrary: s)
  case (Cons c cs)
  show ?case
  proof (cases "ts_inTag s \<and> c = CHR '']''")
    case True
    show ?thesis
    proof (cases "isReservedTag (ts_tag s)")
      case False
      let ?s = "s\<lparr>ts_isHidden := ts_isHidden s \<or> special_hidden (ts_tag s),
                  ts_tags := ts_tags s @ [strip_dot (ts_tag s)], ts_tag := [], ts_inTag := False\<rparr>"
      have "tag_char li c s = Inr ?s" using True False by (simp add: tag_char_def close_tag_eq)
      with Cons.IH [of ?s] True False show ?thesis by (auto split: sum.splits)
    qed (use True in \<open>simp add: tag_char_def close_tag_eq\<close>)
  next
    case False
    then consider "\<not> ts_inTag s" "c = CHR ''[''" | "\<not> ts_inTag s" "c \<noteq> CHR ''[''" | "ts_inTag s" "c \<noteq> CHR '']''"
      by auto
    then show ?thesis
    proof cases
      case 1
      with Cons.IH [of "s\<lparr>ts_inTag := True\<rparr>"] show ?thesis
        by (auto simp: tag_char_def split: sum.splits)
    next
      case 2
      with Cons.IH [of "s\<lparr>ts_desc := ts_desc s @ [c]\<rparr>"] Cons.prems show ?thesis
        by (auto simp: tag_char_def split: sum.splits)
    next
      case 3
      with Cons.IH [of "s\<lparr>ts_tag := ts_tag s @ [c]\<rparr>"] show ?thesis
        by (auto simp: tag_char_def split: sum.splits)
    qed
  qed
qed simp

lemma lcase_loop_eq:
  "lcaseTags (lcase_loop ts i) = lcaseTags i @ map toLower ts"
  "bit (properties (lcase_loop ts i)) n \<longleftrightarrow>
     bit (properties i) n \<or> (\<exists>t \<in> set ts. bit (parseSpecialTag (toLower t)) n)"
  "name (lcase_loop ts i) = name i" "className (lcase_loop ts i) = className i"
  "description (lcase_loop ts i) = description i" "lineInfo (lcase_loop ts i) = lineInfo i"
  by (induction ts arbitrary: i) (auto simp: Let_def bit_or_iff)

lemma bit_parseSpecialTag_1: "bit (parseSpecialTag t) (Suc 0) \<longleftrightarrow> special_hidden t"
  using and_exp_eq_0_iff_not_bit [of "parseSpecialTag t" 1] by (simp add: special_hidden_def)

lemma toLower_dot: "startsWith_ch (toLower t) CHR ''.'' \<longleftrightarrow> startsWith_ch t CHR ''.''"
  by (cases t) (auto simp: startsWith_ch_def toLower_def toLowerInPlace_def toLowerCh_nonletter)

text \<open>A tag that is hidden only in lower case is reserved.\<close>

lemma hidden_lower:
  assumes "special_hidden (toLower t)" "\<not> isReservedTag t"
  shows "special_hidden t"
proof -
  consider "startsWith_ch t CHR ''.''" | "toLower t \<in> {''!hide'', ''!benchmark''}"
    using assms(1) by (auto simp: special_hidden_iff toLower_dot)
  then show ?thesis
  proof cases
    case 1
    then show ?thesis by (simp add: special_hidden_iff)
  next
    case 2
    have t: "t \<noteq> []" "t ! 0 = CHR ''!''"
      using 2 by (cases t; auto simp: toLower_def toLowerInPlace_def toLowerCh_nonletter)+
    then have "parseSpecialTag t \<noteq> SP_None"
      using assms(2) by (auto simp: isReservedTag_def is_alnum_def)
    moreover have "toLower t \<noteq> t \<Longrightarrow> t \<notin> {''!hide'', ''!throws'', ''!shouldfail'', ''!mayfail'', ''!nonportable'', ''!benchmark''}"
      by (auto simp: toLower_def toLowerInPlace_def toLowerCh_def)
    moreover have "\<not> startsWith_ch t CHR ''.''" using t by (simp add: startsWith_ch_def)
    ultimately show ?thesis
      using 2 by (auto simp: special_hidden_iff parseSpecialTag_def split: if_splits)
  qed
qed

lemma hidden_lower_strip:
  assumes "special_hidden (toLower (strip_dot t))" "\<not> isReservedTag t"
  shows "special_hidden t"
proof (cases "startsWith_ch t CHR ''.''")
  case True
  then show ?thesis by (simp add: special_hidden_iff)
next
  case False
  with assms show ?thesis by (simp add: strip_dot_def hidden_lower)
qed

lemma sorted_remdups_adj_distinct: "sorted (xs :: 'a::linorder list) \<Longrightarrow> distinct (remdups_adj xs)"
  by (induction xs rule: remdups_adj.induct) (auto simp: le_neq_trans not_less_iff_gr_or_eq)

text \<open>
  C21: \<open>makeTestCase\<close> fails exactly when a closed tag is reserved; otherwise the tags of the
  test case are the closed tags without a leading dot, sorted and without repetition, with
  the tag \<open>.\<close> added when one of them hides the test, and the test is hidden exactly then.
\<close>

theorem makeTestCase_tags:
  "case makeTestCase ptr cn nt li of
     Inl e \<Rightarrow> \<exists>t \<in> set (tag_parts False [] (nt_tags nt)). isReservedTag t \<and> e = ReservedTag t li
   | Inr tc \<Rightarrow>
       \<not> (\<exists>t \<in> set (tag_parts False [] (nt_tags nt)). isReservedTag t) \<and>
       name tc = nt_name nt \<and> className tc = cn \<and> lineInfo tc = li \<and> test tc = ptr \<and>
       sorted (tags tc) \<and> distinct (tags tc) \<and> lcaseTags tc = map toLower (tags tc) \<and>
       (isHidden tc \<longleftrightarrow> (\<exists>t \<in> set (tag_parts False [] (nt_tags nt)). special_hidden t)) \<and>
       set (tags tc) = strip_dot ` set (tag_parts False [] (nt_tags nt)) \<union> (if isHidden tc then {''.''} else {})"
proof -
  let ?ps = "tag_parts False [] (nt_tags nt)"
  have l: "case tag_loop li (nt_tags nt) tag_state_init of
      Inl e \<Rightarrow> \<exists>t \<in> set ?ps. isReservedTag t \<and> e = ReservedTag t li
    | Inr s' \<Rightarrow> (\<forall>t \<in> set ?ps. \<not> isReservedTag t) \<and> ts_tags s' = map strip_dot ?ps \<and>
        (ts_isHidden s' \<longleftrightarrow> (\<exists>t \<in> set ?ps. special_hidden t))"
    using tag_loop_eq [of tag_state_init "nt_tags nt" li] by (simp add: tag_state_init_def split: sum.splits)
  show ?thesis
  proof (cases "tag_loop li (nt_tags nt) tag_state_init")
    case (Inl e)
    with l show ?thesis by (simp add: makeTestCase_def)
  next
    case (Inr s)
    with l have nr: "\<forall>t \<in> set ?ps. \<not> isReservedTag t" and st: "ts_tags s = map strip_dot ?ps"
      and sh: "ts_isHidden s \<longleftrightarrow> (\<exists>t \<in> set ?ps. special_hidden t)" by simp_all
    define ts where "ts = remdups_adj (sort (if ts_isHidden s then ts_tags s @ [''.''] else ts_tags s))"
    have set_ts: "set ts = strip_dot ` set ?ps \<union> (if ts_isHidden s then {''.''} else {})"
      by (simp add: ts_def st)
    have "isHidden (lcase_loop ts i) \<longleftrightarrow> ts_isHidden s" if "properties i = 0" for i
    proof -
      have "isHidden (lcase_loop ts i) \<longleftrightarrow> (\<exists>t \<in> set ts. special_hidden (toLower t))"
        using and_exp_eq_0_iff_not_bit [of "properties (lcase_loop ts i)" 1] that
        by (simp add: isHidden_def lcase_loop_eq bit_parseSpecialTag_1)
      also have "\<dots> \<longleftrightarrow> ts_isHidden s"
      proof
        assume "\<exists>t \<in> set ts. special_hidden (toLower t)"
        then show "ts_isHidden s" using set_ts nr sh hidden_lower_strip by (auto split: if_splits)
      next
        assume "ts_isHidden s"
        then have "''.'' \<in> set ts" using set_ts by simp
        moreover have "special_hidden (toLower ''.'')" by code_simp
        ultimately show "\<exists>t \<in> set ts. special_hidden (toLower t)" by blast
      qed
      finally show ?thesis .
    qed
    note hid = this
    define i where "i = \<lparr>name = nt_name nt, className = cn, description = ts_desc s, tags = [],
      lcaseTags = [], lineInfo = li, properties = SP_None\<rparr>"
    have eq: "makeTestCase ptr cn nt li = Inr (TestCase_new ptr ((lcase_loop ts i)\<lparr>tags := ts\<rparr>))"
      by (simp add: makeTestCase_def Inr TestCaseInfo_new_def setTags_def unique_adj_def Let_def i_def ts_def)
    have "isHidden (TestCase_new ptr ((lcase_loop ts i)\<lparr>tags := ts\<rparr>)) \<longleftrightarrow> ts_isHidden s"
      using hid [of i] by (simp add: isHidden_def TestCase_new_def TestCaseInfo.defs i_def)
    moreover have "sorted ts" "distinct ts" by (simp_all add: ts_def sorted_remdups_adj_distinct)
    ultimately show ?thesis
      using nr sh set_ts unfolding eq
      by (simp add: TestCase_new_def TestCaseInfo.defs lcase_loop_eq i_def)
  qed
qed

section \<open>Alias registries\<close>

text \<open>The interface a test spec parser uses: expansion leaves text without an alias opening alone.\<close>

locale alias_registry =
  fixes ok :: "'r \<Rightarrow> bool" and empty :: 'r
    and add :: "'r \<Rightarrow> string \<Rightarrow> string \<Rightarrow> SourceLineInfo \<Rightarrow> catch_error + 'r"
    and expand :: "'r \<Rightarrow> string \<Rightarrow> string"
  assumes ok_empty: "ok empty"
    and ok_add: "ok r \<Longrightarrow> add r a t li = Inr r' \<Longrightarrow> ok r'"
    and expand_plain: "ok r \<Longrightarrow> \<not> contains s ''[@'' \<Longrightarrow> expand r s = s"

definition aliases_ok :: "TagAliasRegistry \<Rightarrow> bool" where
  "aliases_ok r \<longleftrightarrow> sorted_wrt (<) (map fst r) \<and> (\<forall>a \<in> set (map fst r). startsWith a ''[@'')"

lemma set_map_insert: "set (map fst (map_insert k v m)) = insert k (set (map fst m))"
  by (induction k v m rule: map_insert.induct) auto

lemma sorted_map_insert:
  "sorted_wrt (<) (map fst m) \<Longrightarrow> sorted_wrt (<) (map fst (map_insert k v m))"
proof (induction k v m rule: map_insert.induct)
  case (2 k v k' v' m)
  then show ?case using set_map_insert [of k v m] by auto
qed simp

lemma map_of_map_insert:
  "sorted_wrt (<) (map fst m) \<Longrightarrow> map_of m k = None \<Longrightarrow> map_of (map_insert k v m) x = (if x = k then Some v else map_of m x)"
  by (induction k v m rule: map_insert.induct) (auto split: if_splits)

lemma aliases_ok_add:
  "aliases_ok r \<Longrightarrow> TagAlias_add r a t li = Inr r' \<Longrightarrow> aliases_ok r'"
  by (auto simp: TagAlias_add_def aliases_ok_def set_map_insert sorted_map_insert
      simp del: set_map split: if_splits option.splits)

lemma expandAliases_plain:
  assumes "\<forall>a \<in> set (map fst r). startsWith a ''[@''" "\<not> contains s ''[@''"
  shows "expandAliases r s = s"
proof -
  have "str_find a s = None" if "startsWith a ''[@''" for a
    using that assms(2) str_find_None
    by (metis contains_sublist prefix_imp_sublist sublist_order.order_trans startsWith_prefix)
  with assms(1) have "fold expand_alias r s = s"
    by (induction r) (auto simp: expand_alias_def)
  then show ?thesis by (simp add: expandAliases_def)
qed

interpretation tags: alias_registry aliases_ok "[]" TagAlias_add expandAliases
proof
  show "aliases_ok []" by (simp add: aliases_ok_def)
  show "aliases_ok r \<Longrightarrow> TagAlias_add r a t li = Inr r' \<Longrightarrow> aliases_ok r'" for r a t li r'
    by (rule aliases_ok_add)
  show "aliases_ok r \<Longrightarrow> \<not> contains s ''[@'' \<Longrightarrow> expandAliases r s = s" for r s
    by (rule expandAliases_plain) (simp add: aliases_ok_def)
qed

lemma add_then_find:
  assumes "aliases_ok r" "TagAlias_add r a t li = Inr r'"
  shows "TagAlias_find r' x = (if x = a then Some \<lparr>ta_tag = t, ta_lineInfo = li\<rparr> else TagAlias_find r x)"
  using assms by (auto simp: TagAlias_add_def TagAlias_find_def aliases_ok_def map_of_map_insert
      split: if_splits option.splits)

end
