(* ===== verification/CatchTestSpec.thy ===== *)
theory CatchTestSpec
  imports CatchTestCase
begin

text \<open>
  Test specifications of the unit test framework (\<open>native/src/catch.hpp\<close>):
  the patterns and filters a test case is matched against, the parser of the
  command line notation, and the configuration built from it.  The parser is a
  state machine over the characters of its argument; \<open>None\<close> stands for the
  \<open>std::out_of_range\<close> that \<open>substr\<close> can throw.
\<close>

section \<open>Patterns and filters\<close>

datatype Pattern =
    NamePattern WildcardPattern
  | TagPattern string
  | ExcludedPattern Pattern

definition NamePattern_new :: "string \<Rightarrow> Pattern" where
  "NamePattern_new nm = NamePattern (WildcardPattern_new (toLower nm) CaseNo)"

definition TagPattern_new :: "string \<Rightarrow> Pattern" where
  "TagPattern_new tag = TagPattern (toLower tag)"

definition ExcludedPattern_new :: "Pattern \<Rightarrow> Pattern" where
  "ExcludedPattern_new underlying = ExcludedPattern underlying"

fun Pattern_matches :: "Pattern \<Rightarrow> 'a TestCaseInfo_scheme \<Rightarrow> bool" where
  "Pattern_matches (NamePattern w) tc = WildcardPattern_matches w (toLower (name tc))"
| "Pattern_matches (TagPattern tag) tc = (tag \<in> set (lcaseTags tc))"
| "Pattern_matches (ExcludedPattern p) tc = (\<not> Pattern_matches p tc)"

type_synonym Filter = "Pattern list"
type_synonym TestSpec = "Filter list"

definition Filter_matches :: "Filter \<Rightarrow> 'a TestCaseInfo_scheme \<Rightarrow> bool" where
  "Filter_matches f tc = all_of (\<lambda>p. Pattern_matches p tc) f"

definition hasFilters :: "TestSpec \<Rightarrow> bool" where
  "hasFilters s \<longleftrightarrow> s \<noteq> []"

definition TestSpec_matches :: "TestSpec \<Rightarrow> 'a TestCaseInfo_scheme \<Rightarrow> bool" where
  "TestSpec_matches s tc = any_of (\<lambda>f. Filter_matches f tc) s"

section \<open>The parser\<close>

datatype Mode = ModeNone | ModeName | ModeQuotedName | ModeTag | ModeEscapedName

text \<open>\<open>m_start\<close> is \<open>None\<close> for \<open>npos\<close>; the alias registry is an argument of \<open>parse\<close>.\<close>

record TestSpecParser =
  m_mode :: Mode
  m_exclusion :: bool
  m_start :: "nat option"
  m_pos :: nat
  m_arg :: string
  m_escapeChars :: "nat list"
  m_currentFilter :: Filter
  m_testSpec :: TestSpec

definition TestSpecParser_new :: TestSpecParser where
  "TestSpecParser_new = \<lparr>m_mode = ModeNone, m_exclusion = False, m_start = None, m_pos = 0, m_arg = [],
     m_escapeChars = [], m_currentFilter = [], m_testSpec = []\<rparr>"

definition startNewMode :: "Mode \<Rightarrow> nat \<Rightarrow> TestSpecParser \<Rightarrow> TestSpecParser" where
  "startNewMode mode start p = p\<lparr>m_mode := mode, m_start := Some start\<rparr>"

definition escape :: "TestSpecParser \<Rightarrow> TestSpecParser" where
  "escape p =
     (let p = (if m_mode p = ModeNone then p\<lparr>m_start := Some (m_pos p)\<rparr> else p)
      in p\<lparr>m_mode := ModeEscapedName, m_escapeChars := m_escapeChars p @ [m_pos p]\<rparr>)"

definition subString :: "TestSpecParser \<Rightarrow> string option" where
  "subString p = (case m_start p of None \<Rightarrow> None | Some st \<Rightarrow> str_substr (m_arg p) st (m_pos p - st))"

text \<open>The positions of escape characters are relative to \<open>m_arg\<close>; \<open>i\<close> were removed before.\<close>

fun remove_escapes :: "nat list \<Rightarrow> nat \<Rightarrow> nat \<Rightarrow> string \<Rightarrow> string option" where
  "remove_escapes [] start i token = Some token"
| "remove_escapes (e # es) start i token = do {
     a \<leftarrow> str_substr token 0 (e - start - i);
     b \<leftarrow> str_substr_end token (e - start - i + 1);
     remove_escapes es start (Suc i) (a @ b) }"

definition addPattern :: "(string \<Rightarrow> Pattern) \<Rightarrow> TestSpecParser \<Rightarrow> TestSpecParser option" where
  "addPattern new p = do {
     token \<leftarrow> subString p;
     start \<leftarrow> m_start p;
     token \<leftarrow> remove_escapes (m_escapeChars p) start 0 token;
     let p = p\<lparr>m_escapeChars := []\<rparr>;
     let (p, token) = (if startsWith token ''exclude:'' then (p\<lparr>m_exclusion := True\<rparr>, drop 8 token) else (p, token));
     let p = (if token \<noteq> []
              then let pattern = new token;
                       pattern = (if m_exclusion p then ExcludedPattern_new pattern else pattern)
                   in p\<lparr>m_currentFilter := m_currentFilter p @ [pattern]\<rparr>
              else p);
     Some (p\<lparr>m_exclusion := False, m_mode := ModeNone\<rparr>) }"

definition addFilter :: "TestSpecParser \<Rightarrow> TestSpecParser" where
  "addFilter p =
     (if m_currentFilter p \<noteq> []
      then p\<lparr>m_testSpec := m_testSpec p @ [m_currentFilter p], m_currentFilter := []\<rparr> else p)"

text \<open>The part of \<open>visitChar\<close> after the first \<open>if\<close>.\<close>

definition visit_mode :: "char \<Rightarrow> TestSpecParser \<Rightarrow> TestSpecParser option" where
  "visit_mode c p =
     (if m_mode p = ModeName
      then if c = CHR '','' then map_option addFilter (addPattern NamePattern_new p)
           else if c = CHR ''['' then do {
             s \<leftarrow> subString p;
             p \<leftarrow> (if s = ''exclude:'' then Some (p\<lparr>m_exclusion := True\<rparr>) else addPattern NamePattern_new p);
             let p = p\<lparr>m_pos := m_pos p + 1\<rparr>;
             Some (startNewMode ModeTag (m_pos p) p) }
           else if c = CHR 0x5C then Some (escape p)
           else Some p
      else if m_mode p = ModeEscapedName then Some (p\<lparr>m_mode := ModeName\<rparr>)
      else if m_mode p = ModeQuotedName \<and> c = CHR 0x22 then addPattern NamePattern_new p
      else if m_mode p = ModeTag \<and> c = CHR '']'' then addPattern TagPattern_new p
      else Some p)"

definition visitChar :: "char \<Rightarrow> TestSpecParser \<Rightarrow> TestSpecParser option" where
  "visitChar c p =
     (if m_mode p = ModeNone
      then if c = CHR '' '' then Some p
           else if c = CHR ''~'' then Some (p\<lparr>m_exclusion := True\<rparr>)
           else if c = CHR ''['' then
             (let p = p\<lparr>m_pos := m_pos p + 1\<rparr> in Some (startNewMode ModeTag (m_pos p) p))
           else if c = CHR 0x22 then
             (let p = p\<lparr>m_pos := m_pos p + 1\<rparr> in Some (startNewMode ModeQuotedName (m_pos p) p))
           else if c = CHR 0x5C then Some (escape p)
           else visit_mode c (startNewMode ModeName (m_pos p) p)
      else visit_mode c p)"

lemma addPattern_frame:
  "addPattern new p = Some q \<Longrightarrow> m_pos q = m_pos p \<and> m_arg q = m_arg p"
  by (auto simp: addPattern_def Let_def bind_eq_Some_conv split: if_splits prod.splits)

lemma visitChar_frame: "visitChar c p = Some q \<Longrightarrow> m_pos p \<le> m_pos q \<and> m_arg q = m_arg p"
  by (auto simp: visitChar_def visit_mode_def startNewMode_def escape_def Let_def addFilter_def bind_eq_Some_conv
      dest!: addPattern_frame split: if_splits)

text \<open>The loop of \<open>parse\<close>; \<open>visitChar\<close> may advance \<open>m_pos\<close> by itself.\<close>

function parse_loop :: "TestSpecParser \<Rightarrow> TestSpecParser option" where
  "parse_loop p =
     (if m_pos p < length (m_arg p)
      then case visitChar (m_arg p ! m_pos p) p of
             None \<Rightarrow> None
           | Some p \<Rightarrow> parse_loop (p\<lparr>m_pos := m_pos p + 1\<rparr>)
      else Some p)"
  by auto
termination
proof (relation "measure (\<lambda>p. length (m_arg p) - m_pos p)", goal_cases)
  case (2 p q)
  then show ?case using visitChar_frame [of "m_arg p ! m_pos p" p q] by auto
qed simp

declare parse_loop.simps [simp del]

definition TestSpecParser_parse :: "(string \<Rightarrow> string) \<Rightarrow> string \<Rightarrow> TestSpecParser \<Rightarrow> TestSpecParser option" where
  "TestSpecParser_parse expand arg p = do {
     let p = p\<lparr>m_mode := ModeNone, m_exclusion := False, m_start := None, m_arg := expand arg,
               m_escapeChars := [], m_pos := 0\<rparr>;
     p \<leftarrow> parse_loop p;
     if m_mode p = ModeName then addPattern NamePattern_new p else Some p }"

definition parser_testSpec :: "TestSpecParser \<Rightarrow> TestSpec" where
  "parser_testSpec p = m_testSpec (addFilter p)"

definition parseTestSpec :: "(string \<Rightarrow> string) \<Rightarrow> string \<Rightarrow> TestSpec option" where
  "parseTestSpec expand arg = map_option parser_testSpec (TestSpecParser_parse expand arg TestSpecParser_new)"

section \<open>The configuration\<close>

datatype Verbosity = Quiet | Normal | High
datatype ShowDurations = DefaultForReporter | DurationsAlways | DurationsNever
datatype RunOrder = InDeclarationOrder | InLexicographicalOrder | InRandomOrder
datatype UseColour = ColourAuto | ColourYes | ColourNo
datatype WaitForKeypress = KeypressNever | BeforeStart | BeforeExit | BeforeStartAndExit

abbreviation (input) WarnNothing :: nat where "WarnNothing \<equiv> 0"
abbreviation (input) WarnNoAssertions :: nat where "WarnNoAssertions \<equiv> 1"
abbreviation (input) WarnNoTests :: nat where "WarnNoTests \<equiv> 2"

text \<open>The options of a run; the command line adds those of the benchmarks.\<close>

record ConfigData =
  listTests :: bool
  listTags :: bool
  listReporters :: bool
  listTestNamesOnly :: bool
  showSuccessfulTests :: bool
  shouldDebugBreak :: bool
  noThrow :: bool
  showHelp :: bool
  showInvisibles :: bool
  filenamesAsTags :: bool
  libIdentify :: bool
  abortAfter :: int
  rngSeed :: u32
  cd_verbosity :: Verbosity
  warnings :: nat
  showDurations :: ShowDurations
  runOrder :: RunOrder
  useColour :: UseColour
  waitForKeypress :: WaitForKeypress
  outputFilename :: string
  cd_name :: string
  processName :: string
  reporterName :: string
  testsOrTags :: "string list"
  sectionsToRun :: "string list"

definition ConfigData_new :: ConfigData where
  "ConfigData_new = \<lparr>listTests = False, listTags = False, listReporters = False, listTestNamesOnly = False,
     showSuccessfulTests = False, shouldDebugBreak = False, noThrow = False, showHelp = False,
     showInvisibles = False, filenamesAsTags = False, libIdentify = False, abortAfter = -1, rngSeed = 0,
     cd_verbosity = Normal, warnings = WarnNothing, showDurations = DefaultForReporter,
     runOrder = InDeclarationOrder, useColour = ColourAuto, waitForKeypress = KeypressNever,
     outputFilename = [], cd_name = [], processName = [], reporterName = ''console'',
     testsOrTags = [], sectionsToRun = []\<rparr>"

text \<open>A name between single quotation marks, as the messages of errors show it.\<close>

definition quote :: "string \<Rightarrow> string" where
  "quote s = [CHR 0x27] @ s @ [CHR 0x27]"

text \<open>
  The stream the report goes to (\<open>catch_stream\<close>).  Whether a file can be
  opened for writing is a parameter, the file system's answer; the error is the
  message of the exception.
\<close>

datatype IStream = CoutStream | DebugOutStream | FileStream string

definition FileStream_new :: "(string \<Rightarrow> bool) \<Rightarrow> string \<Rightarrow> string + IStream" where
  "FileStream_new can_open filename =
     (if can_open filename then Inr (FileStream filename)
      else Inl (''Unable to open file: '' @ quote filename))"

definition makeStream :: "(string \<Rightarrow> bool) \<Rightarrow> string \<Rightarrow> string + IStream" where
  "makeStream can_open filename =
     (if filename = [] then Inr CoutStream
      else if filename ! 0 = CHR ''%'' then
        (if filename = ''%debug'' then Inr DebugOutStream
         else Inl (''Unrecognised stream: '' @ quote filename))
      else FileStream_new can_open filename)"

definition openStream :: "(string \<Rightarrow> bool) \<Rightarrow> ConfigData \<Rightarrow> string + IStream" where
  "openStream can_open d = makeStream can_open (outputFilename d)"

record Config =
  cfg_data :: ConfigData
  cfg_stream :: IStream
  cfg_testSpec :: TestSpec
  m_hasTestFilters :: bool

fun parse_all :: "(string \<Rightarrow> string) \<Rightarrow> string list \<Rightarrow> TestSpecParser \<Rightarrow> TestSpecParser option" where
  "parse_all expand [] p = Some p"
| "parse_all expand (t # ts) p = do { p \<leftarrow> TestSpecParser_parse expand t p; parse_all expand ts p }"

text \<open>
  The constructor opens the stream before it parses the test specification; an
  exception of the stream leaves it.
\<close>

definition Config_new :: "(string \<Rightarrow> bool) \<Rightarrow> (string \<Rightarrow> string) \<Rightarrow> ConfigData \<Rightarrow> (string + Config) option" where
  "Config_new can_open expand d =
     (case openStream can_open d of
        Inl msg \<Rightarrow> Some (Inl msg)
      | Inr stream \<Rightarrow> do {
          let filters = testsOrTags d \<noteq> [];
          parser \<leftarrow> (if filters then parse_all expand (testsOrTags d) TestSpecParser_new else Some TestSpecParser_new);
          Some (Inr \<lparr>cfg_data = d, cfg_stream = stream, cfg_testSpec = parser_testSpec parser, m_hasTestFilters = filters\<rparr>) })"

definition allowThrows :: "Config \<Rightarrow> bool" where
  "allowThrows c \<longleftrightarrow> \<not> noThrow (cfg_data c)"

definition Config_name :: "Config \<Rightarrow> string" where
  "Config_name c = (if cd_name (cfg_data c) = [] then processName (cfg_data c) else cd_name (cfg_data c))"

definition warnAboutMissingAssertions :: "Config \<Rightarrow> bool" where
  "warnAboutMissingAssertions c \<longleftrightarrow> warnings (cfg_data c) AND WarnNoAssertions \<noteq> 0"

definition warnAboutNoTests :: "Config \<Rightarrow> bool" where
  "warnAboutNoTests c \<longleftrightarrow> warnings (cfg_data c) AND WarnNoTests \<noteq> 0"

section \<open>Parsing never throws\<close>

text \<open>
  While a name is read the recorded escape characters are backslashes between
  its start and the current position; no other mode keeps any.
\<close>

definition spec_parser_ok :: "TestSpecParser \<Rightarrow> bool" where
  "spec_parser_ok p \<longleftrightarrow>
     (m_mode p = ModeNone \<longrightarrow> m_escapeChars p = []) \<and>
     (m_mode p \<noteq> ModeNone \<longrightarrow> (\<exists>st. m_start p = Some st \<and> st \<le> m_pos p \<and>
        sorted_wrt (<) (m_escapeChars p) \<and>
        (\<forall>e \<in> set (m_escapeChars p). st \<le> e \<and> e < m_pos p \<and> m_arg p ! e = CHR 0x5C))) \<and>
     (m_mode p \<in> {ModeTag, ModeQuotedName} \<longrightarrow> m_escapeChars p = [])"

lemma remove_escapes_total:
  assumes "sorted_wrt (<) es" "\<forall>e \<in> set es. st + i \<le> e \<and> e < st + i + length token"
  shows "remove_escapes es st i token \<noteq> None"
  using assms
proof (induction es arbitrary: i token)
  case (Cons e es)
  let ?token = "take (e - st - i) token @ drop (e - st - i + 1) token"
  have "e - st - i < length token" using Cons.prems(2) by auto
  then have "str_substr token 0 (e - st - i) = Some (take (e - st - i) token)"
    "str_substr_end token (e - st - i + 1) = Some (drop (e - st - i + 1) token)"
    and "length ?token = length token - 1"
    by (auto simp: str_substr_def str_substr_end_def)
  moreover have "remove_escapes es st (Suc i) ?token \<noteq> None"
    by (rule Cons.IH) (use Cons.prems \<open>length ?token = length token - 1\<close> in fastforce)+
  ultimately show ?case by simp
qed simp

lemma addPattern_total:
  assumes "spec_parser_ok p" "m_mode p \<noteq> ModeNone" "m_pos p \<le> length (m_arg p)"
  obtains q where "addPattern new p = Some q" "m_mode q = ModeNone" "m_escapeChars q = []" "m_pos q = m_pos p" "m_arg q = m_arg p"
proof -
  obtain st where st: "m_start p = Some st" "st \<le> m_pos p" "sorted_wrt (<) (m_escapeChars p)"
    "\<forall>e \<in> set (m_escapeChars p). st \<le> e \<and> e < m_pos p"
    using assms by (auto simp: spec_parser_ok_def)
  let ?token = "take (m_pos p - st) (drop st (m_arg p))"
  have sub: "subString p = Some ?token" using st assms(3) by (simp add: subString_def str_substr_def)
  have "remove_escapes (m_escapeChars p) st 0 ?token \<noteq> None"
    by (rule remove_escapes_total) (use st assms(3) in auto)
  then obtain t where "remove_escapes (m_escapeChars p) st 0 ?token = Some t" by blast
  then have "\<exists>q. addPattern new p = Some q \<and> m_mode q = ModeNone \<and> m_escapeChars q = []"
    using sub st(1) by (simp add: addPattern_def Let_def split: prod.split)
  then show thesis using that addPattern_frame by blast
qed

lemma visit_mode_total:
  assumes "spec_parser_ok p" "m_mode p \<noteq> ModeNone" "m_pos p < length (m_arg p)" "c = m_arg p ! m_pos p"
  shows "\<exists>q. visit_mode c p = Some q \<and> spec_parser_ok (q\<lparr>m_pos := m_pos q + 1\<rparr>) \<and>
    (m_mode q = ModeName \<longrightarrow> m_pos q = m_pos p)"
proof -
  have le: "m_pos p \<le> length (m_arg p)" using assms(3) by simp
  obtain st where st: "m_start p = Some st" "st \<le> m_pos p" "sorted_wrt (<) (m_escapeChars p)"
    "\<And>e. e \<in> set (m_escapeChars p) \<Longrightarrow> st \<le> e \<and> e < m_pos p \<and> m_arg p ! e = CHR 0x5C"
    using assms(1,2) by (auto simp: spec_parser_ok_def)
  show ?thesis
  proof (cases "m_mode p")
    case ModeNone
    then show ?thesis using assms(2) by simp
  next
    case ModeName
    consider "c = CHR '',''" | "c = CHR ''[''" | "c = CHR 0x5C" | "c \<noteq> CHR '',''" "c \<noteq> CHR ''[''" "c \<noteq> CHR 0x5C" by blast
    then show ?thesis
    proof cases
      case 1
      obtain q where "addPattern NamePattern_new p = Some q" "m_mode q = ModeNone" "m_escapeChars q = []"
        using addPattern_total [OF assms(1,2) le] by metis
      then show ?thesis using ModeName 1 by (simp add: visit_mode_def addFilter_def spec_parser_ok_def)
    next
      case 2
      let ?s = "take (m_pos p - st) (drop st (m_arg p))"
      have sub: "subString p = Some ?s" using st le by (simp add: subString_def str_substr_def)
      show ?thesis
      proof (cases "?s = ''exclude:''")
        case True
        have "m_escapeChars p = []"
        proof (rule ccontr)
          assume "m_escapeChars p \<noteq> []"
          then obtain e where "e \<in> set (m_escapeChars p)" by (cases "m_escapeChars p") auto
          note e = st(4) [OF this]
          then have "?s ! (e - st) = CHR 0x5C" "e - st < length ?s" using le by auto
          then have "CHR 0x5C \<in> set ?s" by (metis nth_mem)
          then show False using True by simp
        qed
        then show ?thesis using ModeName 2 sub True by (simp add: visit_mode_def startNewMode_def spec_parser_ok_def)
      next
        case False
        obtain q where "addPattern NamePattern_new p = Some q" "m_mode q = ModeNone" "m_escapeChars q = []"
          using addPattern_total [OF assms(1,2) le] by metis
        then show ?thesis using ModeName 2 sub False by (simp add: visit_mode_def startNewMode_def spec_parser_ok_def)
      qed
    next
      case 3
      then show ?thesis using ModeName st assms(4)
        by (auto simp: visit_mode_def escape_def spec_parser_ok_def sorted_wrt_append less_Suc_eq)
    next
      case 4
      then show ?thesis using ModeName st by (auto simp: visit_mode_def spec_parser_ok_def less_Suc_eq)
    qed
  next
    case ModeEscapedName
    then show ?thesis using st by (auto simp: visit_mode_def spec_parser_ok_def less_Suc_eq)
  next
    case ModeQuotedName
    obtain q where "addPattern NamePattern_new p = Some q" "m_mode q = ModeNone" "m_escapeChars q = []"
      using addPattern_total [OF assms(1,2) le] by metis
    then show ?thesis using ModeQuotedName st assms(1) by (cases "c = CHR 0x22") (auto simp: visit_mode_def spec_parser_ok_def)
  next
    case ModeTag
    obtain q where "addPattern TagPattern_new p = Some q" "m_mode q = ModeNone" "m_escapeChars q = []"
      using addPattern_total [OF assms(1,2) le] by metis
    then show ?thesis using ModeTag st assms(1) by (cases "c = CHR '']''") (auto simp: visit_mode_def spec_parser_ok_def)
  qed
qed

lemma visitChar_total:
  assumes "spec_parser_ok p" "m_pos p < length (m_arg p)"
  shows "\<exists>q. visitChar (m_arg p ! m_pos p) p = Some q \<and> spec_parser_ok (q\<lparr>m_pos := m_pos q + 1\<rparr>) \<and>
    (m_mode q = ModeName \<longrightarrow> m_pos q = m_pos p)"
proof (cases "m_mode p = ModeNone")
  case False
  then show ?thesis using visit_mode_total [OF assms(1) False assms(2)] by (simp add: visitChar_def)
next
  case True
  let ?c = "m_arg p ! m_pos p"
  have esc: "m_escapeChars p = []" using True assms(1) by (simp add: spec_parser_ok_def)
  show ?thesis
  proof (cases "?c \<in> set [CHR '' '', CHR ''~'', CHR ''['', CHR 0x22, CHR 0x5C]")
    case False
    have "spec_parser_ok (startNewMode ModeName (m_pos p) p)" using esc by (simp add: spec_parser_ok_def startNewMode_def)
    then show ?thesis using visit_mode_total [of "startNewMode ModeName (m_pos p) p" ?c] False True assms(2)
      by (simp add: visitChar_def startNewMode_def)
  qed (use True esc in \<open>auto simp: visitChar_def startNewMode_def escape_def spec_parser_ok_def\<close>)
qed

lemma parse_loop_total:
  assumes "spec_parser_ok p" "m_mode p = ModeName \<longrightarrow> m_pos p \<le> length (m_arg p)"
  shows "\<exists>q. parse_loop p = Some q \<and> spec_parser_ok q \<and> (m_mode q = ModeName \<longrightarrow> m_pos q \<le> length (m_arg q))"
  using assms
proof (induction p rule: parse_loop.induct)
  case (1 p)
  show ?case
  proof (cases "m_pos p < length (m_arg p)")
    case True
    then obtain q where q: "visitChar (m_arg p ! m_pos p) p = Some q" "spec_parser_ok (q\<lparr>m_pos := m_pos q + 1\<rparr>)"
      "m_mode q = ModeName \<longrightarrow> m_pos q = m_pos p"
      using visitChar_total [OF 1(2)] by blast
    then show ?thesis using 1(1) [OF True q(1)] visitChar_frame [OF q(1)] True by (subst parse_loop.simps) auto
  next
    case False
    then show ?thesis using 1(2,3) by (subst parse_loop.simps) auto
  qed
qed

lemma TestSpecParser_parse_total: "TestSpecParser_parse expand arg p \<noteq> None"
proof -
  let ?p = "p\<lparr>m_mode := ModeNone, m_exclusion := False, m_start := None, m_arg := expand arg, m_escapeChars := [], m_pos := 0\<rparr>"
  obtain q where q: "parse_loop ?p = Some q" "spec_parser_ok q" "m_mode q = ModeName \<longrightarrow> m_pos q \<le> length (m_arg q)"
    using parse_loop_total [of ?p] by (auto simp: spec_parser_ok_def)
  show ?thesis
  proof (cases "m_mode q = ModeName")
    case True
    then obtain r where "addPattern NamePattern_new q = Some r" using addPattern_total [of q NamePattern_new] q by auto
    then show ?thesis using q True by (simp add: TestSpecParser_parse_def)
  qed (use q in \<open>simp add: TestSpecParser_parse_def\<close>)
qed

text \<open>The constructor fails exactly with the message of the stream.\<close>

lemma Config_new_Inl: "openStream can_open d = Inl msg \<Longrightarrow> Config_new can_open expand d = Some (Inl msg)"
  by (simp add: Config_new_def)

lemma Config_new_Inr:
  assumes "openStream can_open d = Inr stream"
  shows "\<exists>c. Config_new can_open expand d = Some (Inr c) \<and> cfg_data c = d \<and> cfg_stream c = stream"
proof -
  have "parse_all expand ts p \<noteq> None" for ts p
    by (induction ts arbitrary: p) (use TestSpecParser_parse_total in \<open>auto simp: bind_eq_None_conv\<close>)
  then obtain q where "parse_all expand (testsOrTags d) TestSpecParser_new = Some q" by blast
  with assms show ?thesis by (simp add: Config_new_def Let_def)
qed

section \<open>Reading back a printed specification\<close>

text \<open>A specification as filters of items: excluded or not, a quoted name or a tag.\<close>

datatype spec_item = SpecName string | SpecTag string

type_synonym spec = "(bool \<times> spec_item) list list"

fun item_text :: "spec_item \<Rightarrow> string" where
  "item_text (SpecName n) = n"
| "item_text (SpecTag t) = t"

fun item_close :: "spec_item \<Rightarrow> char" where
  "item_close (SpecName n) = CHR 0x22"
| "item_close (SpecTag t) = CHR '']''"

fun item_open :: "spec_item \<Rightarrow> char" where
  "item_open (SpecName n) = CHR 0x22"
| "item_open (SpecTag t) = CHR ''[''"

fun item_mode :: "spec_item \<Rightarrow> Mode" where
  "item_mode (SpecName n) = ModeQuotedName"
| "item_mode (SpecTag t) = ModeTag"

fun item_new :: "spec_item \<Rightarrow> string \<Rightarrow> Pattern" where
  "item_new (SpecName n) = NamePattern_new"
| "item_new (SpecTag t) = TagPattern_new"

definition item_ok :: "spec_item \<Rightarrow> bool" where
  "item_ok it \<longleftrightarrow> item_text it \<noteq> [] \<and> item_close it \<notin> set (item_text it) \<and> \<not> startsWith (item_text it) ''exclude:''"

definition print_item :: "bool \<times> spec_item \<Rightarrow> string" where
  "print_item i = (if fst i then ''~'' else []) @ item_open (snd i) # item_text (snd i) @ [item_close (snd i)]"

definition print_spec :: "spec \<Rightarrow> string" where
  "print_spec fs = join_with '','' (map (\<lambda>f. concat (map print_item f)) fs)"

definition item_pattern :: "bool \<times> spec_item \<Rightarrow> Pattern" where
  "item_pattern i = (let p = item_new (snd i) (item_text (snd i)) in if fst i then ExcludedPattern p else p)"

definition spec_ok :: "spec \<Rightarrow> bool" where
  "spec_ok fs \<longleftrightarrow> list_all (\<lambda>f. f \<noteq> [] \<and> list_all (\<lambda>i. item_ok (snd i)) f) fs"

text \<open>One iteration of the parser's loop.\<close>

lemma parse_loop_step:
  assumes "drop (m_pos p) (m_arg p) = c # cs" "visitChar c p = Some q"
  shows "parse_loop p = parse_loop (q\<lparr>m_pos := m_pos q + 1\<rparr>)"
proof -
  have "m_pos p < length (m_arg p)" "m_arg p ! m_pos p = c"
    using assms(1) by (metis drop_eq_Nil list.distinct(1) not_le, metis assms(1) hd_drop_conv_nth
        drop_eq_Nil list.distinct(1) list.sel(1) not_le)
  then show ?thesis using assms(2) by (subst parse_loop.simps) simp
qed

text \<open>Inside quotes and brackets the parser waits for the closing character.\<close>

lemma parse_loop_skip:
  assumes "m_mode p = item_mode it"
  shows "drop (m_pos p) (m_arg p) = t @ rest \<Longrightarrow> item_close it \<notin> set t \<Longrightarrow>
     parse_loop p = parse_loop (p\<lparr>m_pos := m_pos p + length t\<rparr>)"
  using assms
proof (induction t arbitrary: p)
  case (Cons c t)
  have v: "visitChar c p = Some p"
    using Cons.prems(2,3) by (cases it) (auto simp: visitChar_def visit_mode_def)
  have "drop (m_pos p + 1) (m_arg p) = t @ rest"
    using Cons.prems(1) by (metis append_Cons drop_drop add.commute drop0 drop_Suc_Cons plus_1_eq_Suc)
  with Cons.IH [of "p\<lparr>m_pos := m_pos p + 1\<rparr>"] Cons.prems parse_loop_step [OF _ v] show ?case by simp
qed simp

lemma addPattern_token:
  assumes "m_start p = Some st" "str_substr (m_arg p) st (m_pos p - st) = Some token" "m_escapeChars p = []"
    "token \<noteq> []" "\<not> startsWith token ''exclude:''"
  shows "addPattern new p =
    Some (p\<lparr>m_currentFilter := m_currentFilter p @ [if m_exclusion p then ExcludedPattern (new token) else new token],
            m_exclusion := False, m_mode := ModeNone\<rparr>)"
  using assms by (simp add: addPattern_def subString_def Let_def ExcludedPattern_new_def)

definition parser_ready :: "TestSpecParser \<Rightarrow> string \<Rightarrow> bool" where
  "parser_ready p cs \<longleftrightarrow> m_mode p = ModeNone \<and> \<not> m_exclusion p \<and> m_escapeChars p = [] \<and>
     m_pos p \<le> length (m_arg p) \<and> drop (m_pos p) (m_arg p) = cs"

lemma drop_prefix_shift: "drop n s = t @ rest \<Longrightarrow> drop (n + length t) s = rest"
  by (metis add.commute append_eq_conv_conj drop_drop)

lemma parse_bracketed:
  assumes ok: "item_ok it" and mode: "m_mode p = ModeNone" and esc: "m_escapeChars p = []"
    and d: "drop (m_pos p) (m_arg p) = item_open it # item_text it @ item_close it # rest"
  shows "parse_loop p = parse_loop (p\<lparr>m_start := Some (m_pos p + 1),
     m_currentFilter := m_currentFilter p @ [item_pattern (m_exclusion p, it)],
     m_exclusion := False, m_mode := ModeNone, m_pos := m_pos p + length (item_text it) + 2\<rparr>)"
proof -
  let ?t = "item_text it" and ?i = "m_pos p"
  obtain c t where t: "?t = c # t" using ok by (cases ?t) (auto simp: item_ok_def)
  have cl: "item_close it \<notin> set t" using ok t by (auto simp: item_ok_def)
  have d1: "drop (?i + 1) (m_arg p) = ?t @ item_close it # rest"
    using drop_prefix_shift [of ?i "m_arg p" "[item_open it]"] d by simp
  have d2: "drop (?i + 2) (m_arg p) = t @ item_close it # rest"
    using drop_prefix_shift [of "?i + 1" "m_arg p" "[c]"] d1 t by simp
  have d3: "drop (?i + 2 + length t) (m_arg p) = item_close it # rest"
    using drop_prefix_shift [OF d2] .
  let ?p1 = "p\<lparr>m_mode := item_mode it, m_start := Some (?i + 1), m_pos := ?i + 1\<rparr>"
  have v1: "visitChar (item_open it) p = Some ?p1"
    using mode by (cases it) (simp_all add: visitChar_def startNewMode_def)
  let ?p2 = "?p1\<lparr>m_pos := ?i + 2\<rparr>" and ?p3 = "?p1\<lparr>m_pos := ?i + 2 + length t\<rparr>"
  have "parse_loop p = parse_loop ?p2" using parse_loop_step [OF d v1] by simp
  also have "\<dots> = parse_loop ?p3"
    using parse_loop_skip [of ?p2 it t "item_close it # rest"] d2 cl by simp
  finally have a: "parse_loop p = parse_loop ?p3" .
  have "str_substr (m_arg p) (?i + 1) (length ?t) = Some ?t"
  proof -
    have "?i + 1 \<le> length (m_arg p)"
      using d by (metis Suc_eq_plus1 drop_eq_Nil list.distinct(1) not_less_eq_eq)
    then show ?thesis using d1 by (simp add: str_substr_def)
  qed
  then have "addPattern (item_new it) ?p3 = Some (?p3\<lparr>m_currentFilter := m_currentFilter p @ [item_pattern (m_exclusion p, it)],
            m_exclusion := False, m_mode := ModeNone\<rparr>)"
    using addPattern_token [of ?p3 "?i + 1" ?t "item_new it"] esc ok t
    by (simp add: item_ok_def item_pattern_def)
  then have v3: "visitChar (item_close it) ?p3 = Some (?p3\<lparr>m_currentFilter := m_currentFilter p @ [item_pattern (m_exclusion p, it)],
            m_exclusion := False, m_mode := ModeNone\<rparr>)"
    by (cases it) (simp_all add: visitChar_def visit_mode_def)
  have "parse_loop ?p3 = parse_loop (?p3\<lparr>m_currentFilter := m_currentFilter p @ [item_pattern (m_exclusion p, it)],
            m_exclusion := False, m_mode := ModeNone, m_pos := ?i + 2 + length t + 1\<rparr>)"
    using parse_loop_step [of ?p3 _ _, OF _ v3] d3 by simp
  with a t show ?thesis by simp
qed

text \<open>What the parser has collected after an item, a filter and a list of filters.\<close>

definition parsed :: "TestSpecParser \<Rightarrow> string \<Rightarrow> Filter \<Rightarrow> TestSpec \<Rightarrow> bool" where
  "parsed p cs f ts \<longleftrightarrow> m_mode p = ModeNone \<and> \<not> m_exclusion p \<and> m_escapeChars p = [] \<and>
     drop (m_pos p) (m_arg p) = cs \<and> m_pos p \<le> length (m_arg p) \<and> m_currentFilter p = f \<and> m_testSpec p = ts"

lemma parse_item:
  assumes ok: "item_ok (snd i)" and p: "parsed p (print_item i @ rest) f ts"
  shows "\<exists>q. parse_loop p = parse_loop q \<and> parsed q rest (f @ [item_pattern i]) ts"
proof -
  let ?it = "snd i"
  let ?b = "item_open ?it # item_text ?it @ item_close ?it # rest"
  have "\<exists>p'. parse_loop p = parse_loop p' \<and> m_mode p' = ModeNone \<and> m_escapeChars p' = [] \<and>
      m_exclusion p' = fst i \<and> drop (m_pos p') (m_arg p') = ?b \<and> m_currentFilter p' = f \<and> m_testSpec p' = ts"
  proof (cases "fst i")
    case True
    have d: "drop (m_pos p) (m_arg p) = CHR ''~'' # ?b" using p True by (simp add: parsed_def print_item_def)
    have "visitChar CHR ''~'' p = Some (p\<lparr>m_exclusion := True\<rparr>)"
      using p by (simp add: visitChar_def parsed_def)
    note s = parse_loop_step [OF d this]
    moreover have "drop (m_pos p + 1) (m_arg p) = ?b"
      using drop_prefix_shift [of "m_pos p" "m_arg p" "''~''"] d by simp
    ultimately show ?thesis
      using p True by (intro exI [of _ "p\<lparr>m_exclusion := True, m_pos := m_pos p + 1\<rparr>"]) (simp add: parsed_def)
  next
    case False
    with p show ?thesis by (intro exI [of _ p]) (simp add: parsed_def print_item_def)
  qed
  then obtain p' where p': "parse_loop p = parse_loop p'" "m_mode p' = ModeNone" "m_escapeChars p' = []"
    "m_exclusion p' = fst i" "drop (m_pos p') (m_arg p') = ?b" "m_currentFilter p' = f" "m_testSpec p' = ts"
    by blast
  let ?q = "p'\<lparr>m_start := Some (m_pos p' + 1),
     m_currentFilter := m_currentFilter p' @ [item_pattern (m_exclusion p', ?it)],
     m_exclusion := False, m_mode := ModeNone, m_pos := m_pos p' + length (item_text ?it) + 2\<rparr>"
  have "drop (m_pos p' + (length (item_text ?it) + 2)) (m_arg p') = rest"
    using drop_prefix_shift [of "m_pos p'" "m_arg p'" "item_open ?it # item_text ?it @ [item_close ?it]" rest] p'(5)
    by simp
  moreover have "m_pos p' + length (item_text ?it) + 2 \<le> length (m_arg p')"
    using arg_cong [OF p'(5), of length] by simp
  ultimately have "parsed ?q rest (f @ [item_pattern i]) ts"
    using p' by (simp add: parsed_def add.assoc)
  with parse_bracketed [OF ok p'(2,3,5)] p'(1) show ?thesis by metis
qed

lemma parse_items:
  "list_all (\<lambda>i. item_ok (snd i)) is \<Longrightarrow> parsed p (concat (map print_item is) @ rest) f ts \<Longrightarrow>
   \<exists>q. parse_loop p = parse_loop q \<and> parsed q rest (f @ map item_pattern is) ts"
proof (induction "is" arbitrary: p f)
  case Nil
  then show ?case by auto
next
  case (Cons i "is")
  then have ok: "item_ok (snd i)" and oks: "list_all (\<lambda>i. item_ok (snd i)) is" by simp_all
  have "parsed p (print_item i @ concat (map print_item is) @ rest) f ts" using Cons.prems(2) by simp
  from parse_item [OF ok this] obtain q where
    q: "parse_loop p = parse_loop q" "parsed q (concat (map print_item is) @ rest) (f @ [item_pattern i]) ts"
    by blast
  from Cons.IH [OF oks q(2)] q(1) show ?case by auto
qed

lemma parse_comma:
  assumes "parsed p (CHR '','' # rest) f ts" "f \<noteq> []"
  shows "\<exists>q. parse_loop p = parse_loop q \<and> parsed q rest [] (ts @ [f])"
proof -
  have d: "drop (m_pos p) (m_arg p) = CHR '','' # rest" and f: "m_currentFilter p = f" "m_testSpec p = ts"
    and m: "m_mode p = ModeNone" "\<not> m_exclusion p" "m_escapeChars p = []" "m_pos p \<le> length (m_arg p)"
    using assms(1) by (simp_all add: parsed_def)
  have lt: "m_pos p < length (m_arg p)" using d by (metis drop_eq_Nil list.distinct(1) not_le)
  let ?n = "startNewMode ModeName (m_pos p) p"
  have add: "addPattern NamePattern_new ?n = Some (?n\<lparr>m_escapeChars := [], m_exclusion := False, m_mode := ModeNone\<rparr>)"
    using m by (simp add: addPattern_def subString_def str_substr_def startNewMode_def startsWith_def)
  let ?q = "?n\<lparr>m_escapeChars := [], m_exclusion := False, m_mode := ModeNone, m_testSpec := ts @ [f], m_currentFilter := []\<rparr>"
  have "visitChar CHR '','' p = Some ?q"
    using m add f assms(2) by (simp add: visitChar_def visit_mode_def addFilter_def startNewMode_def)
  from parse_loop_step [OF d this] have "parse_loop p = parse_loop (?q\<lparr>m_pos := m_pos p + 1\<rparr>)"
    by (simp add: startNewMode_def)
  moreover have "parsed (?q\<lparr>m_pos := m_pos p + 1\<rparr>) rest [] (ts @ [f])"
    using drop_prefix_shift [of "m_pos p" "m_arg p" "'',''" rest] d lt
    by (simp add: parsed_def startNewMode_def)
  ultimately show ?thesis by blast
qed

lemma parse_spec:
  "spec_ok fs \<Longrightarrow> fs \<noteq> [] \<Longrightarrow> parsed p (print_spec fs) [] ts \<Longrightarrow>
   \<exists>q. parse_loop p = parse_loop q \<and>
       parsed q [] (map item_pattern (last fs)) (ts @ map (map item_pattern) (butlast fs))"
proof (induction fs arbitrary: p ts)
  case (Cons f fs)
  then have f: "f \<noteq> []" "list_all (\<lambda>i. item_ok (snd i)) f" and fs: "spec_ok fs" by (simp_all add: spec_ok_def)
  show ?case
  proof (cases "fs = []")
    case True
    then have "parsed p (concat (map print_item f) @ []) [] ts"
      using Cons.prems(3) by (simp add: print_spec_def)
    from parse_items [OF f(2) this] True show ?thesis by simp
  next
    case False
    then have "parsed p (concat (map print_item f) @ CHR '','' # print_spec fs) [] ts"
      using Cons.prems(3) by (cases fs) (simp_all add: print_spec_def)
    from parse_items [OF f(2) this] obtain q where
      q: "parse_loop p = parse_loop q" "parsed q (CHR '','' # print_spec fs) (map item_pattern f) ts" by auto
    from parse_comma [OF q(2)] f(1) obtain r where
      r: "parse_loop q = parse_loop r" "parsed r (print_spec fs) [] (ts @ [map item_pattern f])" by auto
    from Cons.IH [OF fs False r(2)] False q(1) r(1) show ?thesis by auto
  qed
qed simp

lemma parse_printed:
  assumes "spec_ok fs" "expand (print_spec fs) = print_spec fs"
  shows "parseTestSpec expand (print_spec fs) = Some (map (map item_pattern) fs)"
proof (cases "fs = []")
  case True
  then show ?thesis
    using assms(2) by (simp add: parseTestSpec_def TestSpecParser_parse_def print_spec_def parse_loop.simps
        TestSpecParser_new_def parser_testSpec_def addFilter_def)
next
  case False
  let ?p = "TestSpecParser_new\<lparr>m_mode := ModeNone, m_exclusion := False, m_start := None,
      m_arg := print_spec fs, m_escapeChars := [], m_pos := 0\<rparr>"
  have "parsed ?p (print_spec fs) [] []" by (simp add: parsed_def TestSpecParser_new_def)
  from parse_spec [OF assms(1) False this] obtain q where
    q: "parse_loop ?p = parse_loop q" "parsed q [] (map item_pattern (last fs)) (map (map item_pattern) (butlast fs))"
    by auto
  have "parse_loop q = Some q"
    using q(2) by (subst parse_loop.simps) (auto simp: parsed_def)
  then have "TestSpecParser_parse expand (print_spec fs) TestSpecParser_new = Some q"
    using q assms(2) by (simp add: TestSpecParser_parse_def Let_def parsed_def)
  moreover have "last fs \<noteq> []"
    using assms(1) False last_in_set [OF False] by (auto simp: spec_ok_def list_all_iff)
  ultimately have "parseTestSpec expand (print_spec fs) =
      Some (map (map item_pattern) (butlast fs) @ [map item_pattern (last fs)])"
    using q(2) by (simp add: parseTestSpec_def parser_testSpec_def addFilter_def parsed_def)
  also have "map (map item_pattern) (butlast fs) @ [map item_pattern (last fs)] = map (map item_pattern) (butlast fs @ [last fs])"
    by simp
  finally show ?thesis unfolding append_butlast_last_id [OF False] .
qed

section \<open>Selecting tests\<close>

definition item_holds :: "bool \<times> spec_item \<Rightarrow> 'a TestCaseInfo_scheme \<Rightarrow> bool" where
  "item_holds i tc \<longleftrightarrow> (fst i \<noteq> (case snd i of
      SpecName n \<Rightarrow> WildcardPattern_matches (WildcardPattern_new n CaseNo) (name tc)
    | SpecTag t \<Rightarrow> toLower t \<in> set (lcaseTags tc)))"

lemma toLowerCh_idem [simp]: "toLowerCh (toLowerCh c) = toLowerCh c"
proof (cases "65 \<le> (of_char c :: nat) \<and> of_char c \<le> (90 :: nat)")
  case True
  then have "of_char (char_of (of_char c + 32 :: nat)) = (of_char c + 32 :: nat)" by simp
  with True show ?thesis by (simp add: toLowerCh_def Let_def)
qed (auto simp: toLowerCh_def Let_def)

lemma toLower_idem [simp]: "toLower (toLower s) = toLower s"
  by (simp add: toLower_def toLowerInPlace_def)

lemma m_caseSensitivity_new [simp]: "m_caseSensitivity (WildcardPattern_new s cs) = cs"
  by (simp add: WildcardPattern_new_def Let_def)

lemma WildcardPattern_lower [simp]:
  "WildcardPattern_new (toLower s) CaseNo = WildcardPattern_new s CaseNo"
  "WildcardPattern_matches (WildcardPattern_new s CaseNo) (toLower t) = WildcardPattern_matches (WildcardPattern_new s CaseNo) t"
  by (simp add: WildcardPattern_new_def adjustCase_def)
    (simp add: WildcardPattern_matches_def adjustCase_def)

lemma item_pattern_matches: "Pattern_matches (item_pattern i) tc \<longleftrightarrow> item_holds i tc"
  by (cases i; cases "snd i")
    (auto simp: item_pattern_def item_holds_def Let_def NamePattern_new_def TagPattern_new_def)

text \<open>
  C20: a specification printed with quoted names, bracketed tags, \<open>~\<close> for exclusion and commas
  between filters is read back, whatever aliases are registered, and a test case matches it exactly
  when it satisfies every item of one of its filters.
\<close>

theorem parsed_spec_selects:
  assumes "aliases_ok r" "spec_ok fs" "\<not> contains (print_spec fs) ''[@''"
  shows "\<exists>ts. parseTestSpec (expandAliases r) (print_spec fs) = Some ts \<and>
     (hasFilters ts \<longleftrightarrow> fs \<noteq> []) \<and>
     (\<forall>tc :: TestCase. TestSpec_matches ts tc = (\<exists>f \<in> set fs. \<not> (\<exists>i \<in> set f. \<not> item_holds i tc)))"
proof -
  have "parseTestSpec (expandAliases r) (print_spec fs) = Some (map (map item_pattern) fs)"
    using assms(2) tags.expand_plain [OF assms(1,3)] by (rule parse_printed)
  then show ?thesis
    by (simp add: hasFilters_def TestSpec_matches_def Filter_matches_def item_pattern_matches)
qed

definition sample_spec :: spec where
  "sample_spec = [[(False, SpecName ''put*''), (True, SpecTag ''slow'')], [(False, SpecTag ''Get'')]]"

theorem parsed_spec_selects_witness:
  "\<exists>ts. parseTestSpec (expandAliases []) (print_spec sample_spec) = Some ts \<and>
     (hasFilters ts \<longleftrightarrow> sample_spec \<noteq> []) \<and>
     (\<forall>tc :: TestCase. TestSpec_matches ts tc = (\<exists>f \<in> set sample_spec. \<not> (\<exists>i \<in> set f. \<not> item_holds i tc)))"
proof (rule parsed_spec_selects)
  show "aliases_ok []" by (rule tags.ok_empty)
  show "spec_ok sample_spec" by code_simp
  show "\<not> contains (print_spec sample_spec) ''[@''" by code_simp
qed

end
