(* ===== verification/CatchRegistry.thy ===== *)
theory CatchRegistry
  imports CatchTestSpec
begin

text \<open>
  The registries of the unit test framework (\<open>native/src/catch.hpp\<close>): the
  test registry with its cached order, duplicate detection and filtering
  (\<open>catch_test_case_registry_impl\<close>), the enumeration names
  (\<open>catch_enum_values_registry\<close>), the reporter registry, and the registry
  hub with the registrars that run before \<open>main\<close> and keep exceptions for
  later.  \<open>std::shuffle\<close> and the seeding of \<open>std::mt19937\<close> are the
  arguments \<open>shuffle\<close> and \<open>seed\<close>; the generator state is passed along.
\<close>

section \<open>Sorting and filtering\<close>

definition seedRng :: "(u32 \<Rightarrow> 'g) \<Rightarrow> Config \<Rightarrow> 'g \<Rightarrow> 'g" where
  "seedRng seed cfg g = (if rngSeed (cfg_data cfg) \<noteq> 0 then seed (rngSeed (cfg_data cfg)) else g)"

text \<open>The order of equal names is left open by \<open>std::sort\<close>; names are distinct where it is used.\<close>

definition sortTests ::
  "('g \<Rightarrow> TestCase list \<Rightarrow> TestCase list \<times> 'g) \<Rightarrow> (u32 \<Rightarrow> 'g) \<Rightarrow> Config \<Rightarrow> 'g \<Rightarrow> TestCase list \<Rightarrow> TestCase list \<times> 'g" where
  "sortTests shuffle seed cfg g unsorted =
     (case runOrder (cfg_data cfg) of
        InLexicographicalOrder \<Rightarrow> (sort_key name unsorted, g)
      | InRandomOrder \<Rightarrow> shuffle (seedRng seed cfg g) unsorted
      | InDeclarationOrder \<Rightarrow> (unsorted, g))"

definition matchTest :: "TestCase \<Rightarrow> TestSpec \<Rightarrow> Config \<Rightarrow> bool" where
  "matchTest tc spec cfg \<longleftrightarrow> TestSpec_matches spec tc \<and> (allowThrows cfg \<or> \<not> throws tc)"

text \<open>The set of seen test cases is ordered, and so compared, by name.\<close>

fun enforce_loop :: "TestCase list \<Rightarrow> TestCase list \<Rightarrow> catch_error + unit" where
  "enforce_loop seen [] = Inr ()"
| "enforce_loop seen (f # fs) =
     (case find (\<lambda>s. name s = name f) seen of
        Some prev \<Rightarrow> Inl (DuplicateTest (name f) (lineInfo prev) (lineInfo f))
      | None \<Rightarrow> enforce_loop (f # seen) fs)"

definition enforceNoDuplicateTestCases :: "TestCase list \<Rightarrow> catch_error + unit" where
  "enforceNoDuplicateTestCases functions = enforce_loop [] functions"

fun filterTests :: "TestCase list \<Rightarrow> TestSpec \<Rightarrow> Config \<Rightarrow> TestCase list" where
  "filterTests [] spec cfg = []"
| "filterTests (tc # tcs) spec cfg =
     (if (\<not> hasFilters spec \<and> \<not> isHidden tc) \<or> (hasFilters spec \<and> matchTest tc spec cfg)
      then tc # filterTests tcs spec cfg else filterTests tcs spec cfg)"

section \<open>The test registry\<close>

record TestRegistry =
  m_functions :: "TestCase list"
  m_currentSortOrder :: RunOrder
  m_sortedFunctions :: "TestCase list"
  m_unnamedCount :: nat

definition TestRegistry_new :: TestRegistry where
  "TestRegistry_new = \<lparr>m_functions = [], m_currentSortOrder = InDeclarationOrder, m_sortedFunctions = [],
     m_unnamedCount = 0\<rparr>"

text \<open>The recursive call is made with a name that is not empty.\<close>

definition registerTest :: "TestCase \<Rightarrow> TestRegistry \<Rightarrow> TestRegistry" where
  "registerTest tc r =
     (if name tc = []
      then let n = m_unnamedCount r + 1; r = r\<lparr>m_unnamedCount := n\<rparr>;
               tc = withName tc (''Anonymous test case '' @ show_nat n)
           in r\<lparr>m_functions := m_functions r @ [tc]\<rparr>
      else r\<lparr>m_functions := m_functions r @ [tc]\<rparr>)"

definition getAllTests :: "TestRegistry \<Rightarrow> TestCase list" where
  "getAllTests r = m_functions r"

definition getAllTestsSorted ::
  "('g \<Rightarrow> TestCase list \<Rightarrow> TestCase list \<times> 'g) \<Rightarrow> (u32 \<Rightarrow> 'g) \<Rightarrow> Config \<Rightarrow> 'g \<Rightarrow> TestRegistry \<Rightarrow>
     catch_error + (TestCase list \<times> TestRegistry \<times> 'g)" where
  "getAllTestsSorted shuffle seed cfg g r =
     (case (if m_sortedFunctions r = [] then enforceNoDuplicateTestCases (m_functions r) else Inr ()) of
        Inl e \<Rightarrow> Inl e
      | Inr _ \<Rightarrow>
          if m_currentSortOrder r \<noteq> runOrder (cfg_data cfg) \<or> m_sortedFunctions r = []
          then let (sorted, g) = sortTests shuffle seed cfg g (m_functions r);
                   r = r\<lparr>m_sortedFunctions := sorted, m_currentSortOrder := runOrder (cfg_data cfg)\<rparr>
               in Inr (m_sortedFunctions r, r, g)
          else Inr (m_sortedFunctions r, r, g))"

text \<open>
  \<open>rfind\<close> from the end, and from before the last colons; with no colons
  \<open>lastColons - 1\<close> is \<open>npos - 1\<close> and the second search finds nothing either.
\<close>

definition extractClassName :: "string \<Rightarrow> string option" where
  "extractClassName classOrMethod =
     (if startsWith_ch classOrMethod CHR ''&''
      then let lastColons = str_rfind ''::'' classOrMethod (length classOrMethod);
               penultimate = (case lastColons of None \<Rightarrow> None | Some l \<Rightarrow> str_rfind ''::'' classOrMethod (l - 1));
               penultimate = (case penultimate of None \<Rightarrow> 1 | Some p \<Rightarrow> p)
           in (case lastColons of
                 None \<Rightarrow> str_substr_end classOrMethod penultimate
               | Some l \<Rightarrow> str_substr classOrMethod penultimate (l - penultimate))
      else Some classOrMethod)"

section \<open>Names of enumerations\<close>

record EnumInfo =
  ei_name :: string
  m_values :: "(int \<times> string) list"

text \<open>\<open>back()\<close> of an empty vector is undefined, as is a failing assertion.\<close>

fun parse_enum_values :: "string list \<Rightarrow> string list option" where
  "parse_enum_values [] = Some []"
| "parse_enum_values (v # vs) = (let identifiers = splitStringRef v CHR '':'' in
     if identifiers = [] then None
     else do { t \<leftarrow> trim (last identifiers); ts \<leftarrow> parse_enum_values vs; Some (t # ts) })"

definition parseEnums :: "string \<Rightarrow> string list option" where
  "parseEnums enums = parse_enum_values (splitStringRef enums CHR '','')"

fun EnumInfo_lookup_loop :: "(int \<times> string) list \<Rightarrow> int \<Rightarrow> string" where
  "EnumInfo_lookup_loop [] v = ''{** unexpected enum value **}''"
| "EnumInfo_lookup_loop (vn # vs) v = (if fst vn = v then snd vn else EnumInfo_lookup_loop vs v)"

definition EnumInfo_lookup :: "EnumInfo \<Rightarrow> int \<Rightarrow> string" where
  "EnumInfo_lookup e v = EnumInfo_lookup_loop (m_values e) v"

definition makeEnumInfo :: "string \<Rightarrow> string \<Rightarrow> int list \<Rightarrow> EnumInfo option" where
  "makeEnumInfo enumName allValueNames values = do {
     valueNames \<leftarrow> parseEnums allValueNames;
     if length valueNames = length values
     then Some \<lparr>ei_name = enumName, m_values = zip values valueNames\<rparr> else None }"

definition registerEnum :: "string \<Rightarrow> string \<Rightarrow> int list \<Rightarrow> EnumInfo list \<Rightarrow> (EnumInfo \<times> EnumInfo list) option" where
  "registerEnum enumName allValueNames values m_enumInfos =
     map_option (\<lambda>e. (e, m_enumInfos @ [e])) (makeEnumInfo enumName allValueNames values)"

section \<open>Reporters\<close>

text \<open>A factory is a number; \<open>emplace\<close> keeps an entry that is already there.\<close>

record ReporterRegistry =
  m_factories :: "(string \<times> nat) list"
  m_listeners :: "nat list"

definition ReporterRegistry_find :: "string \<Rightarrow> ReporterRegistry \<Rightarrow> nat option" where
  "ReporterRegistry_find nm r = map_of (m_factories r) nm"

definition registerReporter :: "string \<Rightarrow> nat \<Rightarrow> ReporterRegistry \<Rightarrow> ReporterRegistry" where
  "registerReporter nm factory r = r\<lparr>m_factories := map_insert nm factory (m_factories r)\<rparr>"

definition registerListener :: "nat \<Rightarrow> ReporterRegistry \<Rightarrow> ReporterRegistry" where
  "registerListener factory r = r\<lparr>m_listeners := m_listeners r @ [factory]\<rparr>"

section \<open>The registry hub\<close>

record RegistryHub =
  m_testCaseRegistry :: TestRegistry
  m_reporterRegistry :: ReporterRegistry
  m_tagAliasRegistry :: TagAliasRegistry
  m_exceptionRegistry :: "catch_error list"
  m_enumValuesRegistry :: "EnumInfo list"

definition RegistryHub_new :: RegistryHub where
  "RegistryHub_new = \<lparr>m_testCaseRegistry = TestRegistry_new,
     m_reporterRegistry = \<lparr>m_factories = [], m_listeners = []\<rparr>, m_tagAliasRegistry = [],
     m_exceptionRegistry = [], m_enumValuesRegistry = []\<rparr>"

definition hub_registerReporter :: "string \<Rightarrow> nat \<Rightarrow> RegistryHub \<Rightarrow> RegistryHub" where
  "hub_registerReporter nm f h = h\<lparr>m_reporterRegistry := registerReporter nm f (m_reporterRegistry h)\<rparr>"

definition hub_registerListener :: "nat \<Rightarrow> RegistryHub \<Rightarrow> RegistryHub" where
  "hub_registerListener f h = h\<lparr>m_reporterRegistry := registerListener f (m_reporterRegistry h)\<rparr>"

definition hub_registerTest :: "TestCase \<Rightarrow> RegistryHub \<Rightarrow> RegistryHub" where
  "hub_registerTest tc h = h\<lparr>m_testCaseRegistry := registerTest tc (m_testCaseRegistry h)\<rparr>"

definition hub_registerTagAlias ::
  "string \<Rightarrow> string \<Rightarrow> SourceLineInfo \<Rightarrow> RegistryHub \<Rightarrow> catch_error + RegistryHub" where
  "hub_registerTagAlias alias tag li h =
     (case TagAlias_add (m_tagAliasRegistry h) alias tag li of
        Inl e \<Rightarrow> Inl e | Inr r \<Rightarrow> Inr (h\<lparr>m_tagAliasRegistry := r\<rparr>))"

definition hub_registerStartupException :: "catch_error \<Rightarrow> RegistryHub \<Rightarrow> RegistryHub" where
  "hub_registerStartupException e h = h\<lparr>m_exceptionRegistry := m_exceptionRegistry h @ [e]\<rparr>"

definition RegistrarForTagAliases :: "string \<Rightarrow> string \<Rightarrow> SourceLineInfo \<Rightarrow> RegistryHub \<Rightarrow> RegistryHub" where
  "RegistrarForTagAliases alias tag li h =
     (case hub_registerTagAlias alias tag li h of Inr h \<Rightarrow> h | Inl e \<Rightarrow> hub_registerStartupException e h)"

definition AutoReg :: "nat \<Rightarrow> SourceLineInfo \<Rightarrow> string \<Rightarrow> NameAndTags \<Rightarrow> RegistryHub \<Rightarrow> RegistryHub" where
  "AutoReg invoker li classOrMethod nt h =
     (case (case extractClassName classOrMethod of
              None \<Rightarrow> Inl OutOfRange | Some cn \<Rightarrow> makeTestCase invoker cn nt li) of
        Inr tc \<Rightarrow> hub_registerTest tc h
      | Inl e \<Rightarrow> hub_registerStartupException e h)"

section \<open>Duplicates and order\<close>

lemma enforce_loop_iff:
  "enforce_loop seen fs = Inr () \<longleftrightarrow> distinct (map name fs) \<and> name ` set fs \<inter> name ` set seen = {}"
proof (induction fs arbitrary: seen)
  case (Cons f fs)
  show ?case
  proof (cases "find (\<lambda>s. name s = name f) seen")
    case None
    then have "name f \<notin> name ` set seen" by (force simp: find_None_iff)
    with None Cons show ?thesis by auto
  next
    case (Some s)
    then have "s \<in> set seen" "name s = name f" by (auto simp: find_Some_iff)
    then have "name f \<in> name ` set seen" by (metis image_eqI)
    with Some show ?thesis by auto
  qed
qed simp

lemma enforce_iff: "enforceNoDuplicateTestCases fs = Inr () \<longleftrightarrow> distinct (map name fs)"
  by (simp add: enforceNoDuplicateTestCases_def enforce_loop_iff)

lemma filterTests_eq:
  "filterTests tcs spec cfg = filter (\<lambda>tc. if hasFilters spec then matchTest tc spec cfg else \<not> isHidden tc) tcs"
  by (induction tcs) auto

text \<open>The cached order is empty or an ordering of everything registered.\<close>

definition registry_ok :: "TestRegistry \<Rightarrow> bool" where
  "registry_ok r \<longleftrightarrow> m_sortedFunctions r = [] \<or>
     (distinct (map name (m_functions r)) \<and> mset (m_sortedFunctions r) = mset (m_functions r) \<and>
      (m_currentSortOrder r = InLexicographicalOrder \<longrightarrow> sorted (map name (m_sortedFunctions r))) \<and>
      (m_currentSortOrder r = InDeclarationOrder \<longrightarrow> m_sortedFunctions r = m_functions r))"

lemma sortTests_ordered:
  assumes "\<And>g xs. mset (fst (shuffle g xs)) = mset xs" "sortTests shuffle seed cfg g fs = (ts, g')"
  shows "mset ts = mset fs" "runOrder (cfg_data cfg) = InLexicographicalOrder \<Longrightarrow> sorted (map name ts)"
    "runOrder (cfg_data cfg) = InDeclarationOrder \<Longrightarrow> ts = fs"
proof -
  show "mset ts = mset fs"
    using assms(1) [of "seedRng seed cfg g" fs] assms(2) by (auto simp: sortTests_def split: RunOrder.splits)
  show "runOrder (cfg_data cfg) = InLexicographicalOrder \<Longrightarrow> sorted (map name ts)"
    "runOrder (cfg_data cfg) = InDeclarationOrder \<Longrightarrow> ts = fs"
    using assms(2) by (auto simp: sortTests_def)
qed

text \<open>The listing of a consistent registry, and that it stays consistent.\<close>

lemma getAllTestsSorted_ok:
  assumes perm: "\<And>g xs. mset (fst (shuffle g xs)) = mset xs" and ok: "registry_ok r"
  shows "case getAllTestsSorted shuffle seed cfg g r of
      Inl e \<Rightarrow> \<not> distinct (map name (m_functions r))
    | Inr (ts, r', g') \<Rightarrow> distinct (map name (m_functions r)) \<and> mset ts = mset (m_functions r) \<and>
        (runOrder (cfg_data cfg) = InLexicographicalOrder \<longrightarrow> sorted (map name ts)) \<and>
        (runOrder (cfg_data cfg) = InDeclarationOrder \<longrightarrow> ts = m_functions r) \<and>
        m_functions r' = m_functions r \<and> registry_ok r' \<and>
        (ts \<noteq> [] \<longrightarrow> getAllTestsSorted shuffle seed cfg g' r' = Inr (ts, r', g'))"
proof (cases "m_sortedFunctions r = [] \<and> \<not> distinct (map name (m_functions r))")
  case True
  then show ?thesis
    using enforce_iff [of "m_functions r"] by (auto simp: getAllTestsSorted_def split: sum.splits)
next
  case False
  then have d: "distinct (map name (m_functions r))" using ok by (auto simp: registry_ok_def)
  then have e: "enforceNoDuplicateTestCases (m_functions r) = Inr ()" by (simp add: enforce_iff)
  obtain ts g' where s: "sortTests shuffle seed cfg g (m_functions r) = (ts, g')" by fastforce
  note so = sortTests_ordered [OF perm s]
  show ?thesis
  proof (cases "m_currentSortOrder r \<noteq> runOrder (cfg_data cfg) \<or> m_sortedFunctions r = []")
    case True
    then have "getAllTestsSorted shuffle seed cfg g r =
        Inr (ts, r\<lparr>m_sortedFunctions := ts, m_currentSortOrder := runOrder (cfg_data cfg)\<rparr>, g')"
      by (auto simp: getAllTestsSorted_def e s Let_def)
    then show ?thesis using so d by (auto simp: registry_ok_def getAllTestsSorted_def)
  next
    case False
    then have "getAllTestsSorted shuffle seed cfg g r = Inr (m_sortedFunctions r, r, g)"
      by (simp add: getAllTestsSorted_def)
    then show ?thesis using ok d False by (auto simp: registry_ok_def)
  qed
qed

text \<open>The registered test cases, with the nameless ones numbered.\<close>

fun numbered :: "nat \<Rightarrow> TestCase list \<Rightarrow> TestCase list" where
  "numbered n [] = []"
| "numbered n (tc # tcs) =
     (if name tc = [] then withName tc (''Anonymous test case '' @ show_nat (n + 1)) # numbered (n + 1) tcs
      else tc # numbered n tcs)"

lemma m_functions_fold:
  "m_functions (fold registerTest tcs r) = m_functions r @ numbered (m_unnamedCount r) tcs"
  "m_sortedFunctions (fold registerTest tcs r) = m_sortedFunctions r"
  by (induction tcs arbitrary: r) (simp_all add: registerTest_def Let_def)

text \<open>
  C22: after any registrations the sorted listing fails exactly when two names coincide, nameless
  tests being numbered; otherwise it holds every registered test once, in lexicographical,
  declaration or some shuffled order, and listing again returns the same.
\<close>

theorem registry_lists_all_tests:
  fixes shuffle :: "'g \<Rightarrow> TestCase list \<Rightarrow> TestCase list \<times> 'g"
  assumes "\<And>g xs. mset (fst (shuffle g xs)) = mset xs"
  shows "case getAllTestsSorted shuffle seed cfg g (fold registerTest tcs TestRegistry_new) of
      Inl e \<Rightarrow> \<not> distinct (map name (numbered 0 tcs))
    | Inr (ts, r', g') \<Rightarrow> distinct (map name (numbered 0 tcs)) \<and> mset ts = mset (numbered 0 tcs) \<and>
        (runOrder (cfg_data cfg) = InLexicographicalOrder \<longrightarrow> sorted (map name ts)) \<and>
        (runOrder (cfg_data cfg) = InDeclarationOrder \<longrightarrow> ts = numbered 0 tcs) \<and>
        (ts \<noteq> [] \<longrightarrow> getAllTestsSorted shuffle seed cfg g' r' = Inr (ts, r', g'))"
proof -
  let ?r = "fold registerTest tcs TestRegistry_new"
  have "registry_ok ?r" "m_functions ?r = numbered 0 tcs"
    by (simp_all add: registry_ok_def m_functions_fold TestRegistry_new_def)
  with getAllTestsSorted_ok [where shuffle = shuffle and r = ?r and seed = seed and cfg = cfg and g = g, OF assms] show ?thesis
    by (auto split: sum.splits)
qed

definition sample_tests :: "TestCase list" where
  "sample_tests = (let li = \<lparr>sl_file = ''t.cpp'', sl_line = 7\<rparr> in
     map (\<lambda>n. TestCase_new 1 (TestCaseInfo_new n [] [] [''fast''] li)) [''put'', [], ''get''])"

definition sample_config :: Config where
  "sample_config = \<lparr>cfg_data = ConfigData_new\<lparr>runOrder := InLexicographicalOrder\<rparr>, cfg_stream = CoutStream, cfg_testSpec = [], m_hasTestFilters = False\<rparr>"

theorem registry_lists_all_tests_witness:
  "case getAllTestsSorted (\<lambda>g xs. (rev xs, g)) (\<lambda>_. ()) sample_config () (fold registerTest sample_tests TestRegistry_new) of
     Inl e \<Rightarrow> False
   | Inr (ts, r', g') \<Rightarrow> mset ts = mset (numbered 0 sample_tests) \<and> sorted (map name ts)"
proof -
  have "distinct (map name (numbered 0 sample_tests))" by code_simp
  moreover have "runOrder (cfg_data sample_config) = InLexicographicalOrder" by code_simp
  ultimately show ?thesis
    using registry_lists_all_tests [where shuffle = "\<lambda>g xs. (rev xs, g)" and seed = "\<lambda>_. ()" and cfg = sample_config
        and g = "()" and tcs = sample_tests]
    by (auto split: sum.splits)
qed

text \<open>A test registered after the first listing is missing from later listings in the same order.\<close>

lemma late_registration_not_listed:
  assumes "getAllTestsSorted shuffle seed cfg g r = Inr (ts, r', g')" "ts \<noteq> []"
  shows "\<exists>r''. getAllTestsSorted shuffle seed cfg g' (registerTest tc r') = Inr (ts, r'', g')"
  using assms by (auto simp: getAllTestsSorted_def registerTest_def Let_def split: sum.splits if_splits prod.splits)

text \<open>An enumeration with one-letter names cannot be registered: the split drops them.\<close>

lemma one_letter_enum_refused: "makeEnumInfo ''Grade'' ''A,B'' [0, 1] = None"
  by code_simp

lemma lookup_registered:
  assumes "makeEnumInfo nm names vs = Some e" "distinct vs" "parseEnums names = Some ns" "i < length vs"
  shows "EnumInfo_lookup e (vs ! i) = ns ! i"
proof -
  have l: "distinct ks \<Longrightarrow> length ks = length xs \<Longrightarrow> j < length ks \<Longrightarrow> EnumInfo_lookup_loop (zip ks xs) (ks ! j) = xs ! j"
    for ks :: "int list" and xs j
    by (induction ks xs arbitrary: j rule: list_induct2') (auto simp: nth_Cons split: nat.splits)
  from assms show ?thesis by (auto simp: makeEnumInfo_def EnumInfo_lookup_def l split: if_splits)
qed

section \<open>Registration before \<open>main\<close>\<close>

text \<open>No registrar throws: what went wrong is kept, and the alias registry stays well formed.\<close>

lemma AutoReg_result:
  "extractClassName com = Some cn \<Longrightarrow>
   AutoReg i li com nt h = (case makeTestCase i cn nt li of
      Inr tc \<Rightarrow> hub_registerTest tc h | Inl e \<Rightarrow> hub_registerStartupException e h)"
  by (simp add: AutoReg_def)

lemma aliases_ok_registrar:
  "aliases_ok (m_tagAliasRegistry h) \<Longrightarrow> aliases_ok (m_tagAliasRegistry (RegistrarForTagAliases a t li h))"
  by (auto simp: RegistrarForTagAliases_def hub_registerTagAlias_def hub_registerStartupException_def
      intro: tags.ok_add split: sum.splits)

end
