(* ===== verification/CatchTracker.thy ===== *)
theory CatchTracker
  imports CatchTestCase
begin

text \<open>
  The section tracker of the unit test framework
  (\<open>native/src/catch.hpp\<close>, \<open>catch_test_case_tracker\<close>), which decides which
  sections of a test case run in which cycle.  The trackers form a tree owned by
  its root, so a tracker pointer is the path of child indices that leads to it
  and the parent of a tracker is the path without its last index.  \<open>None\<close>
  stands for a failing assertion, an internal error or a null pointer
  dereference; a loop that does not end is \<open>None\<close> as well.  The generator of a
  generator tracker is user code: \<open>next_item\<close> advances it.
\<close>

section \<open>Trackers\<close>

record NameAndLocation =
  nl_name :: string
  nl_location :: SourceLineInfo

datatype CycleState =
  NotStarted | Executing | ExecutingChildren | NeedsAnotherRun | CompletedSuccessfully | Failed

datatype 'g tracker_kind = SectionTracker "string list" | GeneratorTracker "'g option"

datatype 'g tracker =
  Tracker (t_nameAndLocation: NameAndLocation) (t_kind: "'g tracker_kind")
    (t_runState: CycleState) (t_children: "'g tracker list")

datatype RunState = RunNotStarted | RunExecuting | CompletedCycle

type_synonym path = "nat list"

record 'g TrackerContext =
  m_rootTracker :: "'g tracker option"
  m_currentTracker :: "path option"
  m_ctxState :: RunState

fun get_tracker :: "path \<Rightarrow> 'g tracker \<Rightarrow> 'g tracker option" where
  "get_tracker [] t = Some t"
| "get_tracker (i # p) t = (if i < length (t_children t) then get_tracker p (t_children t ! i) else None)"

fun upd_tracker :: "path \<Rightarrow> ('g tracker \<Rightarrow> 'g tracker) \<Rightarrow> 'g tracker \<Rightarrow> 'g tracker" where
  "upd_tracker [] f t = f t"
| "upd_tracker (i # p) f (Tracker n k s ch) =
     Tracker n k s (if i < length ch then ch[i := upd_tracker p f (ch ! i)] else ch)"

definition tracker_at :: "path \<Rightarrow> 'g TrackerContext \<Rightarrow> 'g tracker option" where
  "tracker_at p c = do { root \<leftarrow> m_rootTracker c; get_tracker p root }"

definition update_at :: "path \<Rightarrow> ('g tracker \<Rightarrow> 'g tracker) \<Rightarrow> 'g TrackerContext \<Rightarrow> 'g TrackerContext" where
  "update_at p f c = c\<lparr>m_rootTracker := map_option (upd_tracker p f) (m_rootTracker c)\<rparr>"

fun with_state :: "CycleState \<Rightarrow> 'g tracker \<Rightarrow> 'g tracker" where
  "with_state s (Tracker n k _ ch) = Tracker n k s ch"

section \<open>The tracker context\<close>

definition startRun :: "SourceLineInfo \<Rightarrow> 'g TrackerContext \<Rightarrow> 'g TrackerContext" where
  "startRun here c =
     c\<lparr>m_rootTracker := Some (Tracker \<lparr>nl_name = ''{root}'', nl_location = here\<rparr> (SectionTracker []) NotStarted []),
       m_currentTracker := None, m_ctxState := RunExecuting\<rparr>"

definition endRun :: "'g TrackerContext \<Rightarrow> 'g TrackerContext" where
  "endRun c = c\<lparr>m_rootTracker := None, m_currentTracker := None, m_ctxState := RunNotStarted\<rparr>"

definition startCycle :: "'g TrackerContext \<Rightarrow> 'g TrackerContext" where
  "startCycle c = c\<lparr>m_currentTracker := map_option (\<lambda>_. []) (m_rootTracker c), m_ctxState := RunExecuting\<rparr>"

definition completeCycle :: "'g TrackerContext \<Rightarrow> 'g TrackerContext" where
  "completeCycle c = c\<lparr>m_ctxState := CompletedCycle\<rparr>"

definition completedCycle :: "'g TrackerContext \<Rightarrow> bool" where
  "completedCycle c \<longleftrightarrow> m_ctxState c = CompletedCycle"

definition setCurrentTracker :: "path option \<Rightarrow> 'g TrackerContext \<Rightarrow> 'g TrackerContext" where
  "setCurrentTracker t c = c\<lparr>m_currentTracker := t\<rparr>"

section \<open>\<open>TrackerBase\<close>\<close>

definition TrackerBase_isComplete :: "'g tracker \<Rightarrow> bool" where
  "TrackerBase_isComplete t \<longleftrightarrow> t_runState t = CompletedSuccessfully \<or> t_runState t = Failed"

definition isSuccessfullyCompleted :: "'g tracker \<Rightarrow> bool" where
  "isSuccessfullyCompleted t \<longleftrightarrow> t_runState t = CompletedSuccessfully"

definition SectionTracker_isComplete :: "string list \<Rightarrow> 'g tracker \<Rightarrow> bool" where
  "SectionTracker_isComplete m_filters t =
     (if (m_filters = [] \<or> m_filters ! 0 = []) \<or> nl_name (t_nameAndLocation t) \<in> set m_filters
      then TrackerBase_isComplete t else True)"

text \<open>The virtual \<open>isComplete\<close>; \<open>isOpen\<close> calls it as well.\<close>

definition tracker_isComplete :: "'g tracker \<Rightarrow> bool" where
  "tracker_isComplete t = (case t_kind t of
     SectionTracker fs \<Rightarrow> SectionTracker_isComplete fs t | GeneratorTracker _ \<Rightarrow> TrackerBase_isComplete t)"

definition isOpen :: "'g tracker \<Rightarrow> bool" where
  "isOpen t \<longleftrightarrow> t_runState t \<noteq> NotStarted \<and> \<not> tracker_isComplete t"

definition hasChildren :: "'g tracker \<Rightarrow> bool" where
  "hasChildren t \<longleftrightarrow> t_children t \<noteq> []"

fun addChild :: "'g tracker \<Rightarrow> 'g tracker \<Rightarrow> 'g tracker" where
  "addChild child (Tracker n k s ch) = Tracker n k s (ch @ [child])"

fun find_child :: "NameAndLocation \<Rightarrow> 'g tracker list \<Rightarrow> nat option" where
  "find_child nl [] = None"
| "find_child nl (t # ts) =
     (if SourceLineInfo_eq (nl_location (t_nameAndLocation t)) (nl_location nl) \<and>
         nl_name (t_nameAndLocation t) = nl_name nl
      then Some 0 else map_option Suc (find_child nl ts))"

definition findChild :: "NameAndLocation \<Rightarrow> 'g tracker \<Rightarrow> nat option" where
  "findChild nl t = find_child nl (t_children t)"

function openChild :: "path \<Rightarrow> 'g TrackerContext \<Rightarrow> 'g TrackerContext option" where
  "openChild p c = (case tracker_at p c of
     None \<Rightarrow> None
   | Some t \<Rightarrow>
       if t_runState t \<noteq> ExecutingChildren
       then let c = update_at p (with_state ExecutingChildren) c
            in if p \<noteq> [] then openChild (butlast p) c else Some c
       else Some c)"
  by auto
termination by (relation "measure (length \<circ> fst)") auto

declare openChild.simps [simp del]

definition moveToParent :: "path \<Rightarrow> 'g TrackerContext \<Rightarrow> 'g TrackerContext option" where
  "moveToParent p c = (if p \<noteq> [] then Some (setCurrentTracker (Some (butlast p)) c) else None)"

definition moveToThis :: "path \<Rightarrow> 'g TrackerContext \<Rightarrow> 'g TrackerContext" where
  "moveToThis p c = setCurrentTracker (Some p) c"

definition tracker_open :: "path \<Rightarrow> 'g TrackerContext \<Rightarrow> 'g TrackerContext option" where
  "tracker_open p c =
     (let c = update_at p (with_state Executing) c; c = moveToThis p c
      in if p \<noteq> [] then openChild (butlast p) c else Some c)"

text \<open>The part of \<open>close\<close> after its loop.\<close>

definition close_switch :: "path \<Rightarrow> 'g TrackerContext \<Rightarrow> 'g TrackerContext option" where
  "close_switch p c = do {
     t \<leftarrow> tracker_at p c;
     c \<leftarrow> (case t_runState t of
        NeedsAnotherRun \<Rightarrow> Some c
      | Executing \<Rightarrow> Some (update_at p (with_state CompletedSuccessfully) c)
      | ExecutingChildren \<Rightarrow>
          Some (if t_children t = [] \<or> tracker_isComplete (last (t_children t))
                then update_at p (with_state CompletedSuccessfully) c else c)
      | _ \<Rightarrow> None);
     c \<leftarrow> moveToParent p c;
     Some (completeCycle c) }"

text \<open>The rest of \<open>GeneratorTracker::close\<close>.\<close>

definition generator_close ::
  "('g \<Rightarrow> bool \<times> 'g) \<Rightarrow> path \<Rightarrow> 'g TrackerContext \<Rightarrow> 'g TrackerContext option" where
  "generator_close next_item p c = do {
     t \<leftarrow> tracker_at p c;
     if t_runState t = CompletedSuccessfully
     then (case t_kind t of
        GeneratorTracker (Some g) \<Rightarrow>
          let (more, g) = next_item g;
              s = (if more then Executing else t_runState t);
              ch = (if more then [] else t_children t)
          in Some (update_at p (\<lambda>t. Tracker (t_nameAndLocation t) (GeneratorTracker (Some g)) s ch) c)
      | _ \<Rightarrow> None)
     else Some c }"

text \<open>\<open>close\<close>: the virtual call when \<open>virt\<close>, else \<open>TrackerBase::close\<close>.\<close>

partial_function (option) tracker_close ::
  "('g \<Rightarrow> bool \<times> 'g) \<Rightarrow> bool \<Rightarrow> path \<Rightarrow> 'g TrackerContext \<Rightarrow> 'g TrackerContext option" where
  "tracker_close next_item virt p c = do {
     t \<leftarrow> tracker_at p c;
     if virt \<and> (case t_kind t of GeneratorTracker _ \<Rightarrow> True | SectionTracker _ \<Rightarrow> False)
     then do { c \<leftarrow> tracker_close next_item False p c; generator_close next_item p c }
     else do {
       cur \<leftarrow> m_currentTracker c;
       if cur \<noteq> p then do { c \<leftarrow> tracker_close next_item True cur c; tracker_close next_item False p c }
       else close_switch p c } }"

declare tracker_close.simps [code]

definition markAsNeedingAnotherRun :: "path \<Rightarrow> 'g TrackerContext \<Rightarrow> 'g TrackerContext" where
  "markAsNeedingAnotherRun p c = update_at p (with_state NeedsAnotherRun) c"

definition tracker_fail :: "path \<Rightarrow> 'g TrackerContext \<Rightarrow> 'g TrackerContext option" where
  "tracker_fail p c = do {
     let c = update_at p (with_state Failed) c;
     let c = (if p \<noteq> [] then markAsNeedingAnotherRun (butlast p) c else c);
     c \<leftarrow> moveToParent p c;
     Some (completeCycle c) }"

section \<open>\<open>SectionTracker\<close> and \<open>GeneratorTracker\<close>\<close>

definition addNextFilters :: "string list \<Rightarrow> string list \<Rightarrow> string list" where
  "addNextFilters filters m_filters = (if length filters > 1 then m_filters @ tl filters else m_filters)"

definition addInitialFilters :: "string list \<Rightarrow> 'g tracker \<Rightarrow> 'g tracker" where
  "addInitialFilters filters t = (case t_kind t of
     SectionTracker m_filters \<Rightarrow>
       Tracker (t_nameAndLocation t) (SectionTracker (if filters \<noteq> [] then m_filters @ [[], []] @ filters else m_filters))
         (t_runState t) (t_children t)
   | GeneratorTracker _ \<Rightarrow> t)"

text \<open>The filters of the nearest section at or above a tracker.\<close>

function section_filters :: "path \<Rightarrow> 'g TrackerContext \<Rightarrow> string list option" where
  "section_filters p c = (case tracker_at p c of
     None \<Rightarrow> None
   | Some t \<Rightarrow> (case t_kind t of
        SectionTracker fs \<Rightarrow> Some fs
      | GeneratorTracker _ \<Rightarrow> if p \<noteq> [] then section_filters (butlast p) c else None))"
  by auto
termination by (relation "measure (length \<circ> fst)") auto

declare section_filters.simps [simp del]

definition SectionTracker_new ::
  "NameAndLocation \<Rightarrow> path \<Rightarrow> 'g TrackerContext \<Rightarrow> 'g tracker option" where
  "SectionTracker_new nl parent c =
     map_option (\<lambda>fs. Tracker nl (SectionTracker (addNextFilters fs [])) NotStarted []) (section_filters parent c)"

definition tryOpen :: "path \<Rightarrow> 'g TrackerContext \<Rightarrow> 'g TrackerContext option" where
  "tryOpen p c = do {
     t \<leftarrow> tracker_at p c;
     case t_kind t of
       SectionTracker m_filters \<Rightarrow>
         if \<not> tracker_isComplete t \<and>
            (m_filters = [] \<or> m_filters ! 0 = [] \<or> m_filters ! 0 = nl_name (t_nameAndLocation t))
         then tracker_open p c else Some c
     | GeneratorTracker _ \<Rightarrow> None }"

definition SectionTracker_acquire ::
  "NameAndLocation \<Rightarrow> 'g TrackerContext \<Rightarrow> (path \<times> 'g TrackerContext) option" where
  "SectionTracker_acquire nl c = do {
     cur \<leftarrow> m_currentTracker c;
     t \<leftarrow> tracker_at cur c;
     (p, c) \<leftarrow> (case findChild nl t of
        Some i \<Rightarrow> (case t_kind (t_children t ! i) of
           SectionTracker _ \<Rightarrow> Some (cur @ [i], c) | GeneratorTracker _ \<Rightarrow> None)
      | None \<Rightarrow> do {
          s \<leftarrow> SectionTracker_new nl cur c;
          Some (cur @ [length (t_children t)], update_at cur (addChild s) c) });
     c \<leftarrow> (if \<not> completedCycle c then tryOpen p c else Some c);
     Some (p, c) }"

definition GeneratorTracker_acquire ::
  "NameAndLocation \<Rightarrow> 'g TrackerContext \<Rightarrow> (path \<times> 'g TrackerContext) option" where
  "GeneratorTracker_acquire nl c = do {
     cur \<leftarrow> m_currentTracker c;
     t \<leftarrow> tracker_at cur c;
     (p, c) \<leftarrow> (case findChild nl t of
        Some i \<Rightarrow> (case t_kind (t_children t ! i) of
           GeneratorTracker _ \<Rightarrow> Some (cur @ [i], c) | SectionTracker _ \<Rightarrow> None)
      | None \<Rightarrow> Some (cur @ [length (t_children t)],
                   update_at cur (addChild (Tracker nl (GeneratorTracker None) NotStarted [])) c));
     u \<leftarrow> tracker_at p c;
     c \<leftarrow> (if \<not> completedCycle c \<and> \<not> TrackerBase_isComplete u then tracker_open p c else Some c);
     Some (p, c) }"

definition hasGenerator :: "'g tracker \<Rightarrow> bool" where
  "hasGenerator t = (case t_kind t of GeneratorTracker (Some g) \<Rightarrow> True | _ \<Rightarrow> False)"

definition setGenerator :: "'g \<Rightarrow> path \<Rightarrow> 'g TrackerContext \<Rightarrow> 'g TrackerContext" where
  "setGenerator g p c =
     update_at p (\<lambda>t. Tracker (t_nameAndLocation t) (GeneratorTracker (Some g)) (t_runState t) (t_children t)) c"

section \<open>Paths\<close>

lemma get_tracker_snoc:
  "get_tracker (p @ [i]) r = (case get_tracker p r of
     None \<Rightarrow> None | Some t \<Rightarrow> if i < length (t_children t) then Some (t_children t ! i) else None)"
  by (induction p r rule: get_tracker.induct) auto

lemma get_upd_tracker: "get_tracker p r = Some t \<Longrightarrow> get_tracker p (upd_tracker p f r) = Some (f t)"
  by (induction p f r rule: upd_tracker.induct) (auto split: if_splits)

lemma upd_upd_tracker: "upd_tracker p g (upd_tracker p f r) = upd_tracker p (g \<circ> f) r"
  by (induction p f r rule: upd_tracker.induct) auto

lemma upd_tracker_cong: "get_tracker p r = Some t \<Longrightarrow> f t = g t \<Longrightarrow> upd_tracker p f r = upd_tracker p g r"
  by (induction p f r rule: upd_tracker.induct) (auto split: if_splits)

lemma upd_tracker_id: "get_tracker p r = Some t \<Longrightarrow> f t = t \<Longrightarrow> upd_tracker p f r = r"
  by (induction p f r rule: upd_tracker.induct) (auto split: if_splits)

lemma upd_tracker_snoc:
  "upd_tracker (p @ [i]) f r =
   upd_tracker p (\<lambda>t. Tracker (t_nameAndLocation t) (t_kind t) (t_runState t)
     (if i < length (t_children t) then (t_children t)[i := f (t_children t ! i)] else t_children t)) r"
proof (induction p arbitrary: r)
  case Nil
  show ?case by (cases r) simp
next
  case (Cons j p)
  show ?case by (cases r) (simp add: Cons.IH)
qed

text \<open>Replacing the subtree at a path.\<close>

definition put :: "path \<Rightarrow> 'g tracker \<Rightarrow> 'g tracker \<Rightarrow> 'g tracker" where
  "put p t r = upd_tracker p (\<lambda>_. t) r"

lemma get_put [simp]: "get_tracker p r = Some t \<Longrightarrow> get_tracker p (put p u r) = Some u"
  by (simp add: put_def get_upd_tracker)

lemma put_put [simp]: "put p u (put p t r) = put p u r"
  by (simp add: put_def upd_upd_tracker comp_def)

lemma upd_put: "upd_tracker p f (put p t r) = put p (f t) r"
  by (simp add: put_def upd_upd_tracker comp_def)

lemma upd_as_put: "get_tracker p r = Some t \<Longrightarrow> upd_tracker p f r = put p (f t) r"
  unfolding put_def by (rule upd_tracker_cong, assumption) simp

lemma put_snoc:
  "get_tracker p r = Some (Tracker n k s ch) \<Longrightarrow> i < length ch \<Longrightarrow>
   put (p @ [i]) u r = put p (Tracker n k s (ch[i := u])) r"
  unfolding put_def upd_tracker_snoc by (rule upd_tracker_cong, assumption) simp

text \<open>Every tracker strictly above a path executes children.\<close>

definition above_ok :: "path \<Rightarrow> 'g tracker \<Rightarrow> bool" where
  "above_ok p r \<longleftrightarrow> (\<forall>i < length p. \<exists>t. get_tracker (take i p) r = Some t \<and> t_runState t = ExecutingChildren)"

lemma above_ok_Nil [simp]: "above_ok [] r"
  by (simp add: above_ok_def)

lemma above_ok_snoc:
  "above_ok (p @ [i]) r \<longleftrightarrow>
   above_ok p r \<and> (\<exists>t. get_tracker p r = Some t \<and> t_runState t = ExecutingChildren)"
  by (auto simp: above_ok_def less_Suc_eq)

lemma get_put_take: "i < length p \<Longrightarrow> get_tracker (take i p) r = Some t \<Longrightarrow>
  \<exists>t'. get_tracker (take i p) (put p u r) = Some t' \<and> t_runState t' = t_runState t \<and> t_kind t' = t_kind t"
proof (induction p arbitrary: i r)
  case (Cons j p)
  show ?case
  proof (cases i)
    case 0
    with Cons.prems show ?thesis by (cases t) (simp add: put_def)
  next
    case (Suc k)
    with Cons.prems Cons.IH [of k "t_children r ! j"] show ?thesis
      by (cases r) (auto simp: put_def split: if_splits)
  qed
qed simp

lemma above_ok_put: "above_ok p r \<Longrightarrow> above_ok p (put p u r)"
  unfolding above_ok_def by (metis get_put_take)

end
