(* ===== verification/CatchSections.thy ===== *)
theory CatchSections
  imports CatchTracker
begin

text \<open>
  Running a test case with nested sections.  A test body is a list of section
  trees; each cycle runs the body once, the tracker letting at most one path of
  sections run to a leaf.  The theory shows that the cycles end and run every
  leaf section exactly once, in order.
\<close>

section \<open>Test bodies\<close>

datatype sect = Sect (s_nl: NameAndLocation) (s_subs: "sect list")

text \<open>
  The macro \<open>SECTION\<close>: acquire the tracker, run the body when it is open, and
  close the tracker at the end of the block.  The trace lists the leaf sections
  whose body ran.
\<close>

fun run_sect :: "('g \<Rightarrow> bool \<times> 'g) \<Rightarrow> sect \<Rightarrow> 'g TrackerContext \<times> NameAndLocation list \<Rightarrow>
    ('g TrackerContext \<times> NameAndLocation list) option"
  and run_sects :: "('g \<Rightarrow> bool \<times> 'g) \<Rightarrow> sect list \<Rightarrow> 'g TrackerContext \<times> NameAndLocation list \<Rightarrow>
    ('g TrackerContext \<times> NameAndLocation list) option" where
  "run_sect next_item (Sect nl ss) (c, l) = do {
     (p, c) \<leftarrow> SectionTracker_acquire nl c;
     t \<leftarrow> tracker_at p c;
     if \<not> isOpen t then Some (c, l)
     else do {
       (c, l) \<leftarrow> run_sects next_item ss (c, if ss = [] then l @ [nl] else l);
       c \<leftarrow> tracker_close next_item True p c;
       Some (c, l) } }"
| "run_sects next_item [] cl = Some cl"
| "run_sects next_item (s # ss) cl = do { cl \<leftarrow> run_sect next_item s cl; run_sects next_item ss cl }"

text \<open>
  One cycle of \<open>RunContext::runTest\<close>, and the loop around it, as it is for a test
  function that only opens sections and for a run without \<open>-c\<close> filters: no
  assertion can fail, so the second half of the condition, \<open>!aborting()\<close>, holds.
  The loop with both is \<open>test_cycles\<close> in \<open>CatchRunTest\<close>.
\<close>

definition run_cycle :: "('g \<Rightarrow> bool \<times> 'g) \<Rightarrow> sect \<Rightarrow> 'g TrackerContext \<times> NameAndLocation list \<Rightarrow>
    (path \<times> 'g TrackerContext \<times> NameAndLocation list) option" where
  "run_cycle next_item s cl = do {
     let c = startCycle (fst cl);
     (p, c) \<leftarrow> SectionTracker_acquire (s_nl s) c;
     (c, l) \<leftarrow> run_sects next_item (s_subs s) (c, if s_subs s = [] then snd cl @ [s_nl s] else snd cl);
     c \<leftarrow> tracker_close next_item True p c;
     Some (p, c, l) }"

partial_function (option) run_cycles :: "('g \<Rightarrow> bool \<times> 'g) \<Rightarrow> sect \<Rightarrow> 'g TrackerContext \<times> NameAndLocation list \<Rightarrow>
    ('g TrackerContext \<times> NameAndLocation list) option" where
  "run_cycles next_item s cl = do {
     (p, c, l) \<leftarrow> run_cycle next_item s cl;
     t \<leftarrow> tracker_at p c;
     if isSuccessfullyCompleted t then Some (c, l) else run_cycles next_item s (c, l) }"

declare run_cycles.simps [code]

section \<open>Leaves and progress\<close>

fun leaves :: "sect \<Rightarrow> NameAndLocation list" where
  "leaves (Sect n ss) = (if ss = [] then [n] else concat (map leaves ss))"

fun wf_sect :: "sect \<Rightarrow> bool" where
  "wf_sect (Sect n ss) \<longleftrightarrow> distinct (map s_nl ss) \<and> list_all wf_sect ss"

abbreviation all_leaves :: "sect list \<Rightarrow> NameAndLocation list" where
  "all_leaves ss \<equiv> concat (map leaves ss)"

lemma leaves_pos [simp]: "0 < length (leaves s)"
proof (induction s)
  case (Sect n ss)
  then show ?case by (cases ss) auto
qed

lemma leaves_ne [simp]: "leaves s \<noteq> []"
  using leaves_pos [of s] by auto

text \<open>The tracker of a section after \<open>d\<close> of its leaves ran.\<close>

definition progress_state :: "nat \<Rightarrow> nat \<Rightarrow> CycleState" where
  "progress_state d n = (if d = 0 then NotStarted else if d < n then ExecutingChildren else CompletedSuccessfully)"

fun sect_tr :: "nat \<Rightarrow> sect \<Rightarrow> 'g tracker" and sects_tr :: "nat \<Rightarrow> sect list \<Rightarrow> 'g tracker list" where
  "sect_tr d (Sect n ss) =
     Tracker n (SectionTracker []) (progress_state d (length (leaves (Sect n ss)))) (if d = 0 then [] else sects_tr d ss)"
| "sects_tr d [] = []"
| "sects_tr d (s # ss) = sect_tr (min d (length (leaves s))) s # sects_tr (d - length (leaves s)) ss"

lemma sect_tr_sel [simp]:
  "t_nameAndLocation (sect_tr d s) = s_nl s" "t_kind (sect_tr d s) = SectionTracker []"
  "t_runState (sect_tr d s) = progress_state d (length (leaves s))"
  "t_children (sect_tr d s) = (if d = 0 then [] else sects_tr d (s_subs s))"
  by (cases s, simp)+

lemma sects_tr_names [simp]: "map t_nameAndLocation (sects_tr d ss) = map s_nl ss"
  by (induction ss arbitrary: d) auto

lemma sects_tr_length [simp]: "length (sects_tr d ss) = length ss"
  by (induction ss arbitrary: d) auto

lemma isComplete_plain [simp]:
  "tracker_isComplete (Tracker n (SectionTracker []) s ch) \<longleftrightarrow> s = CompletedSuccessfully \<or> s = Failed"
  by (simp add: tracker_isComplete_def SectionTracker_isComplete_def TrackerBase_isComplete_def)

lemma isOpen_plain [simp]:
  "isOpen (Tracker n (SectionTracker []) s ch) \<longleftrightarrow> s \<notin> {NotStarted, CompletedSuccessfully, Failed}"
  by (auto simp: isOpen_def)

lemma isComplete_sect_tr: "tracker_isComplete (sect_tr d s) \<longleftrightarrow> length (leaves s) \<le> d"
proof -
  have "0 < length (leaves s)" by simp
  then show ?thesis
    by (cases s) (auto simp: progress_state_def simp del: leaves_pos leaves.simps split: if_splits)
qed

lemma last_sects_tr:
  assumes "ss \<noteq> []" "d \<le> length (all_leaves ss)"
  shows "tracker_isComplete (last (sects_tr d ss :: 'g tracker list)) \<longleftrightarrow> d = length (all_leaves ss)"
  using assms
proof (induction ss arbitrary: d)
  case (Cons s ss)
  show ?case
  proof (cases "ss = []")
    case True
    with Cons.prems show ?thesis by (auto simp: isComplete_sect_tr)
  next
    case False
    then have ne: "sects_tr (d - length (leaves s)) ss \<noteq> ([] :: 'g tracker list)"
      by (metis length_0_conv sects_tr_length)
    have pos: "0 < length (all_leaves ss)" using False by (cases ss) auto
    have "tracker_isComplete (last (sects_tr (d - length (leaves s)) ss :: 'g tracker list)) \<longleftrightarrow>
        d - length (leaves s) = length (all_leaves ss)"
      by (rule Cons.IH [OF False]) (use Cons.prems(2) in simp)
    also have "\<dots> \<longleftrightarrow> d = length (leaves s) + length (all_leaves ss)" using pos by arith
    finally show ?thesis using ne by simp
  qed
qed simp

section \<open>The operations on a focused context\<close>

abbreviation tctx :: "'g tracker \<Rightarrow> path \<Rightarrow> RunState \<Rightarrow> 'g TrackerContext" where
  "tctx r p s \<equiv> \<lparr>m_rootTracker = Some r, m_currentTracker = Some p, m_ctxState = s\<rparr>"

lemma tctx_simps [simp]:
  "tracker_at q (tctx r p s) = get_tracker q r"
  "update_at q f (tctx r p s) = tctx (upd_tracker q f r) p s"
  by (simp_all add: tracker_at_def update_at_def)

lemma nl_eq_iff:
  "(SourceLineInfo_eq (nl_location a) (nl_location b) \<and> nl_name a = nl_name b) \<longleftrightarrow> a = b"
  for a b :: NameAndLocation
  by (cases a; cases b; cases "nl_location a"; cases "nl_location b") (auto simp: SourceLineInfo_eq_def)

lemma SourceLineInfo_eq_refl [simp]: "SourceLineInfo_eq a a"
  by (simp add: SourceLineInfo_eq_def)

lemma find_child_iff: "find_child nl ts = None \<longleftrightarrow> nl \<notin> set (map t_nameAndLocation ts)"
  by (induction ts) (auto simp: nl_eq_iff)

lemma find_child_at:
  "nl \<notin> set (map t_nameAndLocation pre) \<Longrightarrow> t_nameAndLocation t = nl \<Longrightarrow>
   find_child nl (pre @ t # post) = Some (length pre)"
  by (induction pre) (auto simp: nl_eq_iff)

declare find_child.simps(2) [simp del]

lemma openChild_ok:
  assumes "get_tracker p r = Some (Tracker n k st ch)" "above_ok p r"
  shows "openChild p (tctx r q s) = Some (tctx (put p (Tracker n k ExecutingChildren ch) r) q s)"
proof (cases "st = ExecutingChildren")
  case True
  with assms(1) show ?thesis
    by (subst openChild.simps) (simp add: put_def upd_tracker_id)
next
  case False
  let ?r = "put p (Tracker n k ExecutingChildren ch) r"
  have u: "upd_tracker p (with_state ExecutingChildren) r = ?r"
    using upd_as_put [OF assms(1), of "with_state ExecutingChildren"] by simp
  have up: "openChild (butlast p) (tctx ?r q s) = Some (tctx ?r q s)" if "p \<noteq> []"
  proof -
    have "above_ok (butlast p @ [last p]) ?r" using that above_ok_put [OF assms(2)] by simp
    then obtain t where "get_tracker (butlast p) ?r = Some t" "t_runState t = ExecutingChildren"
      unfolding above_ok_snoc by blast
    then show ?thesis by (subst openChild.simps) simp
  qed
  show ?thesis
  proof (cases "p = []")
    case True
    with assms(1) False u show ?thesis by (subst openChild.simps) simp
  next
    case p: False
    with assms(1) False u up [OF p] show ?thesis by (subst openChild.simps) (simp add: Let_def)
  qed
qed

lemma open_child:
  assumes g: "get_tracker p r = Some (Tracker n k st (pre @ Tracker n' k' st' ch' # post))" and a: "above_ok p r"
  shows "tracker_open (p @ [length pre]) (tctx r q s) =
    Some (tctx (put p (Tracker n k ExecutingChildren (pre @ Tracker n' k' Executing ch' # post)) r) (p @ [length pre]) s)"
proof -
  let ?r = "put p (Tracker n k st (pre @ Tracker n' k' Executing ch' # post)) r"
  have "upd_tracker (p @ [length pre]) (with_state Executing) r = ?r"
    unfolding upd_tracker_snoc using upd_as_put [OF g] by simp
  moreover have "openChild p (tctx ?r (p @ [length pre]) s) =
      Some (tctx (put p (Tracker n k ExecutingChildren (pre @ Tracker n' k' Executing ch' # post)) r) (p @ [length pre]) s)"
    using openChild_ok [OF get_put [OF g], of n k st _ "p @ [length pre]" s] above_ok_put [OF a] by simp
  ultimately show ?thesis
    by (simp add: tracker_open_def moveToThis_def setCurrentTracker_def)
qed

text \<open>The state \<open>close\<close> gives a section.\<close>

definition closed_state :: "CycleState \<Rightarrow> 'g tracker list \<Rightarrow> CycleState" where
  "closed_state st ch =
     (if st = Executing \<or> ch = [] \<or> tracker_isComplete (last ch) then CompletedSuccessfully else ExecutingChildren)"

lemma close_child:
  assumes g: "get_tracker p r = Some (Tracker n k st (pre @ Tracker n' (SectionTracker fs) st' ch' # post))"
    and st': "st' = Executing \<or> st' = ExecutingChildren"
  shows "tracker_close next_item True (p @ [length pre]) (tctx r (p @ [length pre]) s) =
    Some (tctx (put p (Tracker n k st (pre @ Tracker n' (SectionTracker fs) (closed_state st' ch') ch' # post)) r) p CompletedCycle)"
proof -
  have at: "get_tracker (p @ [length pre]) r = Some (Tracker n' (SectionTracker fs) st' ch')"
    by (simp add: get_tracker_snoc g)
  have up: "upd_tracker (p @ [length pre]) (with_state s') r =
      put p (Tracker n k st (pre @ Tracker n' (SectionTracker fs) s' ch' # post)) r" for s'
    unfolding upd_tracker_snoc using upd_as_put [OF g] by simp
  have same: "put p (Tracker n k st (pre @ Tracker n' (SectionTracker fs) st' ch' # post)) r = r"
    unfolding put_def using g by (rule upd_tracker_id) simp
  note defs = at up close_switch_def closed_state_def moveToParent_def setCurrentTracker_def completeCycle_def
  from st' show ?thesis
  proof
    assume "st' = Executing"
    then show ?thesis by (subst tracker_close.simps) (simp add: defs)
  next
    assume e: "st' = ExecutingChildren"
    show ?thesis using same unfolding e by (subst tracker_close.simps) (simp add: defs e)
  qed
qed

text \<open>No section filters are in force at a tracker, a section or a generator below one.\<close>

definition plain_at :: "path \<Rightarrow> 'g tracker \<Rightarrow> bool" where
  "plain_at p r \<longleftrightarrow> (\<forall>q s. section_filters p (tctx r q s) = Some [])"

lemma plain_at_section: "get_tracker p r = Some (Tracker n (SectionTracker []) st ch) \<Longrightarrow> plain_at p r"
  unfolding plain_at_def by (subst section_filters.simps) simp

lemma plain_at_generator:
  "get_tracker p r = Some (Tracker n (GeneratorTracker g) st ch) \<Longrightarrow> p \<noteq> [] \<Longrightarrow> plain_at p r \<longleftrightarrow> plain_at (butlast p) r"
  unfolding plain_at_def by (subst section_filters.simps) simp

lemma section_filters_cong:
  assumes "\<And>i. i \<le> length p \<Longrightarrow> rel_option (\<lambda>t u. t_kind t = t_kind u) (get_tracker (take i p) r) (get_tracker (take i p) r')"
  shows "section_filters p (tctx r q s) = section_filters p (tctx r' q s)"
  using assms
proof (induction p rule: rev_induct)
  case Nil
  from Nil [of 0] show ?case
    by (subst (1 2) section_filters.simps) (auto split: option.splits tracker_kind.splits simp: rel_option_iff)
next
  case (snoc i p)
  from snoc.prems [of "length (p @ [i])"] have "rel_option (\<lambda>t u. t_kind t = t_kind u)
      (get_tracker (p @ [i]) r) (get_tracker (p @ [i]) r')" by simp
  moreover have "section_filters p (tctx r q s) = section_filters p (tctx r' q s)"
  proof (rule snoc.IH)
    show "rel_option (\<lambda>t u. t_kind t = t_kind u) (get_tracker (take j p) r) (get_tracker (take j p) r')"
      if "j \<le> length p" for j
      using snoc.prems [of j] that by simp
  qed
  ultimately show ?case
    by (subst (1 2) section_filters.simps)
      (cases "get_tracker (p @ [i]) r"; cases "get_tracker (p @ [i]) r'"; simp split: tracker_kind.splits)
qed

lemma get_tracker_prefix: "get_tracker p r = Some t \<Longrightarrow> \<exists>u. get_tracker (take i p) r = Some u"
proof (induction p arbitrary: i r)
  case (Cons j p)
  then show ?case by (cases i; cases r) (auto split: if_splits)
qed simp

lemma plain_at_put:
  assumes "plain_at p r" "get_tracker p r = Some (Tracker n k st ch)"
  shows "plain_at p (put p (Tracker n' k st' ch') r)"
proof -
  have "section_filters p (tctx r q s) = section_filters p (tctx (put p (Tracker n' k st' ch') r) q s)" for q s
  proof (rule section_filters_cong)
    fix i
    assume "i \<le> length p"
    obtain t where t: "get_tracker (take i p) r = Some t" using get_tracker_prefix [OF assms(2)] by blast
    show "rel_option (\<lambda>t u. t_kind t = t_kind u) (get_tracker (take i p) r)
        (get_tracker (take i p) (put p (Tracker n' k st' ch') r))"
    proof (cases "i < length p")
      case True
      from get_put_take [OF True t, of "Tracker n' k st' ch'"] t show ?thesis by auto
    next
      case False
      with assms(2) get_put [OF assms(2)] show ?thesis by simp
    qed
  qed
  with assms(1) show ?thesis by (simp add: plain_at_def)
qed

definition focus_ok :: "path \<Rightarrow> 'g tracker \<Rightarrow> bool" where
  "focus_ok p r \<longleftrightarrow> above_ok p r \<and> plain_at p r"

lemma focus_ok_put:
  "focus_ok p r \<Longrightarrow> get_tracker p r = Some (Tracker n k st ch) \<Longrightarrow> focus_ok p (put p (Tracker n' k st' ch') r)"
  by (simp add: focus_ok_def above_ok_put plain_at_put)

lemma focus_ok_child:
  assumes "focus_ok p r" "get_tracker p r = Some (Tracker n k ExecutingChildren (pre @ Tracker n' (SectionTracker []) s ch # post))"
  shows "focus_ok (p @ [length pre]) r"
  using assms by (auto simp: focus_ok_def above_ok_snoc get_tracker_snoc intro: plain_at_section)

text \<open>Acquiring a section that is there, or is added; while executing or after the cycle completed.\<close>

lemma acquire_done:
  assumes "get_tracker p r = Some (Tracker n k st (pre @ t # post))"
    "nl \<notin> set (map t_nameAndLocation pre)" "t_nameAndLocation t = nl" "t_kind t = SectionTracker []"
    "tracker_isComplete t \<or> s = CompletedCycle"
  shows "SectionTracker_acquire nl (tctx r p s) = Some (p @ [length pre], tctx r p s)"
  using assms
  by (auto simp: SectionTracker_acquire_def findChild_def find_child_at completedCycle_def tryOpen_def get_tracker_snoc)

lemma acquire_open:
  assumes "get_tracker p r = Some (Tracker n k st (pre @ Tracker nl (SectionTracker []) st' ch' # post))"
    "nl \<notin> set (map t_nameAndLocation pre)" "st' \<noteq> CompletedSuccessfully" "st' \<noteq> Failed" "focus_ok p r"
  shows "SectionTracker_acquire nl (tctx r p RunExecuting) = Some (p @ [length pre],
     tctx (put p (Tracker n k ExecutingChildren (pre @ Tracker nl (SectionTracker []) Executing ch' # post)) r)
       (p @ [length pre]) RunExecuting)"
  using assms open_child [OF assms(1)] assms(5)
  by (simp add: SectionTracker_acquire_def findChild_def find_child_at completedCycle_def tryOpen_def get_tracker_snoc focus_ok_def)

lemma acquire_add:
  assumes g: "get_tracker p r = Some (Tracker n k st pre)"
    and nl: "nl \<notin> set (map t_nameAndLocation pre)" and a: "focus_ok p r"
  shows "SectionTracker_acquire nl (tctx r p RunExecuting) = Some (p @ [length pre],
     tctx (put p (Tracker n k ExecutingChildren (pre @ [Tracker nl (SectionTracker []) Executing []])) r)
       (p @ [length pre]) RunExecuting)"
    and "SectionTracker_acquire nl (tctx r p CompletedCycle) = Some (p @ [length pre],
     tctx (put p (Tracker n k st (pre @ [Tracker nl (SectionTracker []) NotStarted []])) r) p CompletedCycle)"
proof -
  let ?new = "Tracker nl (SectionTracker []) NotStarted []"
  let ?r = "put p (Tracker n k st (pre @ [?new])) r"
  have new: "SectionTracker_new nl p (tctx r p s) = Some ?new" for s
    using a by (simp add: SectionTracker_new_def addNextFilters_def focus_ok_def plain_at_def)
  have up: "upd_tracker p (addChild ?new) r = ?r" using upd_as_put [OF g] by simp
  have none: "find_child nl pre = None" using nl by (simp add: find_child_iff)
  have g': "get_tracker p ?r = Some (Tracker n k st (pre @ [?new]))" using get_put [OF g] .
  show "SectionTracker_acquire nl (tctx r p CompletedCycle) = Some (p @ [length pre], tctx ?r p CompletedCycle)"
    using g none by (simp add: SectionTracker_acquire_def findChild_def new up completedCycle_def)
  show "SectionTracker_acquire nl (tctx r p RunExecuting) = Some (p @ [length pre],
     tctx (put p (Tracker n k ExecutingChildren (pre @ [Tracker nl (SectionTracker []) Executing []])) r)
       (p @ [length pre]) RunExecuting)"
    using g none g' open_child [OF g'] above_ok_put [of p r] a
    by (simp add: SectionTracker_acquire_def findChild_def new up completedCycle_def tryOpen_def get_tracker_snoc focus_ok_def)
qed

section \<open>A cycle makes one leaf of progress\<close>

lemma put_same: "get_tracker p r = Some t \<Longrightarrow> put p t r = r"
  unfolding put_def by (rule upd_tracker_id) simp_all

text \<open>The children of a tracker that are still to be visited: none yet, or those of earlier cycles.\<close>

definition visited :: "nat \<Rightarrow> sect list \<Rightarrow> 'g tracker list \<Rightarrow> bool" where
  "visited d ss post \<longleftrightarrow> (d = 0 \<and> post = []) \<or> post = sects_tr d ss"

lemma sect_tr_0: "sect_tr 0 s = Tracker (s_nl s) (SectionTracker []) NotStarted []"
  by (cases s) (simp add: progress_state_def)

lemma run_sect_closed:
  assumes "SectionTracker_acquire (s_nl s) c = Some (p, c')" "tracker_at p c' = Some t" "\<not> isOpen t"
  shows "run_sect next_item s (c, l) = Some (c', l)"
  using assms by (cases s) simp

lemma run_sects_completed:
  assumes "get_tracker p r = Some (Tracker n k st (pre @ post))" "visited 0 ss post"
    "distinct (map s_nl ss)" "set (map t_nameAndLocation pre) \<inter> set (map s_nl ss) = {}" "focus_ok p r"
  shows "run_sects next_item ss (tctx r p CompletedCycle, l) =
    Some (tctx (put p (Tracker n k st (pre @ sects_tr 0 ss)) r) p CompletedCycle, l)"
  using assms
proof (induction ss arbitrary: pre post r)
  case Nil
  then show ?case by (auto simp: visited_def put_same)
next
  case (Cons s ss)
  let ?t = "Tracker (s_nl s) (SectionTracker []) NotStarted []"
  have nl: "s_nl s \<notin> set (map t_nameAndLocation pre)" using Cons.prems(4) by auto
  obtain post' where post': "visited 0 ss post'" and
    a: "SectionTracker_acquire (s_nl s) (tctx r p CompletedCycle) = Some (p @ [length pre],
      tctx (put p (Tracker n k st (pre @ ?t # post')) r) p CompletedCycle)"
  proof (cases "post = []")
    case True
    with Cons.prems(1) have "get_tracker p r = Some (Tracker n k st pre)" by simp
    from acquire_add(2) [OF this nl Cons.prems(5)] that [of "[]"] show ?thesis by (simp add: visited_def)
  next
    case False
    with Cons.prems(2) have post: "post = ?t # sects_tr 0 ss" by (simp add: visited_def sect_tr_0)
    have g: "get_tracker p r = Some (Tracker n k st (pre @ ?t # sects_tr 0 ss))"
      using Cons.prems(1) post by simp
    from acquire_done [OF g nl, of CompletedCycle] put_same [OF g] that [of "sects_tr 0 ss"]
    show ?thesis by (simp add: visited_def)
  qed
  let ?r = "put p (Tracker n k st (pre @ ?t # post')) r"
  have g: "get_tracker p ?r = Some (Tracker n k st ((pre @ [?t]) @ post'))"
    using get_put [OF Cons.prems(1)] by simp
  have "run_sect next_item s (tctx r p CompletedCycle, l) = Some (tctx ?r p CompletedCycle, l)"
    by (rule run_sect_closed [OF a, of ?t]) (simp_all add: get_tracker_snoc g)
  with Cons.IH [OF g post'] Cons.prems(3,4) focus_ok_put [OF Cons.prems(5,1)] show ?case
    by (simp add: sect_tr_0)
qed

text \<open>What running one section achieves while its cycle has not completed.\<close>

definition sect_step :: "('g \<Rightarrow> bool \<times> 'g) \<Rightarrow> sect \<Rightarrow> bool" where
  "sect_step next_item s \<longleftrightarrow> (\<forall>r p n k st pre post d l.
     get_tracker p r = Some (Tracker n k st (pre @ post)) \<longrightarrow>
     (d = 0 \<and> post = [] \<or> post \<noteq> [] \<and> hd post = sect_tr d s) \<longrightarrow>
     s_nl s \<notin> set (map t_nameAndLocation pre) \<longrightarrow> focus_ok p r \<longrightarrow> d < length (leaves s) \<longrightarrow>
     run_sect next_item s (tctx r p RunExecuting, l) =
       Some (tctx (put p (Tracker n k ExecutingChildren (pre @ sect_tr (Suc d) s # tl post)) r) p
         CompletedCycle, l @ [leaves s ! d]))"

lemma sect_stepD:
  assumes "sect_step next_item s" "get_tracker p r = Some (Tracker n k st (pre @ post))"
    "d = 0 \<and> post = [] \<or> post \<noteq> [] \<and> hd post = sect_tr d s"
    "s_nl s \<notin> set (map t_nameAndLocation pre)" "focus_ok p r" "d < length (leaves s)"
  shows "run_sect next_item s (tctx r p RunExecuting, l) =
       Some (tctx (put p (Tracker n k ExecutingChildren (pre @ sect_tr (Suc d) s # tl post)) r) p
         CompletedCycle, l @ [leaves s ! d])"
  using assms unfolding sect_step_def by blast

lemma run_sects_active:
  fixes next_item :: "'g \<Rightarrow> bool \<times> 'g"
  assumes "\<And>s. s \<in> set ss \<Longrightarrow> sect_step next_item s"
    "get_tracker p r = Some (Tracker n k st (pre @ post))" "visited d ss post"
    "distinct (map s_nl ss)" "set (map t_nameAndLocation pre) \<inter> set (map s_nl ss) = {}" "focus_ok p r"
    "d < length (all_leaves ss)"
  shows "run_sects next_item ss (tctx r p RunExecuting, l) =
    Some (tctx (put p (Tracker n k ExecutingChildren (pre @ sects_tr (Suc d) ss)) r) p
      CompletedCycle, l @ [all_leaves ss ! d])"
  using assms
proof (induction ss arbitrary: pre post r d)
  case (Cons s ss)
  let ?m = "length (leaves s)"
  have step: "sect_step next_item s" and nl: "s_nl s \<notin> set (map t_nameAndLocation pre)"
    using Cons.prems(1,5) by auto
  show ?case
  proof (cases "d < ?m")
    case True
    have hd: "d = 0 \<and> post = [] \<or> post \<noteq> [] \<and> hd post = sect_tr d s"
      using Cons.prems(3) True by (auto simp: visited_def)
    have tl: "visited 0 ss (tl post)" using Cons.prems(3) True by (auto simp: visited_def)
    let ?r = "put p (Tracker n k ExecutingChildren (pre @ sect_tr (Suc d) s # tl post)) r"
    have g: "get_tracker p ?r = Some (Tracker n k ExecutingChildren ((pre @ [sect_tr (Suc d) s]) @ tl post))"
      using get_put [OF Cons.prems(2)] by simp
    have "run_sects next_item ss (tctx ?r p CompletedCycle, l @ [leaves s ! d]) =
       Some (tctx (put p (Tracker n k ExecutingChildren ((pre @ [sect_tr (Suc d) s]) @ sects_tr 0 ss)) ?r) p
         CompletedCycle, l @ [leaves s ! d])"
      by (rule run_sects_completed [OF g tl]) (use Cons.prems(4,5) focus_ok_put [OF Cons.prems(6,2)] in auto)
    then show ?thesis
      using sect_stepD [OF step Cons.prems(2) hd nl Cons.prems(6) True] True
      by (simp add: nth_append min_absorb1)
  next
    case False
    have "0 < ?m" by simp
    with False have d: "0 < d" by arith
    then have post: "post = sect_tr ?m s # sects_tr (d - ?m) ss"
      using Cons.prems(3) False by (auto simp: visited_def min_absorb2)
    have g: "get_tracker p r = Some (Tracker n k st (pre @ sect_tr ?m s # sects_tr (d - ?m) ss))"
      using Cons.prems(2) post by simp
    have c: "tracker_isComplete (sect_tr ?m s :: 'g tracker)" by (simp add: isComplete_sect_tr)
    have "run_sect next_item s (tctx r p RunExecuting, l) = Some (tctx r p RunExecuting, l)"
    proof (rule run_sect_closed)
      show "SectionTracker_acquire (s_nl s) (tctx r p RunExecuting) = Some (p @ [length pre], tctx r p RunExecuting)"
        using acquire_done [OF g nl] c by simp
      show "tracker_at (p @ [length pre]) (tctx r p RunExecuting) = Some (sect_tr ?m s)"
        by (simp add: get_tracker_snoc g)
      show "\<not> isOpen (sect_tr ?m s :: 'g tracker)" using c by (simp add: isOpen_def)
    qed
    moreover have "run_sects next_item ss (tctx r p RunExecuting, l) =
       Some (tctx (put p (Tracker n k ExecutingChildren ((pre @ [sect_tr ?m s]) @ sects_tr (Suc (d - ?m)) ss)) r) p
         CompletedCycle, l @ [all_leaves ss ! (d - ?m)])"
    proof (rule Cons.IH)
      show "get_tracker p r = Some (Tracker n k st ((pre @ [sect_tr ?m s]) @ sects_tr (d - ?m) ss))"
        using g by simp
      show "d - ?m < length (all_leaves ss)" using Cons.prems(7) False by simp
    qed (use Cons.prems(1,4,5,6) in \<open>auto simp: visited_def\<close>)
    ultimately show ?thesis
      using False by (simp add: nth_append min_absorb2 Suc_diff_le)
  qed
qed simp

lemma acquire_progress:
  assumes g: "get_tracker p r = Some (Tracker n k st (pre @ post))"
    and post: "d = 0 \<and> post = [] \<or> post \<noteq> [] \<and> hd post = sect_tr d s"
    and nl: "s_nl s \<notin> set (map t_nameAndLocation pre)" and a: "focus_ok p r" and d: "d < length (leaves s)"
  shows "SectionTracker_acquire (s_nl s) (tctx r p RunExecuting) = Some (p @ [length pre],
     tctx (put p (Tracker n k ExecutingChildren
       (pre @ Tracker (s_nl s) (SectionTracker []) Executing (if d = 0 then [] else sects_tr d (s_subs s)) # tl post)) r)
       (p @ [length pre]) RunExecuting)"
proof (cases "post = []")
  case True
  with g have "get_tracker p r = Some (Tracker n k st pre)" by simp
  from acquire_add(1) [OF this nl a] True post show ?thesis by simp
next
  case False
  have tr: "sect_tr d s = Tracker (s_nl s) (SectionTracker []) (progress_state d (length (leaves s)))
      (if d = 0 then [] else sects_tr d (s_subs s))" by (cases s) simp
  with False post have "post = Tracker (s_nl s) (SectionTracker []) (progress_state d (length (leaves s)))
      (if d = 0 then [] else sects_tr d (s_subs s)) # tl post" by (metis list.collapse)
  with g have "get_tracker p r = Some (Tracker n k st (pre @ Tracker (s_nl s) (SectionTracker [])
      (progress_state d (length (leaves s))) (if d = 0 then [] else sects_tr d (s_subs s)) # tl post))" by metis
  from acquire_open [OF this nl _ _ a] d show ?thesis by (simp add: progress_state_def)
qed

lemma sect_step_holds:
  fixes next_item :: "'g \<Rightarrow> bool \<times> 'g"
  shows "wf_sect s \<Longrightarrow> sect_step next_item s"
proof (induction s)
  case (Sect nl ss)
  have IH: "sect_step next_item s" if "s \<in> set ss" for s
    using Sect that by (auto simp: list_all_iff)
  have dist: "distinct (map s_nl ss)" using Sect.prems by simp
  show ?case unfolding sect_step_def
  proof (intro allI impI)
    fix r :: "'g tracker" and p n k st pre post d l
    assume g: "get_tracker p r = Some (Tracker n k st (pre @ post))"
      and post: "d = 0 \<and> post = [] \<or> post \<noteq> [] \<and> hd post = sect_tr d (Sect nl ss)"
      and nl: "s_nl (Sect nl ss) \<notin> set (map t_nameAndLocation pre)" and a: "focus_ok p r"
      and d: "d < length (leaves (Sect nl ss))"
    let ?ch = "if d = 0 then [] else sects_tr d ss" and ?q = "p @ [length pre]"
    let ?R = "\<lambda>s ch. put p (Tracker n k ExecutingChildren (pre @ Tracker nl (SectionTracker []) s ch # tl post)) r"
    have acq: "SectionTracker_acquire nl (tctx r p RunExecuting) = Some (?q, tctx (?R Executing ?ch) ?q RunExecuting)"
      using acquire_progress [OF g post nl a d] by simp
    have gR: "get_tracker p (?R s ch) = Some (Tracker n k ExecutingChildren
        (pre @ Tracker nl (SectionTracker []) s ch # tl post))" for s ch
      using get_put [OF g] .
    have at: "get_tracker ?q (?R s ch) = Some (Tracker nl (SectionTracker []) s ch)" for s ch
      by (simp add: get_tracker_snoc gR)
    have cl: "tracker_close next_item True ?q (tctx (?R s ch) ?q e) = Some (tctx (?R (closed_state s ch) ch) p CompletedCycle)"
      if "s = Executing \<or> s = ExecutingChildren" for s ch e
      using close_child [OF gR that, where next_item = next_item and s = e] by simp
    show "run_sect next_item (Sect nl ss) (tctx r p RunExecuting, l) =
       Some (tctx (put p (Tracker n k ExecutingChildren (pre @ sect_tr (Suc d) (Sect nl ss) # tl post)) r) p
         CompletedCycle, l @ [leaves (Sect nl ss) ! d])"
    proof (cases "ss = []")
      case True
      with d have "d = 0" by simp
      with True acq at [of Executing "[]"] cl [of Executing "[]"] show ?thesis
        by (simp add: progress_state_def closed_state_def)
    next
      case False
      have ab: "focus_ok ?q (?R Executing ?ch)"
        using focus_ok_child [OF focus_ok_put [OF a g] gR] .
      have "run_sects next_item ss (tctx (?R Executing ?ch) ?q RunExecuting, l) =
          Some (tctx (put ?q (Tracker nl (SectionTracker []) ExecutingChildren ([] @ sects_tr (Suc d) ss)) (?R Executing ?ch)) ?q
            CompletedCycle, l @ [all_leaves ss ! d])"
      proof (rule run_sects_active [OF IH])
        show "get_tracker ?q (?R Executing ?ch) = Some (Tracker nl (SectionTracker []) Executing ([] @ ?ch))"
          using at by simp
        show "visited d ss ?ch" by (simp add: visited_def)
        show "d < length (all_leaves ss)" using d False by simp
      qed (use dist ab in simp_all)
      moreover have "put ?q u (?R Executing ?ch) = put p (Tracker n k ExecutingChildren (pre @ u # tl post)) r" for u
        using put_snoc [OF gR [of Executing ?ch], where i = "length pre" and u = u] by simp
      ultimately have body: "run_sects next_item ss (tctx (?R Executing ?ch) ?q RunExecuting, l) =
          Some (tctx (?R ExecutingChildren (sects_tr (Suc d) ss)) ?q CompletedCycle, l @ [all_leaves ss ! d])"
        by simp
      have "closed_state ExecutingChildren (sects_tr (Suc d) ss :: 'g tracker list) = progress_state (Suc d) (length (all_leaves ss))"
      proof -
        have "sects_tr (Suc d) ss \<noteq> ([] :: 'g tracker list)" using False by (metis length_0_conv sects_tr_length)
        then show ?thesis
          using last_sects_tr [OF False, of "Suc d"] d False by (auto simp: closed_state_def progress_state_def)
      qed
      with acq at [of Executing ?ch] body cl [of ExecutingChildren "sects_tr (Suc d) ss" CompletedCycle] False
      show ?thesis by simp
    qed
  qed
qed

section \<open>All cycles\<close>

lemma focus_ok_root [simp]: "focus_ok [] (Tracker n (SectionTracker []) st ch)"
  by (auto simp: focus_ok_def intro: plain_at_section)

definition root_tracker :: "SourceLineInfo \<Rightarrow> CycleState \<Rightarrow> 'g tracker list \<Rightarrow> 'g tracker" where
  "root_tracker here st ch = Tracker \<lparr>nl_name = ''{root}'', nl_location = here\<rparr> (SectionTracker []) st ch"

lemma run_cycle_step:
  assumes "wf_sect s" "d < length (leaves s)" "m_rootTracker c = Some (root_tracker here st ch)"
    "d = 0 \<and> ch = [] \<or> ch = [sect_tr d s]"
  shows "run_cycle next_item s (c, l) =
    Some ([0], tctx (root_tracker here ExecutingChildren [sect_tr (Suc d) s]) [] CompletedCycle, l @ [leaves s ! d])"
proof -
  let ?r = "root_tracker here st ch"
  have c: "startCycle c = tctx ?r [] RunExecuting" using assms(3) by (cases c) (simp add: startCycle_def)
  have g: "get_tracker [] ?r = Some (Tracker \<lparr>nl_name = ''{root}'', nl_location = here\<rparr> (SectionTracker []) st ([] @ ch))"
    by (simp add: root_tracker_def)
  have p: "d = 0 \<and> ch = [] \<or> ch \<noteq> [] \<and> hd ch = sect_tr d s" and t: "tl ch = []" using assms(4) by auto
  note acq = acquire_progress [OF g p _ _ assms(2)]
  note run = sect_stepD [OF sect_step_holds [OF assms(1), of next_item] g p _ _ assms(2), of l]
  obtain nl ss where s: "s = Sect nl ss" by (cases s)
  show ?thesis
    using acq run c t s
    by (auto simp: run_cycle_def put_def root_tracker_def bind_eq_Some_conv simp del: leaves.simps split: if_splits)
qed

lemma run_cycles_from:
  fixes next_item :: "'g \<Rightarrow> bool \<times> 'g"
  assumes "wf_sect s"
  shows "d < length (leaves s) \<Longrightarrow> m_rootTracker c = Some (root_tracker here st ch) \<Longrightarrow>
    d = 0 \<and> ch = [] \<or> ch = [sect_tr d s] \<Longrightarrow>
    \<exists>c'. run_cycles next_item s (c, l) = Some (c', l @ drop d (leaves s))"
proof (induction "length (leaves s) - d" arbitrary: d c st ch l rule: less_induct)
  case less
  note cyc = run_cycle_step [OF assms less.prems]
  let ?c = "tctx (root_tracker here ExecutingChildren [sect_tr (Suc d) s]) [] CompletedCycle"
  have at: "tracker_at [0] ?c = Some (sect_tr (Suc d) s)" by (simp add: root_tracker_def)
  have dr: "drop d (leaves s) = leaves s ! d # drop (Suc d) (leaves s)"
    using less.prems(1) by (simp add: Cons_nth_drop_Suc)
  show ?case
  proof (cases "Suc d < length (leaves s)")
    case True
    then have "\<not> isSuccessfullyCompleted (sect_tr (Suc d) s :: 'g tracker)"
      by (simp add: isSuccessfullyCompleted_def progress_state_def)
    moreover have "\<exists>c'. run_cycles next_item s (?c, l @ [leaves s ! d]) =
        Some (c', (l @ [leaves s ! d]) @ drop (Suc d) (leaves s))"
      by (rule less.hyps) (use True in simp_all)
    ultimately show ?thesis
      by (subst run_cycles.simps) (simp add: cyc at dr del: tctx_simps)
  next
    case False
    then have "isSuccessfullyCompleted (sect_tr (Suc d) s :: 'g tracker)" "drop (Suc d) (leaves s) = []"
      by (simp_all add: isSuccessfullyCompleted_def progress_state_def)
    then show ?thesis
      by (subst run_cycles.simps) (simp add: cyc at dr del: tctx_simps)
  qed
qed

text \<open>
  C23: for every test case whose sibling sections differ in name or place, the cycles of \<open>runTest\<close>
  come to an end, and together they run every leaf section exactly once, in the order of the source.
\<close>

theorem every_leaf_section_runs_once:
  assumes "wf_sect s"
  shows "\<exists>c'. run_cycles next_item s (startRun here c, []) = Some (c', leaves s)"
  using run_cycles_from [OF assms, of 0 "startRun here c" here NotStarted "[]" next_item "[]"]
  by (simp add: startRun_def root_tracker_def)

definition sample_sections :: sect where
  "sample_sections = (let nl = (\<lambda>n k. \<lparr>nl_name = n, nl_location = \<lparr>sl_file = ''t.cpp'', sl_line = k\<rparr>\<rparr>) in
     Sect (nl ''store'' 1) [Sect (nl ''put'' 2) [Sect (nl ''new key'' 3) [], Sect (nl ''old key'' 4) []], Sect (nl ''get'' 5) []])"

theorem every_leaf_section_runs_once_witness:
  "\<exists>c'. run_cycles (\<lambda>g :: unit. (False, g)) sample_sections
     (startRun \<lparr>sl_file = [], sl_line = 0\<rparr> \<lparr>m_rootTracker = None, m_currentTracker = None, m_ctxState = RunNotStarted\<rparr>, []) =
     Some (c', leaves sample_sections) \<and> length (leaves sample_sections) = 3"
proof -
  have "wf_sect sample_sections" "length (leaves sample_sections) = 3" by code_simp+
  with every_leaf_section_runs_once [of sample_sections "\<lambda>g :: unit. (False, g)" "\<lparr>sl_file = [], sl_line = 0\<rparr>"
      "\<lparr>m_rootTracker = None, m_currentTracker = None, m_ctxState = RunNotStarted\<rparr>"]
  show ?thesis by simp
qed

end
