(* ===== verification/CatchRun.thy ===== *)
theory CatchRun
  imports CatchRegistry CatchSections
begin

text \<open>
  The run of a test case in the unit test framework (\<open>native/src/catch.hpp\<close>):
  totals, result types, assertion results, messages, and the \<open>RunContext\<close>
  that receives every assertion and section of the running test, counts them,
  drives the section trackers and tells the reporter.  The reporter is the list
  of the calls it received.  Durations and redirected output are left out.
  \<open>None\<close> is a null pointer dereference, a failing assertion, an internal error
  or a loop that does not end.
\<close>

section \<open>Totals\<close>

record Counts =
  passed :: u64
  failed :: u64
  failedButOk :: u64

record Totals =
  t_error :: int
  assertions :: Counts
  testCases :: Counts

definition Counts_new :: Counts where
  "Counts_new = \<lparr>passed = 0, failed = 0, failedButOk = 0\<rparr>"

definition Totals_new :: Totals where
  "Totals_new = \<lparr>t_error = 0, assertions = Counts_new, testCases = Counts_new\<rparr>"

definition Counts_minus :: "Counts \<Rightarrow> Counts \<Rightarrow> Counts" where
  "Counts_minus a b = \<lparr>passed = passed a - passed b, failed = failed a - failed b, failedButOk = failedButOk a - failedButOk b\<rparr>"

definition Counts_plus :: "Counts \<Rightarrow> Counts \<Rightarrow> Counts" where
  "Counts_plus a b = a\<lparr>passed := passed a + passed b, failed := failed a + failed b, failedButOk := failedButOk a + failedButOk b\<rparr>"

definition Counts_total :: "Counts \<Rightarrow> u64" where
  "Counts_total c = passed c + failed c + failedButOk c"

definition allPassed :: "Counts \<Rightarrow> bool" where
  "allPassed c \<longleftrightarrow> failed c = 0 \<and> failedButOk c = 0"

definition allOk :: "Counts \<Rightarrow> bool" where
  "allOk c \<longleftrightarrow> failed c = 0"

definition Totals_minus :: "Totals \<Rightarrow> Totals \<Rightarrow> Totals" where
  "Totals_minus a b = Totals_new\<lparr>assertions := Counts_minus (assertions a) (assertions b), testCases := Counts_minus (testCases a) (testCases b)\<rparr>"

definition Totals_plus :: "Totals \<Rightarrow> Totals \<Rightarrow> Totals" where
  "Totals_plus a b = a\<lparr>assertions := Counts_plus (assertions a) (assertions b), testCases := Counts_plus (testCases a) (testCases b)\<rparr>"

definition add_passed :: "Counts \<Rightarrow> Counts" where "add_passed c = c\<lparr>passed := passed c + 1\<rparr>"
definition add_failed :: "Counts \<Rightarrow> Counts" where "add_failed c = c\<lparr>failed := failed c + 1\<rparr>"
definition add_failedButOk :: "Counts \<Rightarrow> Counts" where "add_failedButOk c = c\<lparr>failedButOk := failedButOk c + 1\<rparr>"

definition Totals_delta :: "Totals \<Rightarrow> Totals \<Rightarrow> Totals" where
  "Totals_delta t prev =
     (let diff = Totals_minus t prev in
      if failed (assertions diff) > 0 then diff\<lparr>testCases := add_failed (testCases diff)\<rparr>
      else if failedButOk (assertions diff) > 0 then diff\<lparr>testCases := add_failedButOk (testCases diff)\<rparr>
      else diff\<lparr>testCases := add_passed (testCases diff)\<rparr>)"

section \<open>Results\<close>

datatype ResultWas = Unknown | ResultOk | ResultInfo | ResultWarning | FailureBit | ExpressionFailed
  | ExplicitFailure | ExceptionBit | ThrewException | DidntThrowException | FatalErrorCondition

definition ResultWas_value :: "ResultWas \<Rightarrow> int" where
  "ResultWas_value r = (case r of
     Unknown \<Rightarrow> -1 | ResultOk \<Rightarrow> 0 | ResultInfo \<Rightarrow> 1 | ResultWarning \<Rightarrow> 2 | FailureBit \<Rightarrow> 0x10
   | ExpressionFailed \<Rightarrow> 0x11 | ExplicitFailure \<Rightarrow> 0x12 | ExceptionBit \<Rightarrow> 0x110
   | ThrewException \<Rightarrow> 0x111 | DidntThrowException \<Rightarrow> 0x112 | FatalErrorCondition \<Rightarrow> 0x210)"

definition isOk :: "ResultWas \<Rightarrow> bool" where
  "isOk r \<longleftrightarrow> ResultWas_value r AND 0x10 = 0"

definition isJustInfo :: "int \<Rightarrow> bool" where
  "isJustInfo flags \<longleftrightarrow> flags = ResultWas_value ResultInfo"

text \<open>The flags \<open>Normal\<close>, \<open>ContinueOnFailure\<close>, \<open>FalseTest\<close> and \<open>SuppressFail\<close>.\<close>

definition DispNormal :: int where "DispNormal = 1"
definition ContinueOnFailure :: int where "ContinueOnFailure = 2"
definition FalseTest :: int where "FalseTest = 4"
definition SuppressFail :: int where "SuppressFail = 8"

definition disposition_or :: "int \<Rightarrow> int \<Rightarrow> int" where
  "disposition_or lhs rhs = lhs OR rhs"

definition shouldContinueOnFailure :: "int \<Rightarrow> bool" where
  "shouldContinueOnFailure flags \<longleftrightarrow> flags AND ContinueOnFailure \<noteq> 0"

definition isFalseTest :: "int \<Rightarrow> bool" where
  "isFalseTest flags \<longleftrightarrow> flags AND FalseTest \<noteq> 0"

definition shouldSuppressFailure :: "int \<Rightarrow> bool" where
  "shouldSuppressFailure flags \<longleftrightarrow> flags AND SuppressFail \<noteq> 0"

record AssertionInfo =
  macroName :: string
  ai_lineInfo :: SourceLineInfo
  capturedExpression :: string
  resultDisposition :: int

text \<open>What an \<open>ITransientExpression\<close> answers.\<close>

record TransientExpression =
  getResult :: bool
  isBinaryExpression :: bool
  streamReconstructedExpression :: string

record LazyExpression =
  m_transientExpression :: "TransientExpression option"
  m_isNegated :: bool

definition LazyExpression_new :: "bool \<Rightarrow> LazyExpression" where
  "LazyExpression_new isNegated = \<lparr>m_transientExpression = None, m_isNegated = isNegated\<rparr>"

text \<open>The copy constructor drops the expression.\<close>

definition LazyExpression_copy :: "LazyExpression \<Rightarrow> LazyExpression" where
  "LazyExpression_copy other = \<lparr>m_transientExpression = None, m_isNegated = m_isNegated other\<rparr>"

definition LazyExpression_print :: "LazyExpression \<Rightarrow> string" where
  "LazyExpression_print e =
     (if m_isNegated e then ''!'' else []) @
     (case m_transientExpression e of
        Some t \<Rightarrow> if m_isNegated e \<and> isBinaryExpression t then ''('' @ streamReconstructedExpression t @ '')''
                  else streamReconstructedExpression t
      | None \<Rightarrow> ''{** error - unchecked empty expression requested **}'')"

record AssertionResultData =
  rd_message :: string
  reconstructedExpression :: string
  lazyExpression :: LazyExpression
  resultType :: ResultWas

definition AssertionResultData_new :: "ResultWas \<Rightarrow> LazyExpression \<Rightarrow> AssertionResultData" where
  "AssertionResultData_new ty e =
     \<lparr>rd_message = [], reconstructedExpression = [], lazyExpression = LazyExpression_copy e, resultType = ty\<rparr>"

text \<open>\<open>reconstructExpression\<close> also fills the mutable cache.\<close>

definition reconstructExpression :: "AssertionResultData \<Rightarrow> string \<times> AssertionResultData" where
  "reconstructExpression d =
     (let d = (if reconstructedExpression d = [] \<and> m_transientExpression (lazyExpression d) \<noteq> None
               then d\<lparr>reconstructedExpression := LazyExpression_print (lazyExpression d)\<rparr> else d)
      in (reconstructedExpression d, d))"

record AssertionResult =
  ar_info :: AssertionInfo
  m_resultData :: AssertionResultData

definition AssertionResultData_copy :: "AssertionResultData \<Rightarrow> AssertionResultData" where
  "AssertionResultData_copy d = d\<lparr>lazyExpression := LazyExpression_copy (lazyExpression d)\<rparr>"

definition AssertionResult_new :: "AssertionInfo \<Rightarrow> AssertionResultData \<Rightarrow> AssertionResult" where
  "AssertionResult_new info data = \<lparr>ar_info = info, m_resultData = AssertionResultData_copy data\<rparr>"

definition AssertionResult_copy :: "AssertionResult \<Rightarrow> AssertionResult" where
  "AssertionResult_copy r = r\<lparr>m_resultData := AssertionResultData_copy (m_resultData r)\<rparr>"

definition AssertionResult_succeeded :: "AssertionResult \<Rightarrow> bool" where
  "AssertionResult_succeeded r \<longleftrightarrow> isOk (resultType (m_resultData r))"

definition AssertionResult_isOk :: "AssertionResult \<Rightarrow> bool" where
  "AssertionResult_isOk r \<longleftrightarrow>
     isOk (resultType (m_resultData r)) \<or> shouldSuppressFailure (resultDisposition (ar_info r))"

definition getResultType :: "AssertionResult \<Rightarrow> ResultWas" where
  "getResultType r = resultType (m_resultData r)"

definition hasExpression :: "AssertionResult \<Rightarrow> bool" where
  "hasExpression r \<longleftrightarrow> capturedExpression (ar_info r) \<noteq> []"

definition hasMessage :: "AssertionResult \<Rightarrow> bool" where
  "hasMessage r \<longleftrightarrow> rd_message (m_resultData r) \<noteq> []"

definition getExpression :: "AssertionResult \<Rightarrow> string" where
  "getExpression r =
     (if isFalseTest (resultDisposition (ar_info r)) then ''!('' @ capturedExpression (ar_info r) @ '')''
      else capturedExpression (ar_info r))"

definition getExpressionInMacro :: "AssertionResult \<Rightarrow> string" where
  "getExpressionInMacro r =
     (if macroName (ar_info r) = [] then capturedExpression (ar_info r)
      else macroName (ar_info r) @ ''( '' @ capturedExpression (ar_info r) @ '' )'')"

definition getExpandedExpression :: "AssertionResult \<Rightarrow> string" where
  "getExpandedExpression r =
     (let expr = fst (reconstructExpression (m_resultData r)) in if expr = [] then getExpression r else expr)"

definition hasExpandedExpression :: "AssertionResult \<Rightarrow> bool" where
  "hasExpandedExpression r \<longleftrightarrow> hasExpression r \<and> getExpandedExpression r \<noteq> getExpression r"

record AssertionReaction =
  ar_shouldDebugBreak :: bool
  shouldThrow :: bool

section \<open>Messages, sections and what the reporter is told\<close>

record MessageInfo =
  mi_macroName :: string
  message :: string
  mi_lineInfo :: SourceLineInfo
  mi_type :: ResultWas
  sequence :: u32

record SectionInfo =
  si_name :: string
  si_lineInfo :: SourceLineInfo

record SectionEndInfo =
  sectionInfo :: SectionInfo
  prevAssertions :: Counts

record AssertionStats =
  as_result :: AssertionResult
  infoMessages :: "MessageInfo list"
  as_totals :: Totals

record SectionStats =
  ss_info :: SectionInfo
  ss_assertions :: Counts
  missingAssertions :: bool

record GroupInfo =
  gi_name :: string
  groupIndex :: nat
  groupsCounts :: nat

datatype event =
    TestRunStarting string
  | TestGroupStarting GroupInfo
  | TestCaseStarting TestCase
  | SectionStarting SectionInfo
  | AssertionStarting AssertionInfo
  | AssertionEnded AssertionStats
  | SectionEnded SectionStats
  | TestCaseEnded TestCase Totals bool
  | TestGroupEnded GroupInfo Totals bool
  | TestRunEnded string Totals bool
  | FatalErrorEncountered string
  | SkipTest TestCase
  | NoMatchingTestCases string

section \<open>The run context\<close>

text \<open>
  \<open>globalCount\<close> numbers the messages, \<open>uncaught\<close> says whether an exception is
  being propagated, and \<open>rng_seed\<close> is the last seed given to the generator.
\<close>

record 'g RunContext =
  m_runInfo :: string
  m_activeTestCase :: "TestCase option"
  m_testCaseTracker :: "path option"
  m_lastResult :: "AssertionResult option"
  m_config :: Config
  m_totals :: Totals
  m_reporter :: "event list"
  m_messages :: "MessageInfo list"
  m_messageScopes :: "MessageInfo list"
  m_lastAssertionInfo :: AssertionInfo
  m_unfinishedSections :: "SectionEndInfo list"
  m_activeSections :: "path list"
  m_trackerContext :: "'g TrackerContext"
  m_lastAssertionPassed :: bool
  m_shouldReportUnexpected :: bool
  m_includeSuccessfulResults :: bool
  globalCount :: u32
  uncaught :: bool
  rng_seed :: "u32 option"

definition report :: "event \<Rightarrow> 'g RunContext \<Rightarrow> 'g RunContext" where
  "report e c = c\<lparr>m_reporter := m_reporter c @ [e]\<rparr>"

definition RunContext_new :: "Config \<Rightarrow> bool \<Rightarrow> 'g RunContext" where
  "RunContext_new cfg shouldReportAllAssertions =
     report (TestRunStarting (Config_name cfg))
     \<lparr>m_runInfo = Config_name cfg, m_activeTestCase = None, m_testCaseTracker = None, m_lastResult = None,
      m_config = cfg, m_totals = Totals_new, m_reporter = [], m_messages = [], m_messageScopes = [],
      m_lastAssertionInfo = \<lparr>macroName = [], ai_lineInfo = \<lparr>sl_file = [], sl_line = 0\<rparr>, capturedExpression = [],
        resultDisposition = DispNormal\<rparr>,
      m_unfinishedSections = [], m_activeSections = [],
      m_trackerContext = \<lparr>m_rootTracker = None, m_currentTracker = None, m_ctxState = RunNotStarted\<rparr>,
      m_lastAssertionPassed = False, m_shouldReportUnexpected = True,
      m_includeSuccessfulResults = showSuccessfulTests (cfg_data cfg) \<or> shouldReportAllAssertions,
      globalCount = 0, uncaught = False, rng_seed = None\<rparr>"

definition aborting :: "'g RunContext \<Rightarrow> bool" where
  "aborting c \<longleftrightarrow> failed (assertions (m_totals c)) \<ge> of_int (abortAfter (cfg_data (m_config c)))"

definition RunContext_delete :: "'g RunContext \<Rightarrow> 'g RunContext" where
  "RunContext_delete c = report (TestRunEnded (m_runInfo c) (m_totals c) (aborting c)) c"

definition testGroupStarting :: "string \<Rightarrow> nat \<Rightarrow> nat \<Rightarrow> 'g RunContext \<Rightarrow> 'g RunContext" where
  "testGroupStarting spec i n c = report (TestGroupStarting \<lparr>gi_name = spec, groupIndex = i, groupsCounts = n\<rparr>) c"

definition testGroupEnded :: "string \<Rightarrow> Totals \<Rightarrow> nat \<Rightarrow> nat \<Rightarrow> 'g RunContext \<Rightarrow> 'g RunContext" where
  "testGroupEnded spec t i n c =
     report (TestGroupEnded \<lparr>gi_name = spec, groupIndex = i, groupsCounts = n\<rparr> t (aborting c)) c"

definition on_assertions :: "(Counts \<Rightarrow> Counts) \<Rightarrow> 'g RunContext \<Rightarrow> 'g RunContext" where
  "on_assertions f c = c\<lparr>m_totals := (m_totals c)\<lparr>assertions := f (assertions (m_totals c))\<rparr>\<rparr>"

definition pushScopedMessage :: "MessageInfo \<Rightarrow> 'g RunContext \<Rightarrow> 'g RunContext" where
  "pushScopedMessage m c = c\<lparr>m_messages := m_messages c @ [m]\<rparr>"

text \<open>Messages are compared by their sequence number.\<close>

definition popScopedMessage :: "MessageInfo \<Rightarrow> 'g RunContext \<Rightarrow> 'g RunContext" where
  "popScopedMessage m c = c\<lparr>m_messages := filter (\<lambda>x. sequence x \<noteq> sequence m) (m_messages c)\<rparr>"

text \<open>A new message takes the next sequence number.\<close>

definition MessageInfo_new ::
  "string \<Rightarrow> SourceLineInfo \<Rightarrow> ResultWas \<Rightarrow> 'g RunContext \<Rightarrow> MessageInfo \<times> 'g RunContext" where
  "MessageInfo_new macro li ty c =
     (let n = globalCount c + 1
      in (\<lparr>mi_macroName = macro, message = [], mi_lineInfo = li, mi_type = ty, sequence = n\<rparr>, c\<lparr>globalCount := n\<rparr>))"

definition ScopedMessage_new :: "MessageInfo \<Rightarrow> string \<Rightarrow> 'g RunContext \<Rightarrow> MessageInfo \<times> 'g RunContext" where
  "ScopedMessage_new info text c = (let m = info\<lparr>message := text\<rparr> in (m, pushScopedMessage m c))"

definition ScopedMessage_delete :: "MessageInfo \<Rightarrow> 'g RunContext \<Rightarrow> 'g RunContext" where
  "ScopedMessage_delete m c = (if \<not> uncaught c then popScopedMessage m c else c)"

definition emplaceUnscopedMessage :: "MessageInfo \<Rightarrow> string \<Rightarrow> 'g RunContext \<Rightarrow> 'g RunContext" where
  "emplaceUnscopedMessage info text c =
     (let (m, c) = ScopedMessage_new info text c in c\<lparr>m_messageScopes := m_messageScopes c @ [m]\<rparr>)"

text \<open>\<open>m_messageScopes.clear()\<close> runs the destructors of the scoped messages.\<close>

definition clear_scopes :: "'g RunContext \<Rightarrow> 'g RunContext" where
  "clear_scopes c = (fold ScopedMessage_delete (m_messageScopes c) c)\<lparr>m_messageScopes := []\<rparr>"

definition resetAssertionInfo :: "'g RunContext \<Rightarrow> 'g RunContext" where
  "resetAssertionInfo c =
     c\<lparr>m_lastAssertionInfo := (m_lastAssertionInfo c)\<lparr>macroName := [],
         capturedExpression := ''{Unknown expression after the reported line}''\<rparr>\<rparr>"

text \<open>The constructor of \<open>AssertionStats\<close> adds the message of the result as one more message.\<close>

definition AssertionStats_new ::
  "AssertionResult \<Rightarrow> 'g RunContext \<Rightarrow> AssertionStats \<times> 'g RunContext" where
  "AssertionStats_new r c =
     (if hasMessage r
      then let (m, c) = MessageInfo_new (macroName (ar_info r)) (ai_lineInfo (ar_info r)) (getResultType r) c
           in (\<lparr>as_result = r, infoMessages = m_messages c @ [m\<lparr>message := rd_message (m_resultData r)\<rparr>],
                as_totals = m_totals c\<rparr>, c)
      else (\<lparr>as_result = r, infoMessages = m_messages c, as_totals = m_totals c\<rparr>, c))"

definition assertionEnded :: "AssertionResult \<Rightarrow> 'g RunContext \<Rightarrow> 'g RunContext option" where
  "assertionEnded r c = do {
     c \<leftarrow> (if getResultType r = ResultOk then Some ((on_assertions add_passed c)\<lparr>m_lastAssertionPassed := True\<rparr>)
          else if \<not> AssertionResult_isOk r then do {
            tc \<leftarrow> m_activeTestCase c;
            let c = c\<lparr>m_lastAssertionPassed := False\<rparr>;
            Some (on_assertions (if okToFail tc then add_failedButOk else add_failed) c) }
          else Some (c\<lparr>m_lastAssertionPassed := True\<rparr>));
     let (stats, c) = AssertionStats_new r c;
     let c = report (AssertionEnded stats) c;
     let c = (if getResultType r \<noteq> ResultWarning then clear_scopes c else c);
     let c = resetAssertionInfo c;
     Some (c\<lparr>m_lastResult := Some (AssertionResult_copy r)\<rparr>) }"

definition assertionPassed :: "'g RunContext \<Rightarrow> 'g RunContext" where
  "assertionPassed c =
     (let c = c\<lparr>m_lastAssertionPassed := True\<rparr>; c = on_assertions add_passed c; c = resetAssertionInfo c
      in clear_scopes c)"

definition populateReaction :: "'g RunContext \<Rightarrow> AssertionReaction" where
  "populateReaction c =
     \<lparr>ar_shouldDebugBreak = shouldDebugBreak (cfg_data (m_config c)),
      shouldThrow = aborting c \<or> resultDisposition (m_lastAssertionInfo c) AND DispNormal \<noteq> 0\<rparr>"

definition reportExpr ::
  "AssertionInfo \<Rightarrow> ResultWas \<Rightarrow> TransientExpression option \<Rightarrow> bool \<Rightarrow> 'g RunContext \<Rightarrow> 'g RunContext option" where
  "reportExpr info ty expr negated c = do {
     let c = c\<lparr>m_lastAssertionInfo := info\<rparr>;
     let data = AssertionResultData_new ty (LazyExpression_new negated);
     let r = AssertionResult_new info data;
     let r = r\<lparr>m_resultData := (m_resultData r)\<lparr>lazyExpression :=
                (lazyExpression (m_resultData r))\<lparr>m_transientExpression := expr\<rparr>\<rparr>\<rparr>;
     assertionEnded r c }"

definition handleExpr ::
  "AssertionInfo \<Rightarrow> TransientExpression \<Rightarrow> AssertionReaction \<Rightarrow> 'g RunContext \<Rightarrow> (AssertionReaction \<times> 'g RunContext) option" where
  "handleExpr info expr reaction c = do {
     let c = report (AssertionStarting info) c;
     let negated = isFalseTest (resultDisposition info);
     let result = (getResult expr \<noteq> negated);
     if result
     then if \<not> m_includeSuccessfulResults c then Some (reaction, assertionPassed c)
          else map_option (Pair reaction) (reportExpr info ResultOk (Some expr) negated c)
     else do {
       c \<leftarrow> reportExpr info ExpressionFailed (Some expr) negated c;
       Some (populateReaction c, c) } }"

definition handleMessage ::
  "AssertionInfo \<Rightarrow> ResultWas \<Rightarrow> string \<Rightarrow> AssertionReaction \<Rightarrow> 'g RunContext \<Rightarrow> (AssertionReaction \<times> 'g RunContext) option" where
  "handleMessage info ty msg reaction c = do {
     let c = report (AssertionStarting info) c;
     let c = c\<lparr>m_lastAssertionInfo := info\<rparr>;
     let data = (AssertionResultData_new ty (LazyExpression_new False))\<lparr>rd_message := msg\<rparr>;
     let r = AssertionResult_new (m_lastAssertionInfo c) data;
     c \<leftarrow> assertionEnded r c;
     Some (if \<not> AssertionResult_isOk r then populateReaction c else reaction, c) }"

definition handleNonExpr ::
  "AssertionInfo \<Rightarrow> ResultWas \<Rightarrow> AssertionReaction \<Rightarrow> 'g RunContext \<Rightarrow> (AssertionReaction \<times> 'g RunContext) option" where
  "handleNonExpr info ty reaction c = do {
     let c = c\<lparr>m_lastAssertionInfo := info\<rparr>;
     let r = AssertionResult_new info (AssertionResultData_new ty (LazyExpression_new False));
     c \<leftarrow> assertionEnded r c;
     Some (if \<not> AssertionResult_isOk r then populateReaction c else reaction, c) }"

definition handleUnexpectedExceptionNotThrown ::
  "AssertionInfo \<Rightarrow> AssertionReaction \<Rightarrow> 'g RunContext \<Rightarrow> (AssertionReaction \<times> 'g RunContext) option" where
  "handleUnexpectedExceptionNotThrown info reaction c = handleNonExpr info DidntThrowException reaction c"

definition handleUnexpectedInflightException ::
  "AssertionInfo \<Rightarrow> string \<Rightarrow> 'g RunContext \<Rightarrow> (AssertionReaction \<times> 'g RunContext) option" where
  "handleUnexpectedInflightException info msg c = do {
     let c = c\<lparr>m_lastAssertionInfo := info\<rparr>;
     let data = (AssertionResultData_new ThrewException (LazyExpression_new False))\<lparr>rd_message := msg\<rparr>;
     c \<leftarrow> assertionEnded (AssertionResult_new info data) c;
     Some (populateReaction c, c) }"

definition handleIncomplete :: "AssertionInfo \<Rightarrow> 'g RunContext \<Rightarrow> 'g RunContext option" where
  "handleIncomplete info c = do {
     let c = c\<lparr>m_lastAssertionInfo := info\<rparr>;
     let data = (AssertionResultData_new ThrewException (LazyExpression_new False))
                  \<lparr>rd_message := ''Exception translation was disabled by CATCH_CONFIG_FAST_COMPILE''\<rparr>;
     assertionEnded (AssertionResult_new info data) c }"

end
