(* ===== verification/CatchRunTest.thy ===== *)
theory CatchRunTest
  imports CatchRun
begin

text \<open>
  Sections, assertion handlers and the loop over the cycles of a test case
  (\<open>RunContext\<close> of \<open>native/src/catch.hpp\<close>, second half).  The test function
  is user code: \<open>invoke\<close> maps a state of its own and the run context to the
  way it ended and the new states.
\<close>

section \<open>Sections\<close>

definition on_trackers :: "('g TrackerContext \<Rightarrow> 'g TrackerContext option) \<Rightarrow> 'g RunContext \<Rightarrow> 'g RunContext option" where
  "on_trackers f c = map_option (\<lambda>t. c\<lparr>m_trackerContext := t\<rparr>) (f (m_trackerContext c))"

definition sectionStarted :: "SectionInfo \<Rightarrow> Counts \<Rightarrow> 'g RunContext \<Rightarrow> (bool \<times> Counts \<times> 'g RunContext) option" where
  "sectionStarted info counts c = do {
     (p, t) \<leftarrow> SectionTracker_acquire \<lparr>nl_name = si_name info, nl_location = si_lineInfo info\<rparr> (m_trackerContext c);
     let c = c\<lparr>m_trackerContext := t\<rparr>;
     tr \<leftarrow> tracker_at p t;
     if \<not> isOpen tr then Some (False, counts, c)
     else do {
       let c = c\<lparr>m_activeSections := m_activeSections c @ [p]\<rparr>;
       let c = c\<lparr>m_lastAssertionInfo := (m_lastAssertionInfo c)\<lparr>ai_lineInfo := si_lineInfo info\<rparr>\<rparr>;
       let c = report (SectionStarting info) c;
       Some (True, assertions (m_totals c), c) } }"

definition acquireGeneratorTracker :: "SourceLineInfo \<Rightarrow> 'g RunContext \<Rightarrow> (path \<times> 'g RunContext) option" where
  "acquireGeneratorTracker li c = do {
     (p, t) \<leftarrow> GeneratorTracker_acquire \<lparr>nl_name = ''generator'', nl_location = li\<rparr> (m_trackerContext c);
     tr \<leftarrow> tracker_at p t;
     if isOpen tr
     then Some (p, c\<lparr>m_trackerContext := t, m_lastAssertionInfo := (m_lastAssertionInfo c)\<lparr>ai_lineInfo := li\<rparr>\<rparr>)
     else None }"

definition testForMissingAssertions :: "Counts \<Rightarrow> 'g RunContext \<Rightarrow> (bool \<times> Counts \<times> 'g RunContext) option" where
  "testForMissingAssertions counts c =
     (if Counts_total counts \<noteq> 0 then Some (False, counts, c)
      else if \<not> warnAboutMissingAssertions (m_config c) then Some (False, counts, c)
      else do {
        cur \<leftarrow> m_currentTracker (m_trackerContext c);
        t \<leftarrow> tracker_at cur (m_trackerContext c);
        if hasChildren t then Some (False, counts, c)
        else Some (True, add_failed counts, on_assertions add_failed c) })"

definition sectionEnded :: "('g \<Rightarrow> bool \<times> 'g) \<Rightarrow> SectionEndInfo \<Rightarrow> 'g RunContext \<Rightarrow> 'g RunContext option" where
  "sectionEnded next_item endInfo c = do {
     let counts = Counts_minus (assertions (m_totals c)) (prevAssertions endInfo);
     (missing, counts, c) \<leftarrow> testForMissingAssertions counts c;
     c \<leftarrow> (if m_activeSections c \<noteq> [] then do {
            c \<leftarrow> on_trackers (tracker_close next_item True (last (m_activeSections c))) c;
            Some (c\<lparr>m_activeSections := butlast (m_activeSections c)\<rparr>) }
          else Some c);
     let c = report (SectionEnded \<lparr>ss_info = sectionInfo endInfo, ss_assertions = counts, missingAssertions = missing\<rparr>) c;
     let c = c\<lparr>m_messages := []\<rparr>;
     Some (clear_scopes c) }"

definition sectionEndedEarly :: "('g \<Rightarrow> bool \<times> 'g) \<Rightarrow> SectionEndInfo \<Rightarrow> 'g RunContext \<Rightarrow> 'g RunContext option" where
  "sectionEndedEarly next_item endInfo c =
     (if m_activeSections c = [] then None
      else do {
        let p = last (m_activeSections c);
        c \<leftarrow> on_trackers (if m_unfinishedSections c = [] then tracker_fail p else tracker_close next_item True p) c;
        let c = c\<lparr>m_activeSections := butlast (m_activeSections c)\<rparr>;
        Some (c\<lparr>m_unfinishedSections := m_unfinishedSections c @ [endInfo]\<rparr>) })"

text \<open>The object behind the macro \<open>SECTION\<close>.\<close>

record Section =
  sec_info :: SectionInfo
  sec_assertions :: Counts
  m_sectionIncluded :: bool

definition Section_new :: "SectionInfo \<Rightarrow> 'g RunContext \<Rightarrow> (Section \<times> 'g RunContext) option" where
  "Section_new info c = do {
     (inc, counts, c) \<leftarrow> sectionStarted info Counts_new c;
     Some (\<lparr>sec_info = info, sec_assertions = counts, m_sectionIncluded = inc\<rparr>, c) }"

definition Section_delete :: "('g \<Rightarrow> bool \<times> 'g) \<Rightarrow> Section \<Rightarrow> 'g RunContext \<Rightarrow> 'g RunContext option" where
  "Section_delete next_item s c =
     (if m_sectionIncluded s
      then let endInfo = \<lparr>sectionInfo = sec_info s, prevAssertions = sec_assertions s\<rparr>
           in if uncaught c then sectionEndedEarly next_item endInfo c else sectionEnded next_item endInfo c
      else Some c)"

fun end_sections :: "('g \<Rightarrow> bool \<times> 'g) \<Rightarrow> SectionEndInfo list \<Rightarrow> 'g RunContext \<Rightarrow> 'g RunContext option" where
  "end_sections next_item [] c = Some c"
| "end_sections next_item (e # es) c = do { c \<leftarrow> sectionEnded next_item e c; end_sections next_item es c }"

definition handleUnfinishedSections :: "('g \<Rightarrow> bool \<times> 'g) \<Rightarrow> 'g RunContext \<Rightarrow> 'g RunContext option" where
  "handleUnfinishedSections next_item c = do {
     c \<leftarrow> end_sections next_item (rev (m_unfinishedSections c)) c;
     Some (c\<lparr>m_unfinishedSections := []\<rparr>) }"

section \<open>Assertion handlers\<close>

record AssertionHandler =
  m_assertionInfo :: AssertionInfo
  m_reaction :: AssertionReaction
  m_completed :: bool

definition AssertionHandler_new :: "string \<Rightarrow> SourceLineInfo \<Rightarrow> string \<Rightarrow> int \<Rightarrow> AssertionHandler" where
  "AssertionHandler_new macro li expr disposition =
     \<lparr>m_assertionInfo = \<lparr>macroName = macro, ai_lineInfo = li, capturedExpression = expr, resultDisposition = disposition\<rparr>,
      m_reaction = \<lparr>ar_shouldDebugBreak = False, shouldThrow = False\<rparr>, m_completed = False\<rparr>"

definition AssertionHandler_handleExpr ::
  "TransientExpression \<Rightarrow> AssertionHandler \<Rightarrow> 'g RunContext \<Rightarrow> (AssertionHandler \<times> 'g RunContext) option" where
  "AssertionHandler_handleExpr expr h c =
     map_option (\<lambda>(r, c). (h\<lparr>m_reaction := r\<rparr>, c)) (handleExpr (m_assertionInfo h) expr (m_reaction h) c)"

definition AssertionHandler_handleMessage ::
  "ResultWas \<Rightarrow> string \<Rightarrow> AssertionHandler \<Rightarrow> 'g RunContext \<Rightarrow> (AssertionHandler \<times> 'g RunContext) option" where
  "AssertionHandler_handleMessage ty msg h c =
     map_option (\<lambda>(r, c). (h\<lparr>m_reaction := r\<rparr>, c)) (handleMessage (m_assertionInfo h) ty msg (m_reaction h) c)"

definition AssertionHandler_handleNonExpr ::
  "AssertionHandler \<Rightarrow> 'g RunContext \<Rightarrow> (AssertionHandler \<times> 'g RunContext) option" where
  "AssertionHandler_handleNonExpr h c =
     map_option (\<lambda>(r, c). (h\<lparr>m_reaction := r\<rparr>, c)) (handleNonExpr (m_assertionInfo h) ResultOk (m_reaction h) c)"

definition AssertionHandler_handleUnexpectedInflightException ::
  "string \<Rightarrow> AssertionHandler \<Rightarrow> 'g RunContext \<Rightarrow> (AssertionHandler \<times> 'g RunContext) option" where
  "AssertionHandler_handleUnexpectedInflightException translated h c =
     map_option (\<lambda>(r, c). (h\<lparr>m_reaction := r\<rparr>, c)) (handleUnexpectedInflightException (m_assertionInfo h) translated c)"

definition AssertionHandler_handleUnexpectedExceptionNotThrown ::
  "AssertionHandler \<Rightarrow> 'g RunContext \<Rightarrow> (AssertionHandler \<times> 'g RunContext) option" where
  "AssertionHandler_handleUnexpectedExceptionNotThrown h c =
     map_option (\<lambda>(r, c). (h\<lparr>m_reaction := r\<rparr>, c)) (handleUnexpectedExceptionNotThrown (m_assertionInfo h) (m_reaction h) c)"

text \<open>\<open>complete\<close> says whether it throws \<open>TestFailureException\<close>.\<close>

definition AssertionHandler_complete :: "AssertionHandler \<Rightarrow> bool \<times> AssertionHandler" where
  "AssertionHandler_complete h = (let h = h\<lparr>m_completed := True\<rparr> in (shouldThrow (m_reaction h), h))"

definition AssertionHandler_delete :: "AssertionHandler \<Rightarrow> 'g RunContext \<Rightarrow> 'g RunContext option" where
  "AssertionHandler_delete h c = (if \<not> m_completed h then handleIncomplete (m_assertionInfo h) c else Some c)"

section \<open>Running a test case\<close>

datatype outcome = Returned | TestFailure | OtherException string

type_synonym ('u, 'g) invoker = "'u \<Rightarrow> 'g RunContext \<Rightarrow> (outcome \<times> 'u \<times> 'g RunContext) option"

text \<open>What \<open>runCurrentTest\<close> does before the test function, and with an exception out of it.\<close>

definition prepare_test :: "TestCase \<Rightarrow> 'g RunContext \<Rightarrow> 'g RunContext" where
  "prepare_test tc c =
     (let c = report (SectionStarting \<lparr>si_name = name tc, si_lineInfo = lineInfo tc\<rparr>) c;
          c = c\<lparr>m_shouldReportUnexpected := True\<rparr>;
          c = c\<lparr>m_lastAssertionInfo := \<lparr>macroName = ''TEST_CASE'', ai_lineInfo = lineInfo tc, capturedExpression = [],
                resultDisposition = DispNormal\<rparr>\<rparr>
      in if rngSeed (cfg_data (m_config c)) \<noteq> 0 then c\<lparr>rng_seed := Some (rngSeed (cfg_data (m_config c)))\<rparr> else c)"

definition catch_outcome :: "outcome \<Rightarrow> 'g RunContext \<Rightarrow> 'g RunContext option" where
  "catch_outcome out c = (case out of
     Returned \<Rightarrow> Some c
   | TestFailure \<Rightarrow> Some c
   | OtherException msg \<Rightarrow>
       if m_shouldReportUnexpected c
       then map_option snd (handleUnexpectedInflightException (m_lastAssertionInfo c) msg c) else Some c)"

definition runCurrentTest ::
  "('g \<Rightarrow> bool \<times> 'g) \<Rightarrow> ('u, 'g) invoker \<Rightarrow> 'u \<Rightarrow> 'g RunContext \<Rightarrow> ('u \<times> 'g RunContext) option" where
  "runCurrentTest next_item invoke u c = do {
     tc \<leftarrow> m_activeTestCase c;
     let c = prepare_test tc c;
     let prev = assertions (m_totals c);
     (out, u, c) \<leftarrow> invoke u c;
     c \<leftarrow> catch_outcome out c;
     let counts = Counts_minus (assertions (m_totals c)) prev;
     (missing, counts, c) \<leftarrow> testForMissingAssertions counts c;
     p \<leftarrow> m_testCaseTracker c;
     c \<leftarrow> on_trackers (tracker_close next_item True p) c;
     c \<leftarrow> handleUnfinishedSections next_item c;
     let c = c\<lparr>m_messages := []\<rparr>;
     let c = clear_scopes c;
     Some (u, report (SectionEnded \<lparr>ss_info = \<lparr>si_name = name tc, si_lineInfo = lineInfo tc\<rparr>, ss_assertions = counts,
       missingAssertions = missing\<rparr>) c) }"

text \<open>The loop of \<open>runTest\<close>; \<open>None\<close> also when it does not end.\<close>

partial_function (option) test_cycles ::
  "('g \<Rightarrow> bool \<times> 'g) \<Rightarrow> ('u, 'g) invoker \<Rightarrow> NameAndLocation \<Rightarrow> 'u \<Rightarrow> 'g RunContext \<Rightarrow> ('u \<times> 'g RunContext) option" where
  "test_cycles next_item invoke nl u c = do {
     let t = startCycle (m_trackerContext c);
     (p, t) \<leftarrow> SectionTracker_acquire nl t;
     let c = c\<lparr>m_trackerContext := t, m_testCaseTracker := Some p\<rparr>;
     (u, c) \<leftarrow> runCurrentTest next_item invoke u c;
     tr \<leftarrow> tracker_at p (m_trackerContext c);
     if \<not> isSuccessfullyCompleted tr \<and> \<not> aborting c then test_cycles next_item invoke nl u c else Some (u, c) }"

declare test_cycles.simps [code]

definition runTest ::
  "('g \<Rightarrow> bool \<times> 'g) \<Rightarrow> ('u, 'g) invoker \<Rightarrow> SourceLineInfo \<Rightarrow> TestCase \<Rightarrow> 'u \<Rightarrow> 'g RunContext \<Rightarrow>
     (Totals \<times> 'u \<times> 'g RunContext) option" where
  "runTest next_item invoke here tc u c = do {
     let prevTotals = m_totals c;
     let c = report (TestCaseStarting tc) c;
     let c = c\<lparr>m_activeTestCase := Some tc\<rparr>;
     let c = c\<lparr>m_trackerContext := update_at [] (addInitialFilters (sectionsToRun (cfg_data (m_config c))))
                 (startRun here (m_trackerContext c))\<rparr>;
     (u, c) \<leftarrow> test_cycles next_item invoke \<lparr>nl_name = name tc, nl_location = lineInfo tc\<rparr> u c;
     let d = Totals_delta (m_totals c) prevTotals;
     let d = (if expectedToFail tc \<and> passed (testCases d) > 0
              then d\<lparr>assertions := add_failed (assertions d),
                     testCases := add_failed ((testCases d)\<lparr>passed := passed (testCases d) - 1\<rparr>)\<rparr>
              else d);
     let c = c\<lparr>m_totals := (m_totals c)\<lparr>testCases := Counts_plus (testCases (m_totals c)) (testCases d)\<rparr>\<rparr>;
     let c = report (TestCaseEnded tc d (aborting c)) c;
     Some (d, u, c\<lparr>m_activeTestCase := None, m_testCaseTracker := None\<rparr>) }"

definition handleFatalErrorCondition :: "('g \<Rightarrow> bool \<times> 'g) \<Rightarrow> string \<Rightarrow> 'g RunContext \<Rightarrow> 'g RunContext option" where
  "handleFatalErrorCondition next_item msg c = do {
     let c = report (FatalErrorEncountered msg) c;
     let data = (AssertionResultData_new FatalErrorCondition (LazyExpression_new False))\<lparr>rd_message := msg\<rparr>;
     c \<leftarrow> assertionEnded (AssertionResult_new (m_lastAssertionInfo c) data) c;
     c \<leftarrow> handleUnfinishedSections next_item c;
     tc \<leftarrow> m_activeTestCase c;
     let info = \<lparr>si_name = name tc, si_lineInfo = lineInfo tc\<rparr>;
     let c = report (SectionEnded \<lparr>ss_info = info, ss_assertions = add_failed Counts_new, missingAssertions = False\<rparr>) c;
     let d = Totals_new\<lparr>testCases := add_failed Counts_new, assertions := add_failed Counts_new\<rparr>;
     let c = report (TestCaseEnded tc d False) c;
     let c = c\<lparr>m_totals := (m_totals c)\<lparr>testCases := add_failed (testCases (m_totals c))\<rparr>\<rparr>;
     let c = testGroupEnded [] (m_totals c) 1 1 c;
     Some (report (TestRunEnded (m_runInfo c) (m_totals c) False) c) }"

definition getCurrentTestName :: "'g RunContext \<Rightarrow> string" where
  "getCurrentTestName c = (case m_activeTestCase c of Some tc \<Rightarrow> name tc | None \<Rightarrow> [])"

definition exceptionEarlyReported :: "'g RunContext \<Rightarrow> 'g RunContext" where
  "exceptionEarlyReported c = c\<lparr>m_shouldReportUnexpected := False\<rparr>"

end
