(* ===== verification/CatchGenerators.thy ===== *)
theory CatchGenerators
  imports NvmPrelude
begin

text \<open>
  The value generators of the unit test framework (\<open>native/src/catch.hpp\<close>,
  \<open>catch_generators\<close>).  A generator class is the record of its two virtual
  functions on the type of its members; a generator that wraps another takes the
  record of the wrapped one, whose members are one of its own.  \<open>get\<close> returns
  the generator as well, because \<open>RepeatGenerator::get\<close> changes a
  \<open>mutable\<close> member.  \<open>None\<close> is an undefined operation, a failed
  assertion or a loop that does not end; a constructor that throws a
  \<open>GeneratorException\<close> gives the message as \<open>Inl\<close>.
\<close>

record ('s, 'a) IGenerator =
  get_elem :: "'s \<Rightarrow> ('a \<times> 's) option"
  next_elem :: "'s \<Rightarrow> (bool \<times> 's) option"

section \<open>Values\<close>

definition SingleValueGenerator :: "('a, 'a) IGenerator" where
  "SingleValueGenerator = \<lparr>get_elem = (\<lambda>v. Some (v, v)), next_elem = (\<lambda>v. Some (False, v))\<rparr>"

record 'a FixedValues =
  fv_values :: "'a list"
  fv_idx :: nat

definition FixedValuesGenerator :: "('a FixedValues, 'a) IGenerator" where
  "FixedValuesGenerator =
     \<lparr>get_elem = (\<lambda>g. if fv_idx g < length (fv_values g) then Some (fv_values g ! fv_idx g, g) else None),
      next_elem = (\<lambda>g. let g = g\<lparr>fv_idx := fv_idx g + 1\<rparr> in Some (fv_idx g < length (fv_values g), g))\<rparr>"

definition FixedValues_new :: "'a list \<Rightarrow> 'a FixedValues" where
  "FixedValues_new vs = \<lparr>fv_values = vs, fv_idx = 0\<rparr>"

section \<open>Sequences of generators\<close>

record 's Generators =
  gs_generators :: "'s list"
  gs_current :: nat

definition Generators_new :: "'s list \<Rightarrow> 's Generators" where
  "Generators_new gs = \<lparr>gs_generators = gs, gs_current = 0\<rparr>"

definition Generators_get :: "('s, 'a) IGenerator \<Rightarrow> 's Generators \<Rightarrow> ('a \<times> 's Generators) option" where
  "Generators_get G g =
     (if gs_current g < length (gs_generators g) then do {
        (x, h) \<leftarrow> get_elem G (gs_generators g ! gs_current g);
        Some (x, g\<lparr>gs_generators := (gs_generators g)[gs_current g := h]\<rparr>)
      }
      else None)"

definition Generators_next :: "('s, 'a) IGenerator \<Rightarrow> 's Generators \<Rightarrow> (bool \<times> 's Generators) option" where
  "Generators_next G g =
     (if gs_current g \<ge> length (gs_generators g) then Some (False, g)
      else do {
        (current_status, h) \<leftarrow> next_elem G (gs_generators g ! gs_current g);
        let g = g\<lparr>gs_generators := (gs_generators g)[gs_current g := h]\<rparr>;
        let g = (if \<not> current_status then g\<lparr>gs_current := gs_current g + 1\<rparr> else g);
        Some (gs_current g < length (gs_generators g), g)
      })"

definition Generators :: "('s, 'a) IGenerator \<Rightarrow> ('s Generators, 'a) IGenerator" where
  "Generators G = \<lparr>get_elem = Generators_get G, next_elem = Generators_next G\<rparr>"

section \<open>\<open>TakeGenerator\<close>\<close>

record 's TakeGen =
  tk_generator :: 's
  tk_returned :: nat
  tk_target :: nat

text \<open>The assertion of the constructor refuses a target of zero.\<close>

definition TakeGenerator_new :: "nat \<Rightarrow> 's \<Rightarrow> 's TakeGen option" where
  "TakeGenerator_new target g =
     (if target \<noteq> 0 then Some \<lparr>tk_generator = g, tk_returned = 0, tk_target = target\<rparr> else None)"

definition Take_get :: "('s, 'a) IGenerator \<Rightarrow> 's TakeGen \<Rightarrow> ('a \<times> 's TakeGen) option" where
  "Take_get G g = map_option (\<lambda>(x, h). (x, g\<lparr>tk_generator := h\<rparr>)) (get_elem G (tk_generator g))"

definition Take_next :: "('s, 'a) IGenerator \<Rightarrow> 's TakeGen \<Rightarrow> (bool \<times> 's TakeGen) option" where
  "Take_next G g0 =
     (let g = g0\<lparr>tk_returned := tk_returned g0 + 1\<rparr>
      in if tk_returned g \<ge> tk_target g then Some (False, g)
         else do {
           (success, h) \<leftarrow> next_elem G (tk_generator g);
           let g = g\<lparr>tk_generator := h\<rparr>;
           Some (success, if \<not> success then g\<lparr>tk_returned := tk_target g\<rparr> else g)
         })"

definition TakeGenerator :: "('s, 'a) IGenerator \<Rightarrow> ('s TakeGen, 'a) IGenerator" where
  "TakeGenerator G = \<lparr>get_elem = Take_get G, next_elem = Take_next G\<rparr>"

section \<open>\<open>FilterGenerator\<close>\<close>

text \<open>
  The predicate is a member that never changes, so it is an argument.  The loop
  of \<open>next\<close> reads on until an element passes; it does not end on an endless
  generator without such an element.
\<close>

partial_function (option) filter_loop ::
    "('a \<Rightarrow> bool) \<Rightarrow> ('s, 'a) IGenerator \<Rightarrow> 's \<Rightarrow> (bool \<times> 's) option" where
  "filter_loop P G s =
     (case get_elem G s of
        None \<Rightarrow> None
      | Some (x, s) \<Rightarrow>
          if P x then Some (True, s)
          else (case next_elem G s of
                  None \<Rightarrow> None
                | Some (success, s) \<Rightarrow> if success then filter_loop P G s else Some (False, s)))"

declare filter_loop.simps [code]

definition Filter_next :: "('a \<Rightarrow> bool) \<Rightarrow> ('s, 'a) IGenerator \<Rightarrow> 's \<Rightarrow> (bool \<times> 's) option" where
  "Filter_next P G s = do {
     (success, s) \<leftarrow> next_elem G s;
     if \<not> success then Some (False, s) else filter_loop P G s
   }"

definition FilterGenerator_new :: "('a \<Rightarrow> bool) \<Rightarrow> ('s, 'a) IGenerator \<Rightarrow> 's \<Rightarrow> (string + 's) option" where
  "FilterGenerator_new P G s = do {
     (x, s) \<leftarrow> get_elem G s;
     if \<not> P x then do {
       (has_initial_value, s) \<leftarrow> Filter_next P G s;
       Some (if \<not> has_initial_value then Inl ''No valid value found in filtered generator'' else Inr s)
     }
     else Some (Inr s)
   }"

definition FilterGenerator :: "('a \<Rightarrow> bool) \<Rightarrow> ('s, 'a) IGenerator \<Rightarrow> ('s, 'a) IGenerator" where
  "FilterGenerator P G = \<lparr>get_elem = get_elem G, next_elem = Filter_next P G\<rparr>"

section \<open>\<open>RepeatGenerator\<close>\<close>

record ('s, 'a) RepeatGen =
  rp_generator :: 's
  rp_returned :: "'a list"
  rp_target_repeats :: nat
  rp_current_repeat :: nat
  rp_repeat_index :: nat

definition RepeatGenerator_new :: "nat \<Rightarrow> 's \<Rightarrow> ('s, 'a) RepeatGen option" where
  "RepeatGenerator_new repeats g =
     (if repeats > 0
      then Some \<lparr>rp_generator = g, rp_returned = [], rp_target_repeats = repeats,
                 rp_current_repeat = 0, rp_repeat_index = 0\<rparr>
      else None)"

definition Repeat_get :: "('s, 'a) IGenerator \<Rightarrow> ('s, 'a) RepeatGen \<Rightarrow> ('a \<times> ('s, 'a) RepeatGen) option" where
  "Repeat_get G g =
     (if rp_current_repeat g = 0 then do {
        (x, h) \<leftarrow> get_elem G (rp_generator g);
        Some (x, g\<lparr>rp_generator := h, rp_returned := rp_returned g @ [x]\<rparr>)
      }
      else if rp_repeat_index g < length (rp_returned g)
      then Some (rp_returned g ! rp_repeat_index g, g) else None)"

definition Repeat_next :: "('s, 'a) IGenerator \<Rightarrow> ('s, 'a) RepeatGen \<Rightarrow> (bool \<times> ('s, 'a) RepeatGen) option" where
  "Repeat_next G g0 =
     (if rp_current_repeat g0 = 0 then do {
        (success, h) \<leftarrow> next_elem G (rp_generator g0);
        let g = g0\<lparr>rp_generator := h\<rparr>;
        let g = (if \<not> success then g\<lparr>rp_current_repeat := rp_current_repeat g + 1\<rparr> else g);
        Some (rp_current_repeat g < rp_target_repeats g, g)
      }
      else
        (let g = g0\<lparr>rp_repeat_index := rp_repeat_index g0 + 1\<rparr>;
             g = (if rp_repeat_index g = length (rp_returned g)
                  then g\<lparr>rp_repeat_index := 0, rp_current_repeat := rp_current_repeat g + 1\<rparr> else g)
         in Some (rp_current_repeat g < rp_target_repeats g, g)))"

definition RepeatGenerator :: "('s, 'a) IGenerator \<Rightarrow> (('s, 'a) RepeatGen, 'a) IGenerator" where
  "RepeatGenerator G = \<lparr>get_elem = Repeat_get G, next_elem = Repeat_next G\<rparr>"

section \<open>\<open>MapGenerator\<close>\<close>

record ('s, 'b) MapGen =
  mp_generator :: 's
  mp_cache :: 'b

definition MapGenerator_new :: "('a \<Rightarrow> 'b) \<Rightarrow> ('s, 'a) IGenerator \<Rightarrow> 's \<Rightarrow> ('s, 'b) MapGen option" where
  "MapGenerator_new f G s = map_option (\<lambda>(x, s). \<lparr>mp_generator = s, mp_cache = f x\<rparr>) (get_elem G s)"

definition Map_next :: "('a \<Rightarrow> 'b) \<Rightarrow> ('s, 'a) IGenerator \<Rightarrow> ('s, 'b) MapGen \<Rightarrow> (bool \<times> ('s, 'b) MapGen) option" where
  "Map_next f G g = do {
     (success, s) \<leftarrow> next_elem G (mp_generator g);
     if success then do {
       (x, s) \<leftarrow> get_elem G s;
       Some (True, g\<lparr>mp_generator := s, mp_cache := f x\<rparr>)
     }
     else Some (False, g\<lparr>mp_generator := s\<rparr>)
   }"

definition MapGenerator :: "('a \<Rightarrow> 'b) \<Rightarrow> ('s, 'a) IGenerator \<Rightarrow> (('s, 'b) MapGen, 'b) IGenerator" where
  "MapGenerator f G = \<lparr>get_elem = (\<lambda>g. Some (mp_cache g, g)), next_elem = Map_next f G\<rparr>"

section \<open>\<open>ChunkGenerator\<close>\<close>

record ('s, 'a) ChunkGen =
  ck_chunk :: "'a list"
  ck_chunk_size :: nat
  ck_generator :: 's

text \<open>
  Both loops of the class, over \<open>n\<close> more elements: the elements read, and
  whether the generator had enough.
\<close>

fun read_chunk :: "('s, 'a) IGenerator \<Rightarrow> nat \<Rightarrow> 's \<Rightarrow> (bool \<times> 'a list \<times> 's) option" where
  "read_chunk G 0 s = Some (True, [], s)"
| "read_chunk G (Suc n) s = do {
     (more, s) \<leftarrow> next_elem G s;
     if \<not> more then Some (False, [], s)
     else do {
       (x, s) \<leftarrow> get_elem G s;
       (b, xs, s) \<leftarrow> read_chunk G n s;
       Some (b, x # xs, s)
     }
   }"

definition ChunkGenerator_new :: "nat \<Rightarrow> ('s, 'a) IGenerator \<Rightarrow> 's \<Rightarrow> (string + ('s, 'a) ChunkGen) option" where
  "ChunkGenerator_new n G s = do {
     (x, s) \<leftarrow> get_elem G s;
     (b, xs, s) \<leftarrow> read_chunk G (n - 1) s;
     Some (if b then Inr \<lparr>ck_chunk = x # xs, ck_chunk_size = n, ck_generator = s\<rparr>
           else Inl ''Not enough values to initialize the first chunk'')
   }"

definition Chunk_next :: "('s, 'a) IGenerator \<Rightarrow> ('s, 'a) ChunkGen \<Rightarrow> (bool \<times> ('s, 'a) ChunkGen) option" where
  "Chunk_next G g = do {
     (b, xs, s) \<leftarrow> read_chunk G (ck_chunk_size g) (ck_generator g);
     Some (b, g\<lparr>ck_chunk := xs, ck_generator := s\<rparr>)
   }"

definition ChunkGenerator :: "('s, 'a) IGenerator \<Rightarrow> (('s, 'a) ChunkGen, 'a list) IGenerator" where
  "ChunkGenerator G = \<lparr>get_elem = (\<lambda>g. Some (ck_chunk g, g)), next_elem = Chunk_next G\<rparr>"

section \<open>Ranges and random numbers\<close>

text \<open>The template instance for \<open>int\<close>, whose addition wraps around.\<close>

record RangeGen =
  rg_current :: int
  rg_end :: int
  rg_step :: int
  rg_positive :: bool

definition RangeGenerator_new :: "int \<Rightarrow> int \<Rightarrow> int \<Rightarrow> RangeGen option" where
  "RangeGenerator_new start fin step =
     (let positive = step > 0
      in if start \<noteq> fin \<and> step \<noteq> 0 \<and> (positive \<and> start \<le> fin \<or> \<not> positive \<and> start \<ge> fin)
         then Some \<lparr>rg_current = start, rg_end = fin, rg_step = step, rg_positive = positive\<rparr>
         else None)"

definition RangeGenerator_unit :: "int \<Rightarrow> int \<Rightarrow> RangeGen option" where
  "RangeGenerator_unit start fin = RangeGenerator_new start fin (if start < fin then 1 else - 1)"

definition Range_next :: "RangeGen \<Rightarrow> (bool \<times> RangeGen) option" where
  "Range_next g0 =
     (let g = g0\<lparr>rg_current := wrap32 (rg_current g0 + rg_step g0)\<rparr>
      in Some (if rg_positive g then rg_current g < rg_end g else rg_current g > rg_end g, g))"

definition RangeGenerator :: "(RangeGen, int) IGenerator" where
  "RangeGenerator = \<lparr>get_elem = (\<lambda>g. Some (rg_current g, g)), next_elem = Range_next\<rparr>"

text \<open>
  The engine and the distribution of the standard library are the argument
  \<open>draw\<close>: a number and the next state of the engine.
\<close>

record ('r, 'a) RandomGen =
  rn_rand :: 'r
  rn_current_number :: 'a

definition Random_next :: "('r \<Rightarrow> 'a \<times> 'r) \<Rightarrow> ('r, 'a) RandomGen \<Rightarrow> (bool \<times> ('r, 'a) RandomGen) option" where
  "Random_next draw g = (let (x, r) = draw (rn_rand g) in Some (True, g\<lparr>rn_rand := r, rn_current_number := x\<rparr>))"

definition RandomGenerator_new :: "('r \<Rightarrow> 'a \<times> 'r) \<Rightarrow> 'r \<Rightarrow> ('r, 'a) RandomGen" where
  "RandomGenerator_new draw seed = (let (x, r) = draw seed in \<lparr>rn_rand = r, rn_current_number = x\<rparr>)"

definition RandomGenerator :: "('r \<Rightarrow> 'a \<times> 'r) \<Rightarrow> (('r, 'a) RandomGen, 'a) IGenerator" where
  "RandomGenerator draw = \<lparr>get_elem = (\<lambda>g. Some (rn_current_number g, g)), next_elem = Random_next draw\<rparr>"

section \<open>The values a generator goes through\<close>

text \<open>
  \<open>yields G s xs\<close>: reading each element once, the generator delivers
  \<open>xs\<close> and then says that there are no more; \<open>awaits\<close> is the same after
  the current element has been read.
\<close>

fun yields :: "('s, 'a) IGenerator \<Rightarrow> 's \<Rightarrow> 'a list \<Rightarrow> bool" where
  "yields G s [] \<longleftrightarrow> False"
| "yields G s (x # xs) \<longleftrightarrow>
     (case get_elem G s of
        None \<Rightarrow> False
      | Some (y, s) \<Rightarrow> y = x \<and>
          (case next_elem G s of None \<Rightarrow> False | Some (b, s) \<Rightarrow> if xs = [] then \<not> b else b \<and> yields G s xs))"

definition awaits :: "('s, 'a) IGenerator \<Rightarrow> 's \<Rightarrow> 'a list \<Rightarrow> bool" where
  "awaits G s xs \<longleftrightarrow>
     (case next_elem G s of None \<Rightarrow> False | Some (b, s) \<Rightarrow> if xs = [] then \<not> b else b \<and> yields G s xs)"

lemma yields_Cons: "yields G s (x # xs) \<longleftrightarrow> (\<exists>s'. get_elem G s = Some (x, s') \<and> awaits G s' xs)"
  by (auto simp: awaits_def split: option.splits)

lemma awaits_Nil: "awaits G s [] \<longleftrightarrow> (\<exists>s'. next_elem G s = Some (False, s'))"
  by (auto simp: awaits_def split: option.splits)

lemma awaits_Cons: "awaits G s (x # xs) \<longleftrightarrow> (\<exists>s'. next_elem G s = Some (True, s') \<and> yields G s' (x # xs))"
  by (auto simp: awaits_def split: option.splits)

declare yields.simps(2) [simp del]

lemmas gen_unfold = yields_Cons awaits_Nil awaits_Cons

lemma yields_ne: "yields G s xs \<Longrightarrow> xs \<noteq> []"
  by auto

lemma yieldsE:
  assumes "yields G s xs"
  obtains x ys s' where "xs = x # ys" "get_elem G s = Some (x, s')" "awaits G s' ys"
  using assms by (cases xs) (auto simp: yields_Cons)

text \<open>
  \<open>visits m\<close>: every element is read \<open>m\<close> times before the generator
  moves on, as it happens when a test case runs \<open>m\<close> cycles for it.
\<close>

fun gets :: "nat \<Rightarrow> ('s, 'a) IGenerator \<Rightarrow> 's \<Rightarrow> 'a \<Rightarrow> 's option" where
  "gets 0 G s x = Some s"
| "gets (Suc m) G s x =
     (case get_elem G s of None \<Rightarrow> None | Some (y, s) \<Rightarrow> if y = x then gets m G s x else None)"

fun visits :: "nat \<Rightarrow> ('s, 'a) IGenerator \<Rightarrow> 's \<Rightarrow> 'a list \<Rightarrow> bool" where
  "visits m G s [] \<longleftrightarrow> False"
| "visits m G s (x # xs) \<longleftrightarrow>
     (case gets m G s x of
        None \<Rightarrow> False
      | Some s \<Rightarrow>
          (case next_elem G s of None \<Rightarrow> False | Some (b, s) \<Rightarrow> if xs = [] then \<not> b else b \<and> visits m G s xs))"

definition departs :: "nat \<Rightarrow> ('s, 'a) IGenerator \<Rightarrow> 's \<Rightarrow> 'a list \<Rightarrow> bool" where
  "departs m G s xs \<longleftrightarrow>
     (case next_elem G s of None \<Rightarrow> False | Some (b, s) \<Rightarrow> if xs = [] then \<not> b else b \<and> visits m G s xs)"

lemma visits_Cons: "visits m G s (x # xs) \<longleftrightarrow> (\<exists>s'. gets m G s x = Some s' \<and> departs m G s' xs)"
  by (auto simp: departs_def split: option.splits)

lemma departs_Nil: "departs m G s [] \<longleftrightarrow> (\<exists>s'. next_elem G s = Some (False, s'))"
  by (auto simp: departs_def split: option.splits)

lemma departs_Cons: "departs m G s (x # xs) \<longleftrightarrow> (\<exists>s'. next_elem G s = Some (True, s') \<and> visits m G s' (x # xs))"
  by (auto simp: departs_def split: option.splits)

declare visits.simps(2) [simp del]

lemma visits_1: "visits 1 G s xs = yields G s xs"
  by (induction xs arbitrary: s) (auto simp: yields.simps(2) visits.simps(2) split: option.splits)

subsection \<open>Single values and fixed values\<close>

lemma single_yields: "yields SingleValueGenerator v [v]"
  by (simp add: gen_unfold SingleValueGenerator_def)

lemma fixed_yields:
  "i < length vs \<Longrightarrow> yields FixedValuesGenerator \<lparr>fv_values = vs, fv_idx = i\<rparr> (drop i vs)"
proof (induction "length vs - i" arbitrary: i)
  case (Suc k)
  have d: "drop i vs = vs ! i # drop (Suc i) vs" using Suc.prems by (simp add: Cons_nth_drop_Suc)
  show ?case
  proof (cases "Suc i < length vs")
    case True
    with Suc have "yields FixedValuesGenerator \<lparr>fv_values = vs, fv_idx = Suc i\<rparr> (drop (Suc i) vs)" by simp
    with True Suc.prems show ?thesis
      unfolding d yields_Cons by (auto simp: awaits_def FixedValuesGenerator_def)
  next
    case False
    then show ?thesis using Suc.prems
      unfolding d yields_Cons by (simp add: awaits_def FixedValuesGenerator_def)
  qed
qed simp

lemma FixedValues_yields: "vs \<noteq> [] \<Longrightarrow> yields FixedValuesGenerator (FixedValues_new vs) vs"
  using fixed_yields [of 0 vs] by (simp add: FixedValues_new_def)

subsection \<open>Taking\<close>

lemma take_yields_from:
  assumes "yields G s xs" "r < n"
  shows "yields (TakeGenerator G) \<lparr>tk_generator = s, tk_returned = r, tk_target = n\<rparr> (take (n - r) xs)"
  using assms
proof (induction xs arbitrary: s r)
  case (Cons x xs)
  from Cons.prems(1) obtain s1 where s1: "get_elem G s = Some (x, s1)" "awaits G s1 xs" by (auto simp: yields_Cons)
  from Cons.prems(2) have t: "take (n - r) (x # xs) = x # take (n - Suc r) xs" by (simp add: take_Cons' diff_Suc split: nat.splits)
  have g: "get_elem (TakeGenerator G) \<lparr>tk_generator = s, tk_returned = r, tk_target = n\<rparr>
      = Some (x, \<lparr>tk_generator = s1, tk_returned = r, tk_target = n\<rparr>)"
    by (simp add: TakeGenerator_def Take_get_def s1)
  have "awaits (TakeGenerator G) \<lparr>tk_generator = s1, tk_returned = r, tk_target = n\<rparr> (take (n - Suc r) xs)"
  proof (cases "Suc r < n \<and> xs \<noteq> []")
    case True
    then obtain y ys where xs: "xs = y # ys" by (cases xs) auto
    with s1(2) obtain s2 where s2: "next_elem G s1 = Some (True, s2)" "yields G s2 xs" by (auto simp: awaits_Cons)
    from Cons.IH [OF s2(2)] True show ?thesis
      by (auto simp: awaits_def TakeGenerator_def Take_next_def s2(1) Let_def)
  next
    case False
    then consider "n = Suc r" | "Suc r < n" "xs = []" using Cons.prems(2) by linarith
    then show ?thesis
      using s1(2) by cases (auto simp: awaits_def TakeGenerator_def Take_next_def Let_def split: option.splits)
  qed
  then show ?case unfolding t yields_Cons using g by blast
qed simp

lemma TakeGenerator_yields:
  "yields G s xs \<Longrightarrow> n \<noteq> 0 \<Longrightarrow>
   \<exists>g. TakeGenerator_new n s = Some g \<and> yields (TakeGenerator G) g (take n xs)"
  using take_yields_from [of G s xs 0 n] by (simp add: TakeGenerator_new_def)

subsection \<open>Mapping\<close>

lemma map_yields_from:
  "awaits G s xs \<Longrightarrow> yields (MapGenerator f G) \<lparr>mp_generator = s, mp_cache = f x\<rparr> (map f (x # xs))"
proof (induction xs arbitrary: s x)
  case Nil
  then show ?case by (auto simp: gen_unfold MapGenerator_def Map_next_def)
next
  case (Cons y ys)
  then obtain s1 s2 where "next_elem G s = Some (True, s1)" "get_elem G s1 = Some (y, s2)" "awaits G s2 ys"
    by (auto simp: gen_unfold)
  with Cons.IH [of s2 y] show ?case
    by (simp add: yields_Cons [of _ _ "f x"] awaits_Cons MapGenerator_def Map_next_def)
qed

lemma MapGenerator_yields:
  "yields G s xs \<Longrightarrow> \<exists>g. MapGenerator_new f G s = Some g \<and> yields (MapGenerator f G) g (map f xs)"
  by (elim yieldsE) (use map_yields_from in \<open>auto simp: MapGenerator_new_def\<close>)

subsection \<open>Chunks\<close>

function chunks :: "nat \<Rightarrow> 'a list \<Rightarrow> 'a list list" where
  "chunks n xs = (if n = 0 \<or> length xs < n then [] else take n xs # chunks n (drop n xs))"
  by pat_completeness auto
termination
  by (relation "measure (length \<circ> snd)") auto

declare chunks.simps [simp del]

lemma read_chunk_eq:
  "awaits G s xs \<Longrightarrow>
   (if n \<le> length xs then \<exists>s'. read_chunk G n s = Some (True, take n xs, s') \<and> awaits G s' (drop n xs)
    else \<exists>s'. read_chunk G n s = Some (False, xs, s'))"
proof (induction n arbitrary: s xs)
  case (Suc n)
  show ?case
  proof (cases xs)
    case Nil
    with Suc.prems show ?thesis by (auto simp: awaits_Nil)
  next
    case (Cons y ys)
    with Suc.prems obtain s1 s2 where s: "next_elem G s = Some (True, s1)" "get_elem G s1 = Some (y, s2)" "awaits G s2 ys"
      by (auto simp: gen_unfold)
    from Suc.IH [OF s(3)] s Cons show ?thesis by (auto split: if_splits)
  qed
qed simp

lemma chunk_yields_from:
  assumes "awaits G s xs" "0 < n"
  shows "yields (ChunkGenerator G) \<lparr>ck_chunk = c, ck_chunk_size = n, ck_generator = s\<rparr> (c # chunks n xs)"
  using assms
proof (induction n xs arbitrary: s c rule: chunks.induct)
  case (1 n xs)
  have g: "get_elem (ChunkGenerator G) \<lparr>ck_chunk = c, ck_chunk_size = n, ck_generator = s\<rparr> =
      Some (c, \<lparr>ck_chunk = c, ck_chunk_size = n, ck_generator = s\<rparr>)" by (simp add: ChunkGenerator_def)
  show ?case
  proof (cases "length xs < n")
    case True
    then have "chunks n xs = []" by (simp add: chunks.simps)
    with True g read_chunk_eq [OF "1.prems"(1), of n] show ?thesis
      by (auto simp: yields_Cons awaits_Nil ChunkGenerator_def Chunk_next_def)
  next
    case False
    then obtain s' where s': "read_chunk G n s = Some (True, take n xs, s')" "awaits G s' (drop n xs)"
      using read_chunk_eq [OF "1.prems"(1), of n] by auto
    have "chunks n xs = take n xs # chunks n (drop n xs)" using False "1.prems"(2) by (subst chunks.simps) simp
    with "1.IH" [of s' "take n xs"] s' False "1.prems"(2) g show ?thesis
      by (simp add: yields_Cons [of _ _ c] awaits_Cons) (simp add: ChunkGenerator_def Chunk_next_def)
  qed
qed

lemma ChunkGenerator_yields:
  assumes "yields G s xs" "0 < n"
  shows "if length xs < n
    then ChunkGenerator_new n G s = Some (Inl ''Not enough values to initialize the first chunk'')
    else \<exists>g. ChunkGenerator_new n G s = Some (Inr g) \<and> yields (ChunkGenerator G) g (chunks n xs)"
proof -
  from assms(1) obtain x ys s1 where xs: "xs = x # ys" and s1: "get_elem G s = Some (x, s1)" "awaits G s1 ys"
    by (rule yieldsE)
  obtain m where n: "n = Suc m" using assms(2) by (cases n) auto
  from read_chunk_eq [OF s1(2), of m] show ?thesis
  proof (cases "m \<le> length ys")
    case True
    with read_chunk_eq [OF s1(2), of m] obtain s' where s': "read_chunk G m s1 = Some (True, take m ys, s')"
      "awaits G s' (drop m ys)" by auto
    have "chunks n xs = take n xs # chunks n (drop n xs)" using True xs n by (subst chunks.simps) simp
    with chunk_yields_from [OF s'(2) assms(2), of "take n xs"] s' s1 True xs n show ?thesis
      by (auto simp: ChunkGenerator_new_def)
  qed (auto simp: ChunkGenerator_new_def s1 xs n)
qed

subsection \<open>Repeating\<close>

lemma gets_same: "get_elem G s = Some (x, s) \<Longrightarrow> gets m G s x = Some s"
  by (induction m) simp_all

lemma repeat_visits_cached:
  assumes "0 < c" "c < n" "i < length ys"
  shows "visits m (RepeatGenerator G)
    \<lparr>rp_generator = s, rp_returned = ys, rp_target_repeats = n, rp_current_repeat = c, rp_repeat_index = i\<rparr>
    (drop i ys @ concat (replicate (n - Suc c) ys))"
  using assms
proof (induction "(n - c) * length ys - i" arbitrary: c i rule: less_induct)
  case less
  let ?st = "\<lambda>c i. \<lparr>rp_generator = s, rp_returned = ys, rp_target_repeats = n, rp_current_repeat = c, rp_repeat_index = i\<rparr>"
  have d: "drop i ys = ys ! i # drop (Suc i) ys" using less.prems by (simp add: Cons_nth_drop_Suc)
  have "get_elem (RepeatGenerator G) (?st c i) = Some (ys ! i, ?st c i)"
    using less.prems by (simp add: RepeatGenerator_def Repeat_get_def)
  then have g: "gets m (RepeatGenerator G) (?st c i) (ys ! i) = Some (?st c i)" by (rule gets_same)
  have "1 * length ys \<le> (n - c) * length ys" using less.prems by (intro mult_le_mono1) linarith
  then have pos: "length ys \<le> (n - c) * length ys" by simp
  have "departs m (RepeatGenerator G) (?st c i) (drop (Suc i) ys @ concat (replicate (n - Suc c) ys))"
  proof (cases "Suc i < length ys")
    case True
    have "(n - c) * length ys - Suc i < (n - c) * length ys - i" using True pos by linarith
    from less.hyps [OF this less.prems(1,2) True] True less.prems show ?thesis
      by (auto simp: departs_def RepeatGenerator_def Repeat_next_def Let_def)
  next
    case False
    then have i: "Suc i = length ys" using less.prems by simp
    show ?thesis
    proof (cases "Suc c < n")
      case True
      then have r: "replicate (n - Suc c) ys = ys # replicate (n - Suc (Suc c)) ys"
        by (metis Suc_diff_Suc replicate_Suc)
      have "(n - c) * length ys = (n - Suc c) * length ys + length ys"
        using True by (metis Suc_diff_Suc Suc_lessD add.commute mult_Suc)
      then have "(n - Suc c) * length ys - 0 < (n - c) * length ys - i" using i by linarith
      from less.hyps [OF this _ True] True i less.prems r show ?thesis
        by (auto simp: departs_def RepeatGenerator_def Repeat_next_def Let_def)
    next
      case False
      then show ?thesis using less.prems i by (simp add: departs_def RepeatGenerator_def Repeat_next_def Let_def)
    qed
  qed
  with g show ?case unfolding d by (simp add: visits_Cons)
qed

lemma gets_repeat:
  assumes "gets m G s x = Some s'"
  shows "gets m (RepeatGenerator G)
      \<lparr>rp_generator = s, rp_returned = ys, rp_target_repeats = n, rp_current_repeat = 0, rp_repeat_index = 0\<rparr> x =
    Some \<lparr>rp_generator = s', rp_returned = ys @ replicate m x, rp_target_repeats = n,
      rp_current_repeat = 0, rp_repeat_index = 0\<rparr>"
  using assms
proof (induction m arbitrary: s ys)
  case (Suc m)
  then obtain s1 where s1: "get_elem G s = Some (x, s1)" "gets m G s1 x = Some s'"
    by (auto split: option.splits if_splits)
  from Suc.IH [OF s1(2), of "ys @ [x]"] s1(1) show ?case by (simp add: RepeatGenerator_def Repeat_get_def)
qed simp

lemma repeat_visits_reading:
  assumes "visits m G s xs" "0 < n" "0 < m"
  shows "visits m (RepeatGenerator G)
    \<lparr>rp_generator = s, rp_returned = ys, rp_target_repeats = n, rp_current_repeat = 0, rp_repeat_index = 0\<rparr>
    (xs @ concat (replicate (n - 1) (ys @ concat (map (replicate m) xs))))"
  using assms
proof (induction xs arbitrary: s ys)
  case (Cons x xs)
  note n = Cons.prems(2) and m = Cons.prems(3)
  let ?st = "\<lambda>s ys c. \<lparr>rp_generator = s, rp_returned = ys, rp_target_repeats = n, rp_current_repeat = c, rp_repeat_index = 0\<rparr>"
  let ?ys = "ys @ replicate m x"
  from Cons.prems(1) obtain s1 where s1: "gets m G s x = Some s1" "departs m G s1 xs" by (auto simp: visits_Cons)
  have "departs m (RepeatGenerator G) (?st s1 ?ys 0) (xs @ concat (replicate (n - 1) (?ys @ concat (map (replicate m) xs))))"
  proof (cases xs)
    case Nil
    with s1(2) obtain s2 where s2: "next_elem G s1 = Some (False, s2)" by (auto simp: departs_Nil)
    show ?thesis
    proof (cases "1 < n")
      case True
      then have "n - Suc 0 = Suc (n - Suc (Suc 0))" by linarith
      then have r: "replicate (n - Suc 0) ?ys = ?ys # replicate (n - Suc (Suc 0)) ?ys" by simp
      from repeat_visits_cached [of 1 n 0 ?ys m G s2] True s2 Nil m show ?thesis
        by (auto simp: departs_def RepeatGenerator_def Repeat_next_def Let_def r)
    next
      case False
      with s2 Nil n show ?thesis
        by (auto simp: departs_def RepeatGenerator_def Repeat_next_def Let_def)
    qed
  next
    case (Cons y zs)
    with s1(2) obtain s2 where s2: "next_elem G s1 = Some (True, s2)" "visits m G s2 xs" by (auto simp: departs_Cons)
    from Cons.IH [OF s2(2) n m, of ?ys] s2 Cons n show ?thesis
      by (simp add: departs_def RepeatGenerator_def Repeat_next_def Let_def)
  qed
  with gets_repeat [OF s1(1), of ys n] show ?case by (simp add: visits_Cons)
qed simp

lemma RepeatGenerator_visits:
  "visits m G s xs \<Longrightarrow> 0 < n \<Longrightarrow> 0 < m \<Longrightarrow>
   \<exists>g. RepeatGenerator_new n s = Some g \<and>
     visits m (RepeatGenerator G) g (xs @ concat (replicate (n - 1) (concat (map (replicate m) xs))))"
  using repeat_visits_reading [of m G s xs n "[]"] by (auto simp: RepeatGenerator_new_def)

lemma RepeatGenerator_yields:
  assumes "yields G s xs" "0 < n"
  shows "\<exists>g. RepeatGenerator_new n s = Some g \<and> yields (RepeatGenerator G) g (concat (replicate n xs))"
proof -
  have "concat (map (replicate 1) xs) = xs" by (induction xs) simp_all
  moreover have "concat (replicate n xs) = xs @ concat (replicate (n - 1) xs)" using assms(2) by (cases n) simp_all
  ultimately show ?thesis
    using RepeatGenerator_visits [of 1 G s xs n] assms unfolding visits_1 by simp
qed

subsection \<open>Sequences\<close>

lemma generators_yields_from:
  assumes "yields G g xs" "list_all2 (yields G) gs xss"
  shows "yields (Generators G) \<lparr>gs_generators = pre @ g # gs, gs_current = length pre\<rparr> (xs @ concat xss)"
  using assms
proof (induction "length xs + length (concat xss)" arbitrary: pre g gs xs xss rule: less_induct)
  case less
  from less.prems(1) obtain x ys g1 where xs: "xs = x # ys" and g1: "get_elem G g = Some (x, g1)" "awaits G g1 ys"
    by (rule yieldsE)
  have get: "get_elem (Generators G) \<lparr>gs_generators = pre @ g # gs, gs_current = length pre\<rparr> =
      Some (x, \<lparr>gs_generators = pre @ g1 # gs, gs_current = length pre\<rparr>)"
    by (simp add: Generators_def Generators_get_def g1)
  have "awaits (Generators G) \<lparr>gs_generators = pre @ g1 # gs, gs_current = length pre\<rparr> (ys @ concat xss)"
  proof (cases ys)
    case (Cons y zs)
    with g1(2) obtain g2 where g2: "next_elem G g1 = Some (True, g2)" "yields G g2 ys" by (auto simp: awaits_Cons)
    have "yields (Generators G) \<lparr>gs_generators = pre @ g2 # gs, gs_current = length pre\<rparr> (ys @ concat xss)"
      by (rule less.hyps [OF _ g2(2) less.prems(2)]) (simp add: xs)
    with g2 Cons show ?thesis by (auto simp: awaits_def Generators_def Generators_next_def Let_def)
  next
    case Nil
    with g1(2) obtain g2 where g2: "next_elem G g1 = Some (False, g2)" by (auto simp: awaits_Nil)
    show ?thesis
    proof (cases gs)
      case gs: Nil
      then have "xss = []" using less.prems(2) by simp
      with g2 Nil gs show ?thesis by (simp add: awaits_def Generators_def Generators_next_def Let_def)
    next
      case (Cons h hs)
      with less.prems(2) obtain zs zss where xss: "xss = zs # zss" "yields G h zs" "list_all2 (yields G) hs zss"
        by (auto simp: list_all2_Cons1)
      have "yields (Generators G) \<lparr>gs_generators = (pre @ [g2]) @ h # hs, gs_current = length (pre @ [g2])\<rparr> (zs @ concat zss)"
        by (rule less.hyps [OF _ xss(2,3)]) (simp add: xs xss)
      with g2 Nil Cons xss yields_ne [OF xss(2)] show ?thesis
        by (auto simp: awaits_def Generators_def Generators_next_def Let_def)
    qed
  qed
  with get show ?case by (simp add: yields_Cons xs)
qed

lemma Generators_yields:
  "list_all2 (yields G) gs xss \<Longrightarrow> gs \<noteq> [] \<Longrightarrow> yields (Generators G) (Generators_new gs) (concat xss)"
  using generators_yields_from [of G _ _ _ _ "[]"] by (cases gs) (auto simp: Generators_new_def list_all2_Cons1)

subsection \<open>Filtering\<close>

text \<open>
  \<open>FilterGenerator\<close> reads an element to test it and its client reads it
  again, so the wrapped generator must give the same element and stay as it is.
\<close>

locale stable_generator =
  fixes G :: "('s, 'a) IGenerator"
  assumes get_stable: "get_elem G s = Some (x, s') \<Longrightarrow> s' = s"
begin

lemma filter_loop_yields:
  "yields G s xs \<Longrightarrow>
   (if filter P xs = [] then \<exists>s'. filter_loop P G s = Some (False, s')
    else \<exists>s' x ys. filter_loop P G s = Some (True, s') \<and> yields G s' (x # ys) \<and> P x \<and> filter P xs = x # filter P ys)"
proof (induction xs arbitrary: s)
  case (Cons x xs)
  from Cons.prems obtain s1 where "get_elem G s = Some (x, s1)" "awaits G s1 xs" by (auto simp: yields_Cons)
  with get_stable have g: "get_elem G s = Some (x, s)" "awaits G s xs" by auto
  show ?case
  proof (cases "P x")
    case True
    with g Cons.prems show ?thesis by (auto simp: filter_loop.simps [of P G s])
  next
    case False
    show ?thesis
    proof (cases xs)
      case Nil
      with g False show ?thesis by (auto simp: filter_loop.simps [of P G s] awaits_Nil)
    next
      case (Cons y ys)
      with g obtain s2 where "next_elem G s = Some (True, s2)" "yields G s2 xs" by (auto simp: awaits_Cons)
      with Cons.IH [of s2] g False show ?thesis by (auto simp: filter_loop.simps [of P G s] split: if_splits)
    qed
  qed
qed simp

lemma Filter_next_awaits:
  assumes "awaits G s xs"
  shows "if filter P xs = [] then \<exists>s'. Filter_next P G s = Some (False, s')
    else \<exists>s' x ys. Filter_next P G s = Some (True, s') \<and> yields G s' (x # ys) \<and> P x \<and> filter P xs = x # filter P ys"
proof (cases xs)
  case Nil
  with assms show ?thesis by (auto simp: Filter_next_def awaits_Nil)
next
  case (Cons y ys)
  with assms obtain s' where s': "next_elem G s = Some (True, s')" "yields G s' xs" by (auto simp: awaits_Cons)
  from filter_loop_yields [OF s'(2), of P] s'(1) show ?thesis by (auto simp: Filter_next_def split: if_splits)
qed

lemma filter_yields_from:
  "yields G s (x # xs) \<Longrightarrow> P x \<Longrightarrow> yields (FilterGenerator P G) s (filter P (x # xs))"
proof (induction "length (filter P xs)" arbitrary: s x xs rule: less_induct)
  case less
  from less.prems(1) obtain s1 where "get_elem G s = Some (x, s1)" "awaits G s1 xs" by (auto simp: yields_Cons)
  with get_stable have g: "get_elem G s = Some (x, s)" "awaits G s xs" by auto
  have "awaits (FilterGenerator P G) s (filter P xs)"
  proof (cases "filter P xs = []")
    case True
    with Filter_next_awaits [OF g(2), of P] show ?thesis by (auto simp: awaits_Nil FilterGenerator_def)
  next
    case False
    with Filter_next_awaits [OF g(2), of P] obtain s' y ys where
      n: "Filter_next P G s = Some (True, s')" "yields G s' (y # ys)" "P y" "filter P xs = y # filter P ys" by auto
    from less.hyps [OF _ n(2,3)] n show ?thesis by (simp add: awaits_Cons) (simp add: FilterGenerator_def)
  qed
  with g less.prems(2) show ?case by (simp add: yields_Cons FilterGenerator_def)
qed


lemma FilterGenerator_yields:
  assumes "yields G s xs"
  shows "if filter P xs = []
    then FilterGenerator_new P G s = Some (Inl ''No valid value found in filtered generator'')
    else \<exists>g. FilterGenerator_new P G s = Some (Inr g) \<and> yields (FilterGenerator P G) g (filter P xs)"
proof -
  from assms obtain x ys s1 where xs: "xs = x # ys" and "get_elem G s = Some (x, s1)" "awaits G s1 ys" by (rule yieldsE)
  with get_stable have g: "get_elem G s = Some (x, s)" "awaits G s ys" by auto
  show ?thesis
  proof (cases "P x")
    case True
    with filter_yields_from [of s x ys P] assms g xs show ?thesis by (simp add: FilterGenerator_new_def)
  next
    case False
    with Filter_next_awaits [OF g(2), of P] g xs show ?thesis
      by (auto simp: FilterGenerator_new_def split: if_splits dest: filter_yields_from [of _ _ _ P])
  qed
qed

lemma yields_visits: "yields G s xs \<Longrightarrow> visits m G s xs"
proof (induction xs arbitrary: s)
  case (Cons x xs)
  then obtain s1 where "get_elem G s = Some (x, s1)" "awaits G s1 xs" by (auto simp: yields_Cons)
  with get_stable have g: "get_elem G s = Some (x, s)" "awaits G s xs" by auto
  show ?case
  proof (cases xs)
    case Nil
    with g gets_same [OF g(1), of m] show ?thesis by (auto simp: visits_Cons departs_Nil awaits_Nil)
  next
    case (Cons y ys)
    with g gets_same [OF g(1), of m] Cons.IH show ?thesis by (auto simp: visits_Cons [of m G s] departs_Cons awaits_Cons)
  qed
qed simp

lemma take_stable: "get_elem (TakeGenerator G) t = Some (x, t') \<Longrightarrow> t' = t"
  using get_stable by (auto simp: TakeGenerator_def Take_get_def)

lemma filter_stable: "get_elem (FilterGenerator P G) s = Some (x, s') \<Longrightarrow> s' = s"
  using get_stable by (auto simp: FilterGenerator_def)

lemma generators_stable: "get_elem (Generators G) gs = Some (x, gs') \<Longrightarrow> gs' = gs"
  by (auto simp: Generators_def Generators_get_def split: if_splits bind_splits dest!: get_stable)

end

text \<open>Every generator of the library but \<open>RepeatGenerator\<close> keeps the contract.\<close>

interpretation single: stable_generator SingleValueGenerator
  by unfold_locales (simp add: SingleValueGenerator_def)

interpretation fixed: stable_generator FixedValuesGenerator
  by unfold_locales (simp add: FixedValuesGenerator_def split: if_splits)

interpretation mapped: stable_generator "MapGenerator f G"
  by unfold_locales (simp add: MapGenerator_def)

interpretation chunked: stable_generator "ChunkGenerator G"
  by unfold_locales (simp add: ChunkGenerator_def)

interpretation range: stable_generator RangeGenerator
  by unfold_locales (simp add: RangeGenerator_def)

interpretation random: stable_generator "RandomGenerator draw"
  by unfold_locales (simp add: RandomGenerator_def)

lemma stable_wrappers:
  assumes "stable_generator G"
  shows "stable_generator (TakeGenerator G)" "stable_generator (FilterGenerator P G)" "stable_generator (Generators G)"
  by unfold_locales (rule stable_generator.take_stable [OF assms] stable_generator.filter_stable [OF assms]
      stable_generator.generators_stable [OF assms], assumption)+

subsection \<open>Ranges\<close>

fun range_from :: "int \<Rightarrow> int \<Rightarrow> nat \<Rightarrow> int list" where
  "range_from a d 0 = []"
| "range_from a d (Suc n) = a # range_from (a + d) d n"

lemma range_yields_from:
  assumes "\<And>k. k \<le> n \<Longrightarrow> in_int (a + int k * d)"
    and "\<And>k. k < n \<Longrightarrow> (if pos then a + int k * d < e else a + int k * d > e)"
    and "\<not> (if pos then a + int n * d < e else a + int n * d > e)" "0 < n"
  shows "yields RangeGenerator \<lparr>rg_current = a, rg_end = e, rg_step = d, rg_positive = pos\<rparr> (range_from a d n)"
  using assms
proof (induction n arbitrary: a)
  case (Suc n)
  have w: "wrap32 (a + d) = a + d" using Suc.prems(1) [of 1] by (simp add: wrap32_id)
  have IH: "yields RangeGenerator \<lparr>rg_current = a + d, rg_end = e, rg_step = d, rg_positive = pos\<rparr> (range_from (a + d) d n)"
    if "0 < n"
  proof (rule Suc.IH)
    fix k
    show "in_int (a + d + int k * d)" if "k \<le> n"
      using Suc.prems(1) [of "Suc k"] that by (simp add: algebra_simps)
    show "if pos then a + d + int k * d < e else a + d + int k * d > e" if "k < n"
      using Suc.prems(2) [of "Suc k"] that by (cases pos) (simp_all add: algebra_simps)
  next
    show "\<not> (if pos then a + d + int n * d < e else a + d + int n * d > e)"
      using Suc.prems(3) by (cases pos) (simp_all add: algebra_simps)
  qed (rule that)
  have step: "next_elem RangeGenerator \<lparr>rg_current = a, rg_end = e, rg_step = d, rg_positive = pos\<rparr> =
      Some (if pos then a + d < e else a + d > e, \<lparr>rg_current = a + d, rg_end = e, rg_step = d, rg_positive = pos\<rparr>)"
    by (simp add: RangeGenerator_def Range_next_def Let_def w)
  have get: "get_elem RangeGenerator \<lparr>rg_current = a, rg_end = e, rg_step = d, rg_positive = pos\<rparr> =
      Some (a, \<lparr>rg_current = a, rg_end = e, rg_step = d, rg_positive = pos\<rparr>)"
    by (simp add: RangeGenerator_def)
  show ?case
  proof (cases n)
    case 0
    with Suc.prems(3) show ?thesis by (auto simp: yields_Cons awaits_Nil get step split: if_splits)
  next
    case (Suc m)
    with Suc.prems(2) [of 1] IH show ?thesis
      by (auto simp: yields_Cons [of _ _ a] awaits_Cons get step split: if_splits)
  qed
qed simp

definition range_length :: "int \<Rightarrow> int \<Rightarrow> int \<Rightarrow> nat" where
  "range_length a e d = (nat \<bar>e - a\<bar> + nat \<bar>d\<bar> - 1) div nat \<bar>d\<bar>"

lemma range_length_less:
  assumes "d \<noteq> 0"
  shows "k < range_length a e d \<longleftrightarrow> int k * \<bar>d\<bar> < \<bar>e - a\<bar>"
proof -
  let ?l = "nat \<bar>e - a\<bar>" and ?d = "nat \<bar>d\<bar>"
  have d: "0 < ?d" using assms by simp
  have "k < range_length a e d \<longleftrightarrow> Suc k \<le> (?l + ?d - 1) div ?d" by (simp add: range_length_def Suc_le_eq)
  also have "\<dots> \<longleftrightarrow> Suc k * ?d \<le> ?l + ?d - 1" using d by (rule less_eq_div_iff_mult_less_eq)
  also have "Suc k * ?d = k * ?d + ?d" by simp
  also have "k * ?d + ?d \<le> ?l + ?d - 1 \<longleftrightarrow> k * ?d < ?l" using d by linarith
  also have "\<dots> \<longleftrightarrow> int (k * ?d) < int ?l" by (rule of_nat_less_iff [symmetric])
  finally show ?thesis by simp
qed

lemma RangeGenerator_yields:
  assumes "in_int a" "in_int (e + d)" "a \<noteq> e" "d \<noteq> 0" "0 < d \<longleftrightarrow> a < e" "in_int e"
  shows "\<exists>g. RangeGenerator_new a e d = Some g \<and> yields RangeGenerator g (range_from a d (range_length a e d))"
proof -
  let ?n = "range_length a e d"
  note b = range_length_less [OF assms(4), of _ a e]
  have pos: "0 < ?n" using b [of 0] assms(3) by simp
  have bounds: "- 2147483648 \<le> a" "a < 2147483648" "- 2147483648 \<le> e + d" "e + d < 2147483648"
    using assms(1,2) by (simp_all add: in_int_def)
  have below: "if 0 < d then a + int k * d < e else a + int k * d > e" if "k < ?n" for k
    using b [of k] that assms(3,5) by (cases "0 < d") (simp_all add: abs_if split: if_splits)
  have top: "\<not> (if 0 < d then a + int ?n * d < e else a + int ?n * d > e)"
    using b [of ?n] assms(3,5) by (cases "0 < d") (simp_all add: abs_if split: if_splits)
  have range: "in_int (a + int k * d)" if "k \<le> ?n" for k
  proof (cases k)
    case (Suc j)
    have k: "a + int k * d = a + int j * d + d" by (simp add: Suc algebra_simps)
    have j: "if 0 < d then a + int j * d < e else a + int j * d > e" using below [of j] that Suc by simp
    have "- 2147483648 \<le> a + int k * d \<and> a + int k * d < 2147483648"
    proof (cases "0 < d")
      case True
      then have "0 \<le> int k * d" "a + int j * d < e" using j by simp_all
      with k bounds show ?thesis by linarith
    next
      case False
      then have "int k * d \<le> 0" "e < a + int j * d" using j by (simp_all add: mult_nonneg_nonpos)
      with k bounds show ?thesis by linarith
    qed
    then show ?thesis by (simp add: in_int_def)
  qed (use assms(1) in simp)
  have "RangeGenerator_new a e d = Some \<lparr>rg_current = a, rg_end = e, rg_step = d, rg_positive = 0 < d\<rparr>"
    using assms by (auto simp: RangeGenerator_new_def Let_def)
  then show ?thesis using range_yields_from [OF range below top pos] by simp
qed

section \<open>Properties\<close>

text \<open>
  C40: the generator adaptors compute the corresponding function of the list of
  elements.  For every generator that goes through \<open>xs\<close>, \<open>take\<close>,
  \<open>map\<close>, \<open>repeat\<close>, \<open>chunk\<close> and a sequence of generators go
  through the taken prefix, the mapped elements, the repeated list, the full
  chunks and the concatenation, and end; \<open>filter\<close> goes through the elements
  that pass when reading an element does not change the generator.  A filter
  that lets nothing pass and a first chunk that is too long throw.\<close>

theorem generator_adaptors:
  assumes "yields G s xs"
  shows "(\<forall>n. n \<noteq> 0 \<longrightarrow> (\<exists>g. TakeGenerator_new n s = Some g \<and> yields (TakeGenerator G) g (take n xs))) \<and>
    (\<exists>g. MapGenerator_new f G s = Some g \<and> yields (MapGenerator f G) g (map f xs)) \<and>
    (\<forall>n > 0. \<exists>g. RepeatGenerator_new n s = Some g \<and> yields (RepeatGenerator G) g (concat (replicate n xs))) \<and>
    (\<forall>n > 0. if length xs < n
      then ChunkGenerator_new n G s = Some (Inl ''Not enough values to initialize the first chunk'')
      else \<exists>g. ChunkGenerator_new n G s = Some (Inr g) \<and> yields (ChunkGenerator G) g (chunks n xs)) \<and>
    (\<forall>gs xss. list_all2 (yields G) gs xss \<longrightarrow> yields (Generators G) (Generators_new (s # gs)) (xs @ concat xss)) \<and>
    ((\<forall>s x s'. get_elem G s = Some (x, s') \<longrightarrow> s' = s) \<longrightarrow>
      (if filter P xs = []
       then FilterGenerator_new P G s = Some (Inl ''No valid value found in filtered generator'')
       else \<exists>g. FilterGenerator_new P G s = Some (Inr g) \<and> yields (FilterGenerator P G) g (filter P xs)))"
  (is "?take \<and> ?map \<and> ?repeat \<and> ?chunk \<and> ?seq \<and> (?stable \<longrightarrow> ?filter)")
proof (intro conjI impI)
  show ?take using TakeGenerator_yields [OF assms] by blast
  show ?map using MapGenerator_yields [OF assms] .
  show ?repeat using RepeatGenerator_yields [OF assms] by blast
  show ?chunk using ChunkGenerator_yields [OF assms] by blast
  show ?seq using generators_yields_from [OF assms, of _ _ "[]"] by (simp add: Generators_new_def)
  assume ?stable
  then have "stable_generator G" by unfold_locales blast
  then show ?filter using assms by (rule stable_generator.FilterGenerator_yields)
qed

theorem generator_adaptors_witness:
  "(\<exists>g. TakeGenerator_new 2 (FixedValues_new [1, 2, 3 :: nat]) = Some g \<and> yields (TakeGenerator FixedValuesGenerator) g [1, 2]) \<and>
   (\<exists>g. FilterGenerator_new odd FixedValuesGenerator (FixedValues_new [1, 2, 3 :: nat]) = Some (Inr g) \<and>
     yields (FilterGenerator odd FixedValuesGenerator) g [1, 3])"
proof -
  have "yields FixedValuesGenerator (FixedValues_new [1, 2, 3 :: nat]) [1, 2, 3]" by (rule FixedValues_yields) simp
  note all = generator_adaptors [OF this, of Suc odd]
  have "\<exists>g. TakeGenerator_new 2 (FixedValues_new [1, 2, 3 :: nat]) = Some g \<and> yields (TakeGenerator FixedValuesGenerator) g [1, 2]"
    using conjunct1 [OF all, rule_format, of 2] by simp
  moreover have "\<exists>g. FilterGenerator_new odd FixedValuesGenerator (FixedValues_new [1, 2, 3 :: nat]) = Some (Inr g) \<and>
     yields (FilterGenerator odd FixedValuesGenerator) g [1, 3]"
  proof -
    have "\<forall>s x s'. get_elem FixedValuesGenerator s = Some (x :: nat, s') \<longrightarrow> s' = s"
      using fixed.get_stable by blast
    with all show ?thesis by simp
  qed
  ultimately show ?thesis by blast
qed

text \<open>
  \<open>RepeatGenerator\<close> records an element every time it is read, not once
  per element.  When every element is read \<open>m\<close> times before the generator
  moves on, each of the later rounds delivers every element \<open>m\<close> times.\<close>

theorem repeat_counts_reads:
  assumes "visits m G s xs" "0 < n" "0 < m"
  shows "\<exists>g. RepeatGenerator_new n s = Some g \<and>
    visits m (RepeatGenerator G) g (xs @ concat (replicate (n - 1) (concat (map (replicate m) xs))))"
  using RepeatGenerator_visits [OF assms] .

theorem repeat_counts_reads_witness:
  "\<exists>g. RepeatGenerator_new 2 (FixedValues_new [1, 2 :: nat]) = Some g \<and>
     visits 2 (RepeatGenerator FixedValuesGenerator) g [1, 2, 1, 1, 2, 2]"
proof -
  have "visits 2 FixedValuesGenerator (FixedValues_new [1, 2 :: nat]) [1, 2]"
    by (rule fixed.yields_visits [OF FixedValues_yields]) simp
  from repeat_counts_reads [OF this, of 2] show ?thesis by (simp add: numeral_2_eq_2)
qed

text \<open>A range whose last step passes the largest \<open>int\<close> wraps around and goes on.\<close>

lemma range_wraps:
  "\<exists>g g'. RangeGenerator_new 2147483646 2147483647 2 = Some g \<and> next_elem RangeGenerator g = Some (True, g') \<and>
     rg_current g' = - 2147483648"
  by (simp add: RangeGenerator_new_def RangeGenerator_def Range_next_def wrap32_def Let_def)

text \<open>Chunks of size zero: the first has one element, and empty ones follow without end.\<close>

lemma empty_chunks_forever:
  assumes "yields G s (x # xs)"
  shows "\<exists>g. ChunkGenerator_new 0 G s = Some (Inr g) \<and> ck_chunk g = [x] \<and>
    (\<forall>h. ck_chunk_size h = 0 \<longrightarrow> next_elem (ChunkGenerator G) h = Some (True, h\<lparr>ck_chunk := []\<rparr>)) \<and> ck_chunk_size g = 0"
  using assms by (auto simp: yields_Cons ChunkGenerator_new_def ChunkGenerator_def Chunk_next_def)

end
