(* ===== verification/CatchGenerate.thy ===== *)
theory CatchGenerate
  imports CatchRunTest CatchGenerators
begin

text \<open>
  The macro \<open>GENERATE\<close> of the unit test framework: \<open>generate\<close>
  (\<open>native/src/catch.hpp\<close>) acquires the tracker of its line, gives it the
  generator on the first visit and returns the current element.  The theory
  shows that a test case with a generator and sections below it runs every leaf
  section once for every element.
\<close>

text \<open>
  The generator the tracker owns.  When an operation of it is undefined the
  tracker holds \<open>None\<close>, and so does every later state.
\<close>

definition tracked_next :: "('s, 'a) IGenerator \<Rightarrow> 's option \<Rightarrow> bool \<times> 's option" where
  "tracked_next G g =
     (case Option.bind g (next_elem G) of None \<Rightarrow> (False, None) | Some (b, g) \<Rightarrow> (b, Some g))"

definition generate_value :: "('s, 'a) IGenerator \<Rightarrow> 's \<Rightarrow> path \<Rightarrow> 's option TrackerContext \<Rightarrow>
    ('a \<times> 's option TrackerContext) option" where
  "generate_value G expr p c = do {
     t \<leftarrow> tracker_at p c;
     let c = (if \<not> hasGenerator t then setGenerator (Some expr) p c else c);
     t \<leftarrow> tracker_at p c;
     case t_kind t of
       GeneratorTracker (Some (Some g)) \<Rightarrow> do {
         (x, g) \<leftarrow> get_elem G g;
         Some (x, setGenerator (Some g) p c) }
     | _ \<Rightarrow> None }"

text \<open>\<open>GENERATE\<close> on the tracker context: \<open>acquireGeneratorTracker\<close> asserts that the tracker is open.\<close>

definition generate_tracked :: "('s, 'a) IGenerator \<Rightarrow> 's \<Rightarrow> SourceLineInfo \<Rightarrow> 's option TrackerContext \<Rightarrow>
    ('a \<times> 's option TrackerContext) option" where
  "generate_tracked G expr li c = do {
     (p, c) \<leftarrow> GeneratorTracker_acquire \<lparr>nl_name = ''generator'', nl_location = li\<rparr> c;
     t \<leftarrow> tracker_at p c;
     if isOpen t then generate_value G expr p c else None }"

text \<open>\<open>generate\<close> itself runs on the run context; on the trackers it does the same.\<close>

definition generate :: "('s, 'a) IGenerator \<Rightarrow> 's \<Rightarrow> SourceLineInfo \<Rightarrow> 's option RunContext \<Rightarrow>
    ('a \<times> 's option RunContext) option" where
  "generate G expr li c = do {
     (p, c) \<leftarrow> acquireGeneratorTracker li c;
     (x, t) \<leftarrow> generate_value G expr p (m_trackerContext c);
     Some (x, c\<lparr>m_trackerContext := t\<rparr>) }"

lemma generate_tracks:
  "map_option (map_prod id m_trackerContext) (generate G expr li c) = generate_tracked G expr li (m_trackerContext c)"
  by (auto simp: generate_def generate_tracked_def acquireGeneratorTracker_def split: bind_splits if_splits)

text \<open>
  The cycles of a test case whose body is a \<open>GENERATE\<close> followed by sections.
  The trace pairs the element with the leaf section that ran, or with the test
  case when it has no sections.
\<close>

definition generate_cycle :: "('s, 'a) IGenerator \<Rightarrow> 's \<Rightarrow> SourceLineInfo \<Rightarrow> sect \<Rightarrow>
    's option TrackerContext \<times> ('a \<times> NameAndLocation) list \<Rightarrow>
    (path \<times> 's option TrackerContext \<times> ('a \<times> NameAndLocation) list) option" where
  "generate_cycle G expr li s cl = do {
     let c = startCycle (fst cl);
     (p, c) \<leftarrow> SectionTracker_acquire (s_nl s) c;
     (x, c) \<leftarrow> generate_tracked G expr li c;
     (c, l) \<leftarrow> run_sects (tracked_next G) (s_subs s) (c, if s_subs s = [] then [s_nl s] else []);
     c \<leftarrow> tracker_close (tracked_next G) True p c;
     Some (p, c, snd cl @ map (Pair x) l) }"

partial_function (option) generate_cycles :: "('s, 'a) IGenerator \<Rightarrow> 's \<Rightarrow> SourceLineInfo \<Rightarrow> sect \<Rightarrow>
    's option TrackerContext \<times> ('a \<times> NameAndLocation) list \<Rightarrow>
    ('s option TrackerContext \<times> ('a \<times> NameAndLocation) list) option" where
  "generate_cycles G expr li s cl = do {
     (p, c, l) \<leftarrow> generate_cycle G expr li s cl;
     t \<leftarrow> tracker_at p c;
     if isSuccessfullyCompleted t then Some (c, l) else generate_cycles G expr li s (c, l) }"

declare generate_cycles.simps [code]

section \<open>One cycle\<close>


text \<open>The tracker tree of such a test case.\<close>

definition gt :: "NameAndLocation \<Rightarrow> NameAndLocation \<Rightarrow> CycleState \<Rightarrow> SourceLineInfo \<Rightarrow> 'g option \<Rightarrow>
    CycleState \<Rightarrow> 'g tracker list \<Rightarrow> 'g tracker" where
  "gt root nl ts li g gs gch =
     Tracker root (SectionTracker []) ExecutingChildren
       [Tracker nl (SectionTracker []) ts [Tracker \<lparr>nl_name = ''generator'', nl_location = li\<rparr> (GeneratorTracker g) gs gch]]"

lemma acquire_test:
  assumes "ch = [] \<or> (\<exists>ts. ch = [Tracker nl (SectionTracker []) ts tch] \<and> ts \<noteq> CompletedSuccessfully \<and> ts \<noteq> Failed)"
    "ch = [] \<Longrightarrow> tch = []"
  shows "SectionTracker_acquire nl (tctx (Tracker n (SectionTracker []) st ch) [] RunExecuting) =
    Some ([0], tctx (Tracker n (SectionTracker []) ExecutingChildren [Tracker nl (SectionTracker []) Executing tch]) [0] RunExecuting)"
  using assms(1)
proof (elim disjE exE conjE)
  assume "ch = []"
  with acquire_add(1) [of "[]" "Tracker n (SectionTracker []) st []" n "SectionTracker []" st "[]" nl] assms(2)
  show ?thesis by (simp add: put_def)
next
  fix ts
  assume "ch = [Tracker nl (SectionTracker []) ts tch]" "ts \<noteq> CompletedSuccessfully" "ts \<noteq> Failed"
  with acquire_open [of "[]" "Tracker n (SectionTracker []) st ch" n "SectionTracker []" st "[]" nl ts tch "[]"]
  show ?thesis by (simp add: put_def)
qed

lemma acquire_generator:
  assumes "tch = [] \<and> g = None \<and> gch = [] \<or>
    (\<exists>gs. tch = [Tracker \<lparr>nl_name = ''generator'', nl_location = li\<rparr> (GeneratorTracker g) gs gch] \<and>
       gs \<noteq> CompletedSuccessfully \<and> gs \<noteq> Failed)"
  shows "GeneratorTracker_acquire \<lparr>nl_name = ''generator'', nl_location = li\<rparr>
      (tctx (Tracker n (SectionTracker []) ExecutingChildren [Tracker nl (SectionTracker []) Executing tch]) [0] RunExecuting) =
    Some ([0, 0], tctx (gt n nl ExecutingChildren li g Executing gch) [0, 0] RunExecuting)"
proof -
  let ?gnl = "\<lparr>nl_name = ''generator'', nl_location = li\<rparr>"
  let ?r = "\<lambda>gs. Tracker n (SectionTracker []) ExecutingChildren
      [Tracker nl (SectionTracker []) Executing [Tracker ?gnl (GeneratorTracker g) gs gch]]"
  have op: "tracker_open [0, 0] (tctx (?r gs) [0] RunExecuting) =
      Some (tctx (gt n nl ExecutingChildren li g Executing gch) [0, 0] RunExecuting)" for gs
    using open_child [of "[0]" "?r gs" nl "SectionTracker []" Executing "[]" ?gnl "GeneratorTracker g" gs gch "[]" "[0]" RunExecuting]
    by (simp add: put_def gt_def above_ok_def)
  from assms show ?thesis
  proof (elim disjE exE conjE)
    assume "tch = []" "g = None" "gch = []"
    with op [of NotStarted] show ?thesis
      by (simp add: GeneratorTracker_acquire_def findChild_def completedCycle_def TrackerBase_isComplete_def find_child_iff)
  next
    fix gs
    assume "tch = [Tracker ?gnl (GeneratorTracker g) gs gch]" "gs \<noteq> CompletedSuccessfully" "gs \<noteq> Failed"
    with op [of gs] find_child_at [of ?gnl "[]" "Tracker ?gnl (GeneratorTracker g) gs gch" "[]"] show ?thesis
      by (simp add: GeneratorTracker_acquire_def findChild_def completedCycle_def TrackerBase_isComplete_def)
  qed
qed

lemma generate_value_at:
  assumes "get_elem G g = Some (x, g')" "og = None \<and> g = expr \<or> og = Some (Some g)"
  shows "generate_value G expr [0, 0] (tctx (gt n nl ExecutingChildren li og Executing gch) q s) =
    Some (x, tctx (gt n nl ExecutingChildren li (Some (Some g')) Executing gch) q s)"
  using assms by (auto simp: generate_value_def gt_def hasGenerator_def setGenerator_def Let_def)

lemma close_generator_base:
  assumes "gs = Executing \<or> gs = ExecutingChildren"
  shows "tracker_close ni False [0, 0] (tctx (gt n nl ts li g gs gch) [0, 0] s) =
    Some (tctx (gt n nl ts li g (closed_state gs gch) gch) [0] CompletedCycle)"
  using assms
  by (subst tracker_close.simps)
    (auto simp: close_switch_def closed_state_def moveToParent_def setCurrentTracker_def completeCycle_def gt_def)

lemma close_test_base:
  assumes "gs \<noteq> Failed"
  shows "tracker_close ni False [0] (tctx (gt n nl ExecutingChildren li g gs gch) [0] s) =
    Some (tctx (gt n nl (if gs = CompletedSuccessfully then CompletedSuccessfully else ExecutingChildren) li g gs gch) [] CompletedCycle)"
  using assms
  by (subst tracker_close.simps)
    (auto simp: close_switch_def moveToParent_def setCurrentTracker_def completeCycle_def gt_def
      tracker_isComplete_def TrackerBase_isComplete_def)

lemma close_test:
  assumes "gs = Executing \<or> gs = ExecutingChildren"
  shows "tracker_close ni True [0] (tctx (gt n nl ExecutingChildren li (Some g) gs gch) [0, 0] s) =
    (if closed_state gs gch = CompletedSuccessfully then
       (let (more, g') = ni g
        in if more then Some (tctx (gt n nl ExecutingChildren li (Some g') Executing []) [] CompletedCycle)
           else Some (tctx (gt n nl CompletedSuccessfully li (Some g') CompletedSuccessfully gch) [] CompletedCycle))
     else Some (tctx (gt n nl ExecutingChildren li (Some g) (closed_state gs gch) gch) [] CompletedCycle))"
proof -
  have k: "get_tracker [0, 0] (gt n nl ts li g gs gch) =
      Some (Tracker \<lparr>nl_name = ''generator'', nl_location = li\<rparr> (GeneratorTracker g) gs gch)" for ts g gs gch
    by (simp add: gt_def)
  have u: "upd_tracker [0, 0] (\<lambda>t. Tracker (t_nameAndLocation t) (GeneratorTracker (Some g')) s' ch') (gt n nl ts li g gs gch) =
      gt n nl ts li (Some g') s' ch'" for g' s' ch' ts g gs gch
    by (simp add: gt_def)
  have gen: "tracker_close ni True [0, 0] (tctx (gt n nl ExecutingChildren li (Some g) gs gch) [0, 0] s) =
     generator_close ni [0, 0] (tctx (gt n nl ExecutingChildren li (Some g) (closed_state gs gch) gch) [0] CompletedCycle)"
    by (subst tracker_close.simps) (simp add: k close_generator_base [OF assms] del: get_tracker.simps)
  have "tracker_close ni True [0] (tctx (gt n nl ExecutingChildren li (Some g) gs gch) [0, 0] s) =
      Option.bind (tracker_close ni True [0, 0] (tctx (gt n nl ExecutingChildren li (Some g) gs gch) [0, 0] s))
        (tracker_close ni False [0])"
    by (subst tracker_close.simps) (simp add: gt_def)
  also have "\<dots> = Option.bind (generator_close ni [0, 0]
      (tctx (gt n nl ExecutingChildren li (Some g) (closed_state gs gch) gch) [0] CompletedCycle)) (tracker_close ni False [0])"
    by (simp only: gen)
  finally show ?thesis
    by (cases "ni g") (auto simp: generator_close_def k u close_test_base closed_state_def Let_def simp del: get_tracker.simps upd_tracker.simps)
qed


lemma gt_focus: "focus_ok [0, 0] (gt n nl ExecutingChildren li g gs gch)"
proof -
  have "plain_at [0] (gt n nl ExecutingChildren li g gs gch)"
    by (rule plain_at_section) (simp add: gt_def)
  then have "plain_at [0, 0] (gt n nl ExecutingChildren li g gs gch)"
    using plain_at_generator [of "[0, 0]" "gt n nl ExecutingChildren li g gs gch"] by (simp add: gt_def)
  moreover have "above_ok [0, 0] (gt n nl ExecutingChildren li g gs gch)"
    by (auto simp: above_ok_def gt_def less_Suc_eq)
  ultimately show ?thesis by (simp add: focus_ok_def)
qed

lemma run_sects_under_generator:
  assumes "list_all wf_sect ss" "distinct (map s_nl ss)" "visited d ss gch" "d < length (all_leaves ss)"
  shows "run_sects ni ss (tctx (gt n nl ExecutingChildren li g Executing gch) [0, 0] RunExecuting, l) =
    Some (tctx (gt n nl ExecutingChildren li g ExecutingChildren (sects_tr (Suc d) ss)) [0, 0] CompletedCycle,
      l @ [all_leaves ss ! d])"
proof -
  let ?r = "gt n nl ExecutingChildren li g Executing gch"
  have at: "get_tracker [0, 0] ?r = Some (Tracker \<lparr>nl_name = ''generator'', nl_location = li\<rparr> (GeneratorTracker g) Executing ([] @ gch))"
    by (simp add: gt_def)
  have put: "put [0, 0] (Tracker \<lparr>nl_name = ''generator'', nl_location = li\<rparr> (GeneratorTracker g) ExecutingChildren ch) ?r =
      gt n nl ExecutingChildren li g ExecutingChildren ch" for ch
    by (simp add: put_def gt_def)
  have "run_sects ni ss (tctx ?r [0, 0] RunExecuting, l) =
     Some (tctx (put [0, 0] (Tracker \<lparr>nl_name = ''generator'', nl_location = li\<rparr> (GeneratorTracker g) ExecutingChildren
       ([] @ sects_tr (Suc d) ss)) ?r) [0, 0] CompletedCycle, l @ [all_leaves ss ! d])"
    by (rule run_sects_active [OF _ at assms(3,2) _ gt_focus assms(4)])
      (use assms(1) in \<open>auto simp: list_all_iff intro: sect_step_holds\<close>)
  then show ?thesis by (simp add: put)
qed

text \<open>The tracker of the test case before a cycle: \<open>d\<close> leaves ran for the current element.\<close>

definition gen_ready :: "NameAndLocation \<Rightarrow> SourceLineInfo \<Rightarrow> 's \<Rightarrow> sect list \<Rightarrow> nat \<Rightarrow> 's \<Rightarrow> 's option tracker list \<Rightarrow> bool" where
  "gen_ready nl li expr ss d g ch \<longleftrightarrow>
     ch = [] \<and> g = expr \<and> d = 0 \<or>
     (\<exists>ts gs gch. ch = [Tracker nl (SectionTracker []) ts
          [Tracker \<lparr>nl_name = ''generator'', nl_location = li\<rparr> (GeneratorTracker (Some (Some g))) gs gch]] \<and>
        ts \<noteq> CompletedSuccessfully \<and> ts \<noteq> Failed \<and> gs \<noteq> CompletedSuccessfully \<and> gs \<noteq> Failed \<and> visited d ss gch)"

lemma gt_open: "isOpen (Tracker gnl (GeneratorTracker g) Executing gch)"
  by (simp add: isOpen_def tracker_isComplete_def TrackerBase_isComplete_def)

lemma generate_tracked_at:
  fixes expr :: 's and tch :: "'s option tracker list"
  assumes "tch = [] \<and> g = expr \<and> gch = [] \<or>
      (\<exists>gs. tch = [Tracker \<lparr>nl_name = ''generator'', nl_location = li\<rparr> (GeneratorTracker (Some (Some g))) gs gch] \<and>
         gs \<noteq> CompletedSuccessfully \<and> gs \<noteq> Failed)"
    and get: "get_elem G g = Some (x, g')"
  shows "generate_tracked G expr li
      (tctx (Tracker n (SectionTracker []) ExecutingChildren [Tracker nl (SectionTracker []) Executing tch]) [0] RunExecuting) =
    Some (x, tctx (gt n nl ExecutingChildren li (Some (Some g')) Executing gch) [0, 0] RunExecuting)"
proof -
  define og where "og = (if tch = [] then None else Some (Some g))"
  have acq: "GeneratorTracker_acquire \<lparr>nl_name = ''generator'', nl_location = li\<rparr>
      (tctx (Tracker n (SectionTracker []) ExecutingChildren [Tracker nl (SectionTracker []) Executing tch]) [0] RunExecuting) =
    Some ([0, 0], tctx (gt n nl ExecutingChildren li og Executing gch) [0, 0] RunExecuting)"
    by (rule acquire_generator) (use assms(1) in \<open>auto simp: og_def\<close>)
  have at: "get_tracker [0, 0] (gt n nl ExecutingChildren li og Executing gch) =
      Some (Tracker \<lparr>nl_name = ''generator'', nl_location = li\<rparr> (GeneratorTracker og) Executing gch)" by (simp add: gt_def)
  have "og = None \<and> g = expr \<or> og = Some (Some g)" using assms(1) by (auto simp: og_def)
  from generate_value_at [OF get this] show ?thesis
    by (simp add: generate_tracked_def acq at gt_open del: get_tracker.simps)
qed

lemma generate_begin:
  fixes expr :: 's and ch :: "'s option tracker list"
  assumes "gen_ready nl li expr ss d g ch" "get_elem G g = Some (x, g')"
  obtains gch tch where "visited d ss gch"
    "SectionTracker_acquire nl (tctx (Tracker n (SectionTracker []) st ch) [] RunExecuting) =
       Some ([0], tctx (Tracker n (SectionTracker []) ExecutingChildren [Tracker nl (SectionTracker []) Executing tch]) [0] RunExecuting)"
    "generate_tracked G expr li
       (tctx (Tracker n (SectionTracker []) ExecutingChildren [Tracker nl (SectionTracker []) Executing tch]) [0] RunExecuting) =
     Some (x, tctx (gt n nl ExecutingChildren li (Some (Some g')) Executing gch) [0, 0] RunExecuting)"
  using assms(1) unfolding gen_ready_def
proof (elim disjE exE conjE)
  assume "ch = []" "g = expr" "d = 0"
  with that [of "[]" "[]"] acquire_test [of ch nl "[]" n st] generate_tracked_at [OF _ assms(2), of "[]" expr "[]" li n nl]
  show thesis by (simp add: visited_def)
next
  fix ts gs gch
  let ?tch = "[Tracker \<lparr>nl_name = ''generator'', nl_location = li\<rparr> (GeneratorTracker (Some (Some g))) gs gch]"
  assume "ch = [Tracker nl (SectionTracker []) ts ?tch]" "ts \<noteq> CompletedSuccessfully" "ts \<noteq> Failed"
    "gs \<noteq> CompletedSuccessfully" "gs \<noteq> Failed" "visited d ss gch"
  with that [of gch ?tch] acquire_test [of ch nl ?tch n st] generate_tracked_at [OF _ assms(2), of ?tch expr gch li n nl]
  show thesis by simp
qed

lemma generate_cycle_step:
  fixes expr :: 's and c :: "'s option TrackerContext"
  assumes ready: "gen_ready nl li expr ss d g ch" and get: "get_elem G g = Some (x, g')"
    and wf: "wf_sect (Sect nl ss)" and d: "d < length (leaves (Sect nl ss))"
    and root: "m_rootTracker c = Some (Tracker n (SectionTracker []) st ch)"
  shows "generate_cycle G expr li (Sect nl ss) (c, l) =
    Some ([0], tctx
      (if Suc d < length (leaves (Sect nl ss)) then gt n nl ExecutingChildren li (Some (Some g')) ExecutingChildren (sects_tr (Suc d) ss)
       else let (more, g'') = tracked_next G (Some g')
         in if more then gt n nl ExecutingChildren li (Some g'') Executing []
            else gt n nl CompletedSuccessfully li (Some g'') CompletedSuccessfully (sects_tr (Suc d) ss)) [] CompletedCycle,
      l @ [(x, leaves (Sect nl ss) ! d)])"
proof -
  let ?m = "length (leaves (Sect nl ss))"
  have c: "startCycle c = tctx (Tracker n (SectionTracker []) st ch) [] RunExecuting"
    using root by (cases c) (simp add: startCycle_def)
  obtain gch tch where v: "visited d ss gch" and
    acq: "SectionTracker_acquire nl (tctx (Tracker n (SectionTracker []) st ch) [] RunExecuting) =
       Some ([0], tctx (Tracker n (SectionTracker []) ExecutingChildren [Tracker nl (SectionTracker []) Executing tch]) [0] RunExecuting)" and
    gen: "generate_tracked G expr li
       (tctx (Tracker n (SectionTracker []) ExecutingChildren [Tracker nl (SectionTracker []) Executing tch]) [0] RunExecuting) =
     Some (x, tctx (gt n nl ExecutingChildren li (Some (Some g')) Executing gch) [0, 0] RunExecuting)"
    using generate_begin [OF ready get] by blast
  show ?thesis
  proof (cases "ss = []")
    case True
    with d have "d = 0" by simp
    with v True have "gch = []" by (auto simp: visited_def)
    with True \<open>d = 0\<close> show ?thesis
      using close_test [of Executing "tracked_next G" n nl li "Some g'" "[]" RunExecuting]
      by (auto simp: generate_cycle_def c acq gen closed_state_def Let_def split: prod.splits)
  next
    case False
    then have d': "d < length (all_leaves ss)" and m: "?m = length (all_leaves ss)" using d by simp_all
    have run: "run_sects (tracked_next G) ss (tctx (gt n nl ExecutingChildren li (Some (Some g')) Executing gch) [0, 0] RunExecuting, []) =
      Some (tctx (gt n nl ExecutingChildren li (Some (Some g')) ExecutingChildren (sects_tr (Suc d) ss)) [0, 0] CompletedCycle,
        [all_leaves ss ! d])"
      using run_sects_under_generator [OF _ _ v d', where l = "[]"] wf by simp
    have "sects_tr (Suc d) ss \<noteq> ([] :: 's option tracker list)" using False by (metis length_0_conv sects_tr_length)
    then have "closed_state ExecutingChildren (sects_tr (Suc d) ss :: 's option tracker list) =
        (if Suc d < ?m then ExecutingChildren else CompletedSuccessfully)"
      using last_sects_tr [OF False, of "Suc d"] d' m by (auto simp: closed_state_def)
    then show ?thesis
      using False close_test [of ExecutingChildren "tracked_next G" n nl li "Some g'" "sects_tr (Suc d) ss" CompletedCycle]
      by (auto simp: generate_cycle_def c acq gen run m Let_def split: prod.splits)
  qed
qed


section \<open>All cycles\<close>

lemma gt_ready:
  assumes "gs \<noteq> CompletedSuccessfully" "gs \<noteq> Failed" "visited d ss gch"
  shows "\<exists>ch. gt n nl ExecutingChildren li (Some (Some g)) gs gch = Tracker n (SectionTracker []) ExecutingChildren ch \<and>
    gen_ready nl li expr ss d g ch"
  using assms by (simp add: gt_def gen_ready_def)

lemma generate_cycles_from:
  fixes expr :: 's and c :: "'s option TrackerContext"
  assumes wf: "wf_sect (Sect nl ss)"
  shows "gen_ready nl li expr ss d g ch \<Longrightarrow> d < length (leaves (Sect nl ss)) \<Longrightarrow>
    gets (length (leaves (Sect nl ss)) - d) G g x = Some gm \<Longrightarrow> departs (length (leaves (Sect nl ss))) G gm xs \<Longrightarrow>
    m_rootTracker c = Some (Tracker n (SectionTracker []) st ch) \<Longrightarrow>
    \<exists>c'. generate_cycles G expr li (Sect nl ss) (c, l) =
      Some (c', l @ map (Pair x) (drop d (leaves (Sect nl ss))) @ concat (map (\<lambda>x. map (Pair x) (leaves (Sect nl ss))) xs))"
proof (induction "length xs * length (leaves (Sect nl ss)) + (length (leaves (Sect nl ss)) - d)"
    arbitrary: d g gm x xs c st ch l rule: less_induct)
  case less
  let ?s = "Sect nl ss"
  let ?ls = "leaves (Sect nl ss)" and ?m = "length (leaves (Sect nl ss))"
  have m: "?m - d = Suc (?m - Suc d)" using less.prems(2) by simp
  then obtain g' where g': "get_elem G g = Some (x, g')" "gets (?m - Suc d) G g' x = Some gm"
    using less.prems(3) by (auto split: option.splits if_splits)
  note cyc = generate_cycle_step [OF less.prems(1) g'(1) wf less.prems(2,5), of l]
  have dr: "drop d ?ls = ?ls ! d # drop (Suc d) ?ls" using less.prems(2) by (simp add: Cons_nth_drop_Suc del: leaves.simps)
  show ?case
  proof (cases "Suc d < ?m")
    case True
    let ?r = "gt n nl ExecutingChildren li (Some (Some g')) ExecutingChildren (sects_tr (Suc d) ss)"
    obtain ch' where ch': "?r = Tracker n (SectionTracker []) ExecutingChildren ch'" "gen_ready nl li expr ss (Suc d) g' ch'"
      using gt_ready [of ExecutingChildren "Suc d" ss "sects_tr (Suc d) ss"] by (force simp: visited_def)
    have "\<exists>c'. generate_cycles G expr li ?s (tctx ?r [] CompletedCycle, l @ [(x, ?ls ! d)]) =
        Some (c', (l @ [(x, ?ls ! d)]) @ map (Pair x) (drop (Suc d) ?ls) @ concat (map (\<lambda>x. map (Pair x) ?ls) xs))"
      by (rule less.hyps [OF _ ch'(2) True g'(2) less.prems(4)]) (use True ch'(1) in \<open>simp_all del: leaves.simps\<close>)
    moreover have "\<not> isSuccessfullyCompleted (Tracker nl (SectionTracker []) ExecutingChildren tch)" for tch :: "'s option tracker list"
      by (simp add: isSuccessfullyCompleted_def)
    ultimately show ?thesis using True
      by (subst generate_cycles.simps) (simp add: cyc dr gt_def del: leaves.simps)
  next
    case False
    then have last: "Suc d = ?m" using less.prems(2) by simp
    then have gm: "g' = gm" using g'(2) by simp
    show ?thesis
    proof (cases xs)
      case Nil
      with less.prems(4) obtain g'' where "next_elem G gm = Some (False, g'')" by (auto simp: departs_Nil)
      then have n: "tracked_next G (Some g') = (False, Some g'')" by (simp add: tracked_next_def gm)
      have "isSuccessfullyCompleted (Tracker nl (SectionTracker []) CompletedSuccessfully tch)" for tch :: "'s option tracker list"
        by (simp add: isSuccessfullyCompleted_def)
      then show ?thesis using Nil last n
        by (subst generate_cycles.simps) (simp add: cyc dr gt_def del: leaves.simps)
    next
      case (Cons y ys)
      with less.prems(4) obtain g'' where g'': "next_elem G gm = Some (True, g'')" "visits ?m G g'' (y # ys)"
        by (auto simp: departs_Cons)
      then have n: "tracked_next G (Some g') = (True, Some g'')" by (simp add: tracked_next_def gm)
      obtain gm' where gm': "gets (?m - 0) G g'' y = Some gm'" "departs ?m G gm' ys"
        using g''(2) by (auto simp: visits_Cons)
      let ?r = "gt n nl ExecutingChildren li (Some (Some g'')) Executing []"
      obtain ch' where ch': "?r = Tracker n (SectionTracker []) ExecutingChildren ch'" "gen_ready nl li expr ss 0 g'' ch'"
        using gt_ready [of Executing 0 ss "[]"] by (force simp: visited_def)
      have pos: "0 < ?m" by (rule leaves_pos)
      have "\<exists>c'. generate_cycles G expr li ?s (tctx ?r [] CompletedCycle, l @ [(x, ?ls ! d)]) =
          Some (c', (l @ [(x, ?ls ! d)]) @ map (Pair y) (drop 0 ?ls) @ concat (map (\<lambda>x. map (Pair x) ?ls) ys))"
        by (rule less.hyps [OF _ ch'(2) pos gm']) (use Cons last ch'(1) in \<open>simp_all del: leaves.simps\<close>)
      moreover have "\<not> isSuccessfullyCompleted (Tracker nl (SectionTracker []) ExecutingChildren tch)" for tch :: "'s option tracker list"
        by (simp add: isSuccessfullyCompleted_def)
      ultimately show ?thesis using Cons last n
        by (subst generate_cycles.simps) (simp add: cyc dr gt_def del: leaves.simps)
    qed
  qed
qed

text \<open>
  C39: for every test case made of a \<open>GENERATE\<close> and sections below it, and
  every generator that keeps its element while it is read once per leaf section,
  the cycles of \<open>runTest\<close> come to an end and run every leaf section
  exactly once for every element, element by element, in the order of the
  source.\<close>

theorem generated_sections_run:
  assumes "wf_sect s" "visits (length (leaves s)) G expr xs"
  shows "\<exists>c'. generate_cycles G expr li s (startRun here c, []) =
    Some (c', concat (map (\<lambda>x. map (Pair x) (leaves s)) xs))"
proof -
  obtain nl ss where s: "s = Sect nl ss" by (cases s)
  obtain x ys where xs: "xs = x # ys" using assms(2) by (cases xs) auto
  from assms(2) obtain gm where gm: "gets (length (leaves (Sect nl ss)) - 0) G expr x = Some gm"
    "departs (length (leaves (Sect nl ss))) G gm ys"
    by (auto simp: s xs visits_Cons)
  have "gen_ready nl li expr ss 0 expr []" by (simp add: gen_ready_def)
  from generate_cycles_from [OF assms(1) [unfolded s] this leaves_pos gm, where c = "startRun here c" and l = "[]"]
  show ?thesis by (simp add: s xs startRun_def del: leaves.simps)
qed

theorem generated_sections_run_witness:
  "\<exists>c'. generate_cycles FixedValuesGenerator (FixedValues_new [7, 8 :: nat]) \<lparr>sl_file = ''t.cpp'', sl_line = 6\<rparr> sample_sections
     (startRun \<lparr>sl_file = [], sl_line = 0\<rparr> \<lparr>m_rootTracker = None, m_currentTracker = None, m_ctxState = RunNotStarted\<rparr>, []) =
     Some (c', map (Pair 7) (leaves sample_sections) @ map (Pair 8) (leaves sample_sections))"
proof -
  have wf: "wf_sect sample_sections" by code_simp
  have v: "visits (length (leaves sample_sections)) FixedValuesGenerator (FixedValues_new [7, 8 :: nat]) [7, 8]"
    by (rule fixed.yields_visits [OF FixedValues_yields]) simp
  from generated_sections_run [OF wf v, of "\<lparr>sl_file = ''t.cpp'', sl_line = 6\<rparr>" "\<lparr>sl_file = [], sl_line = 0\<rparr>"
      "\<lparr>m_rootTracker = None, m_currentTracker = None, m_ctxState = RunNotStarted\<rparr>"]
  show ?thesis by simp
qed

end
