(* ===== verification/CatchSession.thy ===== *)
theory CatchSession
  imports CatchRunTest
begin

text \<open>
  The session of the unit test framework (\<open>native/src/catch.hpp\<close>): the loop
  over the selected test cases and the exit code, and what the reporter learns
  about a run.
\<close>

section \<open>Running all tests\<close>

text \<open>The loop over the test cases; \<open>config\<close> is the configuration of the context.\<close>

fun runTests_loop ::
  "('g \<Rightarrow> bool \<times> 'g) \<Rightarrow> (TestCase \<Rightarrow> ('u, 'g) invoker) \<Rightarrow> SourceLineInfo \<Rightarrow> TestSpec \<Rightarrow> Config \<Rightarrow> TestCase list \<Rightarrow>
     Totals \<Rightarrow> 'u \<Rightarrow> 'g RunContext \<Rightarrow> (Totals \<times> 'u \<times> 'g RunContext) option" where
  "runTests_loop next_item invoke here spec cfg [] totals u c = Some (totals, u, c)"
| "runTests_loop next_item invoke here spec cfg (tc # tcs) totals u c = (
     let matching = (\<not> hasFilters spec \<and> \<not> isHidden tc) \<or> (hasFilters spec \<and> matchTest tc spec cfg) in
     if \<not> aborting c \<and> matching
     then do {
       (d, u, c) \<leftarrow> runTest next_item (invoke tc) here tc u c;
       runTests_loop next_item invoke here spec cfg tcs (Totals_plus totals d) u c }
     else runTests_loop next_item invoke here spec cfg tcs totals u (report (SkipTest tc) c))"

definition runTests ::
  "('g \<Rightarrow> bool \<times> 'g) \<Rightarrow> (TestCase \<Rightarrow> ('u, 'g) invoker) \<Rightarrow> SourceLineInfo \<Rightarrow> Config \<Rightarrow> bool \<Rightarrow> TestCase list \<Rightarrow> 'u \<Rightarrow>
     (Totals \<times> 'u \<times> 'g RunContext) option" where
  "runTests next_item invoke here cfg reportAll allTestCases u = do {
     let c = RunContext_new cfg reportAll;
     let c = testGroupStarting (Config_name cfg) 1 1 c;
     (totals, u, c) \<leftarrow> runTests_loop next_item invoke here (cfg_testSpec cfg) cfg allTestCases Totals_new u c;
     let (totals, c) =
       (if warnAboutNoTests cfg \<and> Counts_total (testCases totals) = 0
        then (totals\<lparr>t_error := -1\<rparr>, report (NoMatchingTestCases (join_with '' '' (testsOrTags (cfg_data cfg)))) c)
        else (totals, c));
     let c = testGroupEnded (Config_name cfg) totals 1 1 c;
     Some (totals, u, RunContext_delete c) }"

text \<open>\<open>filename.find_last_of\<close> of a set of characters.\<close>

fun find_last_of :: "char list \<Rightarrow> string \<Rightarrow> nat option" where
  "find_last_of cs [] = None"
| "find_last_of cs (c # s) =
     (case find_last_of cs s of Some i \<Rightarrow> Some (Suc i) | None \<Rightarrow> if c \<in> set cs then Some 0 else None)"

definition filename_tag :: "string \<Rightarrow> string" where
  "filename_tag filename =
     (let filename = (case find_last_of [CHR 0x5C, CHR ''/''] filename of
            Some i \<Rightarrow> (drop i filename)[0 := CHR ''#''] | None \<Rightarrow> filename)
      in (case find_last_of [CHR ''.''] filename of Some i \<Rightarrow> take i filename | None \<Rightarrow> filename))"

definition applyFilenamesAsTags :: "TestCase list \<Rightarrow> TestCase list" where
  "applyFilenamesAsTags ts =
     map (\<lambda>tc. TestCase_new (test tc)
            (setTags (TestCaseInfo.truncate tc) (tags tc @ [filename_tag (sl_file (lineInfo tc))]))) ts"

definition MaxExitCode :: int where "MaxExitCode = 255"

text \<open>The exit code of \<open>runInternal\<close> after \<open>runTests\<close>.\<close>

definition exitCode :: "Totals \<Rightarrow> int" where
  "exitCode totals = min MaxExitCode (max (t_error totals) (sint (ucast (failed (assertions totals)) :: u32)))"

section \<open>What a test body can do\<close>

text \<open>
  The calls of the capture interface, each of which may happen while a test
  runs: those that leave the sections alone, and all of them.
\<close>

inductive capture_call :: "'g RunContext \<Rightarrow> 'g RunContext \<Rightarrow> bool" where
  expr: "handleExpr info e r c = Some (r', c') \<Longrightarrow> capture_call c c'"
| msg: "handleMessage info ty m r c = Some (r', c') \<Longrightarrow> capture_call c c'"
| non_expr: "handleNonExpr info ty r c = Some (r', c') \<Longrightarrow> capture_call c c'"
| not_thrown: "handleUnexpectedExceptionNotThrown info r c = Some (r', c') \<Longrightarrow> capture_call c c'"
| inflight: "handleUnexpectedInflightException info m c = Some (r', c') \<Longrightarrow> capture_call c c'"
| incomplete: "handleIncomplete info c = Some c' \<Longrightarrow> capture_call c c'"
| generator: "acquireGeneratorTracker li c = Some (p, c') \<Longrightarrow> capture_call c c'"
| set_generator: "capture_call c (c\<lparr>m_trackerContext := setGenerator g p (m_trackerContext c)\<rparr>)"
| push: "capture_call c (pushScopedMessage m c)"
| pop: "capture_call c (popScopedMessage m c)"
| unscoped: "capture_call c (emplaceUnscopedMessage m t c)"
| early: "capture_call c (exceptionEarlyReported c)"
| unwinding: "capture_call c (c\<lparr>uncaught := b\<rparr>)"

inductive capture_step :: "('g \<Rightarrow> bool \<times> 'g) \<Rightarrow> 'g RunContext \<Rightarrow> 'g RunContext \<Rightarrow> bool" for next_item where
  call: "capture_call c c' \<Longrightarrow> capture_step next_item c c'"
| section_started: "sectionStarted si k c = Some (b, k', c') \<Longrightarrow> capture_step next_item c c'"
| section_ended: "sectionEnded next_item ei c = Some c' \<Longrightarrow> capture_step next_item c c'"
| section_early: "sectionEndedEarly next_item ei c = Some c' \<Longrightarrow> capture_step next_item c c'"

section \<open>The report and the totals\<close>

fun bad_event :: "event \<Rightarrow> bool" where
  "bad_event (AssertionEnded s) = (\<not> AssertionResult_isOk (as_result s))"
| "bad_event (SectionEnded s) = missingAssertions s"
| "bad_event _ = False"

fun test_event :: "event \<Rightarrow> (TestCase \<times> bool) list" where
  "test_event (TestCaseEnded tc t a) = [(tc, True)]"
| "test_event (SkipTest tc) = [(tc, False)]"
| "test_event _ = []"

definition failures :: "'g RunContext \<Rightarrow> u64" where
  "failures c = failed (assertions (m_totals c)) + failedButOk (assertions (m_totals c))"

definition bad_count :: "event list \<Rightarrow> u64" where
  "bad_count es = of_nat (length (filter bad_event es))"

text \<open>A change of the context that tells the reporter about every counted failure, and about no test case.\<close>

definition told :: "'g RunContext \<Rightarrow> 'g RunContext \<Rightarrow> bool" where
  "told c c' \<longleftrightarrow> (\<exists>es. m_reporter c' = m_reporter c @ es \<and> failures c' = failures c + bad_count es \<and>
     concat (map test_event es) = []) \<and>
     testCases (m_totals c') = testCases (m_totals c) \<and> m_config c' = m_config c \<and>
     m_activeTestCase c' = m_activeTestCase c"

lemma told_refl [simp]: "told c c"
  by (auto simp: told_def bad_count_def)

lemma told_trans: "told a b \<Longrightarrow> told b c \<Longrightarrow> told a c"
  unfolding told_def bad_count_def
  by (elim conjE exE, intro conjI) (rule exI, auto simp: of_nat_add)

lemma told_quiet:
  assumes "m_reporter c' = m_reporter c" "m_totals c' = m_totals c" "m_config c' = m_config c"
    "m_activeTestCase c' = m_activeTestCase c"
  shows "told c c'"
  using assms by (auto simp: told_def bad_count_def failures_def)

lemma told_report:
  assumes "\<not> bad_event e" "test_event e = []"
  shows "told c (report e c)"
proof -
  have "m_reporter (report e c) = m_reporter c @ [e] \<and> failures (report e c) = failures c + bad_count [e] \<and>
     concat (map test_event [e]) = []"
    using assms by (simp add: report_def failures_def bad_count_def)
  then show ?thesis by (auto simp: told_def report_def)
qed

lemma clear_scopes_frame:
  "\<exists>ms. clear_scopes c = c\<lparr>m_messages := ms, m_messageScopes := []\<rparr>"
proof -
  have "\<exists>ms. fold ScopedMessage_delete xs c = c\<lparr>m_messages := ms\<rparr>" for xs and c :: "'a RunContext"
  proof (induction xs arbitrary: c)
    case Nil
    show ?case by (rule exI [of _ "m_messages c"]) simp
  next
    case (Cons x xs)
    obtain ms where "ScopedMessage_delete x c = c\<lparr>m_messages := ms\<rparr>"
      by (cases "uncaught c") (auto simp: ScopedMessage_delete_def popScopedMessage_def intro: that [of "m_messages c"])
    with Cons [of "c\<lparr>m_messages := ms\<rparr>"] show ?case by auto
  qed
  then show ?thesis by (metis clear_scopes_def)
qed

lemma told_clear_scopes [simp]: "told c (clear_scopes c)"
proof -
  obtain ms where "clear_scopes c = c\<lparr>m_messages := ms, m_messageScopes := []\<rparr>" using clear_scopes_frame by blast
  then show ?thesis by (simp add: told_quiet)
qed

lemma fails_on_assertions:
  "failures (on_assertions add_passed c) = failures c"
  "failures (on_assertions add_failed c) = failures c + 1"
  "failures (on_assertions add_failedButOk c) = failures c + 1"
  by (simp_all add: failures_def on_assertions_def add_passed_def add_failed_def add_failedButOk_def)

lemma told_assertionEnded:
  assumes "assertionEnded r c = Some c'"
  shows "told c c'"
proof -
  obtain d where d: "m_reporter d = m_reporter c" "testCases (m_totals d) = testCases (m_totals c)" "m_config d = m_config c"
      "m_activeTestCase d = m_activeTestCase c" "failures d = failures c + (if AssertionResult_isOk r then 0 else 1)"
    and c': "c' = (let (stats, e) = AssertionStats_new r d; e = report (AssertionEnded stats) e;
       e = (if getResultType r \<noteq> ResultWarning then clear_scopes e else e); e = resetAssertionInfo e
      in e\<lparr>m_lastResult := Some (AssertionResult_copy r)\<rparr>)"
  proof -
    consider "getResultType r = ResultOk" | "getResultType r \<noteq> ResultOk" "\<not> AssertionResult_isOk r"
      | "getResultType r \<noteq> ResultOk" "AssertionResult_isOk r" by blast
    then show ?thesis
    proof cases
      case 1
      then have "AssertionResult_isOk r"
        by (simp add: AssertionResult_isOk_def getResultType_def isOk_def ResultWas_value_def)
      with 1 assms that [of "(on_assertions add_passed c)\<lparr>m_lastAssertionPassed := True\<rparr>"] show ?thesis
        using fails_on_assertions(1) [of c]
        by (simp add: assertionEnded_def on_assertions_def failures_def Let_def split: prod.splits)
    next
      case 2
      with assms obtain tc where tc: "m_activeTestCase c = Some tc" by (auto simp: assertionEnded_def bind_eq_Some_conv)
      let ?d = "on_assertions (if okToFail tc then add_failedButOk else add_failed) (c\<lparr>m_lastAssertionPassed := False\<rparr>)"
      have "failures ?d = failures c + 1"
        using fails_on_assertions(2,3) [of "c\<lparr>m_lastAssertionPassed := False\<rparr>"] by (simp add: failures_def)
      with 2 tc assms that [of ?d] show ?thesis
        by (simp add: assertionEnded_def Let_def on_assertions_def split: prod.splits)
    next
      case 3
      with assms that [of "c\<lparr>m_lastAssertionPassed := True\<rparr>"] show ?thesis
        by (simp add: assertionEnded_def failures_def Let_def split: prod.splits)
    qed
  qed
  obtain stats e where s: "AssertionStats_new r d = (stats, e)" by fastforce
  have e: "as_result stats = r" "m_reporter e = m_reporter d" "m_totals e = m_totals d" "m_config e = m_config d"
      "m_activeTestCase e = m_activeTestCase d"
    using s by (auto simp: AssertionStats_new_def MessageInfo_new_def Let_def split: if_splits)
  let ?f = "report (AssertionEnded stats) e"
  have "m_reporter ?f = m_reporter c @ [AssertionEnded stats]"
    "failures ?f = failures c + bad_count [AssertionEnded stats]" "concat (map test_event [AssertionEnded stats]) = []"
    using d e by (simp_all add: report_def failures_def bad_count_def)
  moreover have "testCases (m_totals ?f) = testCases (m_totals c)" "m_config ?f = m_config c"
    "m_activeTestCase ?f = m_activeTestCase c"
    using d e by (simp_all add: report_def)
  ultimately have "told c ?f" unfolding told_def by blast
  moreover define g where "g = (if getResultType r \<noteq> ResultWarning then clear_scopes ?f else ?f)"
  have "told ?f g" unfolding g_def by simp
  ultimately have "told c g" by (rule told_trans)
  moreover have "told g ((resetAssertionInfo g)\<lparr>m_lastResult := Some (AssertionResult_copy r)\<rparr>)"
    by (rule told_quiet) (simp_all add: resetAssertionInfo_def)
  ultimately have "told c ((resetAssertionInfo g)\<lparr>m_lastResult := Some (AssertionResult_copy r)\<rparr>)" by (rule told_trans)
  then show ?thesis unfolding c' s g_def Let_def by simp
qed

lemma told_set_info: "told (c\<lparr>m_lastAssertionInfo := i\<rparr>) c' \<Longrightarrow> told c c'"
  by (rule told_trans [of _ "c\<lparr>m_lastAssertionInfo := i\<rparr>"]) (simp_all add: told_quiet)

lemma told_starting: "told (report (AssertionStarting i) c) c' \<Longrightarrow> told c c'"
  by (rule told_trans [of _ "report (AssertionStarting i) c"]) (simp_all add: told_report)

lemma told_reportExpr: "reportExpr i ty e n c = Some c' \<Longrightarrow> told c c'"
  unfolding reportExpr_def Let_def by (rule told_set_info, erule told_assertionEnded)

lemma told_assertionPassed: "told c (assertionPassed c)"
proof -
  let ?d = "resetAssertionInfo (on_assertions add_passed (c\<lparr>m_lastAssertionPassed := True\<rparr>))"
  have "m_reporter ?d = m_reporter c @ []" "failures ?d = failures c + bad_count []" "concat (map test_event []) = []"
    by (simp_all add: resetAssertionInfo_def on_assertions_def failures_def add_passed_def bad_count_def)
  moreover have "testCases (m_totals ?d) = testCases (m_totals c)" "m_config ?d = m_config c"
    "m_activeTestCase ?d = m_activeTestCase c"
    by (simp_all add: resetAssertionInfo_def on_assertions_def)
  ultimately have "told c ?d" unfolding told_def by blast
  then show ?thesis
    unfolding assertionPassed_def Let_def by (rule told_trans) simp
qed

lemma told_handlers:
  "handleExpr info e r c = Some (r', c') \<Longrightarrow> told c c'"
  "handleMessage info ty m r c = Some (r', c') \<Longrightarrow> told c c'"
  "handleNonExpr info ty r c = Some (r', c') \<Longrightarrow> told c c'"
  "handleUnexpectedExceptionNotThrown info r c = Some (r', c') \<Longrightarrow> told c c'"
  "handleUnexpectedInflightException info m c = Some (r', c') \<Longrightarrow> told c c'"
  "handleIncomplete info c = Some c' \<Longrightarrow> told c c'"
proof -
  show "told c c'" if "handleExpr info e r c = Some (r', c')"
    by (rule told_starting [where i = info])
      (use that in \<open>auto simp: handleExpr_def Let_def bind_eq_Some_conv told_assertionPassed
         dest: told_reportExpr split: if_splits\<close>)
  show "told c c'" if "handleMessage info ty m r c = Some (r', c')"
    by (rule told_starting [where i = info], rule told_set_info [where i = info])
      (use that in \<open>auto simp: handleMessage_def Let_def bind_eq_Some_conv dest: told_assertionEnded\<close>)
  show ne: "told c c'" if "handleNonExpr info ty r c = Some (r', c')" for ty
    by (rule told_set_info [where i = info])
      (use that in \<open>auto simp: handleNonExpr_def Let_def bind_eq_Some_conv dest: told_assertionEnded\<close>)
  show "told c c'" if "handleUnexpectedExceptionNotThrown info r c = Some (r', c')"
    using that unfolding handleUnexpectedExceptionNotThrown_def by (rule ne)
  show "told c c'" if "handleUnexpectedInflightException info m c = Some (r', c')"
    by (rule told_set_info [where i = info])
      (use that in \<open>auto simp: handleUnexpectedInflightException_def Let_def bind_eq_Some_conv dest: told_assertionEnded\<close>)
  show "told c c'" if "handleIncomplete info c = Some c'"
    by (rule told_set_info [where i = info])
      (use that in \<open>auto simp: handleIncomplete_def Let_def dest: told_assertionEnded\<close>)
qed

lemma told_on_trackers: "on_trackers f c = Some c' \<Longrightarrow> told c c'"
  by (auto simp: on_trackers_def intro: told_quiet)

lemma told_sectionStarted:
  assumes "sectionStarted si k c = Some (b, k', c')"
  shows "told c c'"
proof -
  obtain p t tr where t: "SectionTracker_acquire \<lparr>nl_name = si_name si, nl_location = si_lineInfo si\<rparr> (m_trackerContext c) = Some (p, t)"
    "tracker_at p t = Some tr"
    using assms by (auto simp: sectionStarted_def bind_eq_Some_conv Let_def)
  let ?d = "c\<lparr>m_trackerContext := t, m_activeSections := m_activeSections c @ [p],
      m_lastAssertionInfo := (m_lastAssertionInfo c)\<lparr>ai_lineInfo := si_lineInfo si\<rparr>\<rparr>"
  have "told c (c\<lparr>m_trackerContext := t\<rparr>)" "told c ?d" by (rule told_quiet; simp)+
  moreover have "told ?d (report (SectionStarting si) ?d)" by (rule told_report) simp_all
  ultimately have "told c (c\<lparr>m_trackerContext := t\<rparr>)" "told c (report (SectionStarting si) ?d)"
    by (blast intro: told_trans)+
  moreover have "c' = (if isOpen tr then report (SectionStarting si) ?d else c\<lparr>m_trackerContext := t\<rparr>)"
    using assms t by (auto simp: sectionStarted_def Let_def split: if_splits)
  ultimately show ?thesis by simp
qed

lemma told_acquireGenerator: "acquireGeneratorTracker li c = Some (p, c') \<Longrightarrow> told c c'"
  by (auto simp: acquireGeneratorTracker_def bind_eq_Some_conv intro: told_quiet split: if_splits)

text \<open>A missing assertion is counted before it is reported.\<close>

lemma missing_assertions:
  assumes "testForMissingAssertions k c = Some (b, k', d)"
  shows "d = (if b then on_assertions add_failed c else c)"
  using assms by (auto simp: testForMissingAssertions_def bind_eq_Some_conv split: if_splits)

lemma told_missing:
  assumes "testForMissingAssertions k c = Some (b, k', d)" "told d e"
    "m_reporter f = m_reporter e @ [SectionEnded \<lparr>ss_info = i, ss_assertions = n, missingAssertions = b\<rparr>]"
    "m_totals f = m_totals e" "m_config f = m_config e" "m_activeTestCase f = m_activeTestCase e"
  shows "told c f"
proof -
  have d: "failures d = failures c + (if b then 1 else 0)" "m_reporter d = m_reporter c"
    "testCases (m_totals d) = testCases (m_totals c)" "m_config d = m_config c" "m_activeTestCase d = m_activeTestCase c"
    using missing_assertions [OF assms(1)] fails_on_assertions(2) [of c] by (auto simp: on_assertions_def)
  from assms(2) obtain es where es: "m_reporter e = m_reporter d @ es" "failures e = failures d + bad_count es"
    "concat (map test_event es) = []" unfolding told_def by blast
  let ?es = "es @ [SectionEnded \<lparr>ss_info = i, ss_assertions = n, missingAssertions = b\<rparr>]"
  have "m_reporter f = m_reporter c @ ?es" "failures f = failures c + bad_count ?es" "concat (map test_event ?es) = []"
    using d es assms(3,4) by (simp_all add: failures_def bad_count_def)
  then show ?thesis
    using assms(2,4,5,6) d unfolding told_def by metis
qed

lemma told_sectionEnded:
  assumes "sectionEnded next_item ei c = Some c'"
  shows "told c c'"
proof -
  obtain b k d e where m: "testForMissingAssertions (Counts_minus (assertions (m_totals c)) (prevAssertions ei)) c = Some (b, k, d)"
    and e: "(if m_activeSections d \<noteq> [] then do {
            c \<leftarrow> on_trackers (tracker_close next_item True (last (m_activeSections d))) d;
            Some (c\<lparr>m_activeSections := butlast (m_activeSections c)\<rparr>) } else Some d) = Some e"
    and c': "c' = clear_scopes ((report (SectionEnded \<lparr>ss_info = sectionInfo ei, ss_assertions = k, missingAssertions = b\<rparr>) e)\<lparr>m_messages := []\<rparr>)"
    using assms by (auto simp: sectionEnded_def Let_def bind_eq_Some_conv)
  have "told d e"
  proof (cases "m_activeSections d = []")
    case False
    with e obtain x where "on_trackers (tracker_close next_item True (last (m_activeSections d))) d = Some x"
      "e = x\<lparr>m_activeSections := butlast (m_activeSections x)\<rparr>" by (auto simp: bind_eq_Some_conv)
    moreover have "told x (x\<lparr>m_activeSections := butlast (m_activeSections x)\<rparr>)" by (rule told_quiet) simp_all
    ultimately show ?thesis by (metis told_trans told_on_trackers)
  qed (use e in simp)
  from told_missing [OF m this, of "(report (SectionEnded \<lparr>ss_info = sectionInfo ei, ss_assertions = k, missingAssertions = b\<rparr>) e)\<lparr>m_messages := []\<rparr>"]
  have "told c ((report (SectionEnded \<lparr>ss_info = sectionInfo ei, ss_assertions = k, missingAssertions = b\<rparr>) e)\<lparr>m_messages := []\<rparr>)"
    by (simp add: report_def)
  then show ?thesis unfolding c' by (rule told_trans) simp
qed

lemma told_sectionEndedEarly:
  assumes "sectionEndedEarly next_item ei c = Some c'"
  shows "told c c'"
proof -
  obtain f d where "on_trackers f c = Some d" "m_reporter c' = m_reporter d" "m_totals c' = m_totals d"
    "m_config c' = m_config d" "m_activeTestCase c' = m_activeTestCase d"
    using assms by (auto simp: sectionEndedEarly_def Let_def bind_eq_Some_conv split: if_splits)
  then show ?thesis by (metis told_trans told_on_trackers told_quiet)
qed

lemma capture_call_told: "capture_call c c' \<Longrightarrow> told c c'"
proof (induction rule: capture_call.induct)
  case (unscoped c m t)
  show ?case by (rule told_quiet) (simp_all add: emplaceUnscopedMessage_def ScopedMessage_new_def pushScopedMessage_def Let_def)
qed (auto intro: told_handlers told_acquireGenerator
    told_quiet simp: pushScopedMessage_def popScopedMessage_def exceptionEarlyReported_def)

lemma capture_step_told: "capture_step next_item c c' \<Longrightarrow> told c c'"
  by (induction rule: capture_step.induct)
    (auto intro: capture_call_told told_sectionStarted told_sectionEnded told_sectionEndedEarly)

lemma capture_steps_told: "(capture_step next_item)\<^sup>*\<^sup>* c c' \<Longrightarrow> told c c'"
  by (induction rule: rtranclp_induct) (auto intro: told_trans capture_step_told)

section \<open>Test cases\<close>

lemma told_end_sections: "end_sections next_item es c = Some c' \<Longrightarrow> told c c'"
  by (induction es arbitrary: c) (auto simp: bind_eq_Some_conv intro: told_trans told_sectionEnded)

lemma told_handleUnfinishedSections: "handleUnfinishedSections next_item c = Some c' \<Longrightarrow> told c c'"
  by (auto simp: handleUnfinishedSections_def bind_eq_Some_conv
      intro!: told_trans [OF told_end_sections told_quiet])

lemma told_prepare_test: "told c (prepare_test tc c)"
proof -
  let ?d = "report (SectionStarting \<lparr>si_name = name tc, si_lineInfo = lineInfo tc\<rparr>) c"
  have "told c ?d" by (rule told_report) simp_all
  moreover have "told ?d (prepare_test tc c)" by (rule told_quiet) (simp_all add: prepare_test_def Let_def)
  ultimately show ?thesis by (rule told_trans)
qed

lemma told_catch_outcome: "catch_outcome out c = Some c' \<Longrightarrow> told c c'"
  by (cases out) (auto simp: catch_outcome_def split: if_splits dest: told_handlers(5))

text \<open>A test function that reports its failures.\<close>

definition tells :: "('u, 'g) invoker \<Rightarrow> bool" where
  "tells invoke \<longleftrightarrow> (\<forall>u c out u' c'. invoke u c = Some (out, u', c') \<longrightarrow> told c c')"

lemma tellsD: "tells invoke \<Longrightarrow> invoke u c = Some (out, u', c') \<Longrightarrow> told c c'"
  by (auto simp: tells_def)

lemma told_runCurrentTest:
  assumes inv: "tells invoke"
    and run: "runCurrentTest next_item invoke u c = Some (u', c')"
  shows "told c c'"
proof -
  obtain tc out u1 c2 c3 b k c4 p c5 c6 where
    i: "invoke u (prepare_test tc c) = Some (out, u1, c2)" and c3: "catch_outcome out c2 = Some c3" and
    m: "testForMissingAssertions (Counts_minus (assertions (m_totals c3)) (assertions (m_totals (prepare_test tc c)))) c3 = Some (b, k, c4)" and
    c5: "on_trackers (tracker_close next_item True p) c4 = Some c5" and
    c6: "handleUnfinishedSections next_item c5 = Some c6" and
    c': "c' = report (SectionEnded \<lparr>ss_info = \<lparr>si_name = name tc, si_lineInfo = lineInfo tc\<rparr>, ss_assertions = k,
      missingAssertions = b\<rparr>) (clear_scopes (c6\<lparr>m_messages := []\<rparr>))"
    using run by (auto simp: runCurrentTest_def Let_def bind_eq_Some_conv)
  have a: "told c c3"
    using told_prepare_test [of c tc] tellsD [OF inv i] told_catch_outcome [OF c3] by (metis told_trans)
  have "told c4 c5" using c5 by (rule told_on_trackers)
  moreover have "told c5 c6" using c6 by (rule told_handleUnfinishedSections)
  moreover have "told c6 (clear_scopes (c6\<lparr>m_messages := []\<rparr>))"
    by (rule told_trans [OF told_quiet told_clear_scopes]) simp_all
  ultimately have "told c4 (clear_scopes (c6\<lparr>m_messages := []\<rparr>))" by (metis told_trans)
  from told_missing [OF m this] have "told c3 c'" unfolding c' by (simp add: report_def)
  with a show ?thesis by (rule told_trans)
qed

text \<open>
  What every cycle establishes from what holds before the first cycle, and
  from itself, holds at the end of the loop.
\<close>

lemma test_cycles_aux:
  fixes next_item :: "'g \<Rightarrow> bool \<times> 'g" and invoke :: "('u, 'g) invoker" and P Q :: "'g RunContext \<Rightarrow> bool"
  shows "test_cycles next_item invoke nl u c = Some r \<Longrightarrow>
   (\<forall>u c t p u1 c1. P c \<longrightarrow>
      runCurrentTest next_item invoke u (c\<lparr>m_trackerContext := t, m_testCaseTracker := Some p\<rparr>) = Some (u1, c1) \<longrightarrow> Q c1) \<longrightarrow>
   (\<forall>c. Q c \<longrightarrow> P c) \<longrightarrow> P c \<longrightarrow> Q (snd r)"
proof (erule test_cycles.raw_induct [rotated])
  fix f :: "('g \<Rightarrow> bool \<times> 'g) \<Rightarrow> ('u, 'g) invoker \<Rightarrow> NameAndLocation \<Rightarrow> 'u \<Rightarrow> 'g RunContext \<Rightarrow> ('u \<times> 'g RunContext) option"
    and next_item invoke nl u c r
  let ?cycle = "\<lambda>(next_item :: 'g \<Rightarrow> bool \<times> 'g) (invoke :: ('u, 'g) invoker). \<forall>u c t p u1 c1. P c \<longrightarrow>
      runCurrentTest next_item invoke u (c\<lparr>m_trackerContext := t, m_testCaseTracker := Some p\<rparr>) = Some (u1, c1) \<longrightarrow> Q c1"
  assume f: "\<And>next_item invoke nl u c r. f next_item invoke nl u c = Some r \<Longrightarrow>
      ?cycle next_item invoke \<longrightarrow> (\<forall>c. Q c \<longrightarrow> P c) \<longrightarrow> P c \<longrightarrow> Q (snd r)"
    and body: "do {
     let t = startCycle (m_trackerContext c);
     (p, t) \<leftarrow> SectionTracker_acquire nl t;
     let c = c\<lparr>m_trackerContext := t, m_testCaseTracker := Some p\<rparr>;
     (u, c) \<leftarrow> runCurrentTest next_item invoke u c;
     tr \<leftarrow> tracker_at p (m_trackerContext c);
     if \<not> isSuccessfullyCompleted tr \<and> \<not> aborting c then f next_item invoke nl u c else Some (u, c) } = Some r"
  show "?cycle next_item invoke \<longrightarrow> (\<forall>c. Q c \<longrightarrow> P c) \<longrightarrow> P c \<longrightarrow> Q (snd r)"
  proof (intro impI)
    assume inv: "?cycle next_item invoke" and qp: "\<forall>c. Q c \<longrightarrow> P c" and p: "P c"
    from body obtain p t u1 c1 and tr :: "'g tracker" where
      run: "runCurrentTest next_item invoke u (c\<lparr>m_trackerContext := t, m_testCaseTracker := Some p\<rparr>) = Some (u1, c1)"
      and rest: "(if \<not> isSuccessfullyCompleted tr \<and> \<not> aborting c1 then f next_item invoke nl u1 c1 else Some (u1, c1)) = Some r"
      by (auto simp: Let_def bind_eq_Some_conv)
    have "Q c1" using inv p run by blast
    then show "Q (snd r)"
      using rest f [of next_item invoke nl u1 c1 r] inv qp by (auto split: if_splits)
  qed
qed

lemma test_cycles_rule:
  assumes "test_cycles next_item invoke nl u c = Some (u', c')" "P c"
    "\<And>u c t p u1 c1. P c \<Longrightarrow>
      runCurrentTest next_item invoke u (c\<lparr>m_trackerContext := t, m_testCaseTracker := Some p\<rparr>) = Some (u1, c1) \<Longrightarrow> Q c1"
    "\<And>c. Q c \<Longrightarrow> P c"
  shows "Q c'"
  using test_cycles_aux [OF assms(1), of P Q] assms(2-4) by simp

lemma told_test_cycles:
  assumes "tells invoke"
    "test_cycles next_item invoke nl u c = Some (u', c')"
  shows "told c c'"
proof (rule test_cycles_rule [OF assms(2), where P = "told c"])
  fix u d t p u1 d1
  assume d: "told c d"
    "runCurrentTest next_item invoke u (d\<lparr>m_trackerContext := t, m_testCaseTracker := Some p\<rparr>) = Some (u1, d1)"
  have "told d (d\<lparr>m_trackerContext := t, m_testCaseTracker := Some p\<rparr>)" by (rule told_quiet) simp_all
  with d told_runCurrentTest [OF assms(1)] show "told c d1" by (blast intro: told_trans)
qed simp_all

section \<open>A whole run\<close>

lemma delta_counts_one:
  assumes "testCases t = testCases prev"
  shows "Counts_total (testCases (Totals_delta t prev)) = 1"
  using assms
  by (simp add: Totals_delta_def Let_def Totals_minus_def Counts_minus_def Counts_total_def add_passed_def add_failed_def
      add_failedButOk_def)

lemma Counts_total_plus: "Counts_total (Counts_plus a b) = Counts_total a + Counts_total b"
  by (simp add: Counts_total_def Counts_plus_def)

text \<open>The effect of one test case on the report and the totals.\<close>

lemma runTest_reports:
  assumes inv: "tells invoke"
    and run: "runTest next_item invoke here tc u c = Some (d, u', c')"
  shows "\<exists>es. m_reporter c' = m_reporter c @ es \<and> failures c' = failures c + bad_count es \<and>
      concat (map test_event es) = [(tc, True)]"
    and "Counts_total (testCases d) = 1"
proof -
  let ?c1 = "(report (TestCaseStarting tc) c)\<lparr>m_activeTestCase := Some tc,
      m_trackerContext := update_at [] (addInitialFilters (sectionsToRun (cfg_data (m_config c))))
                 (startRun here (m_trackerContext c))\<rparr>"
  let ?nl = "\<lparr>nl_name = name tc, nl_location = lineInfo tc\<rparr>"
  obtain c2 where cyc: "test_cycles next_item invoke ?nl u ?c1 = Some (u', c2)" and
    d: "d = (let d = Totals_delta (m_totals c2) (m_totals c) in
       if expectedToFail tc \<and> passed (testCases d) > 0
              then d\<lparr>assertions := add_failed (assertions d),
                     testCases := add_failed ((testCases d)\<lparr>passed := passed (testCases d) - 1\<rparr>)\<rparr>
              else d)" and
    rep: "m_reporter c' = m_reporter c2 @ [TestCaseEnded tc d (aborting c')]" and
    tot: "assertions (m_totals c') = assertions (m_totals c2)"
  proof -
    from run obtain c2 where "test_cycles next_item invoke ?nl u ?c1 = Some (u', c2)"
      by (auto simp: runTest_def Let_def bind_eq_Some_conv report_def)
    with run that [of c2] show ?thesis
      by (auto simp: runTest_def Let_def report_def aborting_def)
  qed
  have t: "told ?c1 c2" using inv cyc by (rule told_test_cycles)
  then obtain es where es: "m_reporter c2 = m_reporter ?c1 @ es" "failures c2 = failures ?c1 + bad_count es"
    "concat (map test_event es) = []" and tc: "testCases (m_totals c2) = testCases (m_totals c)"
    unfolding told_def by (auto simp: report_def)
  let ?es = "TestCaseStarting tc # es @ [TestCaseEnded tc d (aborting c')]"
  have "m_reporter c' = m_reporter c @ ?es" "failures c' = failures c + bad_count ?es"
    "concat (map test_event ?es) = [(tc, True)]"
    using es rep tot by (simp_all add: report_def failures_def bad_count_def)
  then show "\<exists>es. m_reporter c' = m_reporter c @ es \<and> failures c' = failures c + bad_count es \<and>
      concat (map test_event es) = [(tc, True)]" by blast
  have one: "Counts_total (testCases (Totals_delta (m_totals c2) (m_totals c))) = 1"
    by (rule delta_counts_one) (fact tc)
  show "Counts_total (testCases d) = 1"
    using one unfolding d by (simp add: Let_def Counts_total_def add_failed_def)
qed

abbreviation test_events :: "event list \<Rightarrow> (TestCase \<times> bool) list" where
  "test_events es \<equiv> concat (map test_event es)"

lemma runTests_loop_reports:
  assumes inv: "\<And>tc. tells (invoke tc)"
  shows "runTests_loop next_item invoke here spec cfg tcs t u c = Some (t', u', c') \<Longrightarrow>
    \<exists>es. m_reporter c' = m_reporter c @ es \<and> failures c' = failures c + bad_count es \<and>
      map fst (test_events es) = tcs \<and>
      set (map fst (filter snd (test_events es))) \<subseteq> set (filterTests tcs spec cfg) \<and>
      Counts_total (testCases t') = Counts_total (testCases t) + of_nat (length (filter snd (test_events es)))"
proof (induction tcs arbitrary: t u c)
  case Nil
  then show ?case by (intro exI [of _ "[]"]) (simp add: bad_count_def)
next
  case (Cons tc tcs)
  let ?match = "(\<not> hasFilters spec \<and> \<not> isHidden tc) \<or> (hasFilters spec \<and> matchTest tc spec cfg)"
  show ?case
  proof (cases "\<not> aborting c \<and> ?match")
    case True
    with Cons.prems obtain d u1 c1 where r: "runTest next_item (invoke tc) here tc u c = Some (d, u1, c1)"
      and rest: "runTests_loop next_item invoke here spec cfg tcs (Totals_plus t d) u1 c1 = Some (t', u', c')"
      by (auto simp: Let_def bind_eq_Some_conv)
    from runTest_reports [OF inv [of tc] r] obtain es where
      es: "m_reporter c1 = m_reporter c @ es" "failures c1 = failures c + bad_count es" "test_events es = [(tc, True)]"
      and one: "Counts_total (testCases d) = 1" by blast
    from Cons.IH [OF rest] obtain fs where
      fs: "m_reporter c' = m_reporter c1 @ fs" "failures c' = failures c1 + bad_count fs" "map fst (test_events fs) = tcs"
        "set (map fst (filter snd (test_events fs))) \<subseteq> set (filterTests tcs spec cfg)"
        "Counts_total (testCases t') = Counts_total (testCases (Totals_plus t d)) + of_nat (length (filter snd (test_events fs)))"
      by blast
    show ?thesis
      by (intro exI [of _ "es @ fs"]) (use es fs one True in \<open>auto simp: bad_count_def Totals_plus_def Counts_total_plus\<close>)
  next
    case False
    then have "runTests_loop next_item invoke here spec cfg tcs t u (report (SkipTest tc) c) = Some (t', u', c')"
      using Cons.prems by (auto simp: Let_def)
    from Cons.IH [OF this] obtain fs where
      fs: "m_reporter c' = m_reporter c @ [SkipTest tc] @ fs" "failures c' = failures c + bad_count fs" "map fst (test_events fs) = tcs"
        "set (map fst (filter snd (test_events fs))) \<subseteq> set (filterTests tcs spec cfg)"
        "Counts_total (testCases t') = Counts_total (testCases t) + of_nat (length (filter snd (test_events fs)))"
      by (auto simp: report_def failures_def)
    show ?thesis
      by (intro exI [of _ "SkipTest tc # fs"]) (use fs in \<open>auto simp: bad_count_def\<close>)
  qed
qed

lemma run_reports_tests:
  fixes next_item :: "'g \<Rightarrow> bool \<times> 'g"
  assumes "\<And>tc u c out u' c'. invoke tc u c = Some (out, u', c') \<Longrightarrow> (capture_step next_item)\<^sup>*\<^sup>* c c'"
    and "runTests next_item invoke here cfg reportAll tcs u = Some (totals, u', c')"
  shows "map fst (test_events (m_reporter c')) = tcs \<and>
    set (map fst (filter snd (test_events (m_reporter c')))) \<subseteq> set (filterTests tcs (cfg_testSpec cfg) cfg) \<and>
    Counts_total (testCases totals) = of_nat (length (filter snd (test_events (m_reporter c')))) \<and>
    failures c' = bad_count (m_reporter c')"
proof -
  let ?c = "testGroupStarting (Config_name cfg) 1 1 (RunContext_new cfg reportAll) :: 'g RunContext"
  obtain t c1 where run: "runTests_loop next_item invoke here (cfg_testSpec cfg) cfg tcs Totals_new u ?c = Some (t, u', c1)"
    and tot: "testCases totals = testCases t" "failures c' = failures c1"
    and rep: "\<exists>es. m_reporter c' = m_reporter c1 @ es \<and> bad_count es = 0 \<and> test_events es = []"
    using assms(2)
    by (auto simp: runTests_def Let_def bind_eq_Some_conv RunContext_delete_def testGroupEnded_def report_def failures_def
        bad_count_def split: if_splits)
  have "tells (invoke tc)" for tc
    unfolding tells_def using capture_steps_told assms(1) by blast
  from runTests_loop_reports [OF this run] obtain es where
    es: "m_reporter c1 = m_reporter ?c @ es" "failures c1 = failures ?c + bad_count es" "map fst (test_events es) = tcs"
      "set (map fst (filter snd (test_events es))) \<subseteq> set (filterTests tcs (cfg_testSpec cfg) cfg)"
      "Counts_total (testCases t) = Counts_total (testCases Totals_new) + of_nat (length (filter snd (test_events es)))"
    by blast
  have new: "test_events (m_reporter ?c) = []" "bad_count (m_reporter ?c) = 0" "failures ?c = 0"
    "Counts_total (testCases Totals_new) = 0"
    by (simp_all add: testGroupStarting_def RunContext_new_def report_def bad_count_def failures_def Totals_new_def Counts_new_def
        Counts_total_def)
  from rep obtain fs where fs: "m_reporter c' = m_reporter c1 @ fs" "bad_count fs = 0" "test_events fs = []" by blast
  have "test_events (m_reporter c') = test_events es"
    unfolding fs(1) es(1) by (simp only: map_append concat_append new fs(3) append_Nil append_Nil2)
  moreover have "bad_count (m_reporter c') = bad_count es"
    using es(1) fs new by (simp add: bad_count_def)
  ultimately show ?thesis using es tot new by simp
qed

text \<open>
  C24: when the test functions act through the capture interface only, a finished run has told the
  reporter about every listed test case exactly once and in order, as run or as skipped; only
  selected tests ran, the returned totals count exactly the tests that ran, and the failed
  assertions of the run context are exactly the failures that were reported.
\<close>

theorem run_reports_every_test:
  fixes next_item :: "'g \<Rightarrow> bool \<times> 'g"
  assumes "\<And>tc u c out u' c'. invoke tc u c = Some (out, u', c') \<Longrightarrow> (capture_step next_item)\<^sup>*\<^sup>* c c'"
    and "runTests next_item invoke here cfg reportAll tcs u = Some (totals, u', c')"
  shows "map fst (test_events (m_reporter c')) = tcs \<and>
    set (map fst (filter snd (test_events (m_reporter c')))) \<subseteq> set (filterTests tcs (cfg_testSpec cfg) cfg) \<and>
    Counts_total (testCases totals) = of_nat (length (filter snd (test_events (m_reporter c')))) \<and>
    failures c' = bad_count (m_reporter c')"
  using assms by (rule run_reports_tests)

definition sample_invoke :: "TestCase \<Rightarrow> (unit, unit) invoker" where
  "sample_invoke tc u c =
     map_option (\<lambda>(r, c). (Returned, u, c))
       (handleExpr \<lparr>macroName = ''CHECK'', ai_lineInfo = lineInfo tc, capturedExpression = ''x == 1'', resultDisposition = ContinueOnFailure\<rparr>
         \<lparr>getResult = (name tc \<noteq> ''get''), isBinaryExpression = True, streamReconstructedExpression = ''2 == 1''\<rparr>
         \<lparr>ar_shouldDebugBreak = False, shouldThrow = False\<rparr> c)"

lemma sample_invoke_steps:
  "sample_invoke tc u c = Some (out, u', c') \<Longrightarrow> (capture_step next_item)\<^sup>*\<^sup>* c c'"
  by (auto simp: sample_invoke_def intro: capture_step.call capture_call.expr)

definition sample_run :: "(Totals \<times> unit \<times> unit RunContext) option" where
  "sample_run = runTests (\<lambda>g. (False, g)) sample_invoke \<lparr>sl_file = [], sl_line = 0\<rparr> sample_config True
     (numbered 0 sample_tests) ()"

theorem run_reports_every_test_witness:
  "case sample_run of None \<Rightarrow> False
   | Some (totals, u', c') \<Rightarrow> map fst (test_events (m_reporter c')) = numbered 0 sample_tests \<and> failures c' = bad_count (m_reporter c')"
proof -
  have "sample_run \<noteq> None" by code_simp
  then obtain totals u' c' where s: "sample_run = Some (totals, u', c')" by (cases sample_run) auto
  from run_reports_every_test [OF _ s [unfolded sample_run_def]] sample_invoke_steps show ?thesis
    unfolding s by simp
qed

section \<open>The exit code\<close>

text \<open>
  C30: with fewer than \<open>2 ^ 31\<close> failed assertions the process exits with 0 exactly when none failed,
  so the error that a run without tests records when it was asked to warn about that is lost.
\<close>

theorem exit_code_ignores_error:
  assumes "failed (assertions totals) < 2 ^ 31" "t_error totals = 0 \<or> t_error totals = -1"
  shows "(exitCode totals = 0 \<longleftrightarrow> failed (assertions totals) = 0) \<and> 0 \<le> exitCode totals \<and> exitCode totals \<le> 255"
proof -
  let ?n = "failed (assertions totals)"
  have n: "uint ?n < 2 ^ 31" using assms(1) by (simp add: word_less_def)
  have "signed_take_bit 31 (uint ?n) = uint ?n"
    by (rule signed_take_bit_int_eq_self) (use n order_trans [OF _ uint_ge_0, of "- 2147483648" ?n] in simp_all)
  then have "sint (ucast ?n :: u32) = uint ?n"
    using n by (simp add: sint_uint unsigned_ucast_eq take_bit_int_eq_self)
  moreover have "uint ?n = 0 \<longleftrightarrow> ?n = 0" by (rule uint_0_iff)
  moreover have "0 \<le> uint ?n" by simp
  moreover define m where "m = uint ?n"
  ultimately have e: "exitCode totals = min 255 (max (t_error totals) m)" and "?n = 0 \<longleftrightarrow> m = 0" "0 \<le> m"
    by (simp_all add: exitCode_def MaxExitCode_def)
  then show ?thesis using assms(2) unfolding e by (auto simp: max_def min_def)
qed

theorem exit_code_ignores_error_witness:
  "exitCode (Totals_new\<lparr>t_error := -1\<rparr>) = 0"
  using exit_code_ignores_error [of "Totals_new\<lparr>t_error := -1\<rparr>"] by (simp add: Totals_new_def Counts_new_def)

end
