(* ===== verification/CatchProtocol.thy ===== *)
theory CatchProtocol
  imports CatchSession
begin

text \<open>
  The order of the calls that a reporter of the unit test framework receives
  (\<open>native/src/catch.hpp\<close>).  The run context only ever talks to its reporter
  through these calls, so their order is the interface between the two.  Shown:
  a run whose test functions open and close their sections as C++ scopes reports
  its events in order, exceptions included.
\<close>

section \<open>The order of events\<close>

text \<open>Where a report stands: in no run, in a run, in a group, in a test case, at a depth of sections.\<close>

datatype place = Outside | InRun | InGroup | CaseStarted | InCase nat

fun advance :: "place \<Rightarrow> event \<Rightarrow> place option" where
  "advance Outside (TestRunStarting n) = Some InRun"
| "advance InRun (TestGroupStarting g) = Some InGroup"
| "advance InRun (TestRunEnded n t a) = Some Outside"
| "advance InGroup (TestCaseStarting tc) = Some CaseStarted"
| "advance InGroup (SkipTest tc) = Some InGroup"
| "advance InGroup (NoMatchingTestCases s) = Some InGroup"
| "advance InGroup (TestGroupEnded g t a) = Some InRun"
| "advance CaseStarted (SectionStarting s) = Some (InCase 1)"
| "advance (InCase n) (SectionStarting s) = Some (InCase (Suc n))"
| "advance (InCase n) (SectionEnded s) = (if 0 < n then Some (InCase (n - 1)) else None)"
| "advance (InCase n) (AssertionStarting i) = (if 0 < n then Some (InCase n) else None)"
| "advance (InCase n) (AssertionEnded s) = (if 0 < n then Some (InCase n) else None)"
| "advance (InCase n) (TestCaseEnded tc t a) = (if n = 0 then Some InGroup else None)"
| "advance _ _ = None"

fun follows :: "event list \<Rightarrow> place \<Rightarrow> place option" where
  "follows [] p = Some p"
| "follows (e # es) p = Option.bind (advance p e) (follows es)"

lemma follows_append [simp]: "follows (es @ fs) p = Option.bind (follows es p) (follows fs)"
  by (induction es arbitrary: p) (auto intro: Option.bind_cong)

fun depth_of :: "place \<Rightarrow> nat" where
  "depth_of (InCase n) = n"
| "depth_of _ = 0"

lemma depth_advance: "advance p e = Some p' \<Longrightarrow> depth_of p' \<le> Suc (depth_of p)"
  by (induction p e rule: advance.induct) (auto split: if_splits)

section \<open>Test functions with scopes\<close>

text \<open>
  What a C++ function can do to the context when every section object lives in
  a scope: calls that leave the sections alone, and sections whose destructor
  runs after their body, on a normal exit and during an exception alike.  The
  body of a section that is not included does not run.
\<close>

inductive scoped :: "('g \<Rightarrow> bool \<times> 'g) \<Rightarrow> 'g RunContext \<Rightarrow> 'g RunContext \<Rightarrow> bool" for next_item where
  finish: "scoped next_item c c"
| call: "capture_call c c1 \<Longrightarrow> scoped next_item c1 c2 \<Longrightarrow> scoped next_item c c2"
| leave_out: "Section_new info c = Some (s, c1) \<Longrightarrow> \<not> m_sectionIncluded s \<Longrightarrow> scoped next_item c1 c2 \<Longrightarrow>
    scoped next_item c c2"
| enter: "Section_new info c = Some (s, c1) \<Longrightarrow> m_sectionIncluded s \<Longrightarrow> scoped next_item c1 c2 \<Longrightarrow>
    Section_delete next_item s c2 = Some c3 \<Longrightarrow> scoped next_item c3 c4 \<Longrightarrow> scoped next_item c c4"

text \<open>
  Each section that an exception leaves is remembered as unfinished and still
  open in the report, so the depth grows by the sections that are remembered.
\<close>

definition nested :: "'g RunContext \<Rightarrow> 'g RunContext \<Rightarrow> bool" where
  "nested c c' \<longleftrightarrow> (\<exists>es k. m_reporter c' = m_reporter c @ es \<and>
     length (m_unfinishedSections c') = length (m_unfinishedSections c) + k \<and>
     (\<forall>n. follows es (InCase (Suc n)) = Some (InCase (Suc n + k))))"

lemma nestedI:
  "m_reporter c' = m_reporter c @ es \<Longrightarrow> length (m_unfinishedSections c') = length (m_unfinishedSections c) + k \<Longrightarrow>
   (\<And>n. follows es (InCase (Suc n)) = Some (InCase (Suc n + k))) \<Longrightarrow> nested c c'"
  unfolding nested_def by blast

lemma nested_trans: "nested a b \<Longrightarrow> nested b c \<Longrightarrow> nested a c"
proof -
  assume "nested a b" "nested b c"
  then obtain es k fs l where
    es: "m_reporter b = m_reporter a @ es" "length (m_unfinishedSections b) = length (m_unfinishedSections a) + k"
      "\<And>n. follows es (InCase (Suc n)) = Some (InCase (Suc n + k))" and
    fs: "m_reporter c = m_reporter b @ fs" "length (m_unfinishedSections c) = length (m_unfinishedSections b) + l"
      "\<And>n. follows fs (InCase (Suc n)) = Some (InCase (Suc n + l))"
    unfolding nested_def by blast
  show ?thesis
    by (rule nestedI [of _ _ "es @ fs" "k + l"]) (use es fs fs(3) [of "_ + k"] in simp_all)
qed

lemma nested_quiet:
  "m_reporter c' = m_reporter c \<Longrightarrow> m_unfinishedSections c' = m_unfinishedSections c \<Longrightarrow> nested c c'"
  by (rule nestedI [of _ _ "[]" 0]) simp_all

lemma nested_refl [simp]: "nested c c"
  by (rule nested_quiet) simp_all

lemma nested_report:
  "e = AssertionStarting i \<or> e = AssertionEnded s \<Longrightarrow> nested c (report e c)"
  by (rule nestedI [of _ _ "[e]" 0]) (auto simp: report_def)

lemma clear_scopes_keeps [simp]:
  "m_reporter (clear_scopes c) = m_reporter c" "m_unfinishedSections (clear_scopes c) = m_unfinishedSections c"
  using clear_scopes_frame [of c] by auto

lemma nested_clear_scopes [simp]: "nested c (clear_scopes c)"
proof -
  obtain ms where "clear_scopes c = c\<lparr>m_messages := ms, m_messageScopes := []\<rparr>" using clear_scopes_frame by blast
  then show ?thesis by (simp add: nested_quiet)
qed

lemma assertionEnded_reports:
  assumes "assertionEnded r c = Some c'"
  shows "\<exists>st. m_reporter c' = m_reporter c @ [AssertionEnded st] \<and> m_unfinishedSections c' = m_unfinishedSections c"
proof -
  obtain d where
    d: "(if getResultType r = ResultOk then Some ((on_assertions add_passed c)\<lparr>m_lastAssertionPassed := True\<rparr>)
          else if \<not> AssertionResult_isOk r then do {
            tc \<leftarrow> m_activeTestCase c;
            let c = c\<lparr>m_lastAssertionPassed := False\<rparr>;
            Some (on_assertions (if okToFail tc then add_failedButOk else add_failed) c) }
          else Some (c\<lparr>m_lastAssertionPassed := True\<rparr>)) = Some d"
    and c': "(let (stats, e) = AssertionStats_new r d; e = report (AssertionEnded stats) e;
       e = (if getResultType r \<noteq> ResultWarning then clear_scopes e else e); e = resetAssertionInfo e
      in Some (e\<lparr>m_lastResult := Some (AssertionResult_copy r)\<rparr>)) = Some c'"
    using assms unfolding assertionEnded_def bind_eq_Some_conv by blast
  have d: "m_reporter d = m_reporter c" "m_unfinishedSections d = m_unfinishedSections c"
    using d by (auto simp: on_assertions_def bind_eq_Some_conv Let_def split: if_splits)
  obtain stats e where s: "AssertionStats_new r d = (stats, e)" by fastforce
  then have "m_reporter e = m_reporter d" "m_unfinishedSections e = m_unfinishedSections d"
    by (auto simp: AssertionStats_new_def MessageInfo_new_def Let_def split: if_splits)
  with c' d show ?thesis by (auto simp: s Let_def resetAssertionInfo_def report_def)
qed

lemma nested_assertionEnded:
  assumes "assertionEnded r c = Some c'"
  shows "nested c c'"
proof -
  obtain st where "m_reporter c' = m_reporter c @ [AssertionEnded st]" "m_unfinishedSections c' = m_unfinishedSections c"
    using assertionEnded_reports [OF assms] by blast
  then show ?thesis by (intro nestedI [of _ _ "[AssertionEnded st]" 0]) simp_all
qed

lemma nested_set_info: "nested (c\<lparr>m_lastAssertionInfo := i\<rparr>) c' \<Longrightarrow> nested c c'"
  by (rule nested_trans [of _ "c\<lparr>m_lastAssertionInfo := i\<rparr>"]) (simp_all add: nested_quiet)

lemma nested_starting: "nested (report (AssertionStarting i) c) c' \<Longrightarrow> nested c c'"
  by (rule nested_trans [of _ "report (AssertionStarting i) c"]) (simp_all add: nested_report)

lemma nested_reportExpr: "reportExpr i ty e n c = Some c' \<Longrightarrow> nested c c'"
  unfolding reportExpr_def Let_def by (rule nested_set_info, erule nested_assertionEnded)

lemma nested_assertionPassed: "nested c (assertionPassed c)"
  unfolding assertionPassed_def Let_def
  by (rule nested_trans [OF nested_quiet nested_clear_scopes]) (simp_all add: resetAssertionInfo_def on_assertions_def)

lemma capture_call_nested: "capture_call c c' \<Longrightarrow> nested c c'"
proof (induction rule: capture_call.induct)
  case (expr info e r c r' c')
  show ?case
    by (rule nested_starting [where i = info and c = c])
      (use expr in \<open>auto simp: handleExpr_def Let_def bind_eq_Some_conv nested_assertionPassed dest: nested_reportExpr split: if_splits\<close>)
next
  case (msg info ty m r c r' c')
  show ?case
    by (rule nested_trans [OF nested_report [where e = "AssertionStarting info"] nested_set_info [where i = info]])
      (use msg in \<open>auto simp: handleMessage_def Let_def bind_eq_Some_conv dest: nested_assertionEnded\<close>)
next
  case (non_expr info ty r c r' c')
  show ?case
    by (rule nested_set_info [where i = info and c = c])
      (use non_expr in \<open>auto simp: handleNonExpr_def Let_def bind_eq_Some_conv dest: nested_assertionEnded\<close>)
next
  case (not_thrown info r c r' c')
  show ?case
    by (rule nested_set_info [where i = info and c = c])
      (use not_thrown in \<open>auto simp: handleUnexpectedExceptionNotThrown_def handleNonExpr_def Let_def bind_eq_Some_conv dest: nested_assertionEnded\<close>)
next
  case (inflight info m c r' c')
  show ?case
    by (rule nested_set_info [where i = info and c = c])
      (use inflight in \<open>auto simp: handleUnexpectedInflightException_def Let_def bind_eq_Some_conv dest: nested_assertionEnded\<close>)
next
  case (incomplete info c c')
  show ?case
    by (rule nested_set_info [where i = info and c = c])
      (use incomplete in \<open>auto simp: handleIncomplete_def Let_def dest: nested_assertionEnded\<close>)
next
  case (unscoped c m t)
  show ?case by (rule nested_quiet) (simp_all add: emplaceUnscopedMessage_def ScopedMessage_new_def pushScopedMessage_def Let_def)
next
  case (generator li c p c')
  then show ?case by (auto simp: acquireGeneratorTracker_def bind_eq_Some_conv intro: nested_quiet split: if_splits)
qed (simp_all add: nested_quiet pushScopedMessage_def popScopedMessage_def exceptionEarlyReported_def)

lemma Section_new_reports:
  assumes "Section_new info c = Some (s, c1)"
  shows "m_reporter c1 = m_reporter c @ (if m_sectionIncluded s then [SectionStarting info] else [])"
    "m_unfinishedSections c1 = m_unfinishedSections c"
  using assms by (auto simp: Section_new_def sectionStarted_def bind_eq_Some_conv Let_def report_def split: if_splits)

lemma on_trackers_frame:
  "on_trackers f c = Some c' \<Longrightarrow> m_reporter c' = m_reporter c \<and> m_unfinishedSections c' = m_unfinishedSections c"
  by (auto simp: on_trackers_def)

lemma missing_frame:
  "testForMissingAssertions k c = Some (b, k', d) \<Longrightarrow>
   m_reporter d = m_reporter c \<and> m_unfinishedSections d = m_unfinishedSections c"
  using missing_assertions [of k c b k' d] by (simp add: on_assertions_def)

lemma sectionEnded_reports:
  assumes "sectionEnded next_item ei c = Some c'"
  shows "\<exists>st. m_reporter c' = m_reporter c @ [SectionEnded st]" "m_unfinishedSections c' = m_unfinishedSections c"
  using assms
  by (auto simp: sectionEnded_def Let_def bind_eq_Some_conv report_def split: if_splits
      dest!: on_trackers_frame missing_frame)

lemma sectionEndedEarly_reports:
  assumes "sectionEndedEarly next_item ei c = Some c'"
  shows "m_reporter c' = m_reporter c" "m_unfinishedSections c' = m_unfinishedSections c @ [ei]"
  using assms
  by (auto simp: sectionEndedEarly_def Let_def bind_eq_Some_conv split: if_splits dest!: on_trackers_frame)

lemma section_nested:
  assumes "Section_new info c = Some (s, c1)" "m_sectionIncluded s" "nested c1 c2" "Section_delete next_item s c2 = Some c3"
  shows "nested c c3"
proof -
  from assms(3) obtain es k where
    es: "m_reporter c2 = m_reporter c1 @ es" "length (m_unfinishedSections c2) = length (m_unfinishedSections c1) + k"
      "\<And>n. follows es (InCase (Suc n)) = Some (InCase (Suc n + k))"
    unfolding nested_def by blast
  note c1 = Section_new_reports [OF assms(1)]
  let ?ei = "\<lparr>sectionInfo = sec_info s, prevAssertions = sec_assertions s\<rparr>"
  show ?thesis
  proof (cases "uncaught c2")
    case True
    then have "sectionEndedEarly next_item ?ei c2 = Some c3" using assms(2,4) by (simp add: Section_delete_def Let_def)
    note c3 = sectionEndedEarly_reports [OF this]
    show ?thesis
      by (rule nestedI [of _ _ "SectionStarting info # es" "Suc k"]) (use c1 c3 es assms(2) in simp_all)
  next
    case False
    then have "sectionEnded next_item ?ei c2 = Some c3" using assms(2,4) by (simp add: Section_delete_def Let_def)
    from sectionEnded_reports [OF this] obtain st where
      c3: "m_reporter c3 = m_reporter c2 @ [SectionEnded st]" "m_unfinishedSections c3 = m_unfinishedSections c2" by blast
    show ?thesis
      by (rule nestedI [of _ _ "SectionStarting info # es @ [SectionEnded st]" k]) (use c1 c3 es assms(2) in simp_all)
  qed
qed

lemma scoped_nested: "scoped next_item c c' \<Longrightarrow> nested c c'"
proof (induction rule: scoped.induct)
  case (leave_out info c s c1 c2)
  from Section_new_reports [OF this(1)] this(2) have "nested c c1" by (simp add: nested_quiet)
  with leave_out show ?case by (blast intro: nested_trans)
qed (auto intro: nested_trans capture_call_nested section_nested)

text \<open>Scopes are one way of making the calls of the capture interface.\<close>

lemma scoped_steps: "scoped next_item c c' \<Longrightarrow> (capture_step next_item)\<^sup>*\<^sup>* c c'"
proof (induction rule: scoped.induct)
  case (call c c1 c2)
  then show ?case by (blast intro: converse_rtranclp_into_rtranclp capture_step.call)
next
  case (leave_out info c s c1 c2)
  then have "capture_step next_item c c1" by (auto simp: Section_new_def bind_eq_Some_conv intro: capture_step.section_started)
  with leave_out show ?case by (blast intro: converse_rtranclp_into_rtranclp)
next
  case (enter info c s c1 c2 c3 c4)
  then have "capture_step next_item c c1" by (auto simp: Section_new_def bind_eq_Some_conv intro: capture_step.section_started)
  moreover have "capture_step next_item c2 c3" using enter.hyps
    by (auto simp: Section_delete_def Let_def split: if_splits intro: capture_step.section_early capture_step.section_ended)
  ultimately show ?case using enter.IH by (meson converse_rtranclp_into_rtranclp rtranclp_trans)
qed simp

section \<open>A run reports in order\<close>

text \<open>A context whose report stands at a place, with as many sections unfinished.\<close>

definition standing :: "place \<Rightarrow> nat \<Rightarrow> 'g RunContext \<Rightarrow> bool" where
  "standing p k c \<longleftrightarrow> follows (m_reporter c) Outside = Some p \<and> length (m_unfinishedSections c) = k"

lemma standing_nested: "standing (InCase (Suc n)) 0 c \<Longrightarrow> nested c c' \<Longrightarrow> \<exists>k. standing (InCase (Suc n + k)) k c'"
  unfolding standing_def nested_def by auto

lemma standing_report: "standing p k c \<Longrightarrow> advance p e = Some p' \<Longrightarrow> standing p' k (report e c)"
  by (simp add: standing_def report_def)

lemma standing_cong:
  "standing p k c \<Longrightarrow> m_reporter c' = m_reporter c \<Longrightarrow> m_unfinishedSections c' = m_unfinishedSections c \<Longrightarrow> standing p k c'"
  by (simp add: standing_def)

lemma standing_end_sections:
  "end_sections next_item es c = Some c' \<Longrightarrow> standing (InCase (n + length es)) k c \<Longrightarrow> standing (InCase n) k c'"
proof (induction es arbitrary: c)
  case (Cons e es)
  from Cons.prems(1) obtain c1 where c1: "sectionEnded next_item e c = Some c1" "end_sections next_item es c1 = Some c'"
    by (auto simp: bind_eq_Some_conv)
  from sectionEnded_reports [OF c1(1)] Cons.prems(2) have "standing (InCase (n + length es)) k c1"
    by (auto simp: standing_def)
  with Cons.IH c1(2) show ?case by blast
qed simp

lemma standing_unfinished:
  assumes "handleUnfinishedSections next_item c = Some c'" "standing (InCase (n + k)) k c"
  shows "standing (InCase n) 0 c'"
proof -
  from assms(1) obtain d where d: "end_sections next_item (rev (m_unfinishedSections c)) c = Some d"
    "c' = d\<lparr>m_unfinishedSections := []\<rparr>" by (auto simp: handleUnfinishedSections_def bind_eq_Some_conv)
  have "length (rev (m_unfinishedSections c)) = k" using assms(2) by (simp add: standing_def)
  with standing_end_sections [OF d(1)] assms(2) have "standing (InCase n) k d" by blast
  then show ?thesis by (simp add: d(2) standing_def)
qed

lemma catch_outcome_nested: "catch_outcome out c = Some c' \<Longrightarrow> nested c c'"
  by (cases out) (auto simp: catch_outcome_def split: if_splits intro: capture_call_nested capture_call.inflight)

definition scoped_test :: "('g \<Rightarrow> bool \<times> 'g) \<Rightarrow> ('u, 'g) invoker \<Rightarrow> bool" where
  "scoped_test next_item invoke \<longleftrightarrow> (\<forall>u c out u' c'. invoke u c = Some (out, u', c') \<longrightarrow> scoped next_item c c')"

lemma standing_runCurrentTest:
  assumes inv: "scoped_test next_item invoke"
    and run: "runCurrentTest next_item invoke u c = Some (u', c')"
    and p: "standing p 0 c" "p = CaseStarted \<or> p = InCase 0"
  shows "standing (InCase 0) 0 c'"
proof -
  obtain tc out u1 c2 c3 b k0 k c4 p c5 c6 where
    i: "invoke u (prepare_test tc c) = Some (out, u1, c2)" and c3: "catch_outcome out c2 = Some c3" and
    m: "testForMissingAssertions k0 c3 = Some (b, k, c4)" and
    c5: "on_trackers (tracker_close next_item True p) c4 = Some c5" and
    c6: "handleUnfinishedSections next_item c5 = Some c6" and
    c': "c' = report (SectionEnded \<lparr>ss_info = \<lparr>si_name = name tc, si_lineInfo = lineInfo tc\<rparr>, ss_assertions = k,
      missingAssertions = b\<rparr>) (clear_scopes (c6\<lparr>m_messages := []\<rparr>))"
    using run by (auto simp: runCurrentTest_def Let_def bind_eq_Some_conv)
  have "standing (InCase (Suc 0)) 0 (prepare_test tc c)"
    using p by (auto simp: standing_def prepare_test_def Let_def report_def)
  moreover have "nested (prepare_test tc c) c3"
    using inv i catch_outcome_nested [OF c3] scoped_nested unfolding scoped_test_def by (blast intro: nested_trans)
  ultimately obtain j where "standing (InCase (Suc 0 + j)) j c3" using standing_nested by blast
  then have "standing (InCase (Suc 0 + j)) j c5"
    using missing_frame [OF m] on_trackers_frame [OF c5] by (simp add: standing_def)
  from standing_unfinished [OF c6 this] show ?thesis unfolding c'
    by (intro standing_report [of "InCase (Suc 0)"]) (simp_all add: standing_def)
qed

lemma standing_runTest:
  assumes inv: "scoped_test next_item invoke"
    and run: "runTest next_item invoke here tc u c = Some (d, u', c')"
    and p: "standing InGroup 0 c"
  shows "standing InGroup 0 c'"
proof -
  let ?c1 = "(report (TestCaseStarting tc) c)\<lparr>m_activeTestCase := Some tc,
      m_trackerContext := update_at [] (addInitialFilters (sectionsToRun (cfg_data (m_config c))))
                 (startRun here (m_trackerContext c))\<rparr>"
  from run obtain c2 t where cyc: "test_cycles next_item invoke \<lparr>nl_name = name tc, nl_location = lineInfo tc\<rparr> u ?c1 = Some (u', c2)"
    and c': "m_reporter c' = m_reporter c2 @ [TestCaseEnded tc d t]" "m_unfinishedSections c' = m_unfinishedSections c2"
    by (auto simp: runTest_def Let_def bind_eq_Some_conv report_def)
  have start: "standing CaseStarted 0 ?c1" using p by (simp add: standing_def report_def)
  have "standing (InCase 0) 0 c2"
  proof (rule test_cycles_rule [OF cyc, where P = "\<lambda>c. standing CaseStarted 0 c \<or> standing (InCase 0) 0 c"])
    fix u d t p u1 d1
    assume d: "standing CaseStarted 0 d \<or> standing (InCase 0) 0 d"
      "runCurrentTest next_item invoke u (d\<lparr>m_trackerContext := t, m_testCaseTracker := Some p\<rparr>) = Some (u1, d1)"
    let ?d = "d\<lparr>m_trackerContext := t, m_testCaseTracker := Some p\<rparr>"
    have "standing CaseStarted 0 ?d \<or> standing (InCase 0) 0 ?d" using d(1) by (simp add: standing_def)
    with standing_runCurrentTest [OF inv d(2)] show "standing (InCase 0) 0 d1" by blast
  qed (use start in simp_all)
  with c' show ?thesis by (simp add: standing_def)
qed

lemma standing_runTests_loop:
  assumes inv: "\<And>tc. scoped_test next_item (invoke tc)"
  shows "runTests_loop next_item invoke here spec cfg tcs t u c = Some (t', u', c') \<Longrightarrow> standing InGroup 0 c \<Longrightarrow>
    standing InGroup 0 c'"
proof (induction tcs arbitrary: t u c)
  case (Cons tc tcs)
  let ?go = "\<not> aborting c \<and> ((\<not> hasFilters spec \<and> \<not> isHidden tc) \<or> (hasFilters spec \<and> matchTest tc spec cfg))"
  show ?case
  proof (cases ?go)
    case True
    with Cons.prems(1) obtain d u1 c1 where r: "runTest next_item (invoke tc) here tc u c = Some (d, u1, c1)"
      and rest: "runTests_loop next_item invoke here spec cfg tcs (Totals_plus t d) u1 c1 = Some (t', u', c')"
      by (auto simp: Let_def bind_eq_Some_conv)
    from Cons.IH [OF rest] standing_runTest [OF inv r Cons.prems(2)] show ?thesis by blast
  next
    case False
    then have "runTests_loop next_item invoke here spec cfg tcs t u (report (SkipTest tc) c) = Some (t', u', c')"
      using Cons.prems(1) by (auto simp: Let_def)
    from Cons.IH [OF this] standing_report [OF Cons.prems(2), of "SkipTest tc"] show ?thesis by simp
  qed
qed simp

text \<open>
  When every test function acts on the run context through the capture interface and through section
  objects in scopes, a finished run has sent its reporter a complete report in order: groups inside
  the run, test cases inside groups, each section closed as often as it was opened and before its
  test case ends, assertions only while a section is open.  This includes the sections that an
  exception leaves, which are closed after the test function has ended.
\<close>

lemma run_follows:
  fixes next_item :: "'g \<Rightarrow> bool \<times> 'g"
  assumes "\<And>tc. scoped_test next_item (invoke tc)"
    and "runTests next_item invoke here cfg reportAll tcs u = Some (totals, u', c')"
  shows "follows (m_reporter c') Outside = Some Outside"
proof -
  let ?c = "testGroupStarting (Config_name cfg) 1 1 (RunContext_new cfg reportAll) :: 'g RunContext"
  obtain t c1 where run: "runTests_loop next_item invoke here (cfg_testSpec cfg) cfg tcs Totals_new u ?c = Some (t, u', c1)"
    and rep: "\<exists>es. m_reporter c' = m_reporter c1 @ es \<and> follows es InGroup = Some Outside"
    using assms(2)
    by (auto simp: runTests_def Let_def bind_eq_Some_conv RunContext_delete_def testGroupEnded_def report_def split: if_splits)
  have "standing InGroup 0 ?c"
    by (simp add: standing_def testGroupStarting_def RunContext_new_def report_def)
  from standing_runTests_loop [OF assms(1) run this] rep show ?thesis by (auto simp: standing_def)
qed

lemma run_test_cases:
  fixes next_item :: "'g \<Rightarrow> bool \<times> 'g"
  assumes "\<And>tc. scoped_test next_item (invoke tc)"
    and "runTests next_item invoke here cfg reportAll tcs u = Some (totals, u', c')"
    and "TestCaseEnded tc t a \<in> set (m_reporter c')"
  shows "tc \<in> set tcs"
proof -
  have "(capture_step next_item)\<^sup>*\<^sup>* c d" if "invoke tc u c = Some (out, u', d)" for tc u c out u' d
    using assms(1) that scoped_steps unfolding scoped_test_def by blast
  then have "map fst (test_events (m_reporter c')) = tcs" using run_reports_tests [OF _ assms(2)] by blast
  moreover have "(tc, True) \<in> set (test_events (m_reporter c'))" using assms(3) by force
  ultimately show ?thesis by force
qed

text \<open>A test function with a section that an exception leaves: a \<open>REQUIRE\<close> that fails.\<close>

definition sample_section_invoke :: "TestCase \<Rightarrow> (unit, unit) invoker" where
  "sample_section_invoke tc u c = do {
     (s, c) \<leftarrow> Section_new \<lparr>si_name = ''inner'', si_lineInfo = lineInfo tc\<rparr> c;
     if m_sectionIncluded s
     then do {
       (r, c) \<leftarrow> handleExpr \<lparr>macroName = ''REQUIRE'', ai_lineInfo = lineInfo tc, capturedExpression = ''x == 1'', resultDisposition = DispNormal\<rparr>
         \<lparr>getResult = False, isBinaryExpression = True, streamReconstructedExpression = ''2 == 1''\<rparr>
         \<lparr>ar_shouldDebugBreak = False, shouldThrow = False\<rparr> c;
       c \<leftarrow> Section_delete (\<lambda>g. (False, g)) s (c\<lparr>uncaught := True\<rparr>);
       Some (TestFailure, u, c\<lparr>uncaught := False\<rparr>) }
     else Some (Returned, u, c) }"

lemma sample_section_scoped: "scoped_test (\<lambda>g. (False, g)) (sample_section_invoke tc)"
  unfolding scoped_test_def
proof (intro allI impI)
  fix u c out u' c'
  assume "sample_section_invoke tc u c = Some (out, u', c')"
  then obtain info s c1 where s: "Section_new info c = Some (s, c1)"
    and rest: "\<not> m_sectionIncluded s \<and> c' = c1 \<or> m_sectionIncluded s \<and> (\<exists>i e r r' c2 c3. handleExpr i e r c1 = Some (r', c2) \<and>
       Section_delete (\<lambda>g. (False, g)) s (c2\<lparr>uncaught := True\<rparr>) = Some c3 \<and> c' = c3\<lparr>uncaught := False\<rparr>)"
    by (auto simp: sample_section_invoke_def bind_eq_Some_conv split: if_splits) blast
  from rest show "scoped (\<lambda>g. (False, g)) c c'"
  proof (elim disjE conjE exE)
    assume "\<not> m_sectionIncluded s" "c' = c1"
    with s show ?thesis by (blast intro: scoped.leave_out scoped.finish)
  next
    fix i e r r' c2 c3
    assume a: "m_sectionIncluded s" "handleExpr i e r c1 = Some (r', c2)"
      "Section_delete (\<lambda>g. (False, g)) s (c2\<lparr>uncaught := True\<rparr>) = Some c3" "c' = c3\<lparr>uncaught := False\<rparr>"
    have "scoped (\<lambda>g. (False, g)) c1 (c2\<lparr>uncaught := True\<rparr>)"
      by (rule scoped.call [OF capture_call.expr [OF a(2)] scoped.call [OF capture_call.unwinding scoped.finish]])
    with a s show ?thesis
      by (blast intro: scoped.enter scoped.call [OF capture_call.unwinding scoped.finish])
  qed
qed

definition sample_section_run :: "(Totals \<times> unit \<times> unit RunContext) option" where
  "sample_section_run = runTests (\<lambda>g. (False, g)) sample_section_invoke \<lparr>sl_file = [], sl_line = 0\<rparr> sample_config True
     (numbered 0 sample_tests) ()"

lemma sample_section_finishes: "sample_section_run \<noteq> None"
  by code_simp

section \<open>Reporters\<close>

text \<open>
  A reporter receives events with what else the framework passes along (output,
  clock).  A reporter that handles every event that is in order handles every
  complete report.
\<close>

fun handle_all :: "('x \<Rightarrow> event \<Rightarrow> 'r \<Rightarrow> 'r option) \<Rightarrow> ('x \<times> event) list \<Rightarrow> 'r \<Rightarrow> 'r option" where
  "handle_all h [] r = Some r"
| "handle_all h ((x, e) # es) r = Option.bind (h x e r) (handle_all h es)"

lemma handle_all_append: "handle_all h (es @ fs) r = Option.bind (handle_all h es r) (handle_all h fs)"
proof (induction es arbitrary: r)
  case (Cons a es)
  then show ?case by (cases a) (auto intro: Option.bind_cong)
qed simp

locale streaming_reporter =
  fixes handle :: "'x \<Rightarrow> event \<Rightarrow> 'r \<Rightarrow> 'r option" and fine :: "event \<Rightarrow> bool" and ready :: "place \<Rightarrow> 'r \<Rightarrow> bool"
  assumes handles: "ready p r \<Longrightarrow> fine e \<Longrightarrow> advance p e = Some p' \<Longrightarrow>
    depth_of p < 2 ^ 31 \<Longrightarrow> depth_of p' < 2 ^ 31 \<Longrightarrow> \<exists>r'. handle x e r = Some r' \<and> ready p' r'"
begin

lemma handles_report:
  assumes "ready p r" "\<forall>e \<in> set es. fine (snd e)" "follows (map snd es) p = Some p'" "depth_of p + length es < 2 ^ 31"
  shows "\<exists>r'. handle_all handle es r = Some r' \<and> ready p' r'"
  using assms
proof (induction es arbitrary: p r)
  case (Cons a es)
  obtain x e where a: "a = (x, e)" by fastforce
  from Cons.prems(3) obtain q where q: "advance p e = Some q" "follows (map snd es) q = Some p'"
    by (auto simp: a bind_eq_Some_conv)
  have d: "depth_of q + length es < 2 ^ 31" using depth_advance [OF q(1)] Cons.prems(4) by simp
  have "depth_of p < 2 ^ 31" "depth_of q < 2 ^ 31" "fine e" "\<forall>e \<in> set es. fine (snd e)"
    using d Cons.prems(2,4) by (simp_all add: a)
  then obtain r1 where r1: "handle x e r = Some r1" "ready q r1" using handles [OF Cons.prems(1) _ q(1)] by blast
  with Cons.IH [OF r1(2) \<open>\<forall>e \<in> set es. fine (snd e)\<close> q(2) d] show ?case by (auto simp: a)
qed simp

lemma handles_run:
  assumes "ready Outside r" "\<forall>e \<in> set es. fine (snd e)" "follows (map snd es) Outside = Some Outside" "length es < 2 ^ 31"
  shows "\<exists>r'. handle_all handle es r = Some r' \<and> ready Outside r'"
  using handles_report [OF assms(1,2,3)] assms(4) by simp

end

end
