(* ===== verification/CatchXml.thy ===== *)
theory CatchXml
  imports CatchString
begin

text \<open>
  XML output of the unit test framework (\<open>native/src/catch.hpp\<close>):
  \<open>XmlEncode\<close>, which escapes text and attribute values, and
  \<open>XmlWriter\<close>, which the XML reporters drive.  A stream is the string
  written to it.
\<close>

section \<open>Encoding\<close>

datatype ForWhat = ForTextNodes | ForAttributes

text \<open>
  \<open>std::string::operator[]\<close>: the position \<open>size()\<close> holds a null
  character, a position beyond it is undefined.  \<open>uchar_at\<close> converts to
  \<open>unsigned char\<close>.
\<close>

definition str_at :: "string \<Rightarrow> nat \<Rightarrow> char option" where
  "str_at s i = (if i < length s then Some (s ! i) else if i = length s then Some (CHR 0x00) else None)"

definition uchar_at :: "string \<Rightarrow> nat \<Rightarrow> byte option" where
  "uchar_at s i = map_option of_char (str_at s i)"

text \<open>An internal error is thrown as an exception: \<open>None\<close>.\<close>

definition trailingBytes :: "byte \<Rightarrow> nat option" where
  "trailingBytes c =
     (if c AND 0xE0 = 0xC0 then Some 2
      else if c AND 0xF0 = 0xE0 then Some 3
      else if c AND 0xF8 = 0xF0 then Some 4
      else None)"

definition headerValue :: "byte \<Rightarrow> u32 option" where
  "headerValue c =
     (if c AND 0xE0 = 0xC0 then Some (ucast (c AND 0x1F))
      else if c AND 0xF0 = 0xE0 then Some (ucast (c AND 0x0F))
      else if c AND 0xF8 = 0xF0 then Some (ucast (c AND 0x07))
      else None)"

definition hex_digit :: "nat \<Rightarrow> char" where
  "hex_digit n = char_of (if n < 10 then 48 + n else 55 + n)"

definition hexEscapeChar :: "byte \<Rightarrow> string" where
  "hexEscapeChar c = [CHR 0x5C, CHR ''x'', hex_digit (unat c div 16), hex_digit (unat c mod 16)]"

function utf8_loop :: "string \<Rightarrow> nat \<Rightarrow> nat \<Rightarrow> nat \<Rightarrow> bool \<Rightarrow> u32 \<Rightarrow> (bool \<times> u32) option" where
  "utf8_loop s idx encBytes n valid v =
     (if n < encBytes then do {
        nc \<leftarrow> uchar_at s (idx + n);
        utf8_loop s idx encBytes (n + 1) (valid \<and> nc AND 0xC0 = 0x80)
          (push_bit 6 v OR ucast (nc AND 0x3F))
      }
      else Some (valid, v))"
  by pat_completeness auto
termination
  by (relation "measure (\<lambda>(s, idx, encBytes, n, _). encBytes - n)") auto

declare utf8_loop.simps [simp del]

text \<open>
  The default case of the switch.  The result is the text written and the
  value of \<open>idx\<close> before the increment of the loop.
\<close>

definition encode_default :: "string \<Rightarrow> nat \<Rightarrow> byte \<Rightarrow> (string \<times> nat) option" where
  "encode_default s idx c =
     (if c < 0x09 \<or> (c > 0x0D \<and> c < 0x20) \<or> c = 0x7F then Some (hexEscapeChar c, idx)
      else if c < 0x7F then Some ([char_of (unat c)], idx)
      else if c < 0xC0 \<or> c \<ge> 0xF8 then Some (hexEscapeChar c, idx)
      else do {
        encBytes \<leftarrow> trailingBytes c;
        if idx + encBytes - 1 \<ge> length s then Some (hexEscapeChar c, idx)
        else do {
          v0 \<leftarrow> headerValue c;
          (valid, v) \<leftarrow> utf8_loop s idx encBytes 1 True v0;
          if \<not> valid \<or> v < 0x80 \<or> (0x80 \<le> v \<and> v < 0x800 \<and> encBytes > 2) \<or>
             (0x800 < v \<and> v < 0x10000 \<and> encBytes > 3) \<or> v \<ge> 0x110000
          then Some (hexEscapeChar c, idx)
          else do {
            out \<leftarrow> those (map (str_at s) [idx..<idx + encBytes]);
            Some (out, idx + (encBytes - 1))
          }
        }
      })"

definition encode_char :: "ForWhat \<Rightarrow> string \<Rightarrow> nat \<Rightarrow> (string \<times> nat) option" where
  "encode_char forWhat s idx = do {
     c \<leftarrow> str_at s idx;
     if c = CHR ''<'' then Some (''&lt;'', idx)
     else if c = CHR ''&'' then Some (''&amp;'', idx)
     else if c = CHR ''>'' then
       (if idx > 2 \<and> str_at s (idx - 1) = Some (CHR '']'') \<and> str_at s (idx - 2) = Some (CHR '']'')
        then Some (''&gt;'', idx) else Some ([c], idx))
     else if c = CHR 0x22 then
       (if forWhat = ForAttributes then Some (''&quot;'', idx) else Some ([c], idx))
     else encode_default s idx (of_char c)
   }"

lemma encode_default_idx: "encode_default s idx c = Some (out, i) \<Longrightarrow> idx \<le> i"
  by (auto simp: encode_default_def split: if_splits option.splits bind_splits)

lemma encode_char_idx: "encode_char w s idx = Some (out, i) \<Longrightarrow> idx \<le> i"
  by (auto simp: encode_char_def dest: encode_default_idx split: if_splits bind_splits)

function encode_loop :: "ForWhat \<Rightarrow> string \<Rightarrow> nat \<Rightarrow> string option" where
  "encode_loop forWhat s idx =
     (if idx < length s then
        (case encode_char forWhat s idx of
           None \<Rightarrow> None
         | Some (out, i) \<Rightarrow> map_option ((@) out) (encode_loop forWhat s (i + 1)))
      else Some [])"
  by pat_completeness auto
termination
  by (relation "measure (\<lambda>(w, s, idx). length s - idx)") (auto dest: encode_char_idx)

declare encode_loop.simps [simp del]

definition XmlEncode :: "string \<Rightarrow> ForWhat \<Rightarrow> string option" where
  "XmlEncode s forWhat = encode_loop forWhat s 0"

section \<open>Masks of a byte\<close>

lemma unat_byte_less: "unat (c :: byte) < 256"
  using unsigned_less [of c, where 'a = nat] by simp

lemma byte_high_mask: "unat ((c :: byte) AND NOT (mask k)) = unat c div 2 ^ k * 2 ^ k"
proof -
  have "c AND NOT (mask k) = push_bit k (drop_bit k c)"
    by (rule bit_word_eqI) (auto simp: bit_simps)
  then have "unat (c AND NOT (mask k)) = take_bit 8 (push_bit k (drop_bit k (take_bit 8 (unat c))))"
    by (simp only: unsigned_push_bit_eq unsigned_drop_bit_eq) simp
  also have "\<dots> = take_bit 8 (unat c div 2 ^ k * 2 ^ k)"
    using unat_byte_less [of c] by (simp add: take_bit_nat_eq_self push_bit_eq_mult drop_bit_eq_div)
  also have "\<dots> = unat c div 2 ^ k * 2 ^ k"
    by (rule take_bit_nat_eq_self)
      (use unat_byte_less [of c] in \<open>simp add: le_less_trans [OF div_times_less_eq_dividend]\<close>)
  finally show ?thesis .
qed

lemma byte_low_mask: "unat ((c :: byte) AND mask k) = unat c mod 2 ^ k"
  by (simp flip: take_bit_eq_mask take_bit_eq_mod add: unsigned_take_bit_eq)

lemma high_masks:
  "NOT (mask 5) = (0xE0 :: byte)" "NOT (mask 4) = (0xF0 :: byte)"
  "NOT (mask 3) = (0xF8 :: byte)" "NOT (mask 6) = (0xC0 :: byte)"
  by (simp_all add: mask_eq_exp_minus_1)

lemma byte_masks:
  fixes c :: byte
  shows "c AND 0xE0 = 0xC0 \<longleftrightarrow> 0xC0 \<le> unat c \<and> unat c < 0xE0"
    and "c AND 0xF0 = 0xE0 \<longleftrightarrow> 0xE0 \<le> unat c \<and> unat c < 0xF0"
    and "c AND 0xF8 = 0xF0 \<longleftrightarrow> 0xF0 \<le> unat c \<and> unat c < 0xF8"
    and "c AND 0xC0 = 0x80 \<longleftrightarrow> 0x80 \<le> unat c \<and> unat c < 0xC0"
    and "unat (c AND 0x3F) = unat c mod 64"
    and "unat (c AND 0x1F) = unat c mod 32"
    and "unat (c AND 0x0F) = unat c mod 16"
    and "unat (c AND 0x07) = unat c mod 8"
proof -
  have "unat (c AND 0xE0) = unat c div 32 * 32"
    using byte_high_mask [of c 5] by (simp only: high_masks) simp
  then show "c AND 0xE0 = 0xC0 \<longleftrightarrow> 0xC0 \<le> unat c \<and> unat c < 0xE0"
    unfolding word_unat_eq_iff by auto
  have "unat (c AND 0xF0) = unat c div 16 * 16"
    using byte_high_mask [of c 4] by (simp only: high_masks) simp
  then show "c AND 0xF0 = 0xE0 \<longleftrightarrow> 0xE0 \<le> unat c \<and> unat c < 0xF0"
    unfolding word_unat_eq_iff by auto
  have "unat (c AND 0xF8) = unat c div 8 * 8"
    using byte_high_mask [of c 3] by (simp only: high_masks) simp
  then show "c AND 0xF8 = 0xF0 \<longleftrightarrow> 0xF0 \<le> unat c \<and> unat c < 0xF8"
    unfolding word_unat_eq_iff by auto
  have "unat (c AND 0xC0) = unat c div 64 * 64"
    using byte_high_mask [of c 6] by (simp only: high_masks) simp
  then show "c AND 0xC0 = 0x80 \<longleftrightarrow> 0x80 \<le> unat c \<and> unat c < 0xC0"
    unfolding word_unat_eq_iff by auto
  show "unat (c AND 0x3F) = unat c mod 64"
    using byte_low_mask [of c 6] by (simp add: mask_eq_exp_minus_1)
  show "unat (c AND 0x1F) = unat c mod 32"
    using byte_low_mask [of c 5] by (simp add: mask_eq_exp_minus_1)
  show "unat (c AND 0x0F) = unat c mod 16"
    using byte_low_mask [of c 4] by (simp add: mask_eq_exp_minus_1)
  show "unat (c AND 0x07) = unat c mod 8"
    using byte_low_mask [of c 3] by (simp add: mask_eq_exp_minus_1)
qed

lemma unat_of_char: "unat (of_char ch :: byte) = of_char ch"
proof -
  have "(of_char ch :: byte) = of_nat (of_char ch)" by (simp only: of_nat_of_char)
  moreover have "take_bit 8 (of_char ch :: nat) = of_char ch"
    by (rule take_bit_nat_eq_self) simp
  ultimately show ?thesis by (simp only: unsigned_of_nat) simp
qed

lemma unat_byte_ucast: "unat (ucast (c :: byte) :: u32) = unat c"
proof -
  have "take_bit 32 (unat c) = unat c"
    by (rule take_bit_nat_eq_self) (use unat_byte_less [of c] in simp)
  then show ?thesis by (simp add: unsigned_ucast_eq)
qed

lemma nat_or_shift6:
  assumes "b < (64 :: nat)"
  shows "push_bit 6 a OR b = 64 * a + b"
proof -
  have "push_bit 6 a AND b = 0"
  proof (rule bit_eqI)
    fix n
    have "b = take_bit 6 b" using assms by (simp add: take_bit_nat_eq_self)
    then show "bit (push_bit 6 a AND b) n = bit 0 n"
      by (metis bit_0_eq bit_and_iff bit_push_bit_iff bit_take_bit_iff bot_apply bot_bool_def not_less)
  qed
  then have "push_bit 6 a OR b = push_bit 6 a + b" by (simp add: disjunctive_add_eq_or)
  then show ?thesis by (simp add: push_bit_eq_mult)
qed

lemma unat_shift6:
  assumes "unat (v :: u32) < 2 ^ 20"
  shows "unat (push_bit 6 v OR ucast ((c :: byte) AND 0x3F)) = 64 * unat v + unat c mod 64"
proof -
  have "push_bit 6 (unat v) < 2 ^ 32" using assms by (simp add: push_bit_eq_mult)
  then have "unat (push_bit 6 v) = push_bit 6 (unat v)"
    by (simp only: unsigned_push_bit_eq) (simp add: take_bit_nat_eq_self del: push_bit_of_nat)
  moreover have "unat (ucast (c AND 0x3F) :: u32) = unat c mod 64"
    by (simp add: unat_byte_ucast byte_masks(5))
  ultimately show ?thesis
    by (simp only: unsigned_or_eq) (simp add: nat_or_shift6)
qed

section \<open>The reference for multibyte sequences\<close>

text \<open>
  The reference: the byte ranges of a well-formed UTF-8 sequence of two, three
  or four bytes (table 3-7 of the Unicode standard).  Surrogates are not
  excluded: a comment of the code says that it checks the format of the encoding
  and not the decoded values.
\<close>

definition follow :: "nat \<Rightarrow> bool" where
  "follow b \<longleftrightarrow> 0x80 \<le> b \<and> b \<le> 0xBF"

fun utf8_unit :: "nat list \<Rightarrow> bool" where
  "utf8_unit [a, b] \<longleftrightarrow> 0xC2 \<le> a \<and> a \<le> 0xDF \<and> follow b"
| "utf8_unit [a, b, c] \<longleftrightarrow>
     (a = 0xE0 \<and> 0xA0 \<le> b \<and> b \<le> 0xBF \<or> 0xE1 \<le> a \<and> a \<le> 0xEF \<and> follow b) \<and> follow c"
| "utf8_unit [a, b, c, d] \<longleftrightarrow>
     (a = 0xF0 \<and> 0x90 \<le> b \<and> b \<le> 0xBF \<or> 0xF1 \<le> a \<and> a \<le> 0xF3 \<and> follow b \<or>
      a = 0xF4 \<and> 0x80 \<le> b \<and> b \<le> 0x8F) \<and> follow c \<and> follow d"
| "utf8_unit _ \<longleftrightarrow> False"

text \<open>What the code copies: the overlong form of \<open>U+0800\<close> in four bytes too.\<close>

definition copied_unit :: "string \<Rightarrow> bool" where
  "copied_unit u \<longleftrightarrow> (let bs = map of_char u in utf8_unit bs \<or> bs = [0xF0, 0x80, 0xA0, 0x80])"

definition copied_length :: "string \<Rightarrow> nat" where
  "copied_length s =
     (if 2 \<le> length s \<and> copied_unit (take 2 s) then 2
      else if 3 \<le> length s \<and> copied_unit (take 3 s) then 3
      else if 4 \<le> length s \<and> copied_unit (take 4 s) then 4 else 0)"

text \<open>What the code writes as a plain character, vertical tabs and form feeds among them.\<close>

definition plain_ascii :: "char \<Rightarrow> bool" where
  "plain_ascii ch = (let n = of_char ch :: nat in 0x09 \<le> n \<and> n \<le> 0x0D \<or> 0x20 \<le> n \<and> n < 0x7F)"

lemma uchar_at_in: "i < length s \<Longrightarrow> uchar_at s i = Some (of_char (s ! i))"
  by (simp add: uchar_at_def str_at_def)

lemma utf8_loop_value:
  assumes "idx + encBytes \<le> length s" "n \<le> encBytes"
    "(unat v + 1) * 64 ^ (encBytes - n) \<le> 2 ^ 26"
  shows "\<exists>v'. utf8_loop s idx encBytes n valid v =
      Some (valid \<and> list_all (follow \<circ> of_char) (take (encBytes - n) (drop (idx + n) s)), v') \<and>
    unat v' = foldl (\<lambda>v c. 64 * v + of_char c mod 64) (unat v) (take (encBytes - n) (drop (idx + n) s))"
  using assms
proof (induction "encBytes - n" arbitrary: n valid v)
  case 0
  then show ?case by (subst utf8_loop.simps) simp
next
  case (Suc k)
  let ?c = "s ! (idx + n)"
  let ?v = "push_bit 6 v OR ucast ((of_char ?c :: byte) AND 0x3F) :: u32"
  have n: "n < encBytes" "idx + n < length s" "k = encBytes - Suc n" using Suc by linarith+
  have k: "encBytes - n = Suc k" using Suc by simp
  have top: "(unat v + 1) * (64 * 64 ^ k) \<le> 2 ^ 26" using Suc.prems(3) by (simp add: k)
  have "(unat v + 1) * 64 \<le> (unat v + 1) * (64 * 64 ^ k)" by (rule mult_le_mono2) simp
  with top have "(unat v + 1) * 64 \<le> 2 ^ 26" by linarith
  then have "unat v < 2 ^ 20" by simp
  then have v: "unat ?v = 64 * unat v + of_char ?c mod 64"
    by (simp add: unat_shift6 unat_of_char)
  have "unat ?v + 1 \<le> (unat v + 1) * 64" unfolding v by simp
  then have "(unat ?v + 1) * 64 ^ k \<le> (unat v + 1) * 64 * 64 ^ k" by (rule mult_le_mono1)
  with top have bound: "(unat ?v + 1) * 64 ^ k \<le> 2 ^ 26" by (simp only: mult.assoc)
  have d: "drop (idx + n) s = ?c # drop (idx + Suc n) s" using n by (simp add: Cons_nth_drop_Suc)
  obtain v' where v': "utf8_loop s idx encBytes (Suc n) (valid \<and> (of_char ?c :: byte) AND 0xC0 = 0x80) ?v =
      Some ((valid \<and> (of_char ?c :: byte) AND 0xC0 = 0x80) \<and>
        list_all (follow \<circ> of_char) (take k (drop (idx + Suc n) s)), v')"
    "unat v' = foldl (\<lambda>v c. 64 * v + of_char c mod 64) (unat ?v) (take k (drop (idx + Suc n) s))"
    using Suc.hyps(1) [of "Suc n" ?v] Suc.prems n bound by fastforce
  have "(of_char ?c :: byte) AND 0xC0 = 0x80 \<longleftrightarrow> follow (of_char ?c)"
    by (auto simp: byte_masks unat_of_char follow_def)
  then show ?case using v' v n k
    by (subst utf8_loop.simps) (simp add: uchar_at_in d)
qed

definition acceptable :: "nat \<Rightarrow> bool \<Rightarrow> nat \<Rightarrow> bool" where
  "acceptable encBytes valid v \<longleftrightarrow> valid \<and> 0x80 \<le> v \<and> \<not> (0x80 \<le> v \<and> v < 0x800 \<and> encBytes > 2) \<and>
     \<not> (0x800 < v \<and> v < 0x10000 \<and> encBytes > 3) \<and> v < 0x110000"

lemma acceptable_2:
  assumes "0xC0 \<le> a" "a < (0xE0 :: nat)"
  shows "acceptable 2 (follow b) (64 * (a mod 32) + b mod 64) \<longleftrightarrow> utf8_unit [a, b]"
proof (cases "follow b")
  case True
  then have "b mod 64 = b - 128" "b - 128 < 64" by (auto simp: follow_def le_mod_geq)
  moreover have "a mod 32 = a - 192" using assms by (auto simp: le_mod_geq)
  ultimately show ?thesis using True assms by (auto simp: acceptable_def)
qed (simp add: acceptable_def)

lemma followE:
  assumes "follow b"
  obtains y where "b = 128 + y" "y < 64" "b mod 64 = y"
proof -
  from assms have "b = 128 + (b - 128)" "b - 128 < 64" "b mod 64 = b - 128"
    by (auto simp: follow_def le_mod_geq)
  with that show thesis by blast
qed

lemma acceptable_3:
  assumes "0xE0 \<le> a" "a < (0xF0 :: nat)"
  shows "acceptable 3 (follow b \<and> follow c) (64 * (64 * (a mod 16) + b mod 64) + c mod 64)
    \<longleftrightarrow> utf8_unit [a, b, c]"
proof (cases "follow b \<and> follow c")
  case True
  then obtain y z where b: "b = 128 + y" "y < 64" "b mod 64 = y" and c: "c = 128 + z" "z < 64" "c mod 64 = z"
    by (auto elim!: followE)
  obtain x where a: "a = 224 + x" "x < 16" "a mod 16 = x"
    using that [of "a - 224"] assms by (simp add: le_mod_geq)
  let ?v = "64 * (64 * x + y) + z"
  have v: "?v < 0x800 \<longleftrightarrow> x = 0 \<and> y < 32" "?v < 0x10000"
    using a(2) b(2) c(2) by auto
  from v(2) have "acceptable 3 True ?v \<longleftrightarrow> \<not> ?v < 0x800" by (auto simp: acceptable_def)
  moreover have "utf8_unit [a, b, c] \<longleftrightarrow> \<not> (x = 0 \<and> y < 32)"
    using a(1,2) b(1,2) c(1,2) by (auto simp: follow_def)
  ultimately show ?thesis using True unfolding a(3) b(3) c(3) v(1) by simp
qed (auto simp: acceptable_def follow_def)

lemma acceptable_4:
  assumes "0xF0 \<le> a" "a < (0xF8 :: nat)"
  shows "acceptable 4 (follow b \<and> follow c \<and> follow d)
      (64 * (64 * (64 * (a mod 8) + b mod 64) + c mod 64) + d mod 64)
    \<longleftrightarrow> utf8_unit [a, b, c, d] \<or> [a, b, c, d] = [0xF0, 0x80, 0xA0, 0x80]"
proof (cases "follow b \<and> follow c \<and> follow d")
  case True
  then obtain y z w where b: "b = 128 + y" "y < 64" "b mod 64 = y" and c: "c = 128 + z" "z < 64" "c mod 64 = z"
    and d: "d = 128 + w" "w < 64" "d mod 64 = w"
    by (auto elim!: followE)
  obtain x where a: "a = 240 + x" "x < 8" "a mod 8 = x"
    using that [of "a - 240"] assms by (simp add: le_mod_geq)
  let ?v = "64 * (64 * (64 * x + y) + z) + w"
  have v: "?v < 0x800 \<longleftrightarrow> x = 0 \<and> y = 0 \<and> z < 32"
    "?v < 0x10000 \<longleftrightarrow> x = 0 \<and> y < 16"
    "?v < 0x110000 \<longleftrightarrow> x < 4 \<or> x = 4 \<and> y < 16"
    using a(2) b(2) c(2) d(2) by auto
  have eq: "?v = 0x800 \<longleftrightarrow> x = 0 \<and> y = 0 \<and> z = 32 \<and> w = 0"
  proof
    assume "?v = 0x800"
    then have e: "262144 * x + 4096 * y + 64 * z + w = 2048" by simp
    have "x < 1" using e by linarith
    moreover have "y < 1" using e by linarith
    moreover have "z < 33" using e by linarith
    moreover have "31 < z" using e d(2) \<open>x < 1\<close> \<open>y < 1\<close> by linarith
    ultimately show "x = 0 \<and> y = 0 \<and> z = 32 \<and> w = 0" using e by simp
  qed simp
  have "acceptable 4 True ?v \<longleftrightarrow> \<not> ?v < 0x800 \<and> (?v = 0x800 \<or> \<not> ?v < 0x10000) \<and> ?v < 0x110000"
    by (auto simp: acceptable_def)
  also have "\<dots> \<longleftrightarrow> \<not> (x = 0 \<and> y < 16) \<and> (x < 4 \<or> x = 4 \<and> y < 16) \<or> x = 0 \<and> y = 0 \<and> z = 32 \<and> w = 0"
    unfolding v eq by (cases "x = 0"; cases "y = 0") auto
  also have "\<not> (x = 0 \<and> y < 16) \<and> (x < 4 \<or> x = 4 \<and> y < 16) \<longleftrightarrow> utf8_unit [a, b, c, d]"
    using a(1,2) b(1,2) c(1,2) d(1,2) by (auto simp: follow_def)
  also have "x = 0 \<and> y = 0 \<and> z = 32 \<and> w = 0 \<longleftrightarrow> [a, b, c, d] = [0xF0, 0x80, 0xA0, 0x80]"
    using a(1) b(1) c(1) d(1) by auto
  finally show ?thesis using True unfolding a(3) b(3) c(3) d(3) by simp
qed (auto simp: acceptable_def follow_def)

lemma headerValue_unat:
  "0xC0 \<le> unat c \<Longrightarrow> unat c < 0xE0 \<Longrightarrow> \<exists>v. headerValue c = Some v \<and> unat v = unat c mod 32"
  "0xE0 \<le> unat c \<Longrightarrow> unat c < 0xF0 \<Longrightarrow> \<exists>v. headerValue c = Some v \<and> unat v = unat c mod 16"
  "0xF0 \<le> unat c \<Longrightarrow> unat c < 0xF8 \<Longrightarrow> \<exists>v. headerValue c = Some v \<and> unat v = unat c mod 8"
  by (simp_all add: headerValue_def byte_masks unat_byte_ucast)

lemma trailingBytes_lead:
  "0xC0 \<le> unat c \<Longrightarrow> unat c < 0xE0 \<Longrightarrow> trailingBytes c = Some 2"
  "0xE0 \<le> unat c \<Longrightarrow> unat c < 0xF0 \<Longrightarrow> trailingBytes c = Some 3"
  "0xF0 \<le> unat c \<Longrightarrow> unat c < 0xF8 \<Longrightarrow> trailingBytes c = Some 4"
  by (simp_all add: trailingBytes_def byte_masks)

lemma acceptable_word:
  "\<not> (\<not> valid \<or> v < 0x80 \<or> (0x80 \<le> v \<and> v < 0x800 \<and> encBytes > 2) \<or>
     (0x800 < v \<and> v < 0x10000 \<and> encBytes > 3) \<or> v \<ge> 0x110000) \<longleftrightarrow> acceptable encBytes valid (unat v)"
  for v :: u32
  unfolding acceptable_def word_less_nat_alt word_le_nat_alt by auto

text \<open>Reading a range of the string that lies inside it.\<close>

lemma those_str_at:
  "i + k \<le> length s \<Longrightarrow> those (map (str_at s) [i..<i + k]) = Some (take k (drop i s))"
proof (induction k arbitrary: i)
  case (Suc k)
  then have "those (map (str_at s) [Suc i..<Suc i + k]) = Some (take k (drop (Suc i) s))"
    using Suc.IH [of "Suc i"] by simp
  moreover have "[i..<i + Suc k] = i # [Suc i..<Suc i + k]"
    by (simp add: upt_conv_Cons del: upt_Suc)
  moreover have "str_at s i = Some (s ! i)" "drop i s = s ! i # drop (Suc i) s"
    using Suc.prems by (simp_all add: str_at_def Cons_nth_drop_Suc)
  ultimately show ?case by simp
qed simp

lemma copied_unit_lead:
  "copied_unit u \<Longrightarrow> \<exists>a b r. u = a # b # r \<and>
    (0xC2 \<le> (of_char a :: nat) \<and> of_char a < (0xE0 :: nat) \<and> length u = 2 \<or>
     0xE0 \<le> (of_char a :: nat) \<and> of_char a < (0xF0 :: nat) \<and> length u = 3 \<or>
     0xF0 \<le> (of_char a :: nat) \<and> of_char a \<le> (0xF4 :: nat) \<and> length u = 4)"
  by (cases "map of_char u :: nat list" rule: utf8_unit.cases) (auto simp: copied_unit_def Let_def)


text \<open>The multibyte branch, for a lead byte that announces \<open>k\<close> bytes.\<close>

lemma encode_multibyte:
  assumes idx: "idx < length s" and lead: "0xC0 \<le> (of_char (s ! idx) :: nat)"
    and k: "trailingBytes (of_char (s ! idx)) = Some k" "2 \<le> k" "k \<le> 4"
    and v0: "headerValue (of_char (s ! idx)) = Some v0" "(unat v0 + 1) * 64 ^ (k - 1) \<le> 2 ^ 26"
    and acc: "length s \<ge> idx + k \<Longrightarrow>
      acceptable k (list_all (follow \<circ> of_char) (take (k - 1) (drop (Suc idx) s)))
        (foldl (\<lambda>v c. 64 * v + of_char c mod 64) (unat v0) (take (k - 1) (drop (Suc idx) s)))
      \<longleftrightarrow> copied_unit (take k (drop idx s))"
    and top: "of_char (s ! idx) < (0xF8 :: nat)"
  shows "encode_default s idx (of_char (s ! idx)) =
    Some (if length s \<ge> idx + k \<and> copied_unit (take k (drop idx s))
      then (take k (drop idx s), idx + (k - 1)) else (hexEscapeChar (of_char (s ! idx)), idx))"
proof -
  let ?c = "of_char (s ! idx) :: byte"
  have c: "\<not> (?c < 0x09 \<or> (?c > 0x0D \<and> ?c < 0x20) \<or> ?c = 0x7F)" "\<not> ?c < 0x7F" "\<not> (?c < 0xC0 \<or> ?c \<ge> 0xF8)"
    using lead top by (auto simp: word_less_nat_alt word_le_nat_alt word_unat_eq_iff unat_of_char)
  show ?thesis
  proof (cases "idx + k \<le> length s")
    case True
    then obtain v where v: "utf8_loop s idx k 1 True v0 =
        Some (list_all (follow \<circ> of_char) (take (k - 1) (drop (Suc idx) s)), v)"
      "unat v = foldl (\<lambda>v c. 64 * v + of_char c mod 64) (unat v0) (take (k - 1) (drop (Suc idx) s))"
      using utf8_loop_value [of idx k s 1 v0 True] k v0 by auto
    from True k have short: "\<not> length s \<le> idx + k - 1" by linarith
    from v acceptable_word [of "list_all (follow \<circ> of_char) (take (k - 1) (drop (Suc idx) s))" v k] acc True
    show ?thesis unfolding encode_default_def
      by (simp only: c k(1) v0(1) v(1) short if_False bind.simps prod.case those_str_at [OF True]) auto
  next
    case False
    then have "length s \<le> idx + k - 1" by linarith
    with False show ?thesis unfolding encode_default_def by (simp only: c k(1) if_False bind.simps) simp
  qed
qed

lemma copied_length_lead:
  assumes "s \<noteq> []"
  shows "copied_length s =
    (let a = of_char (hd s) :: nat in
     if 0xC0 \<le> a \<and> a < 0xE0 then (if 2 \<le> length s \<and> copied_unit (take 2 s) then 2 else 0)
     else if 0xE0 \<le> a \<and> a < 0xF0 then (if 3 \<le> length s \<and> copied_unit (take 3 s) then 3 else 0)
     else if 0xF0 \<le> a \<and> a < 0xF8 then (if 4 \<le> length s \<and> copied_unit (take 4 s) then 4 else 0)
     else 0)"
proof -
  have *: "if k = 2 then 0xC2 \<le> (of_char (hd s) :: nat) \<and> of_char (hd s) < (0xE0 :: nat)
      else if k = 3 then 0xE0 \<le> (of_char (hd s) :: nat) \<and> of_char (hd s) < (0xF0 :: nat)
      else 0xF0 \<le> (of_char (hd s) :: nat) \<and> of_char (hd s) < (0xF8 :: nat)"
    if k: "k = 2 \<or> k = 3 \<or> k = 4" "k \<le> length s" "copied_unit (take k s)" for k
  proof -
    obtain a b r where u: "take k s = a # b # r"
      and ab: "0xC2 \<le> (of_char a :: nat) \<and> of_char a < (0xE0 :: nat) \<and> k = 2 \<or>
       0xE0 \<le> (of_char a :: nat) \<and> of_char a < (0xF0 :: nat) \<and> k = 3 \<or>
       0xF0 \<le> (of_char a :: nat) \<and> of_char a \<le> (0xF4 :: nat) \<and> k = 4"
      using copied_unit_lead [OF k(3)] k(2) by (auto simp: min.absorb2)
    have "a = hd s" using u assms k(1) by (metis hd_take list.sel(1) take_eq_Nil2 neq0_conv list.discI)
    with ab show ?thesis by auto
  qed
  show ?thesis
    using * [of 2] * [of 3] * [of 4] by (auto simp: copied_length_def Let_def)
qed

text \<open>The test of the code on \<open>k\<close> bytes is the reference.\<close>

lemma acceptable_copied:
  assumes "0xC0 \<le> (of_char a :: nat) \<and> of_char a < (0xE0 :: nat) \<and> k = 2 \<and> m = 32 \<or>
    0xE0 \<le> (of_char a :: nat) \<and> of_char a < (0xF0 :: nat) \<and> k = 3 \<and> m = 16 \<or>
    0xF0 \<le> (of_char a :: nat) \<and> of_char a < (0xF8 :: nat) \<and> k = 4 \<and> m = 8"
    and "length u = k - 1"
  shows "acceptable k (list_all (follow \<circ> of_char) u)
      (foldl (\<lambda>v c. 64 * v + of_char c mod 64) (of_char a mod m) u) \<longleftrightarrow> copied_unit (a # u)"
  using assms(1)
proof (elim disjE conjE)
  assume k: "k = 2" "m = 32" and a: "0xC0 \<le> (of_char a :: nat)" "of_char a < (0xE0 :: nat)"
  then obtain b where u: "u = [b]" using assms(2) by (auto simp: length_Suc_conv)
  show ?thesis using acceptable_2 [OF a, of "of_char b"] by (simp add: u k copied_unit_def Let_def)
next
  assume k: "k = 3" "m = 16" and a: "0xE0 \<le> (of_char a :: nat)" "of_char a < (0xF0 :: nat)"
  then obtain b c where u: "u = [b, c]" using assms(2) by (auto simp: numeral_2_eq_2 length_Suc_conv)
  show ?thesis using acceptable_3 [OF a, of "of_char b" "of_char c"] by (simp add: u k copied_unit_def Let_def)
next
  assume k: "k = 4" "m = 8" and a: "0xF0 \<le> (of_char a :: nat)" "of_char a < (0xF8 :: nat)"
  then obtain b c d where u: "u = [b, c, d]" using assms(2) by (auto simp: numeral_3_eq_3 length_Suc_conv)
  show ?thesis using acceptable_4 [OF a, of "of_char b" "of_char c" "of_char d"]
    by (simp add: u k copied_unit_def Let_def)
qed

lemma encode_default_spec:
  assumes idx: "idx < length s"
  shows "encode_default s idx (of_char (s ! idx)) =
    Some (let r = drop idx s; k = copied_length r in
      if plain_ascii (s ! idx) then ([s ! idx], idx)
      else if 0 < k then (take k r, idx + (k - 1))
      else (hexEscapeChar (of_char (s ! idx)), idx))"
proof -
  let ?a = "of_char (s ! idx) :: nat" and ?r = "drop idx s"
  have r: "?r \<noteq> []" "hd ?r = s ! idx" using idx by (simp_all add: hd_drop_conv_nth)
  have len: "k \<le> length ?r \<longleftrightarrow> idx + k \<le> length s" for k using idx by auto
  note lead = copied_length_lead [OF r(1), unfolded r(2) len Let_def]
  have tl: "drop idx s = s ! idx # drop (Suc idx) s" using idx by (simp add: Cons_nth_drop_Suc)
  show ?thesis
  proof (cases "?a < 0xC0 \<or> 0xF8 \<le> ?a")
    case True
    then have "copied_length ?r = 0" unfolding lead by auto
    with True show ?thesis
      by (auto simp: encode_default_def plain_ascii_def Let_def word_less_nat_alt word_le_nat_alt
          word_unat_eq_iff unat_of_char)
  next
    case False
    then obtain k m :: nat where km: "0xC0 \<le> ?a \<and> ?a < 0xE0 \<and> k = 2 \<and> m = 32 \<or>
        0xE0 \<le> ?a \<and> ?a < 0xF0 \<and> k = 3 \<and> m = 16 \<or> 0xF0 \<le> ?a \<and> ?a < 0xF8 \<and> k = 4 \<and> m = 8"
      using that by (metis not_le)
    then have k: "2 \<le> k" "k \<le> 4" by auto
    from km have t: "trailingBytes (of_char (s ! idx)) = Some k"
      using trailingBytes_lead [of "of_char (s ! idx)"] by (auto simp: unat_of_char)
    from km obtain v0 where v0: "headerValue (of_char (s ! idx)) = Some v0" "unat v0 = ?a mod m"
      using headerValue_unat [of "of_char (s ! idx)"] by (auto simp: unat_of_char)
    from km have "(?a mod m + 1) * 64 ^ (k - 1) \<le> m * 64 ^ (k - 1)" by (intro mult_le_mono1) auto
    also from km have "\<dots> \<le> 2 ^ 26" by auto
    finally have bound: "(unat v0 + 1) * 64 ^ (k - 1) \<le> 2 ^ 26" unfolding v0(2) .
    have acc: "acceptable k (list_all (follow \<circ> of_char) (take (k - 1) (drop (Suc idx) s)))
        (foldl (\<lambda>v c. 64 * v + of_char c mod 64) (unat v0) (take (k - 1) (drop (Suc idx) s)))
      \<longleftrightarrow> copied_unit (take k ?r)" if "idx + k \<le> length s"
      using acceptable_copied [OF km, of "take (k - 1) (drop (Suc idx) s)"] that k
      unfolding tl v0(2) by (cases k) auto
    have "encode_default s idx (of_char (s ! idx)) =
        Some (if idx + k \<le> length s \<and> copied_unit (take k ?r)
          then (take k ?r, idx + (k - 1)) else (hexEscapeChar (of_char (s ! idx)), idx))"
      using False acc by (intro encode_multibyte [OF idx _ t k v0(1) bound]) auto
    moreover from km have "copied_length ?r = (if idx + k \<le> length s \<and> copied_unit (take k ?r) then k else 0)"
      unfolding lead by auto
    moreover from km have "\<not> plain_ascii (s ! idx)" by (auto simp: plain_ascii_def Let_def)
    ultimately show ?thesis using k by (simp add: Let_def)
  qed
qed

section \<open>Reading the encoded text back\<close>

text \<open>
  What a reader of the text gets back: the string with every byte the code does
  not keep replaced by a hexadecimal escape.
\<close>

function kept_text :: "string \<Rightarrow> string" where
  "kept_text s =
     (if s = [] then []
      else if plain_ascii (hd s) then hd s # kept_text (tl s)
      else if 0 < copied_length s then take (copied_length s) s @ kept_text (drop (copied_length s) s)
      else hexEscapeChar (of_char (hd s)) @ kept_text (tl s))"
  by pat_completeness auto
termination
  by (relation "measure length") auto

declare kept_text.simps [simp del]

text \<open>A reader of character data: it refuses a raw \<open><\<close> and an unknown reference.\<close>

fun xml_unescape :: "string \<Rightarrow> string option" where
  "xml_unescape [] = Some []"
| "xml_unescape (c # cs) =
     (if c = CHR ''&'' then
        (if prefix ''lt;'' cs then map_option ((#) (CHR ''<'')) (xml_unescape (drop 3 cs))
         else if prefix ''amp;'' cs then map_option ((#) (CHR ''&'')) (xml_unescape (drop 4 cs))
         else if prefix ''gt;'' cs then map_option ((#) (CHR ''>'')) (xml_unescape (drop 3 cs))
         else if prefix ''quot;'' cs then map_option ((#) (CHR 0x22)) (xml_unescape (drop 5 cs))
         else None)
      else if c = CHR ''<'' then None
      else map_option ((#) c) (xml_unescape cs))"

definition inert :: "char \<Rightarrow> bool" where
  "inert c \<longleftrightarrow> c \<notin> {CHR ''<'', CHR ''&'', CHR ''>'', CHR 0x22, CHR '']''}"

lemma xml_unescape_append:
  "CHR ''&'' \<notin> set u \<Longrightarrow> CHR ''<'' \<notin> set u \<Longrightarrow>
   xml_unescape (u @ r) = map_option ((@) u) (xml_unescape r)"
proof (induction u)
  case Nil
  show ?case by (cases "xml_unescape r") simp_all
next
  case (Cons a u)
  then have "xml_unescape ((a # u) @ r) = map_option ((#) a) (xml_unescape (u @ r))" by auto
  also have "\<dots> = map_option ((#) a) (map_option ((@) u) (xml_unescape r))" using Cons by simp
  also have "\<dots> = map_option ((@) (a # u)) (xml_unescape r)" by (cases "xml_unescape r") simp_all
  finally show ?case .
qed

lemma inert_hex: "c \<in> set (hexEscapeChar b) \<Longrightarrow> inert c"
proof -
  have "\<forall>n \<in> set [0..<16]. inert (hex_digit n)" by code_simp
  then have "inert (hex_digit n)" if "n < 16" for n using that by simp
  moreover have "inert (CHR 0x5C)" "inert (CHR ''x'')" by (simp_all add: inert_def)
  moreover have "unat b div 16 < 16" "unat b mod 16 < 16" using unat_byte_less [of b] by auto
  ultimately show "c \<in> set (hexEscapeChar b) \<Longrightarrow> inert c" by (auto simp: hexEscapeChar_def)
qed

lemma inert_high: "(0x80 :: nat) \<le> of_char c \<Longrightarrow> inert c"
  by (auto simp: inert_def)

lemma copied_unit_high:
  assumes "copied_unit u" "c \<in> set u"
  shows "(0x80 :: nat) \<le> of_char c"
proof -
  have "\<forall>b \<in> set (map of_char u). (0x80 :: nat) \<le> b"
    using assms(1) unfolding copied_unit_def Let_def
    by (cases "map of_char u :: nat list" rule: utf8_unit.cases) (auto simp: follow_def)
  with assms(2) show ?thesis by simp
qed

lemma copied_length_unit:
  "0 < copied_length s \<Longrightarrow> copied_unit (take (copied_length s) s) \<and> copied_length s \<le> length s \<and> 2 \<le> copied_length s"
  by (auto simp: copied_length_def split: if_splits)

text \<open>
  One turn of the loop: a printable ASCII character becomes its token, other
  bytes are copied in whole sequences or escaped.
\<close>

definition token :: "ForWhat \<Rightarrow> bool \<Rightarrow> char \<Rightarrow> string" where
  "token w bracketed c =
     (if c = CHR ''<'' then ''&lt;'' else if c = CHR ''&'' then ''&amp;''
      else if c = CHR ''>'' \<and> bracketed then ''&gt;''
      else if c = CHR 0x22 \<and> w = ForAttributes then ''&quot;'' else [c])"

definition after_brackets :: "string \<Rightarrow> nat \<Rightarrow> bool" where
  "after_brackets s idx \<longleftrightarrow> idx > 2 \<and> s ! (idx - 1) = CHR '']'' \<and> s ! (idx - 2) = CHR '']''"

lemma encode_char_spec:
  assumes "idx < length s"
  shows "encode_char w s idx =
    Some (let r = drop idx s; k = copied_length r in
      if plain_ascii (s ! idx) then (token w (after_brackets s idx) (s ! idx), idx)
      else if 0 < k then (take k r, idx + (k - 1))
      else (hexEscapeChar (of_char (s ! idx)), idx))"
proof -
  have at: "str_at s idx = Some (s ! idx)" "str_at s (idx - k) = Some (s ! (idx - k))" for k
    using assms by (auto simp: str_at_def)
  have special: "plain_ascii (CHR ''<'')" "plain_ascii (CHR ''&'')" "plain_ascii (CHR ''>'')"
    "plain_ascii (CHR 0x22)" by (simp_all add: plain_ascii_def Let_def)
  show ?thesis
  proof (cases "s ! idx \<in> {CHR ''<'', CHR ''&'', CHR ''>'', CHR 0x22}")
    case True
    then show ?thesis using special
      by (auto simp: encode_char_def at token_def after_brackets_def Let_def)
  next
    case False
    then have "encode_char w s idx = encode_default s idx (of_char (s ! idx))"
      by (auto simp: encode_char_def at)
    with False show ?thesis
      unfolding encode_default_spec [OF assms] by (auto simp: Let_def token_def)
  qed
qed

lemma drop_next: "idx < length s \<Longrightarrow> drop idx s = s ! idx # drop (Suc idx) s"
  by (simp add: Cons_nth_drop_Suc)

lemma kept_plain: "plain_ascii c \<Longrightarrow> kept_text (c # r) = c # kept_text r"
  by (subst kept_text.simps) simp

lemma kept_escape:
  "\<not> plain_ascii c \<Longrightarrow> copied_length (c # r) = 0 \<Longrightarrow> kept_text (c # r) = hexEscapeChar (of_char c) @ kept_text r"
  by (subst kept_text.simps) simp

lemma kept_copy:
  "s \<noteq> [] \<Longrightarrow> \<not> plain_ascii (hd s) \<Longrightarrow> 0 < copied_length s \<Longrightarrow>
   kept_text s = take (copied_length s) s @ kept_text (drop (copied_length s) s)"
  by (subst kept_text.simps) simp

lemma encode_loop_step:
  assumes "idx < length s" "encode_char w s idx = Some (u, i)" "encode_loop w s (Suc i) = Some r"
  shows "encode_loop w s idx = Some (u @ r)"
  using assms by (subst encode_loop.simps) simp

definition readable :: "ForWhat \<Rightarrow> string \<Rightarrow> bool" where
  "readable w out \<longleftrightarrow> CHR ''<'' \<notin> set out \<and> (w = ForAttributes \<longrightarrow> CHR 0x22 \<notin> set out)"

lemma readable_append [simp]: "readable w (u @ r) \<longleftrightarrow> readable w u \<and> readable w r"
  by (auto simp: readable_def)

lemma readable_inert: "\<forall>c \<in> set u. inert c \<Longrightarrow> readable w u"
  by (auto simp: readable_def inert_def)

lemma inert_unescape: "\<forall>c \<in> set u. inert c \<Longrightarrow> xml_unescape (u @ r) = map_option ((@) u) (xml_unescape r)"
  by (rule xml_unescape_append) (auto simp: inert_def)

lemma xml_unescape_token: "xml_unescape (token w b c @ r) = map_option ((#) c) (xml_unescape r)"
proof (cases "c = CHR ''<'' \<or> c = CHR ''&'' \<or> c = CHR ''>'' \<and> b \<or> c = CHR 0x22 \<and> w = ForAttributes")
  case True
  then show ?thesis by (elim disjE conjE) (simp_all add: token_def)
next
  case False
  then have "token w b c = [c]" "c \<noteq> CHR ''<''" "c \<noteq> CHR ''&''" by (auto simp: token_def)
  then show ?thesis by (simp del: append.simps add: xml_unescape_append [of "[c]"]) (cases "xml_unescape r"; simp)
qed

lemma readable_token: "readable w (token w b c)"
  by (simp add: token_def readable_def)

lemma inert_copied: "0 < copied_length s \<Longrightarrow> \<forall>c \<in> set (take (copied_length s) s). inert c"
  using copied_length_unit copied_unit_high inert_high by blast

lemma encode_loop_unescape:
  "\<exists>out. encode_loop w s idx = Some out \<and> xml_unescape out = Some (kept_text (drop idx s)) \<and> readable w out"
proof (induction w s idx rule: encode_loop.induct)
  case (1 w s idx)
  show ?case
  proof (cases "idx < length s")
    case False
    then show ?thesis
      by (subst encode_loop.simps) (simp add: readable_def kept_text.simps)
  next
    case True
    note dr = drop_next [OF True]
    consider (plain) b where "encode_char w s idx = Some (token w b (s ! idx), idx)" "plain_ascii (s ! idx)"
      | (copy) k where "\<not> plain_ascii (s ! idx)" "k = copied_length (drop idx s)" "0 < k"
        "encode_char w s idx = Some (take k (drop idx s), idx + (k - 1))"
      | (hex) "\<not> plain_ascii (s ! idx)" "copied_length (drop idx s) = 0"
        "encode_char w s idx = Some (hexEscapeChar (of_char (s ! idx)), idx)"
      using encode_char_spec [OF True, of w] by (auto simp: Let_def split: if_splits)
    then show ?thesis
    proof cases
      case plain
      from "1.IH" [OF True plain(1)] obtain r where r: "encode_loop w s (Suc idx) = Some r"
        "xml_unescape r = Some (kept_text (drop (Suc idx) s))" "readable w r" by auto
      with plain encode_loop_step [OF True plain(1) r(1)] show ?thesis
        by (auto simp: dr kept_plain xml_unescape_token readable_token)
    next
      case copy
      from "1.IH" [OF True copy(4)] obtain r where r: "encode_loop w s (Suc (idx + (k - 1))) = Some r"
        "xml_unescape r = Some (kept_text (drop (Suc (idx + (k - 1))) s))" "readable w r" by auto
      have "kept_text (drop idx s) = take k (drop idx s) @ kept_text (drop k (drop idx s))"
        using kept_copy [of "drop idx s"] copy True by (simp add: hd_drop_conv_nth)
      moreover have "drop k (drop idx s) = drop (Suc (idx + (k - 1))) s" using copy(3) by (simp add: add.commute)
      ultimately show ?thesis
        using r encode_loop_step [OF True copy(4) r(1)] inert_copied [of "drop idx s"] copy
        by (auto simp: inert_unescape readable_inert)
    next
      case hex
      from "1.IH" [OF True hex(3)] obtain r where r: "encode_loop w s (Suc idx) = Some r"
        "xml_unescape r = Some (kept_text (drop (Suc idx) s))" "readable w r" by auto
      with hex encode_loop_step [OF True hex(3) r(1)] show ?thesis
        by (auto simp: dr kept_escape inert_unescape readable_inert inert_hex)
    qed
  qed
qed


section \<open>The end of a character data section\<close>

text \<open>An automaton for the string \<open>]]>\<close>; the state counts the brackets just read.\<close>

fun cdata_end :: "nat \<Rightarrow> string \<Rightarrow> bool" where
  "cdata_end n [] \<longleftrightarrow> False"
| "cdata_end n (c # cs) \<longleftrightarrow>
     (if c = CHR '']'' then cdata_end (min 2 (Suc n)) cs else c = CHR ''>'' \<and> n = 2 \<or> cdata_end 0 cs)"

lemma cdata_end_sublist:
  "n \<le> 2 \<Longrightarrow> cdata_end n xs \<longleftrightarrow> sublist '']]>'' (replicate n (CHR '']'') @ xs)"
proof (induction xs arbitrary: n)
  case Nil
  then consider "n = 0" | "n = 1" | "n = 2" by linarith
  then show ?case by cases (simp_all add: sublist_Cons_right numeral_2_eq_2)
next
  case (Cons c xs)
  from Cons.prems consider "n = 0" | "n = 1" | "n = 2" by linarith
  then show ?case
    by cases (auto simp: Cons.IH sublist_Cons_right numeral_2_eq_2 min_def)
qed

definition brackets_before :: "string \<Rightarrow> nat \<Rightarrow> nat" where
  "brackets_before s idx =
     (if 0 < idx \<and> s ! (idx - 1) = CHR '']''
      then if 1 < idx \<and> s ! (idx - 2) = CHR '']'' then 2 else 1
      else 0)"

lemma cdata_end_inert: "u \<noteq> [] \<Longrightarrow> \<forall>c \<in> set u. inert c \<Longrightarrow> cdata_end n (u @ r) = cdata_end 0 r"
  by (induction u arbitrary: n) (fastforce simp: inert_def)+

lemma brackets_before_Suc:
  "brackets_before s (Suc idx) = (if s ! idx = CHR '']'' then min 2 (Suc (brackets_before s idx)) else 0)"
  by (auto simp: brackets_before_def numeral_2_eq_2)

lemma brackets_before_le: "brackets_before s idx \<le> 2"
  by (simp add: brackets_before_def)

lemma cdata_end_token:
  "cdata_end n (token w b c @ r) \<longleftrightarrow>
     (if c = CHR '']'' then cdata_end (min 2 (Suc n)) r
      else c = CHR ''>'' \<and> \<not> b \<and> n = 2 \<or> cdata_end 0 r)"
  by (auto simp: token_def)

lemma prefix_cdata:
  "prefix '']]>'' s \<longleftrightarrow> 2 < length s \<and> s ! 0 = CHR '']'' \<and> s ! 1 = CHR '']'' \<and> s ! 2 = CHR ''>''"
proof (cases s)
  case (Cons a t)
  then show ?thesis by (cases t; cases "tl t") (auto simp: numeral_2_eq_2)
qed simp

lemma encode_loop_cdata:
  "encode_loop w s idx = Some out \<Longrightarrow>
   cdata_end (brackets_before s idx) out \<longleftrightarrow> idx \<le> 2 \<and> prefix '']]>'' s"
proof (induction w s idx arbitrary: out rule: encode_loop.induct)
  case (1 w s idx)
  show ?case
  proof (cases "idx < length s")
    case False
    then have "out = []" using "1.prems" by (subst (asm) encode_loop.simps) simp
    then show ?thesis using False by (auto simp: prefix_cdata)
  next
    case True
    obtain u i where c: "encode_char w s idx = Some (u, i)" using encode_char_spec [OF True, of w] by fastforce
    with "1.prems" True obtain r where r: "encode_loop w s (Suc i) = Some r" "out = u @ r"
      by (subst (asm) encode_loop.simps) auto
    from "1.IH" [OF True c refl] r(1)
    have IH: "cdata_end (brackets_before s (Suc i)) r \<longleftrightarrow> Suc i \<le> 2 \<and> prefix '']]>'' s" by simp
    show ?thesis
    proof (cases "plain_ascii (s ! idx)")
      case plain: True
      then have u: "u = token w (after_brackets s idx) (s ! idx)" "i = idx"
        using c encode_char_spec [OF True, of w] by auto
      have hit: "s ! idx = CHR ''>'' \<and> \<not> after_brackets s idx \<and> brackets_before s idx = 2 \<longleftrightarrow>
          idx = 2 \<and> prefix '']]>'' s"
        using True by (cases "idx = 2") (auto simp: after_brackets_def brackets_before_def prefix_cdata split: if_splits)
      have "cdata_end (brackets_before s idx) out \<longleftrightarrow>
          (s ! idx = CHR ''>'' \<and> \<not> after_brackets s idx \<and> brackets_before s idx = 2) \<or>
          cdata_end (brackets_before s (Suc idx)) r"
        by (auto simp: r u cdata_end_token brackets_before_Suc)
      also have "\<dots> \<longleftrightarrow> idx = 2 \<and> prefix '']]>'' s \<or> Suc idx \<le> 2 \<and> prefix '']]>'' s"
        unfolding hit using IH u(2) by simp
      finally show ?thesis by auto
    next
      case False
      then have no: "\<not> prefix '']]>'' s" if "idx \<le> 2"
        using that by (auto simp: prefix_cdata le_Suc_eq numeral_2_eq_2 plain_ascii_def)
      have bracket: "plain_ascii (CHR '']'')" by (simp add: plain_ascii_def Let_def)
      have "u \<noteq> [] \<and> (\<forall>c \<in> set u. inert c) \<and> s ! i \<noteq> CHR '']''"
      proof (cases "0 < copied_length (drop idx s)")
        case copy: True
        let ?k = "copied_length (drop idx s)"
        have u: "u = take ?k (drop idx s)" "i = idx + (?k - 1)"
          using c encode_char_spec [OF True, of w] False copy by (auto simp: Let_def)
        have k: "2 \<le> ?k" "?k \<le> length (drop idx s)" using copied_length_unit [OF copy] by auto
        then have "s ! i = u ! (?k - 1)" "?k - 1 < length u" by (simp_all add: u)
        then have "s ! i \<in> set u" by (metis nth_mem)
        moreover have "\<forall>c \<in> set u. inert c" using inert_copied [OF copy] unfolding u(1) .
        moreover have "\<not> inert (CHR '']'')" by (simp add: inert_def)
        ultimately show ?thesis by fastforce
      next
        case hex: False
        have "u = hexEscapeChar (of_char (s ! idx))" "i = idx"
          using c encode_char_spec [OF True, of w] False hex by (auto simp: Let_def)
        moreover from this have "s ! i \<noteq> CHR '']''" using False bracket by metis
        ultimately show ?thesis using inert_hex [of _ "of_char (s ! idx)"] by (simp add: hexEscapeChar_def)
      qed
      then have "cdata_end (brackets_before s idx) out \<longleftrightarrow> cdata_end (brackets_before s (Suc i)) r"
        using cdata_end_inert [of u _ r] by (simp add: r brackets_before_Suc)
      then show ?thesis using IH no encode_char_idx [OF c] by auto
    qed
  qed
qed



section \<open>The reference for the text\<close>

text \<open>
  The pieces of a text that may stand in a document as they are: a printable ASCII
  character, a tab, a line feed or a carriage return (the other control
  characters are illegal in XML 1.0), or a well-formed UTF-8 sequence.  The code
  keeps three other pieces: two control characters and an overlong encoding.
\<close>

definition legal_ascii :: "char \<Rightarrow> bool" where
  "legal_ascii c \<longleftrightarrow> c \<in> {CHR 0x09, CHR 0x0A, CHR 0x0D} \<or> (0x20 :: nat) \<le> of_char c \<and> of_char c < (0x7F :: nat)"

definition legal_unit :: "string \<Rightarrow> bool" where
  "legal_unit u \<longleftrightarrow> length u = 1 \<and> legal_ascii (hd u) \<or> utf8_unit (map of_char u)"

definition missed_units :: "string list" where
  "missed_units = [[CHR 0x0B], [CHR 0x0C], [CHR 0xF0, CHR 0x80, CHR 0xA0, CHR 0x80]]"

text \<open>
  Replacing illegal bytes, for any notion of a legal piece of at most four bytes:
  the shortest legal piece at the front is kept, and when there is none the first
  byte is replaced by its hexadecimal escape.
\<close>

definition unit_length :: "(string \<Rightarrow> bool) \<Rightarrow> string \<Rightarrow> nat" where
  "unit_length legal s =
     (case find (\<lambda>k. k \<le> length s \<and> legal (take k s)) [1, 2, 3, 4] of Some k \<Rightarrow> k | None \<Rightarrow> 0)"

function sanitise :: "(string \<Rightarrow> bool) \<Rightarrow> string \<Rightarrow> string" where
  "sanitise legal s =
     (if s = [] then []
      else if 0 < unit_length legal s
      then take (unit_length legal s) s @ sanitise legal (drop (unit_length legal s) s)
      else hexEscapeChar (of_char (hd s)) @ sanitise legal (tl s))"
  by pat_completeness auto
termination
  by (relation "measure (length \<circ> snd)") auto

declare sanitise.simps [simp del]

lemma plain_ascii_legal: "plain_ascii c \<longleftrightarrow> legal_ascii c \<or> [c] \<in> set missed_units"
proof -
  have eq: "c = d \<longleftrightarrow> of_char c = (of_char d :: nat)" for d by simp
  show ?thesis unfolding plain_ascii_def legal_ascii_def missed_units_def Let_def
    by (simp del: of_char_eq_iff add: eq) arith
qed

lemma copied_unit_legal: "copied_unit u \<longleftrightarrow> length u \<noteq> 1 \<and> (legal_unit u \<or> u \<in> set missed_units)"
proof -
  have "map of_char u = (map of_char v :: nat list) \<longleftrightarrow> u = v" for v :: string
    by (intro inj_map_eq_map injI) simp
  from this [of "[CHR 0xF0, CHR 0x80, CHR 0xA0, CHR 0x80]"]
  have "map of_char u = [0xF0, 0x80, 0xA0, (0x80 :: nat)] \<longleftrightarrow> u = [CHR 0xF0, CHR 0x80, CHR 0xA0, CHR 0x80]" by simp
  moreover have "utf8_unit (map of_char u) \<Longrightarrow> length u \<noteq> 1"
    by (cases "map of_char u :: nat list" rule: utf8_unit.cases) auto
  ultimately show ?thesis by (auto simp: copied_unit_def legal_unit_def missed_units_def Let_def)
qed

lemma copied_unit_cases:
  "copied_unit u \<Longrightarrow> utf8_unit (map of_char u) \<or> u = [CHR 0xF0, CHR 0x80, CHR 0xA0, CHR 0x80]"
  by (auto simp: copied_unit_legal legal_unit_def missed_units_def)

lemma copied_overlong: "copied_unit [CHR 0xF0, CHR 0x80, CHR 0xA0, CHR 0x80]"
  by code_simp

lemma utf8_unit_shape:
  assumes "utf8_unit (map of_char u)"
  obtains a b where "u = [a, b]" "(0xC2 :: nat) \<le> of_char a" "(of_char a :: nat) \<le> 0xDF" "follow (of_char b)"
  | a b c where "u = [a, b, c]" "(0xE0 :: nat) \<le> of_char a" "(of_char a :: nat) \<le> 0xEF" "follow (of_char b)" "follow (of_char c)"
  | a b c d where "u = [a, b, c, d]" "(0xF0 :: nat) \<le> of_char a" "a = CHR 0xF0 \<longrightarrow> (0x90 :: nat) \<le> of_char b"
      "follow (of_char b)" "follow (of_char c)" "follow (of_char d)"
proof -
  consider a b where "u = [a, b]" | a b c where "u = [a, b, c]" | a b c d where "u = [a, b, c, d]"
    using assms by (cases "map of_char u :: nat list" rule: utf8_unit.cases) auto
  then show thesis using assms by cases (auto simp: follow_def intro: that)
qed

lemma copied_length_append:
  assumes "copied_unit u"
  shows "copied_length (u @ r) = length u" "\<not> plain_ascii (hd u)" "u \<noteq> []"
proof -
  obtain a b t where u: "u = a # b # t" and
    k: "0xC2 \<le> (of_char a :: nat) \<and> of_char a < (0xE0 :: nat) \<and> length u = 2 \<or>
     0xE0 \<le> (of_char a :: nat) \<and> of_char a < (0xF0 :: nat) \<and> length u = 3 \<or>
     0xF0 \<le> (of_char a :: nat) \<and> of_char a \<le> (0xF4 :: nat) \<and> length u = 4"
    using copied_unit_lead [OF assms] by blast
  have ne: "u @ r \<noteq> []" and hd: "hd (u @ r) = a" by (simp_all add: u)
  have "take (length u) (u @ r) = u" by simp
  then show "copied_length (u @ r) = length u"
    using k assms unfolding copied_length_lead [OF ne, unfolded hd Let_def] by auto
  from k show "\<not> plain_ascii (hd u)" by (auto simp: u plain_ascii_def Let_def)
  show "u \<noteq> []" by (simp add: u)
qed

lemma unit_length_alt:
  "unit_length legal s =
     (if 1 \<le> length s \<and> legal (take 1 s) then 1 else if 2 \<le> length s \<and> legal (take 2 s) then 2
      else if 3 \<le> length s \<and> legal (take 3 s) then 3 else if 4 \<le> length s \<and> legal (take 4 s) then 4 else 0)"
  by (simp add: unit_length_def)

text \<open>The text the code keeps is the text sanitised with the enlarged notion.\<close>

lemma unit_length_kept:
  assumes "s \<noteq> []"
  shows "unit_length (\<lambda>u. legal_unit u \<or> u \<in> set missed_units) s =
    (if plain_ascii (hd s) then 1 else copied_length s)"
proof -
  obtain c r where s: "s = c # r" using assms by (cases s) auto
  have one: "legal_unit [c] \<or> [c] \<in> set missed_units \<longleftrightarrow> plain_ascii c"
    by (auto simp: plain_ascii_legal legal_unit_def)
  have more: "legal_unit (take k s) \<or> take k s \<in> set missed_units \<longleftrightarrow> copied_unit (take k s)"
    if "k \<le> length s" "1 < k" for k using that by (simp add: copied_unit_legal min.absorb2)
  have "take 1 s = [c]" "1 \<le> length s" "hd s = c" by (simp_all add: s)
  then show ?thesis unfolding unit_length_alt copied_length_def
    by (simp add: one more cong: conj_cong)
qed

lemma unit_length_legal:
  assumes "s \<noteq> []"
  shows "unit_length legal_unit s =
    (if legal_ascii (hd s) then 1
     else if take 4 s = [CHR 0xF0, CHR 0x80, CHR 0xA0, CHR 0x80] then 0 else copied_length s)"
proof (cases "take 4 s = [CHR 0xF0, CHR 0x80, CHR 0xA0, CHR 0x80]")
  case True
  then obtain t where s: "s = [CHR 0xF0, CHR 0x80, CHR 0xA0, CHR 0x80] @ t" by (metis append_take_drop_id)
  have "\<not> legal_ascii (CHR 0xF0)" "list_all (\<lambda>k. \<not> legal_unit (take k [CHR 0xF0, CHR 0x80, CHR 0xA0, CHR 0x80])) [1, 2, 3, 4]"
    by code_simp+
  then show ?thesis by (simp add: unit_length_def s)
next
  case False
  obtain c r where s: "s = c # r" using assms by (cases s) auto
  have one: "legal_unit [c] \<longleftrightarrow> legal_ascii c" by (auto simp: legal_unit_def)
  have more: "legal_unit (take k s) \<longleftrightarrow> copied_unit (take k s)" if "k \<le> length s" "k = 2 \<or> k = 3 \<or> k = 4" for k
  proof -
    have "take k s \<notin> set missed_units"
      using False that by (auto simp: missed_units_def dest!: arg_cong [where f = length])
    then show ?thesis using that by (auto simp: copied_unit_legal)
  qed
  have "take 1 s = [c]" "1 \<le> length s" "hd s = c" by (simp_all add: s)
  with False show ?thesis unfolding unit_length_alt copied_length_def
    by (simp add: one more cong: conj_cong)
qed

lemma kept_text_eq: "kept_text s = sanitise (\<lambda>u. legal_unit u \<or> u \<in> set missed_units) s"
proof (induction s rule: kept_text.induct)
  case (1 s)
  show ?case
  proof (cases s)
    case Nil
    then show ?thesis by (simp add: kept_text.simps [of "[]"] sanitise.simps [of _ "[]"])
  next
    case (Cons c r)
    with 1 show ?thesis
      by (auto simp: kept_text.simps [of "c # r"] sanitise.simps [of _ "c # r"] unit_length_kept)
  qed
qed

lemma kept_text_legal: "\<forall>u \<in> set us. legal_unit u \<Longrightarrow> kept_text (concat us) = concat us"
proof (induction us)
  case Nil
  show ?case by (subst kept_text.simps) simp
next
  case (Cons u us)
  then have IH: "kept_text (concat us) = concat us" by simp
  from Cons.prems have "legal_unit u" by simp
  then consider c where "u = [c]" "plain_ascii c" | "copied_unit u"
    by (cases "length u = 1") (auto simp: copied_unit_legal plain_ascii_legal legal_unit_def length_Suc_conv)
  then show ?case
  proof cases
    case 1
    then show ?thesis by (simp add: kept_plain IH)
  next
    case 2
    note l = copied_length_append(1) [OF 2, of "concat us"] copied_length_append(2,3) [OF 2]
    then have "0 < length u" by simp
    then show ?thesis
      using kept_copy [of "u @ concat us"] l IH by simp
  qed
qed

text \<open>
  Where the code differs: a piece that it keeps against the reference makes the
  text shorter, and elsewhere both go on at the same place.
\<close>

lemma sanitise_legal_plain: "legal_ascii c \<Longrightarrow> sanitise legal_unit (c # r) = c # sanitise legal_unit r"
  by (subst sanitise.simps) (simp add: unit_length_legal)

lemma sanitise_legal_escape:
  "\<not> legal_ascii c \<Longrightarrow> copied_length (c # r) = 0 \<Longrightarrow>
   sanitise legal_unit (c # r) = hexEscapeChar (of_char c) @ sanitise legal_unit r"
  by (subst sanitise.simps) (simp add: unit_length_legal)

lemma sanitise_legal_unit:
  assumes "utf8_unit (map of_char u)"
  shows "sanitise legal_unit (u @ r) = u @ sanitise legal_unit r"
proof -
  have u: "copied_unit u" using assms by (simp add: copied_unit_def)
  note l = copied_length_append(1) [OF u, of r] copied_length_append(2,3) [OF u]
  have "\<not> legal_ascii (hd u)" using l(2) plain_ascii_legal by blast
  moreover have "take 4 (u @ r) \<noteq> [CHR 0xF0, CHR 0x80, CHR 0xA0, CHR 0x80]"
    using assms by (rule utf8_unit_shape) auto
  ultimately show ?thesis using l by (subst sanitise.simps) (simp add: unit_length_legal)
qed

lemma missed_inside:
  assumes "utf8_unit (map of_char u)" "v \<in> set missed_units"
  shows "sublist v (u @ r) \<longleftrightarrow> sublist v r"
  using assms(1)
  by (rule utf8_unit_shape) (use assms(2) in \<open>auto simp: missed_units_def sublist_Cons_right follow_def\<close>)

lemma hexEscapeChar_length: "length (hexEscapeChar b) = 4"
  by (simp add: hexEscapeChar_def)

lemma kept_copied: "copied_unit u \<Longrightarrow> kept_text (u @ t) = u @ kept_text t"
  using copied_length_append [of u] kept_copy [of "u @ t"] by simp

lemma overlong_texts:
  "kept_text ([CHR 0xF0, CHR 0x80, CHR 0xA0, CHR 0x80] @ t) = [CHR 0xF0, CHR 0x80, CHR 0xA0, CHR 0x80] @ kept_text t"
  "length (sanitise legal_unit ([CHR 0xF0, CHR 0x80, CHR 0xA0, CHR 0x80] @ t)) = 16 + length (sanitise legal_unit t)"
proof -
  show "kept_text ([CHR 0xF0, CHR 0x80, CHR 0xA0, CHR 0x80] @ t) = [CHR 0xF0, CHR 0x80, CHR 0xA0, CHR 0x80] @ kept_text t"
    by (rule kept_copied [OF copied_overlong])
  have escape: "length (sanitise legal_unit (c # r)) = 4 + length (sanitise legal_unit r)"
    if "c \<in> {CHR 0x80, CHR 0xA0}" for c r
    using that copied_length_lead [of "c # r"]
    by (auto simp: sanitise_legal_escape legal_ascii_def hexEscapeChar_length)
  have "length (sanitise legal_unit ([CHR 0xF0, CHR 0x80, CHR 0xA0, CHR 0x80] @ t)) =
      4 + length (sanitise legal_unit ([CHR 0x80, CHR 0xA0, CHR 0x80] @ t))"
    by (subst sanitise.simps) (simp add: unit_length_legal legal_ascii_def hexEscapeChar_length)
  then show "length (sanitise legal_unit ([CHR 0xF0, CHR 0x80, CHR 0xA0, CHR 0x80] @ t)) = 16 + length (sanitise legal_unit t)"
    by (simp add: escape)
qed

lemma kept_text_agrees:
  "if \<exists>u \<in> set missed_units. sublist u s
   then length (kept_text s) < length (sanitise legal_unit s)
   else kept_text s = sanitise legal_unit s"
proof (induction "length s" arbitrary: s rule: less_induct)
  case less
  show ?case
  proof (cases s)
    case Nil
    then show ?thesis by (simp add: missed_units_def kept_text.simps [of "[]"] sanitise.simps [of _ "[]"])
  next
    case (Cons c r)
    have IH: "length (kept_text t) \<le> length (sanitise legal_unit t)"
      "(\<exists>u \<in> set missed_units. sublist u t) \<Longrightarrow> length (kept_text t) < length (sanitise legal_unit t)"
      "\<not> (\<exists>u \<in> set missed_units. sublist u t) \<Longrightarrow> kept_text t = sanitise legal_unit t" if "length t < length s" for t
      using less [OF that] by (auto split: if_splits)
    consider (plain) "legal_ascii c" | (control) "[c] \<in> set missed_units"
      | (unit) u t where "s = u @ t" "utf8_unit (map of_char u)" "\<not> plain_ascii c"
      | (overlong) t where "s = [CHR 0xF0, CHR 0x80, CHR 0xA0, CHR 0x80] @ t"
      | (illegal) "\<not> plain_ascii c" "copied_length s = 0"
    proof (cases "plain_ascii c")
      case True
      then show thesis using that(1,2) by (auto simp: plain_ascii_legal)
    next
      case False
      show thesis
      proof (cases "copied_length s = 0")
        case True
        then show thesis using that(5) False by simp
      next
        case copied: False
        let ?u = "take (copied_length s) s"
        have "copied_unit ?u" using copied_length_unit [of s] copied by simp
        note copied_unit_cases [OF this]
        moreover have "s = ?u @ drop (copied_length s) s" by simp
        ultimately show thesis using that(3,4) False by metis
      qed
    qed
    then show ?thesis
    proof cases
      case plain
      have "sublist u s \<longleftrightarrow> sublist u r" if "u \<in> set missed_units" for u
        using that plain by (auto simp: Cons missed_units_def sublist_Cons_right legal_ascii_def)
      moreover have "plain_ascii c" using plain by (simp add: plain_ascii_legal)
      ultimately show ?thesis using IH [of r] plain by (simp add: Cons kept_plain sanitise_legal_plain)
    next
      case control
      then have "c = CHR 0x0B \<or> c = CHR 0x0C" by (auto simp: missed_units_def)
      then have "\<not> legal_ascii c" "copied_length (c # r) = 0"
        using copied_length_lead [of "c # r"] by (auto simp: legal_ascii_def)
      moreover have "plain_ascii c" using control by (simp add: plain_ascii_legal)
      moreover have "sublist [c] s" by (simp add: Cons sublist_Cons_right)
      ultimately show ?thesis using IH(1) [of r] control
        by (auto simp: Cons kept_plain sanitise_legal_escape hexEscapeChar_length)
    next
      case (unit u t)
      have u: "copied_unit u" using unit(2) by (simp add: copied_unit_def)
      then have "length t < length s" using copied_length_append(3) [OF u] unit(1) by simp
      then show ?thesis using IH [of t] unit(1)
        by (simp add: kept_copied [OF u] sanitise_legal_unit [OF unit(2)] missed_inside [OF unit(2)])
    next
      case (overlong t)
      have "sublist [CHR 0xF0, CHR 0x80, CHR 0xA0, CHR 0x80] s" unfolding overlong by (rule sublist_append_rightI)
      moreover have "length (kept_text t) \<le> length (sanitise legal_unit t)" using IH(1) [of t] overlong by simp
      ultimately show ?thesis unfolding overlong overlong_texts by (auto simp: missed_units_def)
    next
      case illegal
      have "\<not> prefix [CHR 0xF0, CHR 0x80, CHR 0xA0, CHR 0x80] s"
        using illegal(2) copied_length_append(1) [OF copied_overlong] by (auto simp: prefix_def)
      moreover have "\<not> legal_ascii c" "c \<noteq> CHR 0x0B" "c \<noteq> CHR 0x0C"
        using illegal(1) by (auto simp: plain_ascii_legal missed_units_def)
      ultimately have "sublist u s \<longleftrightarrow> sublist u r" if "u \<in> set missed_units" for u
        using that by (auto simp: Cons missed_units_def sublist_Cons_right)
      with \<open>\<not> legal_ascii c\<close> show ?thesis using IH [of r] illegal
        by (simp add: Cons kept_escape sanitise_legal_escape)
    qed
  qed
qed

lemma kept_text_eq_iff: "kept_text s = sanitise legal_unit s \<longleftrightarrow> (\<forall>u \<in> set missed_units. \<not> sublist u s)"
  using kept_text_agrees [of s] by (auto split: if_splits)


section \<open>Properties\<close>

text \<open>
  C36: encoding never fails or reads outside the string, the output has no raw
  \<open><\<close> and no quotation mark when it is an attribute value, and it reads back,
  through the four references, as the string with illegal bytes replaced by
  hexadecimal escapes.  Illegal are the bytes outside printable ASCII, tab, line
  feed, carriage return and well-formed UTF-8 sequences, with three exceptions
  that the code keeps: the bytes 0B and 0C and the overlong sequence F0 80 A0 80.
  So the output reads back as the properly sanitised text exactly when none of
  the three is in the string, and a legal text comes back as it was.\<close>

theorem XmlEncode_decodes:
  "\<exists>out. XmlEncode s w = Some out \<and> CHR ''<'' \<notin> set out \<and> (w = ForAttributes \<longrightarrow> CHR 0x22 \<notin> set out) \<and>
     xml_unescape out = Some (sanitise (\<lambda>u. legal_unit u \<or> u \<in> set missed_units) s) \<and>
     (xml_unescape out = Some (sanitise legal_unit s) \<longleftrightarrow> (\<forall>u \<in> set missed_units. \<not> sublist u s)) \<and>
     (\<forall>us. s = concat us \<and> list_all legal_unit us \<longrightarrow> xml_unescape out = Some s)"
  using encode_loop_unescape [of w s 0] kept_text_legal kept_text_eq [of s] kept_text_eq_iff [of s]
  by (auto simp: XmlEncode_def readable_def list_all_iff)

theorem XmlEncode_decodes_witness:
  "(\<exists>out. XmlEncode ''a<b'' ForAttributes = Some out \<and> xml_unescape out = Some ''a<b'' \<and>
     CHR ''<'' \<notin> set out \<and> CHR 0x22 \<notin> set out) \<and>
   (\<exists>out. XmlEncode [CHR 0x0B] ForTextNodes = Some out \<and> xml_unescape out \<noteq> Some (sanitise legal_unit [CHR 0x0B]))"
proof (rule conjI, goal_cases)
  case 1
  have "concat [''a'', ''<'', ''b''] = ''a<b'' \<and> list_all legal_unit [''a'', ''<'', ''b'']"
    by (simp add: legal_unit_def legal_ascii_def)
  with XmlEncode_decodes [of "''a<b''" ForAttributes] show ?case by metis
next
  case 2
  have "\<exists>u \<in> set missed_units. sublist u [CHR 0x0B]" by (simp add: missed_units_def)
  with XmlEncode_decodes [of "[CHR 0x0B]" ForTextNodes] show ?case by blast
qed

text \<open>
  C37: The string \<open>]]>\<close>, which must not stand in character data, is in the
  output exactly when the input starts with it: the test \<open>idx > 2\<close> skips the
  first place where it can end.\<close>

theorem XmlEncode_cdata_end:
  "\<exists>out. XmlEncode s w = Some out \<and> (sublist '']]>'' out \<longleftrightarrow> prefix '']]>'' s)"
proof -
  obtain out where out: "encode_loop w s 0 = Some out" using encode_loop_unescape [of w s 0] by auto
  have "cdata_end 0 out \<longleftrightarrow> prefix '']]>'' s"
    using encode_loop_cdata [OF out] by (simp add: brackets_before_def)
  then show ?thesis using out cdata_end_sublist [of 0 out] by (auto simp: XmlEncode_def)
qed

end
