(* ===== verification/CatchXmlWriter.thy ===== *)
theory CatchXmlWriter
  imports CatchXml
begin

text \<open>
  The XML writer of the unit test framework (\<open>native/src/catch.hpp\<close>): the
  class \<open>XmlWriter\<close> with its scoped elements.  The stream is the string
  written so far, \<open>std::endl\<close> a newline.  Closing an element when none is
  open takes the last element of an empty vector and is undefined.
\<close>

record XmlWriter =
  m_tagIsOpen :: bool
  m_needsNewline :: bool
  m_tags :: "string list"
  m_indent :: string
  m_os :: string

definition put_os :: "string \<Rightarrow> XmlWriter \<Rightarrow> XmlWriter" where
  "put_os t w = w\<lparr>m_os := m_os w @ t\<rparr>"

definition writeDeclaration :: "XmlWriter \<Rightarrow> XmlWriter" where
  "writeDeclaration w = put_os (''<?xml version='' @ [CHR 0x22] @ ''1.0'' @ [CHR 0x22] @
     '' encoding='' @ [CHR 0x22] @ ''UTF-8'' @ [CHR 0x22] @ ''?>'' @ [CHR 0x0A]) w"

definition XmlWriter_new :: "string \<Rightarrow> XmlWriter" where
  "XmlWriter_new os = writeDeclaration
     \<lparr>m_tagIsOpen = False, m_needsNewline = False, m_tags = [], m_indent = [], m_os = os\<rparr>"

definition ensureTagClosed :: "XmlWriter \<Rightarrow> XmlWriter" where
  "ensureTagClosed w =
     (if m_tagIsOpen w then (put_os ([CHR ''>''] @ [CHR 0x0A]) w)\<lparr>m_tagIsOpen := False\<rparr> else w)"

definition newlineIfNecessary :: "XmlWriter \<Rightarrow> XmlWriter" where
  "newlineIfNecessary w =
     (if m_needsNewline w then (put_os [CHR 0x0A] w)\<lparr>m_needsNewline := False\<rparr> else w)"

definition startElement :: "string \<Rightarrow> XmlWriter \<Rightarrow> XmlWriter" where
  "startElement name w0 =
     (let w1 = newlineIfNecessary (ensureTagClosed w0);
          w2 = put_os (m_indent w1 @ [CHR ''<''] @ name) w1;
          w3 = w2\<lparr>m_tags := m_tags w2 @ [name]\<rparr>;
          w4 = w3\<lparr>m_indent := m_indent w3 @ ''  ''\<rparr>
      in w4\<lparr>m_tagIsOpen := True\<rparr>)"

text \<open>
  \<open>m_indent.substr(0, m_indent.size() - 2)\<close>: with fewer than two characters
  the length wraps around and the whole indentation is kept.
\<close>

definition endElement :: "XmlWriter \<Rightarrow> XmlWriter option" where
  "endElement w0 =
     (let w1 = newlineIfNecessary w0;
          ind = m_indent w1;
          w2 = w1\<lparr>m_indent := (if 2 \<le> length ind then take (length ind - 2) ind else ind)\<rparr>
      in if m_tags w2 = [] then None
         else
           (let w3 = (if m_tagIsOpen w2 then (put_os ''/>'' w2)\<lparr>m_tagIsOpen := False\<rparr>
                      else put_os (m_indent w2 @ ''</'' @ last (m_tags w2) @ ''>'') w2);
                w4 = put_os [CHR 0x0A] w3
            in Some (w4\<lparr>m_tags := butlast (m_tags w4)\<rparr>)))"

definition writeAttribute :: "string \<Rightarrow> string \<Rightarrow> XmlWriter \<Rightarrow> XmlWriter option" where
  "writeAttribute name attribute w =
     (if name \<noteq> [] \<and> attribute \<noteq> [] then do {
        enc \<leftarrow> XmlEncode attribute ForAttributes;
        Some (put_os ('' '' @ name @ ''='' @ [CHR 0x22] @ enc @ [CHR 0x22]) w)
      }
      else Some w)"

definition writeAttribute_bool :: "string \<Rightarrow> bool \<Rightarrow> XmlWriter \<Rightarrow> XmlWriter" where
  "writeAttribute_bool name attribute w =
     put_os ('' '' @ name @ ''='' @ [CHR 0x22] @ (if attribute then ''true'' else ''false'') @ [CHR 0x22]) w"

definition writeText :: "string \<Rightarrow> bool \<Rightarrow> XmlWriter \<Rightarrow> XmlWriter option" where
  "writeText txt indent w0 =
     (if txt \<noteq> [] then
        (let tagWasOpen = m_tagIsOpen w0;
             w1 = ensureTagClosed w0;
             w2 = (if tagWasOpen \<and> indent then put_os (m_indent w1) w1 else w1)
         in do {
           enc \<leftarrow> XmlEncode txt ForTextNodes;
           Some ((put_os enc w2)\<lparr>m_needsNewline := True\<rparr>)
         })
      else Some w0)"

definition writeComment :: "string \<Rightarrow> XmlWriter \<Rightarrow> XmlWriter" where
  "writeComment txt w0 =
     (let w1 = ensureTagClosed w0
      in (put_os (m_indent w1 @ ''<!--'' @ txt @ ''-->'') w1)\<lparr>m_needsNewline := True\<rparr>)"

definition writeStylesheetRef :: "string \<Rightarrow> XmlWriter \<Rightarrow> XmlWriter" where
  "writeStylesheetRef url w =
     put_os (''<?xml-stylesheet type='' @ [CHR 0x22] @ ''text/xsl'' @ [CHR 0x22] @ '' href='' @
       [CHR 0x22] @ url @ [CHR 0x22] @ ''?>'' @ [CHR 0x0A]) w"

definition writeBlankLine :: "XmlWriter \<Rightarrow> XmlWriter" where
  "writeBlankLine w0 = put_os [CHR 0x0A] (ensureTagClosed w0)"

text \<open>The destructor closes what is open.\<close>

lemma endElement_tags: "endElement w = Some w' \<Longrightarrow> m_tags w' = butlast (m_tags w) \<and> m_tags w \<noteq> []"
  by (auto simp: endElement_def newlineIfNecessary_def put_os_def Let_def split: if_splits)

function XmlWriter_delete :: "XmlWriter \<Rightarrow> XmlWriter option" where
  "XmlWriter_delete w =
     (if m_tags w \<noteq> [] then (case endElement w of None \<Rightarrow> None | Some w' \<Rightarrow> XmlWriter_delete w')
      else Some w)"
  by pat_completeness auto
termination
  by (relation "measure (\<lambda>w. length (m_tags w))") (auto dest: endElement_tags)

declare XmlWriter_delete.simps [simp del]

section \<open>Scoped elements\<close>

text \<open>
  A scoped element holds a pointer to its writer, null after a move.  The
  writers are a map from addresses.
\<close>

type_synonym writers = "nat \<rightharpoonup> XmlWriter"

record ScopedElement =
  m_writer :: "nat option"

definition ScopedElement_new :: "nat \<Rightarrow> ScopedElement" where
  "ScopedElement_new p = \<lparr>m_writer = Some p\<rparr>"

definition ScopedElement_move :: "ScopedElement \<Rightarrow> ScopedElement \<times> ScopedElement" where
  "ScopedElement_move other = (\<lparr>m_writer = m_writer other\<rparr>, other\<lparr>m_writer := None\<rparr>)"

definition update_writer :: "nat \<Rightarrow> (XmlWriter \<Rightarrow> XmlWriter option) \<Rightarrow> writers \<Rightarrow> writers option" where
  "update_writer p f ws = do { w \<leftarrow> ws p; w' \<leftarrow> f w; Some (ws(p \<mapsto> w')) }"

definition ScopedElement_delete :: "ScopedElement \<Rightarrow> writers \<Rightarrow> writers option" where
  "ScopedElement_delete e ws =
     (case m_writer e of None \<Rightarrow> Some ws | Some p \<Rightarrow> update_writer p endElement ws)"

definition ScopedElement_assign ::
    "ScopedElement \<Rightarrow> ScopedElement \<Rightarrow> writers \<Rightarrow> ((ScopedElement \<times> ScopedElement) \<times> writers) option" where
  "ScopedElement_assign e other ws = do {
     ws' \<leftarrow> (case m_writer e of None \<Rightarrow> Some ws | Some p \<Rightarrow> update_writer p endElement ws);
     Some ((e\<lparr>m_writer := m_writer other\<rparr>, other\<lparr>m_writer := None\<rparr>), ws')
   }"

definition ScopedElement_writeText :: "string \<Rightarrow> bool \<Rightarrow> ScopedElement \<Rightarrow> writers \<Rightarrow> writers option" where
  "ScopedElement_writeText txt indent e ws = do { p \<leftarrow> m_writer e; update_writer p (writeText txt indent) ws }"

definition ScopedElement_writeAttribute :: "string \<Rightarrow> string \<Rightarrow> ScopedElement \<Rightarrow> writers \<Rightarrow> writers option" where
  "ScopedElement_writeAttribute name attribute e ws = do {
     p \<leftarrow> m_writer e; update_writer p (writeAttribute name attribute) ws }"

definition scopedElement :: "string \<Rightarrow> nat \<Rightarrow> writers \<Rightarrow> (ScopedElement \<times> writers) option" where
  "scopedElement name p ws = do {
     ws' \<leftarrow> update_writer p (Some \<circ> startElement name) ws;
     Some (ScopedElement_new p, ws')
   }"

section \<open>A reader of documents\<close>

text \<open>
  The reference: an automaton over the characters of a document with the stack
  of the elements that are open.  It accepts tags with quoted attributes,
  empty-element tags, the four references of the encoder, comments and
  processing instructions, and requires every end tag to name the innermost
  open element.
\<close>

datatype reading =
    Content
  | Lt
  | StartName string
  | InTag string
  | AttrName string
  | AttrEq string
  | AttrValue string
  | Slash string
  | EndName string
  | Ref reading string
  | Instruction bool
  | Bang nat
  | Dashes nat
  | Malformed

definition name_char :: "char \<Rightarrow> bool" where
  "name_char c \<longleftrightarrow> c \<notin> {CHR '' '', CHR ''/'', CHR ''>'', CHR ''<'', CHR ''='', CHR ''&'', CHR 0x22, CHR 0x0A}"

fun xml_step :: "reading \<times> string list \<Rightarrow> char \<Rightarrow> reading \<times> string list" where
  "xml_step (Content, st) c =
     (if c = CHR ''<'' then (Lt, st) else if c = CHR ''&'' then (Ref Content [], st) else (Content, st))"
| "xml_step (Lt, st) c =
     (if c = CHR ''/'' then (EndName [], st) else if c = CHR ''?'' then (Instruction False, st)
      else if c = CHR ''!'' then (Bang 0, st) else if name_char c then (StartName [c], st) else (Malformed, st))"
| "xml_step (StartName n, st) c =
     (if c = CHR '' '' then (AttrName n, st) else if c = CHR ''>'' then (Content, n # st)
      else if c = CHR ''/'' then (Slash n, st) else if name_char c then (StartName (n @ [c]), st) else (Malformed, st))"
| "xml_step (InTag n, st) c =
     (if c = CHR '' '' then (AttrName n, st) else if c = CHR ''>'' then (Content, n # st)
      else if c = CHR ''/'' then (Slash n, st) else (Malformed, st))"
| "xml_step (AttrName n, st) c =
     (if c = CHR ''='' then (AttrEq n, st) else if name_char c then (AttrName n, st) else (Malformed, st))"
| "xml_step (AttrEq n, st) c = (if c = CHR 0x22 then (AttrValue n, st) else (Malformed, st))"
| "xml_step (AttrValue n, st) c =
     (if c = CHR 0x22 then (InTag n, st) else if c = CHR ''<'' then (Malformed, st)
      else if c = CHR ''&'' then (Ref (AttrValue n) [], st) else (AttrValue n, st))"
| "xml_step (Slash n, st) c = (if c = CHR ''>'' then (Content, st) else (Malformed, st))"
| "xml_step (EndName n, st) c =
     (if c = CHR ''>'' then (if st \<noteq> [] \<and> hd st = n then (Content, tl st) else (Malformed, st))
      else if name_char c then (EndName (n @ [c]), st) else (Malformed, st))"
| "xml_step (Ref r b, st) c =
     (if c = CHR '';'' then (if b \<in> {''lt'', ''amp'', ''gt'', ''quot''} then (r, st) else (Malformed, st))
      else (Ref r (b @ [c]), st))"
| "xml_step (Instruction q, st) c =
     (if q \<and> c = CHR ''>'' then (Content, st) else (Instruction (c = CHR ''?''), st))"
| "xml_step (Bang k, st) c =
     (if c = CHR ''-'' then (if k = 0 then (Bang 1, st) else (Dashes 0, st)) else (Malformed, st))"
| "xml_step (Dashes k, st) c =
     (if k = 2 then (if c = CHR ''>'' then (Content, st) else (Malformed, st))
      else if c = CHR ''-'' then (Dashes (Suc k), st) else (Dashes 0, st))"
| "xml_step (Malformed, st) c = (Malformed, st)"

definition xml_read :: "reading \<times> string list \<Rightarrow> string \<Rightarrow> reading \<times> string list" where
  "xml_read = foldl xml_step"

definition well_nested :: "string \<Rightarrow> bool" where
  "well_nested doc \<longleftrightarrow> xml_read (Content, []) doc = (Content, [])"

lemma xml_read_simps [simp]:
  "xml_read q [] = q" "xml_read q (c # cs) = xml_read (xml_step q c) cs"
  "xml_read q (xs @ ys) = xml_read (xml_read q xs) ys"
  by (simp_all add: xml_read_def)

definition valid_name :: "string \<Rightarrow> bool" where
  "valid_name n \<longleftrightarrow> n \<noteq> [] \<and> hd n \<noteq> CHR ''?'' \<and> hd n \<noteq> CHR ''!'' \<and> (\<forall>c \<in> set n. name_char c)"

definition comment_text :: "string \<Rightarrow> bool" where
  "comment_text t \<longleftrightarrow> \<not> sublist ''--'' t \<and> (t \<noteq> [] \<longrightarrow> last t \<noteq> CHR ''-'')"

lemma read_plain: "CHR ''<'' \<notin> set t \<Longrightarrow> CHR ''&'' \<notin> set t \<Longrightarrow> xml_read (Content, st) t = (Content, st)"
  by (induction t) auto

lemma read_spaces [simp]: "xml_read (Content, st) (replicate k (CHR '' '')) = (Content, st)"
  by (rule read_plain) (simp_all add: set_replicate_conv_if)

lemma read_StartName: "\<forall>c \<in> set t. name_char c \<Longrightarrow> xml_read (StartName n, st) t = (StartName (n @ t), st)"
  by (induction t arbitrary: n) (auto simp: name_char_def)

lemma read_AttrName: "\<forall>c \<in> set t. name_char c \<Longrightarrow> xml_read (AttrName n, st) t = (AttrName n, st)"
  by (induction t) (auto simp: name_char_def)

lemma read_EndName: "\<forall>c \<in> set t. name_char c \<Longrightarrow> xml_read (EndName n, st) t = (EndName (n @ t), st)"
  by (induction t arbitrary: n) (auto simp: name_char_def)

lemma read_start_tag: "valid_name n \<Longrightarrow> xml_read (Lt, st) n = (StartName n, st)"
  using read_StartName [of "tl n" "[hd n]" st]
  by (cases n) (auto simp: valid_name_def name_char_def)

lemma read_end_tag: "valid_name n \<Longrightarrow> xml_read (Content, n # st) (''</'' @ n @ ''>'') = (Content, st)"
  by (simp add: read_EndName valid_name_def)

lemma read_instruction: "CHR ''?'' \<notin> set t \<Longrightarrow> xml_read (Instruction False, st) t = (Instruction False, st)"
  by (induction t) auto

text \<open>
  Encoded text is read without leaving the content or the attribute value; the
  two differ in what a quotation mark does.
\<close>

lemma xml_unescape_cases:
  assumes "xml_unescape (c # cs) = Some x"
  obtains (ref) n r y where "c = CHR ''&''" "cs = n @ '';'' @ r" "n \<in> {''lt'', ''amp'', ''gt'', ''quot''}"
      "xml_unescape r = Some y"
    | (plain) y where "c \<noteq> CHR ''&''" "c \<noteq> CHR ''<''" "xml_unescape cs = Some y"
proof (cases "c = CHR ''&''")
  case False
  with assms plain show thesis by (auto split: if_splits)
next
  case True
  obtain n where n: "n \<in> {''lt'', ''amp'', ''gt'', ''quot''}" "prefix (n @ '';'') cs"
    "xml_unescape (drop (Suc (length n)) cs) \<noteq> None"
    using assms True that [of "''lt''"] that [of "''amp''"] that [of "''gt''"] that [of "''quot''"]
    by (auto simp: numeral_eq_Suc split: if_splits)
  then obtain r where r: "cs = n @ '';'' @ r" by (auto simp: prefix_def)
  with n(3) obtain y where "xml_unescape r = Some y" by auto
  with ref [OF True r n(1)] show thesis .
qed

lemma read_encoded:
  assumes "xml_unescape out = Some x" "q = Content \<or> (\<exists>n. q = AttrValue n \<and> CHR 0x22 \<notin> set out)"
  shows "xml_read (q, st) out = (q, st)"
  using assms
proof (induction "length out" arbitrary: out x rule: less_induct)
  case less
  show ?case
  proof (cases out)
    case (Cons c cs)
    with less.prems(1) have "xml_unescape (c # cs) = Some x" by simp
    then show ?thesis
    proof (cases rule: xml_unescape_cases)
      case (ref n r y)
      have q: "q = Content \<or> (\<exists>n. q = AttrValue n \<and> CHR 0x22 \<notin> set r)"
        using less.prems(2) by (auto simp: Cons ref)
      have "xml_read (q, st) r = (q, st)" by (rule less.hyps [OF _ ref(4) q]) (simp add: Cons ref)
      moreover have "xml_step (q, st) (CHR ''&'') = (Ref q [], st)" using less.prems(2) by auto
      moreover have "xml_read (Ref q [], st) (n @ '';'') = (q, st)" using ref(3) by auto
      ultimately show ?thesis by (simp add: Cons ref)
    next
      case (plain y)
      have q: "q = Content \<or> (\<exists>n. q = AttrValue n \<and> CHR 0x22 \<notin> set cs)"
        using less.prems(2) by (auto simp: Cons)
      have "xml_read (q, st) cs = (q, st)" by (rule less.hyps [OF _ plain(3) q]) (simp add: Cons)
      moreover have "xml_step (q, st) c = (q, st)" using less.prems(2) plain(1,2) Cons by auto
      ultimately show ?thesis by (simp add: Cons)
    qed
  qed simp
qed

lemma read_comment:
  assumes "comment_text t"
  shows "xml_read (Dashes 0, st) t = (Dashes 0, st)"
proof -
  have "xml_read (Dashes k, st) t = (Dashes 0, st)"
    if "\<not> sublist ''--'' (replicate k (CHR ''-'') @ t)" "t \<noteq> [] \<longrightarrow> last t \<noteq> CHR ''-''" "k \<le> 1" "t = [] \<longrightarrow> k = 0" for k
    using that
  proof (induction t arbitrary: k)
    case (Cons c t)
    show ?case
    proof (cases "c = CHR ''-''")
      case True
      with Cons.prems have "k = 0" by (cases k) auto
      with True Cons show ?thesis by (auto split: if_splits)
    next
      case False
      with Cons.prems have "\<not> sublist ''--'' t" "t \<noteq> [] \<longrightarrow> last t \<noteq> CHR ''-''" 
        by (cases "k = 0"; auto simp: sublist_Cons_right le_Suc_eq split: if_splits)+
      with False Cons.IH [of 0] Cons.prems(3) show ?thesis by auto
    qed
  qed simp
  from this [of 0] assms show ?thesis by (simp add: comment_text_def)
qed


section \<open>The writer keeps its document well nested\<close>

definition reading_of :: "XmlWriter \<Rightarrow> (reading \<times> string list) set" where
  "reading_of w =
     (if m_tagIsOpen w
      then {(StartName (last (m_tags w)), rev (butlast (m_tags w))), (InTag (last (m_tags w)), rev (butlast (m_tags w)))}
      else {(Content, rev (m_tags w))})"

definition writer_ok :: "XmlWriter \<Rightarrow> bool" where
  "writer_ok w \<longleftrightarrow> (\<forall>n \<in> set (m_tags w). valid_name n) \<and>
     m_indent w = replicate (2 * length (m_tags w)) (CHR '' '') \<and>
     (m_tagIsOpen w \<longrightarrow> \<not> m_needsNewline w \<and> m_tags w \<noteq> []) \<and>
     xml_read (Content, []) (m_os w) \<in> reading_of w"

lemma indent_more [simp]: "replicate k c @ [c, c] = c # c # replicate k c"
  by (simp flip: replicate_append_same)

lemma indent_less [simp]: "take k (c # c # replicate k c) = replicate k c"
  using take_replicate [of k "Suc (Suc k)" c] by simp

lemma XmlWriter_new_ok: "writer_ok (XmlWriter_new [])"
  by (simp add: writer_ok_def XmlWriter_new_def writeDeclaration_def put_os_def reading_of_def)

lemma rev_snoc: "xs \<noteq> [] \<Longrightarrow> last xs # rev (butlast xs) = rev xs"
  by (metis append_butlast_last_id rev_eq_Cons_iff rev_rev_ident)

lemma ensureTagClosed_ok:
  assumes "writer_ok w"
  shows "writer_ok (ensureTagClosed w)" "\<not> m_tagIsOpen (ensureTagClosed w)"
    "m_tags (ensureTagClosed w) = m_tags w" "m_indent (ensureTagClosed w) = m_indent w"
  using assms by (auto simp: ensureTagClosed_def writer_ok_def reading_of_def put_os_def rev_snoc)

lemma newlineIfNecessary_ok:
  assumes "writer_ok w"
  shows "writer_ok (newlineIfNecessary w)" "\<not> m_needsNewline (newlineIfNecessary w)"
    "m_tags (newlineIfNecessary w) = m_tags w" "m_tagIsOpen (newlineIfNecessary w) = m_tagIsOpen w"
    "m_indent (newlineIfNecessary w) = m_indent w"
  using assms by (auto simp: newlineIfNecessary_def writer_ok_def reading_of_def put_os_def)

lemma startElement_ok:
  assumes "writer_ok w" "valid_name n"
  shows "writer_ok (startElement n w)" "m_tagIsOpen (startElement n w)"
    "m_tags (startElement n w) = m_tags w @ [n]"
proof -
  let ?w = "newlineIfNecessary (ensureTagClosed w)"
  have ok: "writer_ok ?w" "\<not> m_tagIsOpen ?w" "\<not> m_needsNewline ?w" "m_tags ?w = m_tags w"
    using ensureTagClosed_ok [OF assms(1)] newlineIfNecessary_ok [of "ensureTagClosed w"] by auto
  then show "m_tags (startElement n w) = m_tags w @ [n]" by (simp add: startElement_def Let_def put_os_def)
  show "m_tagIsOpen (startElement n w)" by (simp add: startElement_def Let_def)
  show "writer_ok (startElement n w)"
    using ok assms(2)
    by (simp add: startElement_def Let_def put_os_def writer_ok_def reading_of_def read_start_tag)
qed

lemma endElement_ok:
  assumes "writer_ok w" "m_tags w \<noteq> []"
  shows "\<exists>w'. endElement w = Some w' \<and> writer_ok w' \<and> \<not> m_tagIsOpen w' \<and> m_tags w' = butlast (m_tags w)"
proof -
  obtain ts n where ts: "m_tags w = ts @ [n]" using assms(2) by (meson rev_exhaust)
  note ok = newlineIfNecessary_ok [OF assms(1)]
  show ?thesis
  proof (cases "m_tagIsOpen w")
    case True
    with ok ts show ?thesis
      by (auto simp: endElement_def Let_def put_os_def writer_ok_def reading_of_def)
  next
    case False
    with ok ts show ?thesis using read_end_tag [of n "rev ts"]
      by (auto simp: endElement_def Let_def put_os_def writer_ok_def reading_of_def)
  qed
qed


lemma writeAttribute_ok:
  assumes "writer_ok w" "m_tagIsOpen w" "valid_name n"
  shows "\<exists>w'. writeAttribute n a w = Some w' \<and> writer_ok w' \<and> m_tagIsOpen w' \<and> m_tags w' = m_tags w"
proof (cases "a = []")
  case False
  obtain enc x where enc: "XmlEncode a ForAttributes = Some enc" "xml_unescape enc = Some x" "CHR 0x22 \<notin> set enc"
    using encode_loop_unescape [of ForAttributes a 0] by (auto simp: XmlEncode_def readable_def)
  then have "xml_read (AttrValue t, st) enc = (AttrValue t, st)" for t st by (intro read_encoded) auto
  then show ?thesis using assms False enc
    by (auto simp: writeAttribute_def put_os_def writer_ok_def reading_of_def read_AttrName valid_name_def)
qed (use assms in \<open>auto simp: writeAttribute_def\<close>)

lemma writeAttribute_bool_ok:
  assumes "writer_ok w" "m_tagIsOpen w" "valid_name n"
  shows "writer_ok (writeAttribute_bool n b w)" "m_tagIsOpen (writeAttribute_bool n b w)"
    "m_tags (writeAttribute_bool n b w) = m_tags w"
  using assms by (auto simp: writeAttribute_bool_def put_os_def writer_ok_def reading_of_def read_AttrName valid_name_def)

lemma writeText_ok:
  assumes "writer_ok w"
  shows "\<exists>w'. writeText t i w = Some w' \<and> writer_ok w' \<and> m_tagIsOpen w' = (m_tagIsOpen w \<and> t = []) \<and> m_tags w' = m_tags w"
proof (cases "t = []")
  case False
  obtain enc x where enc: "XmlEncode t ForTextNodes = Some enc" "xml_unescape enc = Some x"
    using encode_loop_unescape [of ForTextNodes t 0] by (auto simp: XmlEncode_def)
  then have "xml_read (Content, st) enc = (Content, st)" for st by (intro read_encoded) auto
  then show ?thesis using ensureTagClosed_ok [OF assms] False enc
    by (auto simp: writeText_def Let_def put_os_def writer_ok_def reading_of_def)
qed (use assms in \<open>auto simp: writeText_def\<close>)

lemma writeComment_ok:
  assumes "writer_ok w" "comment_text t"
  shows "writer_ok (writeComment t w)" "\<not> m_tagIsOpen (writeComment t w)" "m_tags (writeComment t w) = m_tags w"
  using ensureTagClosed_ok [OF assms(1)] assms(2)
  by (auto simp: writeComment_def Let_def put_os_def writer_ok_def reading_of_def read_comment)

lemma writeStylesheetRef_ok:
  assumes "writer_ok w" "\<not> m_tagIsOpen w" "CHR ''?'' \<notin> set url"
  shows "writer_ok (writeStylesheetRef url w)" "\<not> m_tagIsOpen (writeStylesheetRef url w)"
    "m_tags (writeStylesheetRef url w) = m_tags w"
  using assms by (auto simp: writeStylesheetRef_def put_os_def writer_ok_def reading_of_def read_instruction)

lemma writeBlankLine_ok:
  assumes "writer_ok w"
  shows "writer_ok (writeBlankLine w)" "\<not> m_tagIsOpen (writeBlankLine w)" "m_tags (writeBlankLine w) = m_tags w"
  using ensureTagClosed_ok [OF assms]
  by (auto simp: writeBlankLine_def put_os_def writer_ok_def reading_of_def)

lemma XmlWriter_delete_ok:
  assumes "writer_ok w"
  shows "\<exists>w'. XmlWriter_delete w = Some w' \<and> writer_ok w' \<and> m_tags w' = []"
  using assms
proof (induction "length (m_tags w)" arbitrary: w)
  case 0
  then show ?case by (subst XmlWriter_delete.simps) simp
next
  case (Suc k)
  then have "m_tags w \<noteq> []" by auto
  then obtain w1 where w1: "endElement w = Some w1" "writer_ok w1" "\<not> m_tagIsOpen w1" "m_tags w1 = butlast (m_tags w)"
    using endElement_ok [OF Suc.prems] by blast
  then have "k = length (m_tags w1)" using Suc.hyps(2) by simp
  then obtain w' where "XmlWriter_delete w1 = Some w'" "writer_ok w'" "m_tags w' = []"
    using Suc.hyps(1) [of w1] w1(2) by blast
  then show ?case using w1 \<open>m_tags w \<noteq> []\<close> by (subst XmlWriter_delete.simps) auto
qed


section \<open>Documents\<close>

text \<open>A sequence of calls on a writer, as a reporter makes them.\<close>

datatype xml_call =
    CallStart string
  | CallEnd
  | CallAttribute string string
  | CallFlag string bool
  | CallText string bool
  | CallComment string
  | CallStylesheet string
  | CallBlankLine
  | CallEnsureTagClosed

fun run_call :: "xml_call \<Rightarrow> XmlWriter \<Rightarrow> XmlWriter option" where
  "run_call (CallStart n) w = Some (startElement n w)"
| "run_call CallEnd w = endElement w"
| "run_call (CallAttribute n a) w = writeAttribute n a w"
| "run_call (CallFlag n b) w = Some (writeAttribute_bool n b w)"
| "run_call (CallText t i) w = writeText t i w"
| "run_call (CallComment t) w = Some (writeComment t w)"
| "run_call (CallStylesheet url) w = Some (writeStylesheetRef url w)"
| "run_call CallBlankLine w = Some (writeBlankLine w)"
| "run_call CallEnsureTagClosed w = Some (ensureTagClosed w)"

fun run_calls :: "xml_call list \<Rightarrow> XmlWriter \<Rightarrow> XmlWriter option" where
  "run_calls [] w = Some w"
| "run_calls (c # cs) w = Option.bind (run_call c w) (run_calls cs)"

text \<open>
  Calls in order: valid names, attributes only while the start tag is open, an
  end only when an element is open, and nothing in the unescaped parts that
  would end them.
\<close>

fun in_order :: "nat \<Rightarrow> bool \<Rightarrow> xml_call list \<Rightarrow> bool" where
  "in_order d opened [] \<longleftrightarrow> True"
| "in_order d opened (CallStart n # cs) \<longleftrightarrow> valid_name n \<and> in_order (Suc d) True cs"
| "in_order d opened (CallEnd # cs) \<longleftrightarrow> 0 < d \<and> in_order (d - 1) False cs"
| "in_order d opened (CallAttribute n a # cs) \<longleftrightarrow> valid_name n \<and> opened \<and> in_order d opened cs"
| "in_order d opened (CallFlag n b # cs) \<longleftrightarrow> valid_name n \<and> opened \<and> in_order d opened cs"
| "in_order d opened (CallText t i # cs) \<longleftrightarrow> in_order d (opened \<and> t = []) cs"
| "in_order d opened (CallComment t # cs) \<longleftrightarrow> comment_text t \<and> in_order d False cs"
| "in_order d opened (CallStylesheet url # cs) \<longleftrightarrow> \<not> opened \<and> CHR ''?'' \<notin> set url \<and> in_order d opened cs"
| "in_order d opened (CallBlankLine # cs) \<longleftrightarrow> in_order d False cs"
| "in_order d opened (CallEnsureTagClosed # cs) \<longleftrightarrow> in_order d False cs"

lemma run_call_ok:
  assumes "writer_ok w" "in_order (length (m_tags w)) (m_tagIsOpen w) (c # cs)"
  shows "\<exists>w'. run_call c w = Some w' \<and> writer_ok w' \<and> in_order (length (m_tags w')) (m_tagIsOpen w') cs"
proof (cases c)
  case (CallStart n)
  then show ?thesis using startElement_ok [OF assms(1)] assms(2) by auto
next
  case CallEnd
  then show ?thesis using endElement_ok [OF assms(1)] assms(2) by fastforce
next
  case (CallAttribute n a)
  then show ?thesis using writeAttribute_ok [OF assms(1), of n a] assms(2) by fastforce
next
  case (CallFlag n b)
  then show ?thesis using writeAttribute_bool_ok [OF assms(1)] assms(2) by auto
next
  case (CallText t i)
  then show ?thesis using writeText_ok [OF assms(1), of t i] assms(2) by fastforce
next
  case (CallComment t)
  then show ?thesis using writeComment_ok [OF assms(1)] assms(2) by auto
next
  case (CallStylesheet url)
  then show ?thesis using writeStylesheetRef_ok [OF assms(1)] assms(2) by auto
next
  case CallBlankLine
  then show ?thesis using writeBlankLine_ok [OF assms(1)] assms(2) by auto
next
  case CallEnsureTagClosed
  then show ?thesis using ensureTagClosed_ok [OF assms(1)] assms(2) by auto
qed

lemma run_calls_ok:
  "writer_ok w \<Longrightarrow> in_order (length (m_tags w)) (m_tagIsOpen w) cs \<Longrightarrow>
   \<exists>w'. run_calls cs w = Some w' \<and> writer_ok w'"
proof (induction cs arbitrary: w)
  case (Cons c cs)
  from run_call_ok [OF Cons.prems] Cons.IH show ?case by fastforce
qed simp

text \<open>The elements that a sequence of calls leaves open.\<close>

fun tags_after :: "xml_call list \<Rightarrow> string list \<Rightarrow> string list" where
  "tags_after [] ts = ts"
| "tags_after (CallStart n # cs) ts = tags_after cs (ts @ [n])"
| "tags_after (CallEnd # cs) ts = tags_after cs (butlast ts)"
| "tags_after (_ # cs) ts = tags_after cs ts"

lemma tags_after_append [simp]: "tags_after (cs @ ds) ts = tags_after ds (tags_after cs ts)"
  by (induction cs ts rule: tags_after.induct) auto

lemma run_calls_tags: "run_calls cs w = Some w' \<Longrightarrow> m_tags w' = tags_after cs (m_tags w)"
proof (induction cs arbitrary: w)
  case (Cons c cs)
  then obtain w1 where w1: "run_call c w = Some w1" "m_tags w' = tags_after cs (m_tags w1)"
    by (auto simp: bind_eq_Some_conv)
  show ?case
    using w1 by (cases c) (auto simp: startElement_def writeAttribute_def writeAttribute_bool_def writeText_def writeComment_def
      writeStylesheetRef_def writeBlankLine_def newlineIfNecessary_def ensureTagClosed_def put_os_def Let_def bind_eq_Some_conv
      dest: endElement_tags split: if_splits)
qed simp

text \<open>
  C38: for every sequence of calls in order on a new writer, followed by its
  destructor, the calls succeed and the document written is well nested: every
  element is closed by a tag of its own name or is empty, attribute values are
  quoted, and text and attribute values contain only known references.\<close>

theorem document_well_nested:
  assumes "in_order 0 False cs"
  shows "\<exists>w w'. run_calls cs (XmlWriter_new []) = Some w \<and> XmlWriter_delete w = Some w' \<and> well_nested (m_os w')"
proof -
  have "in_order (length (m_tags (XmlWriter_new []))) (m_tagIsOpen (XmlWriter_new [])) cs"
    using assms by (simp add: XmlWriter_new_def writeDeclaration_def put_os_def)
  then obtain w where w: "run_calls cs (XmlWriter_new []) = Some w" "writer_ok w"
    using run_calls_ok [OF XmlWriter_new_ok] by blast
  obtain w' where w': "XmlWriter_delete w = Some w'" "writer_ok w'" "m_tags w' = []"
    using XmlWriter_delete_ok [OF w(2)] by blast
  from w'(2,3) have "well_nested (m_os w')" by (auto simp: writer_ok_def reading_of_def well_nested_def split: if_splits)
  with w w' show ?thesis by blast
qed

theorem document_well_nested_witness:
  "let cs = [CallStart ''Catch'', CallAttribute ''name'' ''a<b'', CallStart ''TestCase'', CallText ''x]]>'' True,
        CallEnd, CallComment ''done'', CallStart ''Result'', CallFlag ''success'' True]
   in in_order 0 False cs \<and>
     (\<exists>w w'. run_calls cs (XmlWriter_new []) = Some w \<and> XmlWriter_delete w = Some w' \<and> well_nested (m_os w'))"
proof -
  have "in_order 0 False [CallStart ''Catch'', CallAttribute ''name'' ''a<b'', CallStart ''TestCase'',
      CallText ''x]]>'' True, CallEnd, CallComment ''done'', CallStart ''Result'', CallFlag ''success'' True]"
    by (simp add: valid_name_def name_char_def comment_text_def sublist_Cons_right)
  from this document_well_nested [OF this] show ?thesis unfolding Let_def by blast
qed

end
