(* ===== verification/CatchXmlReporter.thy ===== *)
theory CatchXmlReporter
  imports CatchProtocol CatchXmlWriter
begin

text \<open>
  The XML reporter of the unit test framework (\<open>native/src/catch.hpp\<close>) with
  the base class of the reporters that print as they go, and the timer.  A
  handler makes a list of calls on the XML writer; a scoped element that goes
  out of scope is a final \<open>CallEnd\<close>.  What the framework passes to a reporter
  besides the event (redirected output, the clock, the two ways in which a number
  of microseconds is printed as seconds) is the argument \<open>event_context\<close>.
\<close>

section \<open>The base class\<close>

record Timer =
  m_nanoseconds :: u64

definition Timer_start :: "u64 \<Rightarrow> Timer \<Rightarrow> Timer" where
  "Timer_start now t = t\<lparr>m_nanoseconds := now\<rparr>"

definition getElapsedNanoseconds :: "u64 \<Rightarrow> Timer \<Rightarrow> u64" where
  "getElapsedNanoseconds now t = now - m_nanoseconds t"

definition getElapsedMicroseconds :: "u64 \<Rightarrow> Timer \<Rightarrow> u64" where
  "getElapsedMicroseconds now t = getElapsedNanoseconds now t div 1000"

record event_context =
  clock :: u64
  sectionMicroseconds :: u64
  stdOut :: string
  stdErr :: string
  print_seconds :: "u64 \<Rightarrow> string"
  stringify_seconds :: "u64 \<Rightarrow> string"
  timestamp :: string

definition getElapsedSeconds :: "event_context \<Rightarrow> Timer \<Rightarrow> string" where
  "getElapsedSeconds x t = print_seconds x (getElapsedMicroseconds (clock x) t)"

record ReporterPreferences =
  shouldRedirectStdOut :: bool
  shouldReportAllAssertions :: bool

record 'a LazyStat =
  stat_value :: "'a option"
  used :: bool

definition LazyStat_new :: "'a LazyStat" where
  "LazyStat_new = \<lparr>stat_value = None, used = False\<rparr>"

definition LazyStat_set :: "'a \<Rightarrow> 'a LazyStat \<Rightarrow> 'a LazyStat" where
  "LazyStat_set v s = s\<lparr>stat_value := Some v, used := False\<rparr>"

definition LazyStat_reset :: "'a LazyStat \<Rightarrow> 'a LazyStat" where
  "LazyStat_reset s = s\<lparr>stat_value := None, used := False\<rparr>"

record StreamingReporterBase =
  sr_config :: Config
  currentTestRunInfo :: "string LazyStat"
  currentGroupInfo :: "GroupInfo LazyStat"
  currentTestCaseInfo :: "TestCase LazyStat"
  m_sectionStack :: "SectionInfo list"
  m_reporterPrefs :: ReporterPreferences

definition StreamingReporterBase_new :: "Verbosity set \<Rightarrow> Config \<Rightarrow> string + StreamingReporterBase" where
  "StreamingReporterBase_new supported cfg =
     (if cd_verbosity (cfg_data cfg) \<notin> supported then Inl ''Verbosity level not supported by this reporter''
      else Inr \<lparr>sr_config = cfg, currentTestRunInfo = LazyStat_new, currentGroupInfo = LazyStat_new,
        currentTestCaseInfo = LazyStat_new, m_sectionStack = [],
        m_reporterPrefs = \<lparr>shouldRedirectStdOut = False, shouldReportAllAssertions = False\<rparr>\<rparr>)"

definition Streaming_testRunStarting :: "string \<Rightarrow> 'a StreamingReporterBase_scheme \<Rightarrow> 'a StreamingReporterBase_scheme" where
  "Streaming_testRunStarting info r = r\<lparr>currentTestRunInfo := LazyStat_set info (currentTestRunInfo r)\<rparr>"

definition Streaming_testGroupStarting :: "GroupInfo \<Rightarrow> 'a StreamingReporterBase_scheme \<Rightarrow> 'a StreamingReporterBase_scheme" where
  "Streaming_testGroupStarting info r = r\<lparr>currentGroupInfo := LazyStat_set info (currentGroupInfo r)\<rparr>"

definition Streaming_testCaseStarting :: "TestCase \<Rightarrow> 'a StreamingReporterBase_scheme \<Rightarrow> 'a StreamingReporterBase_scheme" where
  "Streaming_testCaseStarting info r = r\<lparr>currentTestCaseInfo := LazyStat_set info (currentTestCaseInfo r)\<rparr>"

definition Streaming_sectionStarting :: "SectionInfo \<Rightarrow> 'a StreamingReporterBase_scheme \<Rightarrow> 'a StreamingReporterBase_scheme" where
  "Streaming_sectionStarting info r = r\<lparr>m_sectionStack := m_sectionStack r @ [info]\<rparr>"

definition Streaming_sectionEnded :: "'a StreamingReporterBase_scheme \<Rightarrow> 'a StreamingReporterBase_scheme option" where
  "Streaming_sectionEnded r =
     (if m_sectionStack r = [] then None else Some (r\<lparr>m_sectionStack := butlast (m_sectionStack r)\<rparr>))"

definition Streaming_testCaseEnded :: "'a StreamingReporterBase_scheme \<Rightarrow> 'a StreamingReporterBase_scheme" where
  "Streaming_testCaseEnded r = r\<lparr>currentTestCaseInfo := LazyStat_reset (currentTestCaseInfo r)\<rparr>"

definition Streaming_testGroupEnded :: "'a StreamingReporterBase_scheme \<Rightarrow> 'a StreamingReporterBase_scheme" where
  "Streaming_testGroupEnded r = r\<lparr>currentGroupInfo := LazyStat_reset (currentGroupInfo r)\<rparr>"

definition Streaming_testRunEnded :: "'a StreamingReporterBase_scheme \<Rightarrow> 'a StreamingReporterBase_scheme" where
  "Streaming_testRunEnded r =
     r\<lparr>currentTestCaseInfo := LazyStat_reset (currentTestCaseInfo r),
       currentGroupInfo := LazyStat_reset (currentGroupInfo r),
       currentTestRunInfo := LazyStat_reset (currentTestRunInfo r)\<rparr>"

text \<open>\<open>serializeFilters\<close>: the filters with a space between them.\<close>

fun serializeFilters_loop :: "bool \<Rightarrow> string list \<Rightarrow> string \<Rightarrow> string" where
  "serializeFilters_loop first [] oss = oss"
| "serializeFilters_loop first (f # fs) oss =
     serializeFilters_loop False fs ((if \<not> first then oss @ '' '' else oss) @ f)"

definition serializeFilters :: "string list \<Rightarrow> string" where
  "serializeFilters container = serializeFilters_loop True container []"

section \<open>The XML reporter\<close>

record XmlReporter = StreamingReporterBase +
  m_testCaseTimer :: Timer
  m_xml :: XmlWriter
  m_sectionDepth :: int

definition XmlReporter_new :: "string \<Rightarrow> Config \<Rightarrow> string + XmlReporter" where
  "XmlReporter_new os cfg =
     (case StreamingReporterBase_new {Normal} cfg of Inl e \<Rightarrow> Inl e
      | Inr b \<Rightarrow> Inr (StreamingReporterBase.extend
           (b\<lparr>m_reporterPrefs := \<lparr>shouldRedirectStdOut = True, shouldReportAllAssertions = True\<rparr>\<rparr>)
           (XmlReporter.fields \<lparr>m_nanoseconds = 0\<rparr> (XmlWriter_new os) 0)))"

definition getStylesheetRef :: string where
  "getStylesheetRef = []"

definition on_xml :: "xml_call list \<Rightarrow> XmlReporter \<Rightarrow> XmlReporter option" where
  "on_xml cs r = map_option (\<lambda>w. r\<lparr>m_xml := w\<rparr>) (run_calls cs (m_xml r))"

definition writeSourceInfo :: "SourceLineInfo \<Rightarrow> xml_call list" where
  "writeSourceInfo i = [CallAttribute ''filename'' (sl_file i), CallAttribute ''line'' (show_nat (sl_line i))]"

abbreviation attribute_u64 :: "string \<Rightarrow> u64 \<Rightarrow> xml_call" where
  "attribute_u64 n k \<equiv> CallAttribute n (show_nat (unat k))"

definition XmlReporter_testRunStarting :: "string \<Rightarrow> XmlReporter \<Rightarrow> XmlReporter option" where
  "XmlReporter_testRunStarting info r =
     (let r = Streaming_testRunStarting info r; cfg = sr_config r
      in on_xml
        ((if getStylesheetRef \<noteq> [] then [CallStylesheet getStylesheetRef] else []) @
         [CallStart ''Catch''] @
         (if Config_name cfg \<noteq> [] then [CallAttribute ''name'' (Config_name cfg)] else []) @
         (if hasFilters (cfg_testSpec cfg)
          then [CallAttribute ''filters'' (serializeFilters (testsOrTags (cfg_data cfg)))] else []) @
         (if rngSeed (cfg_data cfg) \<noteq> 0
          then [CallStart ''Randomness'', CallAttribute ''seed'' (show_nat (unat (rngSeed (cfg_data cfg)))), CallEnd]
          else [])) r)"

definition XmlReporter_testGroupStarting :: "GroupInfo \<Rightarrow> XmlReporter \<Rightarrow> XmlReporter option" where
  "XmlReporter_testGroupStarting info r =
     on_xml [CallStart ''Group'', CallAttribute ''name'' (gi_name info)] (Streaming_testGroupStarting info r)"

definition XmlReporter_testCaseStarting :: "event_context \<Rightarrow> TestCase \<Rightarrow> XmlReporter \<Rightarrow> XmlReporter option" where
  "XmlReporter_testCaseStarting x info r = do {
     let r = Streaming_testCaseStarting info r;
     trimmed \<leftarrow> trim (name info);
     r \<leftarrow> on_xml ([CallStart ''TestCase'', CallAttribute ''name'' trimmed,
          CallAttribute ''description'' (description info), CallAttribute ''tags'' (tagsAsString info)] @
          writeSourceInfo (lineInfo info)) r;
     let r = (if showDurations (cfg_data (sr_config r)) = DurationsAlways
              then r\<lparr>m_testCaseTimer := Timer_start (clock x) (m_testCaseTimer r)\<rparr> else r);
     on_xml [CallEnsureTagClosed] r }"

definition XmlReporter_sectionStarting :: "SectionInfo \<Rightarrow> XmlReporter \<Rightarrow> XmlReporter option" where
  "XmlReporter_sectionStarting info r = do {
     let r = Streaming_sectionStarting info r;
     let depth = m_sectionDepth r;
     let r = r\<lparr>m_sectionDepth := wrap32 (depth + 1)\<rparr>;
     if depth > 0
     then do {
       trimmed \<leftarrow> trim (si_name info);
       on_xml ([CallStart ''Section'', CallAttribute ''name'' trimmed] @ writeSourceInfo (si_lineInfo info) @
         [CallEnsureTagClosed]) r }
     else Some r }"

text \<open>The parts of \<open>assertionEnded\<close>: the messages, the expression, and what depends on the result type.\<close>

fun message_calls :: "bool \<Rightarrow> MessageInfo list \<Rightarrow> xml_call list" where
  "message_calls includeResults [] = []"
| "message_calls includeResults (msg # msgs) =
     (if mi_type msg = ResultInfo \<and> includeResults then [CallStart ''Info'', CallText (message msg) True, CallEnd]
      else if mi_type msg = ResultWarning then [CallStart ''Warning'', CallText (message msg) True, CallEnd]
      else []) @ message_calls includeResults msgs"

definition expression_calls :: "AssertionResult \<Rightarrow> xml_call list" where
  "expression_calls result =
     [CallStart ''Expression'', CallFlag ''success'' (AssertionResult_succeeded result),
      CallAttribute ''type'' (macroName (ar_info result))] @ writeSourceInfo (ai_lineInfo (ar_info result)) @
     [CallStart ''Original'', CallText (getExpression result) True, CallEnd,
      CallStart ''Expanded'', CallText (getExpandedExpression result) True, CallEnd]"

definition located_text :: "string \<Rightarrow> AssertionResult \<Rightarrow> xml_call list" where
  "located_text element result =
     [CallStart element] @ writeSourceInfo (ai_lineInfo (ar_info result)) @
     [CallText (rd_message (m_resultData result)) True, CallEnd]"

definition result_calls :: "AssertionResult \<Rightarrow> xml_call list" where
  "result_calls result = (case getResultType result of
     ThrewException \<Rightarrow> located_text ''Exception'' result
   | FatalErrorCondition \<Rightarrow> located_text ''FatalErrorCondition'' result
   | ResultInfo \<Rightarrow> [CallStart ''Info'', CallText (rd_message (m_resultData result)) True, CallEnd]
   | ResultWarning \<Rightarrow> []
   | ExplicitFailure \<Rightarrow> located_text ''Failure'' result
   | _ \<Rightarrow> [])"

definition XmlReporter_assertionEnded :: "AssertionStats \<Rightarrow> XmlReporter \<Rightarrow> (bool \<times> XmlReporter) option" where
  "XmlReporter_assertionEnded stats r = do {
     let result = as_result stats;
     let includeResults = (showSuccessfulTests (cfg_data (sr_config r)) \<or> \<not> AssertionResult_isOk result);
     r \<leftarrow> (if includeResults \<or> getResultType result = ResultWarning
          then on_xml (message_calls includeResults (infoMessages stats)) r else Some r);
     if \<not> includeResults \<and> getResultType result \<noteq> ResultWarning then Some (True, r)
     else do {
       r \<leftarrow> (if hasExpression result then on_xml (expression_calls result) r else Some r);
       r \<leftarrow> on_xml (result_calls result) r;
       r \<leftarrow> (if hasExpression result then on_xml [CallEnd] r else Some r);
       Some (True, r) } }"

definition count_calls :: "Counts \<Rightarrow> xml_call list" where
  "count_calls k = [CallStart ''OverallResults'', attribute_u64 ''successes'' (passed k), attribute_u64 ''failures'' (failed k),
     attribute_u64 ''expectedFailures'' (failedButOk k)]"

definition XmlReporter_sectionEnded :: "event_context \<Rightarrow> SectionStats \<Rightarrow> XmlReporter \<Rightarrow> XmlReporter option" where
  "XmlReporter_sectionEnded x stats r = do {
     r \<leftarrow> Streaming_sectionEnded r;
     let r = r\<lparr>m_sectionDepth := wrap32 (m_sectionDepth r - 1)\<rparr>;
     if m_sectionDepth r > 0
     then on_xml (count_calls (ss_assertions stats) @
       (if showDurations (cfg_data (sr_config r)) = DurationsAlways
        then [CallAttribute ''durationInSeconds'' (print_seconds x (sectionMicroseconds x))] else []) @
       [CallEnd, CallEnd]) r
     else Some r }"

definition XmlReporter_testCaseEnded :: "event_context \<Rightarrow> Totals \<Rightarrow> XmlReporter \<Rightarrow> XmlReporter option" where
  "XmlReporter_testCaseEnded x totals r = do {
     let r = Streaming_testCaseEnded r;
     out \<leftarrow> trim (stdOut x);
     err \<leftarrow> trim (stdErr x);
     on_xml ([CallStart ''OverallResult'', CallFlag ''success'' (allOk (assertions totals))] @
       (if showDurations (cfg_data (sr_config r)) = DurationsAlways
        then [CallAttribute ''durationInSeconds'' (getElapsedSeconds x (m_testCaseTimer r))] else []) @
       (if stdOut x \<noteq> [] then [CallStart ''StdOut'', CallText out False, CallEnd] else []) @
       (if stdErr x \<noteq> [] then [CallStart ''StdErr'', CallText err False, CallEnd] else []) @
       [CallEnd, CallEnd]) r }"

definition XmlReporter_testGroupEnded :: "Totals \<Rightarrow> XmlReporter \<Rightarrow> XmlReporter option" where
  "XmlReporter_testGroupEnded totals r =
     on_xml (count_calls (assertions totals) @ [CallEnd, CallEnd]) (Streaming_testGroupEnded r)"

definition XmlReporter_testRunEnded :: "Totals \<Rightarrow> XmlReporter \<Rightarrow> XmlReporter option" where
  "XmlReporter_testRunEnded totals r =
     on_xml (count_calls (assertions totals) @ [CallEnd, CallEnd]) (Streaming_testRunEnded r)"

text \<open>The dispatch to the handlers; those that are not listed do nothing.\<close>

definition XmlReporter_handle :: "event_context \<Rightarrow> event \<Rightarrow> XmlReporter \<Rightarrow> XmlReporter option" where
  "XmlReporter_handle x e r = (case e of
     TestRunStarting n \<Rightarrow> XmlReporter_testRunStarting n r
   | TestGroupStarting g \<Rightarrow> XmlReporter_testGroupStarting g r
   | TestCaseStarting tc \<Rightarrow> XmlReporter_testCaseStarting x tc r
   | SectionStarting s \<Rightarrow> XmlReporter_sectionStarting s r
   | AssertionStarting i \<Rightarrow> Some r
   | AssertionEnded s \<Rightarrow> map_option snd (XmlReporter_assertionEnded s r)
   | SectionEnded s \<Rightarrow> XmlReporter_sectionEnded x s r
   | TestCaseEnded tc t a \<Rightarrow> XmlReporter_testCaseEnded x t r
   | TestGroupEnded g t a \<Rightarrow> XmlReporter_testGroupEnded t r
   | TestRunEnded n t a \<Rightarrow> XmlReporter_testRunEnded t r
   | FatalErrorEncountered n \<Rightarrow> Some r
   | SkipTest tc \<Rightarrow> Some r
   | NoMatchingTestCases s \<Rightarrow> Some r)"

section \<open>Blocks of calls\<close>

text \<open>
  Calls that leave open what was open, wherever they are made; attributes; and
  the two halves of an element.
\<close>

definition settled :: "nat \<Rightarrow> xml_call list \<Rightarrow> bool" where
  "settled d cs \<longleftrightarrow> (\<forall>opened. in_order d opened cs)"

definition block :: "xml_call list \<Rightarrow> bool" where
  "block cs \<longleftrightarrow> (\<forall>d rest. settled d rest \<longrightarrow> settled d (cs @ rest)) \<and> (\<forall>ts. tags_after cs ts = ts)"

fun attribute_call :: "xml_call \<Rightarrow> bool" where
  "attribute_call (CallAttribute n a) = valid_name n"
| "attribute_call (CallFlag n b) = valid_name n"
| "attribute_call _ = False"

lemma settled_Nil [simp]: "settled d []"
  by (simp add: settled_def)

lemma block_Nil [simp]: "block []"
  by (simp add: block_def)

lemma block_append: "block cs \<Longrightarrow> block ds \<Longrightarrow> block (cs @ ds)"
  by (simp add: block_def)

lemma block_text [simp]: "block [CallText t i]"
  by (simp add: block_def settled_def)

lemma block_closed [simp]: "block [CallEnsureTagClosed]"
  by (simp add: block_def settled_def)

lemma attribute_calls:
  "\<forall>c \<in> set as. attribute_call c \<Longrightarrow> settled d rest \<Longrightarrow> in_order d True (as @ rest)"
  "\<forall>c \<in> set as. attribute_call c \<Longrightarrow> tags_after as ts = ts"
proof (induction as)
  case (Cons a as)
  {
    case 1
    then show ?case using Cons.IH by (cases a) auto
  next
    case 2
    then show ?case using Cons.IH by (cases a) auto
  }
qed (simp_all add: settled_def)

lemma opening_calls:
  assumes "valid_name n" "\<forall>c \<in> set as. attribute_call c" "block cs" "settled (Suc d) rest"
  shows "in_order d opened (CallStart n # as @ cs @ rest)" "tags_after (CallStart n # as @ cs) ts = ts @ [n]"
  using assms attribute_calls [OF assms(2)] by (auto simp: block_def)

lemma closing_calls:
  assumes "block cs" "0 < d" "settled (d - 1) rest"
  shows "settled d (cs @ CallEnd # rest)" "tags_after (cs @ [CallEnd]) ts = butlast ts"
  using assms by (auto simp: block_def settled_def)

lemma element_block:
  assumes "valid_name n" "\<forall>c \<in> set as. attribute_call c" "block cs"
  shows "block (CallStart n # as @ cs @ [CallEnd])"
proof -
  have "settled (Suc d) (CallEnd # rest)" if "settled d rest" for d rest
    using closing_calls(1) [of "[]" "Suc d" rest] that by simp
  from opening_calls(1) [OF assms this] have "settled d ((CallStart n # as @ cs @ [CallEnd]) @ rest)" if "settled d rest" for d rest
    using that unfolding settled_def by simp
  moreover have "tags_after (CallStart n # as @ cs @ [CallEnd]) ts = ts" for ts
    using opening_calls(2) [OF assms settled_Nil, of ts] by simp
  ultimately show ?thesis unfolding block_def by blast
qed

lemma run_block:
  assumes "writer_ok w" "block cs"
  shows "\<exists>w'. run_calls cs w = Some w' \<and> writer_ok w' \<and> m_tags w' = m_tags w"
proof -
  have "in_order (length (m_tags w)) (m_tagIsOpen w) cs"
    using assms(2) settled_Nil [of "length (m_tags w)"] unfolding block_def settled_def by (metis append_Nil2)
  from run_calls_ok [OF assms(1) this] run_calls_tags show ?thesis using assms(2) unfolding block_def by metis
qed

lemma run_opening:
  assumes "writer_ok w" "valid_name n" "\<forall>c \<in> set as. attribute_call c" "block cs"
  shows "\<exists>w'. run_calls (CallStart n # as @ cs) w = Some w' \<and> writer_ok w' \<and> m_tags w' = m_tags w @ [n]"
proof -
  have "in_order (length (m_tags w)) (m_tagIsOpen w) (CallStart n # as @ cs)"
    using opening_calls(1) [OF assms(2-4) settled_Nil] by simp
  from run_calls_ok [OF assms(1) this] run_calls_tags opening_calls(2) [OF assms(2-4) settled_Nil] show ?thesis by metis
qed

lemma run_closing:
  assumes "writer_ok w" "block cs" "m_tags w = ts @ [n]"
  shows "\<exists>w'. run_calls (cs @ [CallEnd]) w = Some w' \<and> writer_ok w' \<and> m_tags w' = ts"
proof -
  have "in_order (length (m_tags w)) (m_tagIsOpen w) (cs @ [CallEnd])"
    using closing_calls(1) [OF assms(2) _ settled_Nil, of "length (m_tags w)"] assms(3) by (simp add: settled_def)
  from run_calls_ok [OF assms(1) this] run_calls_tags closing_calls(2) [OF assms(2) _ settled_Nil, of 1] assms(3)
  show ?thesis by (metis butlast_snoc zero_less_one)
qed

lemmas xml_names = valid_name_def name_char_def

lemma source_attributes [simp]: "c \<in> set (writeSourceInfo i) \<Longrightarrow> attribute_call c"
  by (auto simp: writeSourceInfo_def xml_names)

lemma text_element: "valid_name n \<Longrightarrow> block [CallStart n, CallText t i, CallEnd]"
  using element_block [of n "[]" "[CallText t i]"] by simp

lemma message_block: "block (message_calls b msgs)"
proof -
  have "valid_name ''Info''" "valid_name ''Warning''" by (simp_all add: xml_names)
  then have "block [CallStart ''Info'', CallText t True, CallEnd]" "block [CallStart ''Warning'', CallText t True, CallEnd]" for t
    by (simp_all add: text_element)
  then show ?thesis by (induction b msgs rule: message_calls.induct) 
    (simp_all only: message_calls.simps block_Nil block_append simp_thms split: if_split)
qed

lemma located_text_block: "valid_name n \<Longrightarrow> block (located_text n result)"
  using element_block [of n "writeSourceInfo (ai_lineInfo (ar_info result))" "[CallText (rd_message (m_resultData result)) True]"]
  by (simp add: located_text_def)

lemma result_block: "block (result_calls result)"
  by (auto simp: result_calls_def xml_names split: ResultWas.splits intro!: located_text_block text_element)

lemma count_block:
  assumes "\<forall>c \<in> set as. attribute_call c" 
  shows "block (count_calls k @ as @ [CallEnd])"
  using element_block [of "''OverallResults''" "tl (count_calls k) @ as" "[]"] assms
  by (auto simp: count_calls_def xml_names)

section \<open>The report mirrors the events\<close>

lemma follows_depth: "follows es p = Some p' \<Longrightarrow> depth_of p' \<le> depth_of p + length es"
proof (induction es arbitrary: p)
  case (Cons e es)
  then obtain q where "advance p e = Some q" "depth_of p' \<le> depth_of q + length es" by (auto simp: bind_eq_Some_conv)
  with depth_advance [of p e q] show ?case by simp
qed simp

text \<open>The elements that are open at each place of a report.\<close>

fun path_of :: "place \<Rightarrow> string list" where
  "path_of Outside = []"
| "path_of InRun = [''Catch'']"
| "path_of InGroup = [''Catch'', ''Group'']"
| "path_of CaseStarted = [''Catch'', ''Group'', ''TestCase'']"
| "path_of (InCase n) = [''Catch'', ''Group'', ''TestCase''] @ replicate (n - 1) ''Section''"

definition xml_ready :: "place \<Rightarrow> XmlReporter \<Rightarrow> bool" where
  "xml_ready p r \<longleftrightarrow> writer_ok (m_xml r) \<and> m_tags (m_xml r) = path_of p \<and>
     m_sectionDepth r = int (depth_of p) \<and> length (m_sectionStack r) = depth_of p"

lemma on_xml_block: "writer_ok (m_xml r) \<Longrightarrow> block cs \<Longrightarrow>
   \<exists>w'. on_xml cs r = Some (r\<lparr>m_xml := w'\<rparr>) \<and> writer_ok w' \<and> m_tags w' = m_tags (m_xml r)"
  using run_block [of "m_xml r" cs] by (auto simp: on_xml_def)

lemma on_xml_opening: "writer_ok (m_xml r) \<Longrightarrow> valid_name n \<Longrightarrow> \<forall>c \<in> set as. attribute_call c \<Longrightarrow> block cs \<Longrightarrow>
   \<exists>w'. on_xml (CallStart n # as @ cs) r = Some (r\<lparr>m_xml := w'\<rparr>) \<and> writer_ok w' \<and> m_tags w' = m_tags (m_xml r) @ [n]"
  using run_opening [of "m_xml r" n as cs] by (auto simp: on_xml_def)

lemma on_xml_closing: "writer_ok (m_xml r) \<Longrightarrow> block cs \<Longrightarrow> m_tags (m_xml r) = ts @ [n] \<Longrightarrow>
   \<exists>w'. on_xml (cs @ [CallEnd]) r = Some (r\<lparr>m_xml := w'\<rparr>) \<and> writer_ok w' \<and> m_tags w' = ts"
  using run_closing [of "m_xml r" cs ts n] by (auto simp: on_xml_def)

lemma on_xml_append: "on_xml (cs @ ds) r = Option.bind (on_xml cs r) (on_xml ds)"
proof -
  have "run_calls (cs @ ds) w = Option.bind (run_calls cs w) (run_calls ds)" for w
    by (induction cs arbitrary: w) (auto intro: Option.bind_cong)
  then show ?thesis by (cases "run_calls cs (m_xml r)") (auto simp: on_xml_def option.map_comp comp_def)
qed

lemma trim_total: "\<exists>t. trim s = Some t"
  by (simp add: trim_eq)

lemma ready_testRunStarting:
  assumes "xml_ready Outside r"
  shows "\<exists>r'. XmlReporter_testRunStarting info r = Some r' \<and> xml_ready InRun r'"
proof -
  let ?r = "Streaming_testRunStarting info r" and ?cfg = "sr_config r"
  let ?as = "(if Config_name ?cfg \<noteq> [] then [CallAttribute ''name'' (Config_name ?cfg)] else []) @
     (if hasFilters (cfg_testSpec ?cfg) then [CallAttribute ''filters'' (serializeFilters (testsOrTags (cfg_data ?cfg)))] else [])"
  let ?cs = "if rngSeed (cfg_data ?cfg) \<noteq> 0
     then [CallStart ''Randomness'', CallAttribute ''seed'' (show_nat (unat (rngSeed (cfg_data ?cfg)))), CallEnd] else []"
  have "block ?cs"
    using element_block [of "''Randomness''" "[CallAttribute ''seed'' (show_nat (unat (rngSeed (cfg_data ?cfg))))]" "[]"]
    by (simp add: xml_names)
  moreover have "\<forall>c \<in> set ?as. attribute_call c" by (auto simp: xml_names)
  moreover have "valid_name ''Catch''" "writer_ok (m_xml ?r)"
    using assms by (simp_all add: xml_names xml_ready_def Streaming_testRunStarting_def)
  ultimately obtain w where w: "on_xml (CallStart ''Catch'' # ?as @ ?cs) ?r = Some (?r\<lparr>m_xml := w\<rparr>)" "writer_ok w"
      "m_tags w = m_tags (m_xml ?r) @ [''Catch'']"
    using on_xml_opening [of ?r "''Catch''" ?as ?cs] by blast
  have "XmlReporter_testRunStarting info r = on_xml (CallStart ''Catch'' # ?as @ ?cs) ?r"
    by (simp add: XmlReporter_testRunStarting_def getStylesheetRef_def Streaming_testRunStarting_def Let_def)
  with w assms show ?thesis by (simp add: xml_ready_def Streaming_testRunStarting_def)
qed

lemma ready_testGroupStarting:
  assumes "xml_ready InRun r"
  shows "\<exists>r'. XmlReporter_testGroupStarting info r = Some r' \<and> xml_ready InGroup r'"
  using assms on_xml_opening [of "Streaming_testGroupStarting info r" "''Group''" "[CallAttribute ''name'' (gi_name info)]" "[]"]
  by (auto simp: XmlReporter_testGroupStarting_def xml_ready_def Streaming_testGroupStarting_def xml_names)

lemma ready_testCaseStarting:
  assumes "xml_ready InGroup r"
  shows "\<exists>r'. XmlReporter_testCaseStarting x info r = Some r' \<and> xml_ready CaseStarted r'"
proof -
  obtain t where t: "trim (name info) = Some t" using trim_total by blast
  let ?r = "Streaming_testCaseStarting info r"
  let ?as = "[CallAttribute ''name'' t, CallAttribute ''description'' (description info), CallAttribute ''tags'' (tagsAsString info)] @
     writeSourceInfo (lineInfo info)"
  have "\<forall>c \<in> set ?as. attribute_call c" by (auto simp: xml_names)
  then obtain w where w: "on_xml (CallStart ''TestCase'' # ?as) ?r = Some (?r\<lparr>m_xml := w\<rparr>)" "writer_ok w"
      "m_tags w = path_of InGroup @ [''TestCase'']"
    using on_xml_opening [of ?r "''TestCase''" ?as "[]"] assms
    by (auto simp: xml_ready_def Streaming_testCaseStarting_def xml_names)
  define r2 where "r2 = (if showDurations (cfg_data (sr_config (?r\<lparr>m_xml := w\<rparr>))) = DurationsAlways
      then ?r\<lparr>m_xml := w, m_testCaseTimer := Timer_start (clock x) (m_testCaseTimer (?r\<lparr>m_xml := w\<rparr>))\<rparr>
      else ?r\<lparr>m_xml := w\<rparr>)"
  have r2: "m_xml r2 = w" "m_sectionDepth r2 = m_sectionDepth r" "m_sectionStack r2 = m_sectionStack r"
    by (simp_all add: r2_def Streaming_testCaseStarting_def)
  obtain w' where w': "on_xml [CallEnsureTagClosed] r2 = Some (r2\<lparr>m_xml := w'\<rparr>)" "writer_ok w'" "m_tags w' = m_tags w"
    using on_xml_block [of r2 "[CallEnsureTagClosed]"] w(2) r2 by auto
  have "XmlReporter_testCaseStarting x info r = on_xml [CallEnsureTagClosed] r2"
    using w(1) by (simp add: XmlReporter_testCaseStarting_def t Let_def r2_def)
  with w w' r2 assms show ?thesis by (auto simp: xml_ready_def)
qed

lemma ready_sectionStarting:
  assumes "xml_ready p r" "advance p (SectionStarting info) = Some p'" "depth_of p' < 2 ^ 31"
  shows "\<exists>r'. XmlReporter_sectionStarting info r = Some r' \<and> xml_ready p' r'"
proof -
  obtain t where t: "trim (si_name info) = Some t" using trim_total by blast
  let ?r = "(Streaming_sectionStarting info r)\<lparr>m_sectionDepth := wrap32 (m_sectionDepth r + 1)\<rparr>"
  from assms(2) have p': "p' = InCase (Suc (depth_of p))" "p = CaseStarted \<or> (\<exists>n. p = InCase n)"
    by (cases p; auto)+
  have r: "writer_ok (m_xml r)" "m_tags (m_xml r) = path_of p" "m_sectionDepth r = int (depth_of p)"
    "length (m_sectionStack r) = depth_of p"
    using assms(1) by (simp_all add: xml_ready_def)
  have d: "m_sectionDepth ?r = int (Suc (depth_of p))" "length (m_sectionStack ?r) = Suc (depth_of p)"
    using r assms(3) p'(1) by (simp_all add: Streaming_sectionStarting_def wrap32_def)
  show ?thesis
  proof (cases "depth_of p = 0")
    case True
    then have "XmlReporter_sectionStarting info r = Some ?r"
      using r by (simp add: XmlReporter_sectionStarting_def Streaming_sectionStarting_def Let_def)
    then show ?thesis using True r d p' by (auto simp: xml_ready_def Streaming_sectionStarting_def)
  next
    case False
    then obtain n where n: "p = InCase (Suc n)" using p'(2) by (auto dest: gr0_implies_Suc)
    let ?as = "[CallAttribute ''name'' t] @ writeSourceInfo (si_lineInfo info)"
    have "\<forall>c \<in> set ?as. attribute_call c" by (auto simp: xml_names)
    then obtain w where w: "on_xml (CallStart ''Section'' # ?as @ [CallEnsureTagClosed]) ?r = Some (?r\<lparr>m_xml := w\<rparr>)" "writer_ok w"
        "m_tags w = path_of p @ [''Section'']"
      using on_xml_opening [of ?r "''Section''" ?as "[CallEnsureTagClosed]"] r
      by (auto simp: Streaming_sectionStarting_def xml_names)
    have "XmlReporter_sectionStarting info r = on_xml (CallStart ''Section'' # ?as @ [CallEnsureTagClosed]) ?r"
      using r n by (simp add: XmlReporter_sectionStarting_def Streaming_sectionStarting_def Let_def t)
    then show ?thesis using w d p' n by (auto simp: xml_ready_def simp flip: replicate_append_same)
  qed
qed

lemma ready_assertionEnded:
  assumes "writer_ok (m_xml r)"
  shows "\<exists>w. XmlReporter_assertionEnded stats r = Some (True, r\<lparr>m_xml := w\<rparr>) \<and> writer_ok w \<and> m_tags w = m_tags (m_xml r)"
proof -
  let ?res = "as_result stats"
  define inc where "inc = (showSuccessfulTests (cfg_data (sr_config r)) \<or> \<not> AssertionResult_isOk ?res)"
  obtain w1 where w1: "(if inc \<or> getResultType ?res = ResultWarning
       then on_xml (message_calls inc (infoMessages stats)) r else Some r) = Some (r\<lparr>m_xml := w1\<rparr>)"
      "writer_ok w1" "m_tags w1 = m_tags (m_xml r)"
    using on_xml_block [OF assms message_block] assms that [of "m_xml r"]
    by (cases "inc \<or> getResultType ?res = ResultWarning") auto
  let ?r1 = "r\<lparr>m_xml := w1\<rparr>"
  have w4: "\<exists>w4. do {
       r \<leftarrow> (if hasExpression ?res then on_xml (expression_calls ?res) ?r1 else Some ?r1);
       r \<leftarrow> on_xml (result_calls ?res) r;
       if hasExpression ?res then on_xml [CallEnd] r else Some r } = Some (r\<lparr>m_xml := w4\<rparr>) \<and> writer_ok w4 \<and>
      m_tags w4 = m_tags (m_xml r)"
  proof (cases "hasExpression ?res")
    case False
    then show ?thesis using on_xml_block [OF _ result_block, of ?r1 ?res] w1 by auto
  next
    case True
    let ?as = "[CallFlag ''success'' (AssertionResult_succeeded ?res), CallAttribute ''type'' (macroName (ar_info ?res))] @
        writeSourceInfo (ai_lineInfo (ar_info ?res))"
    let ?cs = "[CallStart ''Original'', CallText (getExpression ?res) True, CallEnd] @
        [CallStart ''Expanded'', CallText (getExpandedExpression ?res) True, CallEnd]"
    have "block ?cs" by (intro block_append text_element) (simp_all add: xml_names)
    moreover have "\<forall>c \<in> set ?as. attribute_call c" by (auto simp: xml_names)
    ultimately have "\<exists>w2. on_xml (CallStart ''Expression'' # ?as @ ?cs) ?r1 = Some (?r1\<lparr>m_xml := w2\<rparr>) \<and> writer_ok w2 \<and>
        m_tags w2 = m_tags (m_xml r) @ [''Expression'']"
      using on_xml_opening [of ?r1 "''Expression''" ?as ?cs] w1 by (simp add: xml_names)
    then obtain w2 where w2: "on_xml (expression_calls ?res) ?r1 = Some (r\<lparr>m_xml := w2\<rparr>)" "writer_ok w2"
        "m_tags w2 = m_tags (m_xml r) @ [''Expression'']"
      by (auto simp: expression_calls_def)
    obtain w3 where w3: "on_xml (result_calls ?res) (r\<lparr>m_xml := w2\<rparr>) = Some (r\<lparr>m_xml := w3\<rparr>)" "writer_ok w3" "m_tags w3 = m_tags w2"
      using on_xml_block [OF _ result_block, of "r\<lparr>m_xml := w2\<rparr>" ?res] w2 by auto
    show ?thesis using on_xml_closing [of "r\<lparr>m_xml := w3\<rparr>" "[]"] w2 w3 True by auto
  qed
  show ?thesis
  proof (cases "\<not> inc \<and> getResultType ?res \<noteq> ResultWarning")
    case True
    with w1 show ?thesis by (auto simp: XmlReporter_assertionEnded_def Let_def inc_def)
  next
    case False
    from w4 obtain w4 where "do {
       r \<leftarrow> (if hasExpression ?res then on_xml (expression_calls ?res) ?r1 else Some ?r1);
       r \<leftarrow> on_xml (result_calls ?res) r;
       r \<leftarrow> (if hasExpression ?res then on_xml [CallEnd] r else Some r);
       Some (True, r) } = Some (True, r\<lparr>m_xml := w4\<rparr>)" "writer_ok w4" "m_tags w4 = m_tags (m_xml r)"
      by (auto simp: bind_eq_Some_conv)
    moreover have "XmlReporter_assertionEnded stats r = do {
       r \<leftarrow> (if hasExpression ?res then on_xml (expression_calls ?res) ?r1 else Some ?r1);
       r \<leftarrow> on_xml (result_calls ?res) r;
       r \<leftarrow> (if hasExpression ?res then on_xml [CallEnd] r else Some r);
       Some (True, r) }"
      using w1(1) False unfolding XmlReporter_assertionEnded_def Let_def inc_def by auto
    ultimately show ?thesis by auto
  qed
qed

lemma on_xml_counts:
  assumes "writer_ok (m_xml r)" "\<forall>c \<in> set as. attribute_call c" "m_tags (m_xml r) = ts @ [n]"
  shows "\<exists>w. on_xml (count_calls k @ as @ [CallEnd, CallEnd]) r = Some (r\<lparr>m_xml := w\<rparr>) \<and> writer_ok w \<and> m_tags w = ts"
  using on_xml_closing [OF assms(1) count_block [OF assms(2)] assms(3), of k] by simp

lemma path_of_ends:
  "path_of (InCase (Suc (Suc n))) = path_of (InCase (Suc n)) @ [''Section'']"
  by (simp flip: replicate_append_same)

lemma ready_sectionEnded:
  assumes "xml_ready (InCase (Suc n)) r" "Suc n < 2 ^ 31"
  shows "\<exists>r'. XmlReporter_sectionEnded x stats r = Some r' \<and> xml_ready (InCase n) r'"
proof -
  define r1 where "r1 = r\<lparr>m_sectionStack := butlast (m_sectionStack r), m_sectionDepth := wrap32 (m_sectionDepth r - 1)\<rparr>"
  have r: "writer_ok (m_xml r)" "m_tags (m_xml r) = path_of (InCase (Suc n))" "m_sectionDepth r = int (Suc n)"
    "length (m_sectionStack r) = Suc n"
    using assms(1) by (simp_all add: xml_ready_def)
  then have r1: "m_xml r1 = m_xml r" "m_sectionDepth r1 = int n" "length (m_sectionStack r1) = n"
    using assms(2) by (simp_all add: r1_def wrap32_def)
  let ?as = "if showDurations (cfg_data (sr_config r1)) = DurationsAlways
        then [CallAttribute ''durationInSeconds'' (print_seconds x (sectionMicroseconds x))] else []"
  have "m_sectionStack r \<noteq> []" using r(4) by auto
  then have h: "XmlReporter_sectionEnded x stats r =
     (if 0 < m_sectionDepth r1 then on_xml (count_calls (ss_assertions stats) @ ?as @ [CallEnd, CallEnd]) r1 else Some r1)"
    by (simp add: XmlReporter_sectionEnded_def Streaming_sectionEnded_def r1_def Let_def)
  show ?thesis
  proof (cases n)
    case 0
    with h r r1 show ?thesis by (simp add: xml_ready_def)
  next
    case (Suc m)
    have "\<forall>c \<in> set ?as. attribute_call c" by (simp add: xml_names)
    then obtain w where "on_xml (count_calls (ss_assertions stats) @ ?as @ [CallEnd, CallEnd]) r1 = Some (r1\<lparr>m_xml := w\<rparr>)"
        "writer_ok w" "m_tags w = path_of (InCase (Suc m))"
      using on_xml_counts [of r1 ?as "path_of (InCase (Suc m))" "''Section''"] r r1 path_of_ends [of m] Suc by metis
    with h r1 Suc show ?thesis by (simp add: xml_ready_def)
  qed
qed

lemma on_xml_case_ended:
  assumes "writer_ok (m_xml r)" "m_tags (m_xml r) = ts @ [n]"
  shows "\<exists>r'. XmlReporter_testCaseEnded x totals r = Some r' \<and> writer_ok (m_xml r') \<and> m_tags (m_xml r') = ts \<and>
    m_sectionDepth r' = m_sectionDepth r \<and> m_sectionStack r' = m_sectionStack r"
proof -
  obtain out err where t: "trim (stdOut x) = Some out" "trim (stdErr x) = Some err" using trim_total by blast
  let ?r = "Streaming_testCaseEnded r"
  let ?as = "CallFlag ''success'' (allOk (assertions totals)) # (if showDurations (cfg_data (sr_config ?r)) = DurationsAlways
        then [CallAttribute ''durationInSeconds'' (getElapsedSeconds x (m_testCaseTimer ?r))] else [])"
  let ?cs = "(if stdOut x \<noteq> [] then [CallStart ''StdOut'', CallText out False, CallEnd] else []) @
       (if stdErr x \<noteq> [] then [CallStart ''StdErr'', CallText err False, CallEnd] else [])"
  have "block (CallStart ''OverallResult'' # ?as @ ?cs @ [CallEnd])"
  proof (rule element_block)
    have "block [CallStart ''StdOut'', CallText out False, CallEnd]" "block [CallStart ''StdErr'', CallText err False, CallEnd]"
      by (rule text_element, simp add: xml_names)+
    then show "block ?cs" by (intro block_append) simp_all
  qed (simp_all add: xml_names)
  moreover have "writer_ok (m_xml ?r)" "m_tags (m_xml ?r) = ts @ [n]"
    using assms by (simp_all add: Streaming_testCaseEnded_def)
  ultimately obtain w where "on_xml ((CallStart ''OverallResult'' # ?as @ ?cs @ [CallEnd]) @ [CallEnd]) ?r = Some (?r\<lparr>m_xml := w\<rparr>)"
      "writer_ok w" "m_tags w = ts"
    using on_xml_closing by blast
  moreover have "XmlReporter_testCaseEnded x totals r = on_xml ((CallStart ''OverallResult'' # ?as @ ?cs @ [CallEnd]) @ [CallEnd]) ?r"
    by (simp add: XmlReporter_testCaseEnded_def t Let_def)
  ultimately show ?thesis by (simp add: Streaming_testCaseEnded_def)
qed

lemma on_xml_group_ended:
  assumes "writer_ok (m_xml r)" "m_tags (m_xml r) = ts @ [n]"
  shows "\<exists>r'. XmlReporter_testGroupEnded totals r = Some r' \<and> writer_ok (m_xml r') \<and> m_tags (m_xml r') = ts \<and>
    m_sectionDepth r' = m_sectionDepth r \<and> m_sectionStack r' = m_sectionStack r"
  using on_xml_counts [of "Streaming_testGroupEnded r" "[]" ts n "assertions totals"] assms
  by (auto simp: XmlReporter_testGroupEnded_def Streaming_testGroupEnded_def)

lemma on_xml_run_ended:
  assumes "writer_ok (m_xml r)" "m_tags (m_xml r) = ts @ [n]"
  shows "\<exists>r'. XmlReporter_testRunEnded totals r = Some r' \<and> writer_ok (m_xml r') \<and> m_tags (m_xml r') = ts \<and>
    m_sectionDepth r' = m_sectionDepth r \<and> m_sectionStack r' = m_sectionStack r"
  using on_xml_counts [of "Streaming_testRunEnded r" "[]" ts n "assertions totals"] assms
  by (auto simp: XmlReporter_testRunEnded_def Streaming_testRunEnded_def)

lemma xml_handles:
  assumes "xml_ready p r" "advance p e = Some p'" "depth_of p < 2 ^ 31" "depth_of p' < 2 ^ 31"
  shows "\<exists>r'. XmlReporter_handle x e r = Some r' \<and> xml_ready p' r'"
proof (cases e)
  case (SectionStarting s)
  with assms ready_sectionStarting [of p r s p'] show ?thesis by (simp add: XmlReporter_handle_def)
next
  case (SectionEnded s)
  with assms(2) obtain n where "p = InCase (Suc n)" "p' = InCase n" by (cases p) (auto split: if_splits dest: gr0_implies_Suc)
  with SectionEnded assms ready_sectionEnded [of n r x s] show ?thesis by (simp add: XmlReporter_handle_def)
next
  case (AssertionEnded s)
  with assms(2) have "p' = p" by (cases p) (auto split: if_splits)
  with AssertionEnded assms(1) ready_assertionEnded [of r s] show ?thesis by (auto simp: XmlReporter_handle_def xml_ready_def)
next
  case (AssertionStarting s)
  with assms(2) have "p' = p" by (cases p) (auto split: if_splits)
  with AssertionStarting assms(1) show ?thesis by (simp add: XmlReporter_handle_def)
next
  case (TestRunStarting n)
  with assms(1,2) ready_testRunStarting [of r n] show ?thesis by (cases p) (auto simp: XmlReporter_handle_def)
next
  case (TestGroupStarting g)
  with assms(1,2) ready_testGroupStarting [of r g] show ?thesis by (cases p) (auto simp: XmlReporter_handle_def)
next
  case (TestCaseStarting tc)
  with assms(1,2) ready_testCaseStarting [of r x tc] show ?thesis by (cases p) (auto simp: XmlReporter_handle_def)
next
  case (TestCaseEnded tc t a)
  with assms(1,2) on_xml_case_ended [of r "[''Catch'', ''Group'']" "''TestCase''" x t] show ?thesis
    by (cases p) (auto simp: XmlReporter_handle_def xml_ready_def split: if_splits)
next
  case (TestGroupEnded g t a)
  with assms(1,2) on_xml_group_ended [of r "[''Catch'']" "''Group''" t] show ?thesis
    by (cases p) (auto simp: XmlReporter_handle_def xml_ready_def)
next
  case (TestRunEnded n t a)
  with assms(1,2) on_xml_run_ended [of r "[]" "''Catch''" t] show ?thesis
    by (cases p) (auto simp: XmlReporter_handle_def xml_ready_def)
qed (use assms(1,2) in \<open>cases p; auto simp: XmlReporter_handle_def\<close>)+

interpretation xr: streaming_reporter XmlReporter_handle "\<lambda>e. True" xml_ready
  by unfold_locales (rule xml_handles)

text \<open>A new reporter, and the document when the writer is destroyed.\<close>

lemma XmlReporter_new_ready:
  assumes "cd_verbosity (cfg_data cfg) = Normal"
  shows "\<exists>r. XmlReporter_new [] cfg = Inr r \<and> xml_ready Outside r"
  using assms XmlWriter_new_ok
  by (auto simp: XmlReporter_new_def StreamingReporterBase_new_def StreamingReporterBase.defs XmlReporter.defs xml_ready_def
      XmlWriter_new_def writeDeclaration_def put_os_def)

lemma closed_document: "writer_ok w \<Longrightarrow> m_tags w = [] \<Longrightarrow> well_nested (m_os w)"
  by (auto simp: writer_ok_def reading_of_def well_nested_def split: if_splits)

text \<open>
  C25: the XML reporter, created with the one verbosity it supports, handles the report of every
  finished run whose test functions keep their sections in scopes, whatever output, clock readings
  and number formats it is given along with the events: no handler touches an empty stack, at the
  end every element has been closed by the reporter itself, and the document is well nested.
\<close>

theorem xml_report_of_run:
  fixes next_item :: "'g \<Rightarrow> bool \<times> 'g"
  assumes "\<And>tc. scoped_test next_item (invoke tc)"
    and "runTests next_item invoke here cfg reportAll tcs u = Some (totals, u', c')"
    and "map snd es = m_reporter c'" "length es < 2 ^ 31" "cd_verbosity (cfg_data cfg) = Normal"
  shows "\<exists>r r'. XmlReporter_new [] cfg = Inr r \<and> handle_all XmlReporter_handle es r = Some r' \<and>
    m_tags (m_xml r') = [] \<and> well_nested (m_os (m_xml r'))"
proof -
  obtain r where r: "XmlReporter_new [] cfg = Inr r" "xml_ready Outside r"
    using XmlReporter_new_ready [OF assms(5)] by blast
  have "follows (map snd es) Outside = Some Outside"
    unfolding assms(3) by (rule run_follows [OF assms(1,2)])
  from xr.handles_run [OF r(2) _ this assms(4)] r(1) closed_document show ?thesis
    by (auto simp: xml_ready_def)
qed

definition sample_context :: event_context where
  "sample_context = \<lparr>clock = 0, sectionMicroseconds = 0, stdOut = ''out'', stdErr = [], print_seconds = (\<lambda>n. show_nat (unat n)),
     stringify_seconds = (\<lambda>n. show_nat (unat n)), timestamp = ''2020-01-16T17:06:45Z''\<rparr>"

lemma sample_section_size:
  "case sample_section_run of None \<Rightarrow> False | Some (t, u, c) \<Rightarrow> length (m_reporter c) < 100"
  by code_simp

theorem xml_report_of_run_witness:
  "case sample_section_run of None \<Rightarrow> False
   | Some (totals, u', c') \<Rightarrow> \<exists>r r'. XmlReporter_new [] sample_config = Inr r \<and>
      handle_all XmlReporter_handle (map (Pair sample_context) (m_reporter c')) r = Some r' \<and>
      m_tags (m_xml r') = [] \<and> well_nested (m_os (m_xml r'))"
proof -
  obtain totals u' c' where s: "sample_section_run = Some (totals, u', c')"
    using sample_section_finishes by (cases sample_section_run) auto
  have "length (map (Pair sample_context) (m_reporter c')) < 2 ^ 31" using sample_section_size by (simp add: s)
  moreover have "map snd (map (Pair sample_context) (m_reporter c')) = m_reporter c'" by (simp add: comp_def)
  moreover have "cd_verbosity (cfg_data sample_config) = Normal" by (simp add: sample_config_def ConfigData_new_def)
  ultimately show ?thesis
    using xml_report_of_run [OF sample_section_scoped s [unfolded sample_section_run_def]] unfolding s by simp
qed

section \<open>Fatal errors\<close>

lemma fatal_events:
  assumes "handleFatalErrorCondition next_item msg c = Some c'" "m_unfinishedSections c = []"
  shows "\<exists>st ss tc t g t2 b n t3. m_reporter c' = m_reporter c @ [FatalErrorEncountered msg, AssertionEnded st, SectionEnded ss,
     TestCaseEnded tc t False, TestGroupEnded g t2 b, TestRunEnded n t3 False]"
proof -
  from assms(1) obtain c1 c2 tc where c1: "assertionEnded (AssertionResult_new (m_lastAssertionInfo c)
       ((AssertionResultData_new FatalErrorCondition (LazyExpression_new False))\<lparr>rd_message := msg\<rparr>))
       (report (FatalErrorEncountered msg) c) = Some c1"
    and c2: "handleUnfinishedSections next_item c1 = Some c2" and tc: "m_activeTestCase c2 = Some tc"
    by (auto simp: handleFatalErrorCondition_def Let_def bind_eq_Some_conv report_def)
  from assertionEnded_reports [OF c1] assms(2) obtain st where
    "m_reporter c1 = m_reporter c @ [FatalErrorEncountered msg, AssertionEnded st]" "m_unfinishedSections c1 = []"
    by (auto simp: report_def)
  then have "m_reporter c2 = m_reporter c @ [FatalErrorEncountered msg, AssertionEnded st]"
    using c2 by (auto simp: handleUnfinishedSections_def)
  with assms(1) c1 c2 tc show ?thesis
    by (auto simp: handleFatalErrorCondition_def Let_def report_def testGroupEnded_def)
qed

lemma open_document: "writer_ok w \<Longrightarrow> m_tags w \<noteq> [] \<Longrightarrow> \<not> well_nested (m_os w)"
  by (auto simp: writer_ok_def reading_of_def well_nested_def split: if_splits)

lemma fatal_path:
  assumes "xml_ready (InCase (Suc (Suc (Suc n)))) r" "Suc (Suc (Suc n)) < 2 ^ 31"
    "map snd fs = [FatalErrorEncountered msg, AssertionEnded st, SectionEnded ss, TestCaseEnded tc t a, TestGroupEnded g t2 b,
       TestRunEnded m t3 d]"
  shows "\<exists>r'. handle_all XmlReporter_handle fs r = Some r' \<and> writer_ok (m_xml r') \<and>
    m_tags (m_xml r') = take (Suc n) (path_of (InCase (Suc (Suc (Suc n)))))"
proof -
  from assms(3) obtain x1 x2 x3 x4 x5 x6 where fs: "fs = [(x1, FatalErrorEncountered msg), (x2, AssertionEnded st), (x3, SectionEnded ss),
     (x4, TestCaseEnded tc t a), (x5, TestGroupEnded g t2 b), (x6, TestRunEnded m t3 d)]"
    by (auto simp: map_eq_Cons_conv)
  let ?path = "path_of (InCase (Suc (Suc (Suc n))))"
  obtain w where w: "XmlReporter_assertionEnded st r = Some (True, r\<lparr>m_xml := w\<rparr>)" "writer_ok w" "m_tags w = m_tags (m_xml r)"
    using ready_assertionEnded [of r st] assms(1) by (auto simp: xml_ready_def)
  then have "xml_ready (InCase (Suc (Suc (Suc n)))) (r\<lparr>m_xml := w\<rparr>)" using assms(1) by (simp add: xml_ready_def)
  from ready_sectionEnded [OF this assms(2)] obtain r1 where
    r1: "XmlReporter_sectionEnded x3 ss (r\<lparr>m_xml := w\<rparr>) = Some r1" "xml_ready (InCase (Suc (Suc n))) r1" by blast
  define P where "P = path_of (InCase (Suc (Suc n)))"
  have P: "length P = n + 4" "?path = P @ [''Section'']" using path_of_ends [of "Suc n"] by (simp_all add: P_def)
  have split: "xs = butlast xs @ [last xs]" if "0 < length xs" for xs :: "string list"
    using that by (cases xs rule: rev_cases) simp_all
  have t1: "writer_ok (m_xml r1)" "m_tags (m_xml r1) = P" using r1(2) by (simp_all add: xml_ready_def P_def)
  then have "m_tags (m_xml r1) = butlast P @ [last P]" using P(1) split [of P] by simp
  from on_xml_case_ended [OF t1(1) this] obtain r2 where
    r2: "XmlReporter_testCaseEnded x4 t r1 = Some r2" "writer_ok (m_xml r2)" "m_tags (m_xml r2) = butlast P" by blast
  then have "m_tags (m_xml r2) = butlast (butlast P) @ [last (butlast P)]" using P(1) split [of "butlast P"] by simp
  from on_xml_group_ended [OF r2(2) this] obtain r3 where
    r3: "XmlReporter_testGroupEnded t2 r2 = Some r3" "writer_ok (m_xml r3)" "m_tags (m_xml r3) = butlast (butlast P)" by blast
  then have "m_tags (m_xml r3) = butlast (butlast (butlast P)) @ [last (butlast (butlast P))]"
    using P(1) split [of "butlast (butlast P)"] by simp
  from on_xml_run_ended [OF r3(2) this] obtain r4 where
    r4: "XmlReporter_testRunEnded t3 r3 = Some r4" "writer_ok (m_xml r4)" "m_tags (m_xml r4) = butlast (butlast (butlast P))" by blast
  have "butlast (butlast (butlast P)) = take (Suc n) ?path" using P by (simp add: butlast_conv_take min_def)
  with w r1 r2 r3 r4 show ?thesis by (simp add: fs XmlReporter_handle_def)
qed

text \<open>
  C26: when a fatal error is raised while two or more sections are open inside the section of the
  test case, the run context closes only one section before it ends the test case, the group and the
  run.  The XML reporter then closes the innermost elements instead of those it was told about: after
  the last event of the run \<open>k - 2\<close> elements are still open and the document is not well nested.
\<close>

theorem fatal_error_leaves_elements_open:
  fixes next_item :: "'g \<Rightarrow> bool \<times> 'g"
  assumes "XmlReporter_new [] cfg = Inr r" "map snd es = m_reporter c" "follows (m_reporter c) Outside = Some (InCase k)" "3 \<le> k"
    and "m_unfinishedSections c = []" "handleFatalErrorCondition next_item msg c = Some c'"
    and "map snd (es @ fs) = m_reporter c'" "length (es @ fs) < 2 ^ 31"
  shows "\<exists>r'. handle_all XmlReporter_handle (es @ fs) r = Some r' \<and>
    m_tags (m_xml r') = take (k - 2) (path_of (InCase k)) \<and> \<not> well_nested (m_os (m_xml r'))"
proof -
  obtain n where k: "k = Suc (Suc (Suc n))" using assms(4) by (metis Suc_le_D numeral_3_eq_3 Suc_le_mono)
  have "xml_ready Outside r"
    using assms(1) XmlReporter_new_ready [of cfg] by (auto simp: XmlReporter_new_def StreamingReporterBase_new_def split: if_splits)
  moreover have "follows (map snd es) Outside = Some (InCase k)" using assms(2,3) by simp
  ultimately obtain r1 where r1: "handle_all XmlReporter_handle es r = Some r1" "xml_ready (InCase k) r1"
    using xr.handles_report [of Outside r es "InCase k"] assms(8) by auto
  have "k < 2 ^ 31" using follows_depth [OF \<open>follows (map snd es) Outside = Some (InCase k)\<close>] assms(8) by simp
  from fatal_events [OF assms(6,5)] assms(2,7) obtain st ss tc t g t2 b m t3 where
    "map snd fs = [FatalErrorEncountered msg, AssertionEnded st, SectionEnded ss, TestCaseEnded tc t False, TestGroupEnded g t2 b,
       TestRunEnded m t3 False]" by (auto simp: map_append)
  from fatal_path [OF r1(2) [unfolded k] \<open>k < 2 ^ 31\<close> [unfolded k] this] obtain r' where
    r': "handle_all XmlReporter_handle fs r1 = Some r'" "writer_ok (m_xml r')" "m_tags (m_xml r') = take (Suc n) (path_of (InCase k))"
    unfolding k by blast
  then have "\<not> well_nested (m_os (m_xml r'))" by (intro open_document) (auto simp: k)
  then show ?thesis using r1(1) r' by (auto simp: handle_all_append k)
qed

definition sample_fatal :: "unit RunContext" where
  "sample_fatal = (RunContext_new sample_config True)\<lparr>m_activeTestCase := Some (hd sample_tests),
     m_reporter := [TestRunStarting [], TestGroupStarting \<lparr>gi_name = [], groupIndex = 1, groupsCounts = 1\<rparr>,
       TestCaseStarting (hd sample_tests)] @
       map (\<lambda>n. SectionStarting \<lparr>si_name = n, si_lineInfo = lineInfo (hd sample_tests)\<rparr>) [''test'', ''outer'', ''inner'']\<rparr>"

theorem fatal_error_leaves_elements_open_witness:
  "let es = map (Pair sample_context) (m_reporter sample_fatal) in
   \<exists>r c' fs r'. XmlReporter_new [] sample_config = Inr r \<and>
     handleFatalErrorCondition (\<lambda>g. (False, g)) ''SIGSEGV'' sample_fatal = Some c' \<and> map snd (es @ fs) = m_reporter c' \<and>
     handle_all XmlReporter_handle (es @ fs) r = Some r' \<and> m_tags (m_xml r') = [''Catch''] \<and> \<not> well_nested (m_os (m_xml r'))"
proof -
  let ?es = "map (Pair sample_context) (m_reporter sample_fatal)"
  obtain r where r: "XmlReporter_new [] sample_config = Inr r"
    using XmlReporter_new_ready [of sample_config] by (auto simp: sample_config_def ConfigData_new_def)
  have "handleFatalErrorCondition (\<lambda>g. (False, g)) ''SIGSEGV'' sample_fatal \<noteq> None" by code_simp
  then obtain c' where c': "handleFatalErrorCondition (\<lambda>g. (False, g)) ''SIGSEGV'' sample_fatal = Some c'" by auto
  have u: "m_unfinishedSections sample_fatal = []" by code_simp
  from fatal_events [OF c' u] obtain fs0 where fs0: "m_reporter c' = m_reporter sample_fatal @ fs0" "length fs0 = 6" by force
  let ?fs = "map (Pair sample_context) fs0"
  have "map snd ?es = m_reporter sample_fatal" "map snd (?es @ ?fs) = m_reporter c'" by (simp_all add: comp_def fs0)
  moreover have "follows (m_reporter sample_fatal) Outside = Some (InCase 3)" by code_simp
  moreover have "length (m_reporter sample_fatal) = 6" by code_simp
  ultimately have "\<exists>r'. handle_all XmlReporter_handle (?es @ ?fs) r = Some r' \<and>
      m_tags (m_xml r') = take (3 - 2) (path_of (InCase 3)) \<and> \<not> well_nested (m_os (m_xml r'))"
    using fs0(2) by (intro fatal_error_leaves_elements_open [OF r _ _ _ u c']) simp_all
  moreover have "take (3 - 2) (path_of (InCase 3)) = [''Catch'']" by simp
  ultimately show ?thesis unfolding Let_def using r c' \<open>map snd (?es @ ?fs) = m_reporter c'\<close> by metis
qed

end
