(* ===== verification/CatchJunit.thy ===== *)
theory CatchJunit
  imports CatchXmlReporter
begin

text \<open>
  The base class of the reporters that first collect the whole run and the JUnit
  reporter of the unit test framework (\<open>native/src/catch.hpp\<close>).  The section
  nodes are shared pointers, so they are a list of nodes with a pointer an index
  into it; nodes of test cases, groups and runs are not changed once built and
  are values.  A failing \<open>assert\<close>, a null pointer and the first character of
  an empty string are \<open>None\<close>.
\<close>

section \<open>The base class\<close>

record SectionNode =
  sn_stats :: SectionStats
  sn_microseconds :: u64
  childSections :: "nat list"
  sn_assertions :: "AssertionStats list"
  sn_stdOut :: string
  sn_stdErr :: string

record TestCaseStats =
  ts_testInfo :: TestCase
  ts_totals :: Totals
  ts_stdOut :: string
  ts_stdErr :: string
  ts_aborting :: bool

record TestGroupStats =
  gs_groupInfo :: GroupInfo
  gs_totals :: Totals
  gs_aborting :: bool

record TestRunStats =
  rs_runInfo :: string
  rs_totals :: Totals
  rs_aborting :: bool

record ('v, 'c) Node =
  node_value :: 'v
  node_children :: "'c list"

type_synonym TestCaseNode = "(TestCaseStats, nat option) Node"
type_synonym TestGroupNode = "(TestGroupStats, TestCaseNode) Node"
type_synonym TestRunNode = "(TestRunStats, TestGroupNode) Node"

record CumulativeReporterBase =
  cr_config :: Config
  section_nodes :: "SectionNode list"
  m_testCases :: "TestCaseNode list"
  m_testGroups :: "TestGroupNode list"
  m_testRuns :: "TestRunNode list"
  m_rootSection :: "nat option"
  m_deepestSection :: "nat option"
  cr_sectionStack :: "nat list"
  cr_reporterPrefs :: ReporterPreferences

definition CumulativeReporterBase_new :: "Verbosity set \<Rightarrow> Config \<Rightarrow> string + CumulativeReporterBase" where
  "CumulativeReporterBase_new supported cfg =
     (if cd_verbosity (cfg_data cfg) \<notin> supported then Inl ''Verbosity level not supported by this reporter''
      else Inr \<lparr>cr_config = cfg, section_nodes = [], m_testCases = [], m_testGroups = [], m_testRuns = [],
        m_rootSection = None, m_deepestSection = None, cr_sectionStack = [],
        cr_reporterPrefs = \<lparr>shouldRedirectStdOut = False, shouldReportAllAssertions = False\<rparr>\<rparr>)"

definition SectionNode_new :: "SectionStats \<Rightarrow> SectionNode" where
  "SectionNode_new stats = \<lparr>sn_stats = stats, sn_microseconds = 0, childSections = [], sn_assertions = [],
     sn_stdOut = [], sn_stdErr = []\<rparr>"

definition BySectionInfo :: "SectionInfo \<Rightarrow> SectionNode \<Rightarrow> bool" where
  "BySectionInfo other node \<longleftrightarrow> si_name (ss_info (sn_stats node)) = si_name other \<and>
     SourceLineInfo_eq (si_lineInfo (ss_info (sn_stats node))) (si_lineInfo other)"

definition node_at :: "SectionNode list \<Rightarrow> nat \<Rightarrow> SectionNode option" where
  "node_at nodes n = (if n < length nodes then Some (nodes ! n) else None)"

definition update_node :: "nat \<Rightarrow> (SectionNode \<Rightarrow> SectionNode) \<Rightarrow> SectionNode list \<Rightarrow> SectionNode list option" where
  "update_node n f nodes = map_option (\<lambda>node. nodes[n := f node]) (node_at nodes n)"

fun find_section :: "SectionNode list \<Rightarrow> SectionInfo \<Rightarrow> nat list \<Rightarrow> (nat option) option" where
  "find_section nodes info [] = Some None"
| "find_section nodes info (n # ns) = do {
     node \<leftarrow> node_at nodes n;
     if BySectionInfo info node then Some (Some n) else find_section nodes info ns }"

definition incomplete_stats :: "SectionInfo \<Rightarrow> SectionStats" where
  "incomplete_stats info = \<lparr>ss_info = info, ss_assertions = Counts_new, missingAssertions = False\<rparr>"

text \<open>The node for a section: the root, a child of the innermost section that has its name and line, or a new one.\<close>

definition section_node ::
    "SectionInfo \<Rightarrow> 'a CumulativeReporterBase_scheme \<Rightarrow> (nat \<times> 'a CumulativeReporterBase_scheme) option" where
  "section_node info r =
     (let fresh = length (section_nodes r); node = SectionNode_new (incomplete_stats info) in
      if cr_sectionStack r = []
      then (case m_rootSection r of
          None \<Rightarrow> Some (fresh, r\<lparr>section_nodes := section_nodes r @ [node], m_rootSection := Some fresh\<rparr>)
        | Some n \<Rightarrow> Some (n, r))
      else do {
        let p = last (cr_sectionStack r);
        parentNode \<leftarrow> node_at (section_nodes r) p;
        it \<leftarrow> find_section (section_nodes r) info (childSections parentNode);
        case it of
          Some n \<Rightarrow> Some (n, r)
        | None \<Rightarrow> do {
            nodes \<leftarrow> update_node p (\<lambda>s. s\<lparr>childSections := childSections s @ [fresh]\<rparr>) (section_nodes r);
            Some (fresh, r\<lparr>section_nodes := nodes @ [node]\<rparr>) } })"

definition Cumulative_sectionStarting :: "SectionInfo \<Rightarrow> 'a CumulativeReporterBase_scheme \<Rightarrow> 'a CumulativeReporterBase_scheme option" where
  "Cumulative_sectionStarting info r = do {
     (n, r) \<leftarrow> section_node info r;
     Some (r\<lparr>cr_sectionStack := cr_sectionStack r @ [n], m_deepestSection := Some n\<rparr>) }"

text \<open>
  \<open>prepareExpandedExpression\<close> fills the cache of the result before the copy
  that is kept loses the expression.
\<close>

definition prepareExpandedExpression :: "AssertionResult \<Rightarrow> AssertionResult" where
  "prepareExpandedExpression result = result\<lparr>m_resultData := snd (reconstructExpression (m_resultData result))\<rparr>"

definition AssertionStats_copy :: "AssertionStats \<Rightarrow> AssertionStats" where
  "AssertionStats_copy s = s\<lparr>as_result := AssertionResult_copy (as_result s)\<rparr>"

definition kept_stats :: "AssertionStats \<Rightarrow> AssertionStats" where
  "kept_stats stats = AssertionStats_copy (stats\<lparr>as_result := prepareExpandedExpression (as_result stats)\<rparr>)"

definition Cumulative_assertionEnded ::
    "AssertionStats \<Rightarrow> 'a CumulativeReporterBase_scheme \<Rightarrow> (bool \<times> 'a CumulativeReporterBase_scheme) option" where
  "Cumulative_assertionEnded stats r =
     (if cr_sectionStack r = [] then None
      else do {
        nodes \<leftarrow> update_node (last (cr_sectionStack r))
          (\<lambda>s. s\<lparr>sn_assertions := sn_assertions s @ [kept_stats stats]\<rparr>) (section_nodes r);
        Some (True, r\<lparr>section_nodes := nodes\<rparr>) })"

definition Cumulative_sectionEnded ::
    "event_context \<Rightarrow> SectionStats \<Rightarrow> 'a CumulativeReporterBase_scheme \<Rightarrow> 'a CumulativeReporterBase_scheme option" where
  "Cumulative_sectionEnded x stats r =
     (if cr_sectionStack r = [] then None
      else do {
        nodes \<leftarrow> update_node (last (cr_sectionStack r))
          (\<lambda>s. s\<lparr>sn_stats := stats, sn_microseconds := sectionMicroseconds x\<rparr>) (section_nodes r);
        Some (r\<lparr>section_nodes := nodes, cr_sectionStack := butlast (cr_sectionStack r)\<rparr>) })"

definition Cumulative_testCaseEnded ::
    "TestCaseStats \<Rightarrow> 'a CumulativeReporterBase_scheme \<Rightarrow> 'a CumulativeReporterBase_scheme option" where
  "Cumulative_testCaseEnded stats r =
     (if cr_sectionStack r \<noteq> [] then None
      else do {
        let node = \<lparr>node_value = stats, node_children = [m_rootSection r]\<rparr>;
        let r = r\<lparr>m_testCases := m_testCases r @ [node], m_rootSection := None\<rparr>;
        d \<leftarrow> m_deepestSection r;
        nodes \<leftarrow> update_node d (\<lambda>s. s\<lparr>sn_stdOut := ts_stdOut stats, sn_stdErr := ts_stdErr stats\<rparr>) (section_nodes r);
        Some (r\<lparr>section_nodes := nodes\<rparr>) })"

definition Cumulative_testGroupEnded :: "TestGroupStats \<Rightarrow> 'a CumulativeReporterBase_scheme \<Rightarrow> 'a CumulativeReporterBase_scheme" where
  "Cumulative_testGroupEnded stats r =
     r\<lparr>m_testGroups := m_testGroups r @ [\<lparr>node_value = stats, node_children = m_testCases r\<rparr>], m_testCases := []\<rparr>"

text \<open>Without the call of \<open>testRunEndedCumulative\<close>, which the derived class provides.\<close>

definition Cumulative_testRunEnded :: "TestRunStats \<Rightarrow> 'a CumulativeReporterBase_scheme \<Rightarrow> 'a CumulativeReporterBase_scheme" where
  "Cumulative_testRunEnded stats r =
     r\<lparr>m_testRuns := m_testRuns r @ [\<lparr>node_value = stats, node_children = m_testGroups r\<rparr>], m_testGroups := []\<rparr>"

section \<open>The JUnit reporter\<close>

record JunitReporter = CumulativeReporterBase +
  jr_xml :: XmlWriter
  suiteTimer :: Timer
  stdOutForSuite :: string
  stdErrForSuite :: string
  unexpectedExceptions :: u32
  m_okToFail :: bool

definition JunitReporter_new :: "string \<Rightarrow> Config \<Rightarrow> string + JunitReporter" where
  "JunitReporter_new os cfg =
     (case CumulativeReporterBase_new {Normal} cfg of Inl e \<Rightarrow> Inl e
      | Inr b \<Rightarrow> Inr (CumulativeReporterBase.extend
           (b\<lparr>cr_reporterPrefs := \<lparr>shouldRedirectStdOut = True, shouldReportAllAssertions = True\<rparr>\<rparr>)
           (JunitReporter.fields (XmlWriter_new os) \<lparr>m_nanoseconds = 0\<rparr> [] [] 0 False)))"

definition on_jxml :: "xml_call list \<Rightarrow> JunitReporter \<Rightarrow> JunitReporter option" where
  "on_jxml cs r = map_option (\<lambda>w. r\<lparr>jr_xml := w\<rparr>) (run_calls cs (jr_xml r))"

fun fileNameTag :: "string list \<Rightarrow> string option" where
  "fileNameTag [] = Some []"
| "fileNameTag (t # ts) =
     (if t = [] then None else if hd t = CHR ''#'' then str_substr_end t 1 else fileNameTag ts)"

definition element_name :: "ResultWas \<Rightarrow> string" where
  "element_name ty = (case ty of
     ThrewException \<Rightarrow> ''error''
   | FatalErrorCondition \<Rightarrow> ''error''
   | ExplicitFailure \<Rightarrow> ''failure''
   | ExpressionFailed \<Rightarrow> ''failure''
   | DidntThrowException \<Rightarrow> ''failure''
   | ResultInfo \<Rightarrow> ''internalError''
   | ResultWarning \<Rightarrow> ''internalError''
   | ResultOk \<Rightarrow> ''internalError''
   | Unknown \<Rightarrow> ''internalError''
   | FailureBit \<Rightarrow> ''internalError''
   | ExceptionBit \<Rightarrow> ''internalError'')"

definition assertion_text :: "AssertionStats \<Rightarrow> string" where
  "assertion_text stats =
     (let msg = rd_message (m_resultData (as_result stats)) in
      (if msg \<noteq> [] then msg @ [CHR 0x0A] else []) @
      concat (map (\<lambda>m. if mi_type m = ResultInfo then message m @ [CHR 0x0A] else []) (infoMessages stats)) @
      ''at '' @ SourceLineInfo_print (ai_lineInfo (ar_info (as_result stats))))"

definition writeAssertion :: "AssertionStats \<Rightarrow> xml_call list" where
  "writeAssertion stats =
     (let result = as_result stats in
      if \<not> AssertionResult_isOk result
      then [CallStart (element_name (getResultType result)), CallAttribute ''message'' (getExpandedExpression result),
        CallAttribute ''type'' (macroName (ar_info result)), CallText (assertion_text stats) False, CallEnd]
      else [])"

definition writeAssertions :: "SectionNode \<Rightarrow> xml_call list" where
  "writeAssertions node = concat (map writeAssertion (sn_assertions node))"

text \<open>The element of a section itself, written when it has something to show.\<close>

definition own_calls :: "(u64 \<Rightarrow> string) \<Rightarrow> string \<Rightarrow> string \<Rightarrow> SectionNode \<Rightarrow> xml_call list option" where
  "own_calls stringify cls nm node =
     (if sn_assertions node \<noteq> [] \<or> sn_stdOut node \<noteq> [] \<or> sn_stdErr node \<noteq> []
      then do {
        out \<leftarrow> trim (sn_stdOut node);
        err \<leftarrow> trim (sn_stdErr node);
        Some ([CallStart ''testcase''] @
          (if cls = [] then [CallAttribute ''classname'' nm, CallAttribute ''name'' ''root'']
           else [CallAttribute ''classname'' cls, CallAttribute ''name'' nm]) @
          [CallAttribute ''time'' (stringify (sn_microseconds node))] @
          writeAssertions node @
          (if sn_stdOut node \<noteq> [] then [CallStart ''system-out'', CallText out False, CallEnd] else []) @
          (if sn_stdErr node \<noteq> [] then [CallStart ''system-err'', CallText err False, CallEnd] else []) @
          [CallEnd]) }
      else Some [])"

text \<open>\<open>writeSection\<close> for each node of a list, as its loop over the children calls it.\<close>

partial_function (option) writeSections ::
    "(u64 \<Rightarrow> string) \<Rightarrow> SectionNode list \<Rightarrow> string \<Rightarrow> string \<Rightarrow> nat list \<Rightarrow> xml_call list option" where
  "writeSections stringify nodes cls rootName ns = (case ns of
     [] \<Rightarrow> Some []
   | n # rest \<Rightarrow> do {
       node \<leftarrow> node_at nodes n;
       trimmed \<leftarrow> trim (si_name (ss_info (sn_stats node)));
       let nm = (if rootName \<noteq> [] then rootName @ ''/'' @ trimmed else trimmed);
       own \<leftarrow> own_calls stringify cls nm node;
       below \<leftarrow> (if cls = [] then writeSections stringify nodes nm [] (childSections node)
                else writeSections stringify nodes cls nm (childSections node));
       others \<leftarrow> writeSections stringify nodes cls rootName rest;
       Some (own @ below @ others) })"

declare writeSections.simps [code]

definition writeTestCase :: "(u64 \<Rightarrow> string) \<Rightarrow> Config \<Rightarrow> SectionNode list \<Rightarrow> TestCaseNode \<Rightarrow> xml_call list option" where
  "writeTestCase stringify cfg nodes tcn = (case node_children tcn of
     [Some root] \<Rightarrow> do {
       let info = ts_testInfo (node_value tcn);
       cls \<leftarrow> (if className info = [] then
            map_option (\<lambda>t. if t = [] then ''global'' else t) (fileNameTag (tags info))
          else Some (className info));
       let cls = (if Config_name cfg \<noteq> [] then Config_name cfg @ ''.'' @ cls else cls);
       writeSections stringify nodes cls [] [root] }
   | _ \<Rightarrow> None)"

fun writeTestCases :: "(u64 \<Rightarrow> string) \<Rightarrow> Config \<Rightarrow> SectionNode list \<Rightarrow> TestCaseNode list \<Rightarrow> xml_call list option" where
  "writeTestCases stringify cfg nodes [] = Some []"
| "writeTestCases stringify cfg nodes (t # ts) = do {
     cs \<leftarrow> writeTestCase stringify cfg nodes t;
     ds \<leftarrow> writeTestCases stringify cfg nodes ts;
     Some (cs @ ds) }"

definition suite_attributes :: "event_context \<Rightarrow> string \<Rightarrow> TestGroupStats \<Rightarrow> JunitReporter \<Rightarrow> xml_call list" where
  "suite_attributes x suiteTime stats r =
     [CallAttribute ''name'' (gi_name (gs_groupInfo stats)),
      CallAttribute ''errors'' (show_nat (unat (unexpectedExceptions r))),
      attribute_u64 ''failures'' (failed (assertions (gs_totals stats)) - ucast (unexpectedExceptions r)),
      attribute_u64 ''tests'' (Counts_total (assertions (gs_totals stats))),
      CallAttribute ''hostname'' ''tbd'',
      (if showDurations (cfg_data (cr_config r)) = DurationsNever then CallAttribute ''time'' []
       else CallAttribute ''time'' suiteTime),
      CallAttribute ''timestamp'' (timestamp x)]"

definition suite_properties :: "Config \<Rightarrow> xml_call list" where
  "suite_properties cfg =
     (if m_hasTestFilters cfg \<or> rngSeed (cfg_data cfg) \<noteq> 0
      then [CallStart ''properties''] @
        (if m_hasTestFilters cfg
         then [CallStart ''property'', CallAttribute ''name'' ''filters'',
           CallAttribute ''value'' (serializeFilters (testsOrTags (cfg_data cfg))), CallEnd] else []) @
        (if rngSeed (cfg_data cfg) \<noteq> 0
         then [CallStart ''property'', CallAttribute ''name'' ''random-seed'',
           CallAttribute ''value'' (show_nat (unat (rngSeed (cfg_data cfg)))), CallEnd] else []) @
        [CallEnd]
      else [])"

definition writeGroup :: "event_context \<Rightarrow> TestGroupNode \<Rightarrow> string \<Rightarrow> JunitReporter \<Rightarrow> JunitReporter option" where
  "writeGroup x groupNode suiteTime r = do {
     cs \<leftarrow> writeTestCases (stringify_seconds x) (cr_config r) (section_nodes r) (node_children groupNode);
     out \<leftarrow> trim (stdOutForSuite r);
     err \<leftarrow> trim (stdErrForSuite r);
     on_jxml ([CallStart ''testsuite''] @ suite_attributes x suiteTime (node_value groupNode) r @
       suite_properties (cr_config r) @ cs @
       [CallStart ''system-out'', CallText out False, CallEnd] @
       [CallStart ''system-err'', CallText err False, CallEnd] @
       [CallEnd]) r }"

definition JunitReporter_testRunStarting :: "JunitReporter \<Rightarrow> JunitReporter option" where
  "JunitReporter_testRunStarting r = on_jxml [CallStart ''testsuites''] r"

definition JunitReporter_testGroupStarting :: "event_context \<Rightarrow> JunitReporter \<Rightarrow> JunitReporter" where
  "JunitReporter_testGroupStarting x r =
     r\<lparr>suiteTimer := Timer_start (clock x) (suiteTimer r), stdOutForSuite := [], stdErrForSuite := [],
       unexpectedExceptions := 0\<rparr>"

definition JunitReporter_testCaseStarting :: "TestCase \<Rightarrow> JunitReporter \<Rightarrow> JunitReporter" where
  "JunitReporter_testCaseStarting info r = r\<lparr>m_okToFail := okToFail info\<rparr>"

definition JunitReporter_assertionEnded :: "AssertionStats \<Rightarrow> JunitReporter \<Rightarrow> (bool \<times> JunitReporter) option" where
  "JunitReporter_assertionEnded stats r =
     Cumulative_assertionEnded stats
       (if getResultType (as_result stats) = ThrewException \<and> \<not> m_okToFail r
        then r\<lparr>unexpectedExceptions := unexpectedExceptions r + 1\<rparr> else r)"

definition JunitReporter_testCaseEnded :: "TestCaseStats \<Rightarrow> JunitReporter \<Rightarrow> JunitReporter option" where
  "JunitReporter_testCaseEnded stats r =
     Cumulative_testCaseEnded stats
       (r\<lparr>stdOutForSuite := stdOutForSuite r @ ts_stdOut stats, stdErrForSuite := stdErrForSuite r @ ts_stdErr stats\<rparr>)"

definition JunitReporter_testGroupEnded :: "event_context \<Rightarrow> TestGroupStats \<Rightarrow> JunitReporter \<Rightarrow> JunitReporter option" where
  "JunitReporter_testGroupEnded x stats r =
     (let suiteTime = getElapsedSeconds x (suiteTimer r);
          r = Cumulative_testGroupEnded stats r
      in writeGroup x (last (m_testGroups r)) suiteTime r)"

definition JunitReporter_testRunEnded :: "TestRunStats \<Rightarrow> JunitReporter \<Rightarrow> JunitReporter option" where
  "JunitReporter_testRunEnded stats r = on_jxml [CallEnd] (Cumulative_testRunEnded stats r)"

definition JunitReporter_handle :: "event_context \<Rightarrow> event \<Rightarrow> JunitReporter \<Rightarrow> JunitReporter option" where
  "JunitReporter_handle x e r = (case e of
     TestRunStarting n \<Rightarrow> JunitReporter_testRunStarting r
   | TestGroupStarting g \<Rightarrow> Some (JunitReporter_testGroupStarting x r)
   | TestCaseStarting tc \<Rightarrow> Some (JunitReporter_testCaseStarting tc r)
   | SectionStarting s \<Rightarrow> Cumulative_sectionStarting s r
   | AssertionStarting i \<Rightarrow> Some r
   | AssertionEnded s \<Rightarrow> map_option snd (JunitReporter_assertionEnded s r)
   | SectionEnded s \<Rightarrow> Cumulative_sectionEnded x s r
   | TestCaseEnded tc t a \<Rightarrow> JunitReporter_testCaseEnded
       \<lparr>ts_testInfo = tc, ts_totals = t, ts_stdOut = stdOut x, ts_stdErr = stdErr x, ts_aborting = a\<rparr> r
   | TestGroupEnded g t a \<Rightarrow> JunitReporter_testGroupEnded x \<lparr>gs_groupInfo = g, gs_totals = t, gs_aborting = a\<rparr> r
   | TestRunEnded n t a \<Rightarrow> JunitReporter_testRunEnded \<lparr>rs_runInfo = n, rs_totals = t, rs_aborting = a\<rparr> r
   | FatalErrorEncountered n \<Rightarrow> Some r
   | SkipTest tc \<Rightarrow> Some r
   | NoMatchingTestCases s \<Rightarrow> Some r)"

section \<open>What is kept of an assertion\<close>

lemma kept_stats_simps [simp]:
  "getResultType (as_result (kept_stats s)) = getResultType (as_result s)"
  "AssertionResult_isOk (as_result (kept_stats s)) = AssertionResult_isOk (as_result s)"
  "ar_info (as_result (kept_stats s)) = ar_info (as_result s)"
  "infoMessages (kept_stats s) = infoMessages s"
  by (simp_all add: kept_stats_def AssertionStats_copy_def AssertionResult_copy_def AssertionResultData_copy_def
      prepareExpandedExpression_def reconstructExpression_def Let_def getResultType_def AssertionResult_isOk_def)

text \<open>The expanded expression can still be shown after the temporary expression is gone.\<close>

lemma kept_expanded: "getExpandedExpression (as_result (kept_stats s)) = getExpandedExpression (as_result s)"
  by (simp add: kept_stats_def AssertionStats_copy_def AssertionResult_copy_def AssertionResultData_copy_def LazyExpression_copy_def
      prepareExpandedExpression_def reconstructExpression_def Let_def getExpandedExpression_def getExpression_def)

section \<open>The tree of sections\<close>

text \<open>
  A child is allocated after its parent, so writing a section ends.  The
  weight of a node is the number of failed assertions in its subtree.
\<close>

definition nodes_ok :: "SectionNode list \<Rightarrow> bool" where
  "nodes_ok nodes \<longleftrightarrow> (\<forall>i < length nodes. \<forall>c \<in> set (childSections (nodes ! i)). i < c \<and> c < length nodes)"

lemma nodes_okD:
  "nodes_ok nodes \<Longrightarrow> i < length nodes \<Longrightarrow> c \<in> set (childSections (nodes ! i)) \<Longrightarrow> i < c \<and> c < length nodes"
  unfolding nodes_ok_def by blast

lemma nodes_okI:
  "(\<And>i c. i < length nodes \<Longrightarrow> c \<in> set (childSections (nodes ! i)) \<Longrightarrow> i < c \<and> c < length nodes) \<Longrightarrow> nodes_ok nodes"
  unfolding nodes_ok_def by blast

definition node_failures :: "SectionNode \<Rightarrow> nat" where
  "node_failures node = length (filter (\<lambda>s. \<not> AssertionResult_isOk (as_result s)) (sn_assertions node))"

function weight :: "SectionNode list \<Rightarrow> nat \<Rightarrow> nat" where
  "weight nodes n =
     (if n < length nodes
      then node_failures (nodes ! n) + sum_list (map (\<lambda>c. if n < c then weight nodes c else 0) (childSections (nodes ! n)))
      else 0)"
  by pat_completeness auto
termination by (relation "measure (\<lambda>(nodes, n). length nodes - n)") auto

declare weight.simps [simp del]

lemma weight_eq:
  assumes "nodes_ok nodes" "n < length nodes"
  shows "weight nodes n = node_failures (nodes ! n) + sum_list (map (weight nodes) (childSections (nodes ! n)))"
proof -
  have "\<forall>c \<in> set (childSections (nodes ! n)). n < c" using nodes_okD [OF assms] by blast
  then have "map (\<lambda>c. if n < c then weight nodes c else 0) (childSections (nodes ! n)) = map (weight nodes) (childSections (nodes ! n))"
    by (intro map_cong) simp_all
  with assms(2) weight.simps [of nodes n] show ?thesis by (simp only: if_True)
qed

text \<open>When every node is a root or a child exactly once, the weights of the roots add up to all failures.\<close>

lemma sum_list_mset_eq:
  fixes f :: "'a \<Rightarrow> nat"
  assumes "mset xs = mset ys"
  shows "sum_list (map f xs) = sum_list (map f ys)"
  using arg_cong [OF assms, of "\<lambda>m. sum_mset (image_mset f m)"] unfolding mset_map [symmetric] sum_mset_sum_list .

lemma weight_roots:
  assumes ok: "nodes_ok nodes" and "mset (roots @ concat (map childSections nodes)) = mset [0..<length nodes]"
  shows "sum_list (map (weight nodes) roots) = sum_list (map node_failures nodes)"
proof -
  let ?W = "weight nodes"
  have "sum_list (map ?W roots) + sum_list (map ?W (concat (map childSections nodes))) = sum_list (map ?W [0..<length nodes])"
    using sum_list_mset_eq [OF assms(2), of ?W] by simp
  also have "\<dots> = sum_list (map (\<lambda>n. node_failures (nodes ! n) + sum_list (map ?W (childSections (nodes ! n)))) [0..<length nodes])"
    by (intro arg_cong [where f = sum_list] map_cong refl weight_eq [OF ok]) simp
  also have "\<dots> = sum_list (map (\<lambda>node. node_failures node + sum_list (map ?W (childSections node))) (map ((!) nodes) [0..<length nodes]))"
    by (simp add: comp_def)
  also have "\<dots> = sum_list (map node_failures nodes) + sum_list (map ?W (concat (map childSections nodes)))"
  proof -
    have "sum_list (map (\<lambda>node. node_failures node + sum_list (map ?W (childSections node))) xs) =
        sum_list (map node_failures xs) + sum_list (map ?W (concat (map childSections xs)))" for xs
      by (induction xs) simp_all
    then show ?thesis unfolding map_nth .
  qed
  finally show ?thesis by simp
qed

section \<open>Writing sections\<close>

fun failure_call :: "xml_call \<Rightarrow> bool" where
  "failure_call (CallStart n) \<longleftrightarrow> n = ''error'' \<or> n = ''failure'' \<or> n = ''internalError''"
| "failure_call _ \<longleftrightarrow> False"

definition failure_count :: "xml_call list \<Rightarrow> nat" where
  "failure_count cs = length (filter failure_call cs)"

lemma failure_count_simps [simp]:
  "failure_count [] = 0" "failure_count (c # cs) = (if failure_call c then 1 else 0) + failure_count cs"
  "failure_count (cs @ ds) = failure_count cs + failure_count ds"
  by (simp_all add: failure_count_def)

lemma element_name_valid [simp]: "valid_name (element_name ty)" "failure_call (CallStart (element_name ty))"
  by (cases ty; simp add: element_name_def xml_names)+

lemma writeAssertion_block:
  "block (writeAssertion s)" "failure_count (writeAssertion s) = (if AssertionResult_isOk (as_result s) then 0 else 1)"
proof -
  let ?as = "[CallAttribute ''message'' (getExpandedExpression (as_result s)), CallAttribute ''type'' (macroName (ar_info (as_result s)))]"
  have "\<forall>c \<in> set ?as. attribute_call c" by (simp add: xml_names)
  from element_block [OF element_name_valid(1) this block_text, of "getResultType (as_result s)" "assertion_text s" False]
  show "block (writeAssertion s)" by (simp add: writeAssertion_def Let_def)
  show "failure_count (writeAssertion s) = (if AssertionResult_isOk (as_result s) then 0 else 1)"
    using element_name_valid(2) [of "getResultType (as_result s)"]
    by (simp add: writeAssertion_def Let_def del: failure_call.simps(1))
qed

lemma writeAssertions_block: "block (writeAssertions node)" "failure_count (writeAssertions node) = node_failures node"
proof -
  have "block (concat (map writeAssertion ss))" "failure_count (concat (map writeAssertion ss)) =
      length (filter (\<lambda>s. \<not> AssertionResult_isOk (as_result s)) ss)" for ss
    by (induction ss) (simp_all add: block_append writeAssertion_block)
  then show "block (writeAssertions node)" "failure_count (writeAssertions node) = node_failures node"
    by (simp_all add: writeAssertions_def node_failures_def)
qed

lemma own_calls_block: "\<exists>cs. own_calls st cls nm node = Some cs \<and> block cs \<and> failure_count cs = node_failures node"
proof (cases "sn_assertions node \<noteq> [] \<or> sn_stdOut node \<noteq> [] \<or> sn_stdErr node \<noteq> []")
  case True
  obtain out err where t: "trim (sn_stdOut node) = Some out" "trim (sn_stdErr node) = Some err" using trim_total by blast
  let ?as = "(if cls = [] then [CallAttribute ''classname'' nm, CallAttribute ''name'' ''root'']
           else [CallAttribute ''classname'' cls, CallAttribute ''name'' nm]) @ [CallAttribute ''time'' (st (sn_microseconds node))]"
  let ?cs = "writeAssertions node @
          (if sn_stdOut node \<noteq> [] then [CallStart ''system-out'', CallText out False, CallEnd] else []) @
          (if sn_stdErr node \<noteq> [] then [CallStart ''system-err'', CallText err False, CallEnd] else [])"
  have "block [CallStart ''system-out'', CallText out False, CallEnd]" "block [CallStart ''system-err'', CallText err False, CallEnd]"
    by (rule text_element, simp add: xml_names)+
  then have "block ?cs" by (intro block_append writeAssertions_block) simp_all
  then have "block (CallStart ''testcase'' # ?as @ ?cs @ [CallEnd])" by (intro element_block) (auto simp: xml_names)
  moreover have "failure_count (CallStart ''testcase'' # ?as @ ?cs @ [CallEnd]) = node_failures node"
    by (simp add: writeAssertions_block)
  moreover have "own_calls st cls nm node = Some (CallStart ''testcase'' # ?as @ ?cs @ [CallEnd])"
    using True by (simp add: own_calls_def t)
  ultimately show ?thesis by blast
qed (simp add: own_calls_def node_failures_def)

lemma writeSections_ok:
  assumes ok: "nodes_ok nodes"
  shows "\<forall>n \<in> set ns. n < length nodes \<and> length nodes \<le> n + k \<Longrightarrow>
    \<exists>cs. writeSections st nodes cls root ns = Some cs \<and> block cs \<and> failure_count cs = sum_list (map (weight nodes) ns)"
proof (induction k arbitrary: cls root ns)
  case 0
  then have "ns = []" by (cases ns) auto
  then show ?case by (simp add: writeSections.simps [of st nodes cls root "[]"])
next
  case (Suc k)
  from Suc.prems show ?case
  proof (induction ns)
    case Nil
    show ?case by (simp add: writeSections.simps [of st nodes cls root "[]"])
  next
    case (Cons n ns)
    have n: "n < length nodes" "length nodes \<le> n + Suc k" using Cons.prems by simp_all
    let ?node = "nodes ! n"
    obtain t where t: "trim (si_name (ss_info (sn_stats ?node))) = Some t" using trim_total by blast
    define nm where "nm = (if root \<noteq> [] then root @ ''/'' @ t else t)"
    obtain own where own: "own_calls st cls nm ?node = Some own" "block own" "failure_count own = node_failures ?node"
      using own_calls_block by blast
    have c: "\<forall>c \<in> set (childSections ?node). c < length nodes \<and> length nodes \<le> c + k"
      using nodes_okD [OF ok n(1)] n(2) by fastforce
    obtain below where below: "(if cls = [] then writeSections st nodes nm [] (childSections ?node)
        else writeSections st nodes cls nm (childSections ?node)) = Some below" "block below"
        "failure_count below = sum_list (map (weight nodes) (childSections ?node))"
      using Suc.IH [OF c, of nm "[]"] Suc.IH [OF c, of cls nm] by (cases "cls = []") auto
    obtain others where "writeSections st nodes cls root ns = Some others" "block others"
        "failure_count others = sum_list (map (weight nodes) ns)"
      using Cons.IH Cons.prems by auto
    moreover from this own(1) below(1) t n(1) have "writeSections st nodes cls root (n # ns) = Some (own @ below @ others)"
      unfolding writeSections.simps [of st nodes cls root "n # ns"]
      by (simp only: list.case node_at_def if_True Option.bind.simps Let_def nm_def [symmetric])
    ultimately show ?case using own(2,3) below(2,3) weight_eq [OF ok n(1)] by (simp add: block_append)
  qed
qed

definition case_ok :: "SectionNode list \<Rightarrow> TestCaseNode \<Rightarrow> bool" where
  "case_ok nodes t \<longleftrightarrow> (\<exists>root. node_children t = [Some root] \<and> root < length nodes) \<and>
     [] \<notin> set (tags (ts_testInfo (node_value t)))"

definition case_roots :: "TestCaseNode list \<Rightarrow> nat list" where
  "case_roots ts = map (\<lambda>t. the (hd (node_children t))) ts"

lemma fileNameTag_total: "[] \<notin> set ts \<Longrightarrow> \<exists>t. fileNameTag ts = Some t"
  by (induction ts) (auto simp: str_substr_end_def Suc_le_eq)

lemma writeTestCases_ok:
  assumes ok: "nodes_ok nodes" and "\<forall>t \<in> set ts. case_ok nodes t"
  shows "\<exists>cs. writeTestCases st cfg nodes ts = Some cs \<and> block cs \<and>
    failure_count cs = sum_list (map (weight nodes) (case_roots ts))"
  using assms(2)
proof (induction ts)
  case (Cons t ts)
  from Cons.prems obtain root where root: "node_children t = [Some root]" "root < length nodes"
    and tags: "[] \<notin> set (tags (ts_testInfo (node_value t)))" by (auto simp: case_ok_def)
  obtain f where f: "fileNameTag (tags (ts_testInfo (node_value t))) = Some f" using fileNameTag_total [OF tags] by blast
  have "\<forall>n \<in> set [root]. n < length nodes \<and> length nodes \<le> n + length nodes" using root(2) by simp
  moreover have "\<exists>cls. writeTestCase st cfg nodes t = writeSections st nodes cls [] [root]"
    by (cases "className (ts_testInfo (node_value t)) = []") (auto simp: writeTestCase_def root f Let_def)
  ultimately obtain cs where
    cs: "writeTestCase st cfg nodes t = Some cs" "block cs" "failure_count cs = weight nodes root"
    using writeSections_ok [OF ok, of "[root]" "length nodes" st] by fastforce
  moreover obtain ds where "writeTestCases st cfg nodes ts = Some ds" "block ds"
      "failure_count ds = sum_list (map (weight nodes) (case_roots ts))"
    using Cons by auto
  ultimately show ?case by (simp add: block_append case_roots_def root)
qed (simp add: case_roots_def)

section \<open>The collected tree\<close>

lemma map_update_same:
  "n < length nodes \<Longrightarrow> g (f (nodes ! n)) = g (nodes ! n) \<Longrightarrow> map g (nodes[n := f (nodes ! n)]) = map g nodes"
  by (simp add: map_update list_update_same_conv)

lemma nodes_ok_children:
  assumes "map childSections nodes' = map childSections nodes" "nodes_ok nodes"
  shows "nodes_ok nodes'"
proof (rule nodes_okI)
  fix i c
  assume i: "i < length nodes'" "c \<in> set (childSections (nodes' ! i))"
  have len: "length nodes' = length nodes" using arg_cong [OF assms(1), of length] by simp
  then have "childSections (nodes' ! i) = childSections (nodes ! i)"
    using arg_cong [OF assms(1), of "\<lambda>xs. xs ! i"] i(1) by simp
  then show "i < c \<and> c < length nodes'" using nodes_okD [OF assms(2), of i c] i len by simp
qed

lemma nodes_ok_fresh:
  assumes "nodes_ok nodes" "childSections node = []"
  shows "nodes_ok (nodes @ [node])"
proof (rule nodes_okI)
  fix i c
  assume i: "i < length (nodes @ [node])" and c: "c \<in> set (childSections ((nodes @ [node]) ! i))"
  then have "i < length nodes" "c \<in> set (childSections (nodes ! i))" using assms(2) by (auto simp: nth_append split: if_splits)
  from nodes_okD [OF assms(1) this] show "i < c \<and> c < length (nodes @ [node])" by simp
qed

lemma nodes_ok_child:
  assumes "nodes_ok nodes" "p < length nodes" "childSections node = []"
  shows "nodes_ok (nodes[p := (nodes ! p)\<lparr>childSections := childSections (nodes ! p) @ [length nodes]\<rparr>] @ [node])"
proof (rule nodes_okI)
  fix i c
  let ?nodes = "nodes[p := (nodes ! p)\<lparr>childSections := childSections (nodes ! p) @ [length nodes]\<rparr>] @ [node]"
  assume i: "i < length ?nodes" and c: "c \<in> set (childSections (?nodes ! i))"
  show "i < c \<and> c < length ?nodes"
  proof (cases "i < length nodes")
    case True
    then have "c \<in> set (childSections (nodes ! i)) \<or> c = length nodes"
      using c by (cases "i = p") (auto simp: nth_append)
    with nodes_okD [OF assms(1) True] True show ?thesis by fastforce
  next
    case False
    with i have "i = length nodes" by simp
    with c assms(3) show ?thesis by (simp add: nth_append)
  qed
qed

lemma concat_snoc_at:
  assumes "p < length xs"
  shows "mset (concat (xs[p := xs ! p @ [v]])) = add_mset v (mset (concat xs))"
proof -
  have "mset (concat (take p xs @ xs ! p # drop (Suc p) xs)) = mset (concat xs)"
    by (simp only: id_take_nth_drop [OF assms, symmetric])
  then show ?thesis by (simp add: upd_conv_take_nth_drop [OF assms])
qed

lemma find_section_total:
  "\<forall>n \<in> set ns. n < length nodes \<Longrightarrow> \<exists>it. find_section nodes info ns = Some it \<and> (\<forall>n. it = Some n \<longrightarrow> n \<in> set ns)"
  by (induction ns) (auto simp: node_at_def)

definition root_list :: "nat option \<Rightarrow> nat list" where
  "root_list root = (case root of None \<Rightarrow> [] | Some n \<Rightarrow> [n])"

definition tree_ok :: "JunitReporter \<Rightarrow> bool" where
  "tree_ok r \<longleftrightarrow> nodes_ok (section_nodes r) \<and> (\<forall>n \<in> set (cr_sectionStack r). n < length (section_nodes r)) \<and>
     (\<forall>n. m_rootSection r = Some n \<longrightarrow> n < length (section_nodes r)) \<and>
     (\<forall>n. m_deepestSection r = Some n \<longrightarrow> n < length (section_nodes r)) \<and>
     (\<forall>t \<in> set (m_testCases r). case_ok (section_nodes r) t)"

text \<open>
  Every node is in the tree of exactly one test case, or of the running one,
  and the nodes hold \<open>k\<close> failed assertions.
\<close>

definition tally :: "nat \<Rightarrow> JunitReporter \<Rightarrow> bool" where
  "tally k r \<longleftrightarrow> mset (case_roots (m_testCases r) @ root_list (m_rootSection r) @ concat (map childSections (section_nodes r))) =
     mset [0..<length (section_nodes r)] \<and> sum_list (map node_failures (section_nodes r)) = k"

lemma case_ok_longer: "case_ok nodes t \<Longrightarrow> length nodes \<le> length nodes' \<Longrightarrow> case_ok nodes' t"
  by (auto simp: case_ok_def)

lemma section_node_ok:
  assumes "tree_ok r" "cr_sectionStack r \<noteq> [] \<Longrightarrow> m_rootSection r \<noteq> None"
  shows "\<exists>n r'. section_node info r = Some (n, r') \<and> tree_ok r' \<and> n < length (section_nodes r') \<and> m_rootSection r' \<noteq> None \<and>
     cr_sectionStack r' = cr_sectionStack r \<and> jr_xml r' = jr_xml r \<and> (\<forall>k. tally k r \<longrightarrow> tally k r')"
proof (cases "cr_sectionStack r = []")
  case True
  let ?new = "SectionNode_new (incomplete_stats info)"
  have new: "childSections ?new = []" "node_failures ?new = 0" by (simp_all add: SectionNode_new_def node_failures_def)
  show ?thesis
  proof (cases "m_rootSection r")
    case None
    let ?r = "r\<lparr>section_nodes := section_nodes r @ [?new], m_rootSection := Some (length (section_nodes r))\<rparr>"
    have "tree_ok ?r"
      using assms(1) nodes_ok_fresh [of "section_nodes r" ?new] new
      by (auto simp: tree_ok_def less_Suc_eq intro: case_ok_longer)
    moreover have "tally k ?r" if "tally k r" for k
      using that new None by (simp add: tally_def root_list_def)
    moreover have "section_node info r = Some (length (section_nodes r), ?r)" using True None by (simp add: section_node_def Let_def)
    ultimately show ?thesis by auto
  next
    case (Some n)
    then have "section_node info r = Some (n, r)" using True by (simp add: section_node_def Let_def)
    moreover have "n < length (section_nodes r)" using assms(1) Some by (simp add: tree_ok_def)
    ultimately show ?thesis using assms(1) Some by auto
  qed
next
  case False
  let ?nodes = "section_nodes r" and ?p = "last (cr_sectionStack r)" and ?new = "SectionNode_new (incomplete_stats info)"
  have new: "childSections ?new = []" "node_failures ?new = 0" by (simp_all add: SectionNode_new_def node_failures_def)
  have p: "?p < length ?nodes" and ok: "nodes_ok ?nodes" using assms(1) False by (simp_all add: tree_ok_def)
  have "\<forall>c \<in> set (childSections (?nodes ! ?p)). c < length ?nodes" using nodes_okD [OF ok p] by blast
  then obtain it where it: "find_section ?nodes info (childSections (?nodes ! ?p)) = Some it"
    "\<forall>n. it = Some n \<longrightarrow> n < length ?nodes" using find_section_total by blast
  show ?thesis
  proof (cases it)
    case (Some n)
    then have "section_node info r = Some (n, r)" using it False p by (simp add: section_node_def Let_def node_at_def)
    then show ?thesis using assms it Some False by auto
  next
    case None
    let ?parent = "(?nodes ! ?p)\<lparr>childSections := childSections (?nodes ! ?p) @ [length ?nodes]\<rparr>"
    let ?nodes' = "?nodes[?p := ?parent] @ [?new]"
    let ?r = "r\<lparr>section_nodes := ?nodes'\<rparr>"
    have "tree_ok ?r"
      using assms(1) nodes_ok_child [OF ok p new(1)]
      by (auto simp: tree_ok_def less_Suc_eq intro: case_ok_longer)
    moreover have "tally k ?r" if t: "tally k r" for k
    proof -
      have "map childSections (?nodes[?p := ?parent]) =
          (map childSections ?nodes)[?p := map childSections ?nodes ! ?p @ [length ?nodes]]"
        using p by (simp add: map_update)
      then have "mset (concat (map childSections ?nodes')) = add_mset (length ?nodes) (mset (concat (map childSections ?nodes)))"
        using concat_snoc_at [of ?p "map childSections ?nodes" "length ?nodes"] p new(1) by simp
      moreover have "map node_failures (?nodes[?p := ?parent]) = map node_failures ?nodes"
        by (rule map_update_same [where f = "\<lambda>s. s\<lparr>childSections := childSections s @ [length ?nodes]\<rparr>"]) (use p in \<open>simp_all add: node_failures_def\<close>)
      ultimately show ?thesis using t new(2) by (simp add: tally_def)
    qed
    moreover have "section_node info r = Some (length ?nodes, ?r)"
      using False None it p by (simp add: section_node_def Let_def node_at_def update_node_def)
    ultimately show ?thesis using assms(2) False by auto
  qed
qed

section \<open>The reporter handles a report in order\<close>

definition junit_ready :: "place \<Rightarrow> JunitReporter \<Rightarrow> bool" where
  "junit_ready p r \<longleftrightarrow> writer_ok (jr_xml r) \<and> m_tags (jr_xml r) = (if p = Outside then [] else [''testsuites'']) \<and>
     length (cr_sectionStack r) = depth_of p \<and> tree_ok r \<and>
     (if \<exists>n. p = InCase n then m_rootSection r \<noteq> None \<and> m_deepestSection r \<noteq> None else m_rootSection r = None)"

text \<open>A test case whose tags the reporter can read: none is empty.\<close>

fun junit_event :: "event \<Rightarrow> bool" where
  "junit_event (TestCaseEnded tc t a) \<longleftrightarrow> [] \<notin> set (tags tc)"
| "junit_event _ \<longleftrightarrow> True"

fun failed_assertion :: "event \<Rightarrow> bool" where
  "failed_assertion (AssertionEnded s) \<longleftrightarrow> \<not> AssertionResult_isOk (as_result s)"
| "failed_assertion _ \<longleftrightarrow> False"

fun group_end :: "event \<Rightarrow> bool" where
  "group_end (TestGroupEnded g t a) \<longleftrightarrow> True"
| "group_end _ \<longleftrightarrow> False"

definition tallies :: "event \<Rightarrow> JunitReporter \<Rightarrow> JunitReporter \<Rightarrow> bool" where
  "tallies e r r' \<longleftrightarrow> (\<not> group_end e \<longrightarrow> (\<forall>k. tally k r \<longrightarrow> tally (k + (if failed_assertion e then 1 else 0)) r'))"

lemma on_jxml_ok:
  assumes "run_calls cs (jr_xml r) = Some w"
  shows "on_jxml cs r = Some (r\<lparr>jr_xml := w\<rparr>)"
  using assms by (simp add: on_jxml_def)

lemma tree_ok_frame:
  "section_nodes r' = section_nodes r \<Longrightarrow> cr_sectionStack r' = cr_sectionStack r \<Longrightarrow> m_rootSection r' = m_rootSection r \<Longrightarrow>
   m_deepestSection r' = m_deepestSection r \<Longrightarrow> m_testCases r' = m_testCases r \<Longrightarrow> tree_ok r' = tree_ok r \<and> tally k r' = tally k r"
  by (simp add: tree_ok_def tally_def)

lemma update_node_ok:
  assumes "tree_ok r" "n < length (section_nodes r)" "\<And>s. childSections (f s) = childSections s"
  shows "update_node n f (section_nodes r) = Some ((section_nodes r)[n := f (section_nodes r ! n)])"
    "nodes_ok ((section_nodes r)[n := f (section_nodes r ! n)])"
    "map childSections ((section_nodes r)[n := f (section_nodes r ! n)]) = map childSections (section_nodes r)"
proof -
  show "update_node n f (section_nodes r) = Some ((section_nodes r)[n := f (section_nodes r ! n)])"
    using assms(2) by (simp add: update_node_def node_at_def)
  show eq: "map childSections ((section_nodes r)[n := f (section_nodes r ! n)]) = map childSections (section_nodes r)"
    using assms(2,3) by (intro map_update_same) simp_all
  from nodes_ok_children [OF eq] assms(1) show "nodes_ok ((section_nodes r)[n := f (section_nodes r ! n)])"
    by (simp add: tree_ok_def)
qed

lemma junit_sectionStarting:
  assumes "junit_ready p r" "advance p (SectionStarting s) = Some p'"
  shows "\<exists>r'. Cumulative_sectionStarting s r = Some r' \<and> junit_ready p' r' \<and> tallies (SectionStarting s) r r'"
proof -
  from assms(2) have p': "p' = InCase (Suc (depth_of p))" "p \<noteq> Outside" by (cases p; auto)+
  have r: "tree_ok r" "length (cr_sectionStack r) = depth_of p" using assms(1) by (simp_all add: junit_ready_def)
  have "cr_sectionStack r \<noteq> [] \<Longrightarrow> m_rootSection r \<noteq> None"
    using assms r(2) by (cases p) (auto simp: junit_ready_def)
  from section_node_ok [OF r(1) this] obtain n r1 where
    r1: "section_node s r = Some (n, r1)" "tree_ok r1" "n < length (section_nodes r1)" "m_rootSection r1 \<noteq> None"
      "cr_sectionStack r1 = cr_sectionStack r" "jr_xml r1 = jr_xml r" "\<forall>k. tally k r \<longrightarrow> tally k r1" by blast
  let ?r = "r1\<lparr>cr_sectionStack := cr_sectionStack r1 @ [n], m_deepestSection := Some n\<rparr>"
  have "tree_ok ?r" using r1(2,3) by (auto simp: tree_ok_def)
  then have "junit_ready p' ?r" using assms(1) r1 r p' by (auto simp: junit_ready_def)
  moreover have "tallies (SectionStarting s) r ?r" using r1(7) by (simp add: tallies_def tally_def)
  moreover have "Cumulative_sectionStarting s r = Some ?r" using r1(1) by (simp add: Cumulative_sectionStarting_def)
  ultimately show ?thesis by blast
qed

lemma junit_sectionEnded:
  assumes "junit_ready (InCase (Suc n)) r"
  shows "\<exists>r'. Cumulative_sectionEnded x s r = Some r' \<and> junit_ready (InCase n) r' \<and> tallies (SectionEnded s) r r'"
proof -
  let ?m = "last (cr_sectionStack r)" and ?f = "\<lambda>node. node\<lparr>sn_stats := s, sn_microseconds := sectionMicroseconds x\<rparr>"
  have r: "tree_ok r" "cr_sectionStack r \<noteq> []" using assms by (auto simp: junit_ready_def)
  then have m: "?m < length (section_nodes r)" by (simp add: tree_ok_def)
  note up = update_node_ok [where f = ?f, OF r(1) m]
  let ?r = "r\<lparr>section_nodes := (section_nodes r)[?m := ?f (section_nodes r ! ?m)], cr_sectionStack := butlast (cr_sectionStack r)\<rparr>"
  have "tree_ok ?r" using r(1) up(2) by (auto simp: tree_ok_def dest: in_set_butlastD intro: case_ok_longer)
  then have "junit_ready (InCase n) ?r" using assms by (auto simp: junit_ready_def)
  moreover have "map node_failures ((section_nodes r)[?m := ?f (section_nodes r ! ?m)]) = map node_failures (section_nodes r)"
    by (rule map_update_same [where f = ?f]) (use m in \<open>simp_all add: node_failures_def\<close>)
  then have "tallies (SectionEnded s) r ?r" using up(3) by (simp add: tallies_def tally_def)
  moreover have "Cumulative_sectionEnded x s r = Some ?r"
    using r(2) up(1) by (simp add: Cumulative_sectionEnded_def)
  ultimately show ?thesis by blast
qed

lemma junit_assertionEnded:
  assumes "junit_ready (InCase (Suc n)) r"
  shows "\<exists>r'. JunitReporter_assertionEnded s r = Some (True, r') \<and> junit_ready (InCase (Suc n)) r' \<and> tallies (AssertionEnded s) r r'"
proof -
  define r0 where "r0 = (if getResultType (as_result s) = ThrewException \<and> \<not> m_okToFail r
        then r\<lparr>unexpectedExceptions := unexpectedExceptions r + 1\<rparr> else r)"
  have r0: "junit_ready (InCase (Suc n)) r0" "tally k r0 = tally k r" for k
    using assms by (auto simp: r0_def junit_ready_def tree_ok_def tally_def)
  let ?m = "last (cr_sectionStack r0)" and ?f = "\<lambda>node. node\<lparr>sn_assertions := sn_assertions node @ [kept_stats s]\<rparr>"
  have r: "tree_ok r0" "cr_sectionStack r0 \<noteq> []" using r0(1) by (auto simp: junit_ready_def)
  then have m: "?m < length (section_nodes r0)" by (simp add: tree_ok_def)
  note up = update_node_ok [where f = ?f, OF r(1) m]
  let ?ns = "(section_nodes r0)[?m := ?f (section_nodes r0 ! ?m)]"
  let ?r = "r0\<lparr>section_nodes := ?ns\<rparr>"
  have "tree_ok ?r" using r(1) up(2) by (auto simp: tree_ok_def intro: case_ok_longer)
  then have "junit_ready (InCase (Suc n)) ?r" using r0(1) by (auto simp: junit_ready_def)
  moreover have "sum_list (map node_failures ?ns) =
      sum_list (map node_failures (section_nodes r0)) + (if AssertionResult_isOk (as_result s) then 0 else 1)"
    using m member_le_sum_list [of "node_failures (section_nodes r0 ! ?m)" "map node_failures (section_nodes r0)"]
    by (simp add: map_update sum_list_update node_failures_def)
  then have "tallies (AssertionEnded s) r0 ?r" using up(3) by (simp add: tallies_def tally_def)
  then have "tallies (AssertionEnded s) r ?r" by (simp add: tallies_def r0(2))
  moreover have "JunitReporter_assertionEnded s r = Some (True, ?r)"
    using r(2) up(1) by (simp add: JunitReporter_assertionEnded_def Cumulative_assertionEnded_def flip: r0_def)
  ultimately show ?thesis by blast
qed

lemma junit_testCaseEnded:
  assumes "junit_ready (InCase 0) r" "[] \<notin> set (tags tc)"
  shows "\<exists>r'. JunitReporter_handle x (TestCaseEnded tc t a) r = Some r' \<and> junit_ready InGroup r' \<and> tallies (TestCaseEnded tc t a) r r'"
proof -
  let ?st = "\<lparr>ts_testInfo = tc, ts_totals = t, ts_stdOut = stdOut x, ts_stdErr = stdErr x, ts_aborting = a\<rparr>"
  let ?f = "\<lambda>node. node\<lparr>sn_stdOut := ts_stdOut ?st, sn_stdErr := ts_stdErr ?st\<rparr>"
  obtain root d where rd: "m_rootSection r = Some root" "m_deepestSection r = Some d" using assms(1) by (auto simp: junit_ready_def)
  have r: "tree_ok r" "cr_sectionStack r = []" using assms(1) by (auto simp: junit_ready_def)
  then have m: "d < length (section_nodes r)" "root < length (section_nodes r)" using rd by (simp_all add: tree_ok_def)
  note up = update_node_ok [where f = ?f, OF r(1) m(1)]
  let ?ns = "(section_nodes r)[d := ?f (section_nodes r ! d)]"
  let ?r = "r\<lparr>stdOutForSuite := stdOutForSuite r @ ts_stdOut ?st, stdErrForSuite := stdErrForSuite r @ ts_stdErr ?st,
     m_testCases := m_testCases r @ [\<lparr>node_value = ?st, node_children = [Some root]\<rparr>], m_rootSection := None, section_nodes := ?ns\<rparr>"
  have "tree_ok ?r" using r(1) up(2) m rd assms(2) by (auto simp: tree_ok_def case_ok_def)
  then have "junit_ready InGroup ?r" using assms(1) r(2) by (auto simp: junit_ready_def)
  moreover have "map node_failures ?ns = map node_failures (section_nodes r)"
    by (rule map_update_same [where f = ?f]) (use m in \<open>simp_all add: node_failures_def\<close>)
  then have "tallies (TestCaseEnded tc t a) r ?r" using up(3) rd by (simp add: tallies_def tally_def case_roots_def root_list_def)
  moreover have "JunitReporter_handle x (TestCaseEnded tc t a) r = Some ?r"
    using r(2) rd up(1) by (simp add: JunitReporter_handle_def JunitReporter_testCaseEnded_def Cumulative_testCaseEnded_def)
  ultimately show ?thesis by blast
qed

lemma suite_attributes_ok: "\<forall>c \<in> set (suite_attributes x t st r). attribute_call c"
  by (simp add: suite_attributes_def xml_names)

lemma suite_properties_block: "block (suite_properties cfg)"
proof -
  let ?filters = "[CallStart ''property'', CallAttribute ''name'' ''filters'',
     CallAttribute ''value'' (serializeFilters (testsOrTags (cfg_data cfg))), CallEnd]"
  let ?seed = "[CallStart ''property'', CallAttribute ''name'' ''random-seed'',
     CallAttribute ''value'' (show_nat (unat (rngSeed (cfg_data cfg)))), CallEnd]"
  have "block [CallStart ''property'', CallAttribute ''name'' a, CallAttribute ''value'' b, CallEnd]" for a b
    using element_block [of "''property''" "[CallAttribute ''name'' a, CallAttribute ''value'' b]" "[]"] by (simp add: xml_names)
  then have "block ((if m_hasTestFilters cfg then ?filters else []) @ (if rngSeed (cfg_data cfg) \<noteq> 0 then ?seed else []))"
    by (intro block_append) simp_all
  from element_block [OF _ _ this, of "''properties''" "[]"] show ?thesis
    by (simp add: suite_properties_def xml_names)
qed

lemma writeGroup_ok:
  assumes "writer_ok (jr_xml r)" "nodes_ok (section_nodes r)" "\<forall>t \<in> set (node_children g). case_ok (section_nodes r) t"
  shows "\<exists>w. writeGroup x g time r = Some (r\<lparr>jr_xml := w\<rparr>) \<and> writer_ok w \<and> m_tags w = m_tags (jr_xml r)"
proof -
  obtain out err where t: "trim (stdOutForSuite r) = Some out" "trim (stdErrForSuite r) = Some err" using trim_total by blast
  obtain cs where cs: "writeTestCases (stringify_seconds x) (cr_config r) (section_nodes r) (node_children g) = Some cs" "block cs"
    using writeTestCases_ok [OF assms(2,3)] by blast
  have "block [CallStart ''system-out'', CallText out False, CallEnd]" "block [CallStart ''system-err'', CallText err False, CallEnd]"
    by (rule text_element, simp add: xml_names)+
  then have "block (suite_properties (cr_config r) @ cs @ [CallStart ''system-out'', CallText out False, CallEnd] @
      [CallStart ''system-err'', CallText err False, CallEnd])"
    by (intro block_append suite_properties_block cs(2))
  from element_block [OF _ suite_attributes_ok this, of "''testsuite''"]
  have "block ([CallStart ''testsuite''] @ suite_attributes x time (node_value g) r @ suite_properties (cr_config r) @ cs @
      [CallStart ''system-out'', CallText out False, CallEnd] @ [CallStart ''system-err'', CallText err False, CallEnd] @ [CallEnd])"
    by (simp add: xml_names)
  from run_block [OF assms(1) this] obtain w where
    w: "run_calls ([CallStart ''testsuite''] @ suite_attributes x time (node_value g) r @ suite_properties (cr_config r) @ cs @
      [CallStart ''system-out'', CallText out False, CallEnd] @ [CallStart ''system-err'', CallText err False, CallEnd] @ [CallEnd])
      (jr_xml r) = Some w" "writer_ok w" "m_tags w = m_tags (jr_xml r)" by blast
  then show ?thesis using on_jxml_ok [OF w(1)] by (intro exI [of _ w]) (simp add: writeGroup_def cs(1) t)
qed

lemma junit_testGroupEnded:
  assumes "junit_ready InGroup r"
  shows "\<exists>r'. JunitReporter_testGroupEnded x st r = Some r' \<and> junit_ready InRun r'"
proof -
  let ?r = "Cumulative_testGroupEnded st r"
  have r: "writer_ok (jr_xml ?r)" "nodes_ok (section_nodes ?r)" "\<forall>t \<in> set (node_children (last (m_testGroups ?r))). case_ok (section_nodes ?r) t"
    using assms by (simp_all add: junit_ready_def tree_ok_def Cumulative_testGroupEnded_def)
  from writeGroup_ok [OF r] obtain w where
    w: "JunitReporter_testGroupEnded x st r = Some (?r\<lparr>jr_xml := w\<rparr>)" "writer_ok w" "m_tags w = m_tags (jr_xml ?r)"
    unfolding JunitReporter_testGroupEnded_def Let_def by blast
  with assms show ?thesis
    by (auto simp: junit_ready_def tree_ok_def Cumulative_testGroupEnded_def)
qed

lemma junit_testRunStarting:
  assumes "junit_ready Outside r"
  shows "\<exists>r'. JunitReporter_testRunStarting r = Some r' \<and> junit_ready InRun r' \<and> tallies (TestRunStarting n) r r'"
proof -
  have "writer_ok (jr_xml r)" "valid_name ''testsuites''" using assms by (simp_all add: junit_ready_def xml_names)
  from run_opening [OF this, of "[]" "[]"] obtain w where
    w: "run_calls [CallStart ''testsuites''] (jr_xml r) = Some w" "writer_ok w" "m_tags w = m_tags (jr_xml r) @ [''testsuites'']" by auto
  then show ?thesis
    using assms on_jxml_ok [OF w(1)]
    by (auto simp: JunitReporter_testRunStarting_def junit_ready_def tallies_def tally_def tree_ok_def)
qed

lemma junit_testRunEnded:
  assumes "junit_ready InRun r"
  shows "\<exists>r'. JunitReporter_testRunEnded st r = Some r' \<and> junit_ready Outside r' \<and> tallies (TestRunEnded n t a) r r'"
proof -
  let ?r = "Cumulative_testRunEnded st r"
  have "writer_ok (jr_xml ?r)" "m_tags (jr_xml ?r) = [] @ [''testsuites'']"
    using assms by (simp_all add: junit_ready_def Cumulative_testRunEnded_def)
  from run_closing [OF this(1) block_Nil this(2)] obtain w where
    w: "run_calls [CallEnd] (jr_xml ?r) = Some w" "writer_ok w" "m_tags w = []" by auto
  then show ?thesis
    using assms on_jxml_ok [OF w(1)]
    by (auto simp: JunitReporter_testRunEnded_def junit_ready_def tallies_def tally_def tree_ok_def Cumulative_testRunEnded_def)
qed

lemma junit_step:
  assumes "junit_ready p r" "junit_event e" "advance p e = Some p'"
  shows "\<exists>r'. JunitReporter_handle x e r = Some r' \<and> junit_ready p' r' \<and> tallies e r r'"
proof (cases e)
  case (SectionStarting s)
  with assms junit_sectionStarting [of p r s p'] show ?thesis by (simp add: JunitReporter_handle_def)
next
  case (SectionEnded s)
  with assms(3) obtain n where "p = InCase (Suc n)" "p' = InCase n" by (cases p) (auto split: if_splits dest: gr0_implies_Suc)
  with SectionEnded assms(1) junit_sectionEnded [of n r x s] show ?thesis by (simp add: JunitReporter_handle_def)
next
  case (AssertionEnded s)
  with assms(3) obtain n where "p = InCase (Suc n)" "p' = p" by (cases p) (auto split: if_splits dest: gr0_implies_Suc)
  with AssertionEnded assms(1) junit_assertionEnded [of n r s] show ?thesis by (auto simp: JunitReporter_handle_def)
next
  case (TestCaseEnded tc t a)
  with assms(3) have "p = InCase 0" "p' = InGroup" by (cases p; auto split: if_splits)+
  with TestCaseEnded assms(1,2) junit_testCaseEnded [of r tc x t a] show ?thesis by simp
next
  case (TestRunStarting n)
  with assms(1,3) junit_testRunStarting [of r n] show ?thesis by (cases p) (auto simp: JunitReporter_handle_def)
next
  case (TestGroupEnded g t a)
  with assms(1,3) junit_testGroupEnded [of r x] show ?thesis
    by (cases p) (auto simp: JunitReporter_handle_def tallies_def)
next
  case (TestRunEnded n t a)
  with assms(1,3) junit_testRunEnded [of r _ n t a] show ?thesis by (cases p) (auto simp: JunitReporter_handle_def)
qed (use assms(1,3) in \<open>cases p; auto simp: JunitReporter_handle_def JunitReporter_testGroupStarting_def
    JunitReporter_testCaseStarting_def tallies_def tally_def junit_ready_def tree_ok_def split: if_splits\<close>)+

interpretation jr: streaming_reporter JunitReporter_handle junit_event junit_ready
  by unfold_locales (use junit_step in blast)

lemma JunitReporter_new_ready:
  assumes "cd_verbosity (cfg_data cfg) = Normal"
  shows "\<exists>r. JunitReporter_new [] cfg = Inr r \<and> junit_ready Outside r \<and> tally 0 r"
  using assms XmlWriter_new_ok
  by (auto simp: JunitReporter_new_def CumulativeReporterBase_new_def CumulativeReporterBase.defs JunitReporter.defs junit_ready_def
      tree_ok_def nodes_ok_def tally_def case_roots_def root_list_def XmlWriter_new_def writeDeclaration_def put_os_def)

text \<open>
  C27: the JUnit reporter handles the report of every finished run whose test functions keep their
  sections in scopes and whose test cases have no empty tag: no assertion fails, no null or empty
  vector is used, writing the collected tree ends, and the document it has written is well nested
  with every element closed.
\<close>

theorem junit_report_of_run:
  fixes next_item :: "'g \<Rightarrow> bool \<times> 'g"
  assumes "\<And>tc. scoped_test next_item (invoke tc)"
    and "runTests next_item invoke here cfg reportAll tcs u = Some (totals, u', c')"
    and "map snd es = m_reporter c'" "length es < 2 ^ 31" "cd_verbosity (cfg_data cfg) = Normal"
    and "\<forall>tc \<in> set tcs. [] \<notin> set (tags tc)"
  shows "\<exists>r r'. JunitReporter_new [] cfg = Inr r \<and> handle_all JunitReporter_handle es r = Some r' \<and>
    m_tags (jr_xml r') = [] \<and> well_nested (m_os (jr_xml r'))"
proof -
  obtain r where r: "JunitReporter_new [] cfg = Inr r" "junit_ready Outside r"
    using JunitReporter_new_ready [OF assms(5)] by blast
  have "follows (map snd es) Outside = Some Outside"
    unfolding assms(3) by (rule run_follows [OF assms(1,2)])
  moreover have "junit_event e" if "e \<in> set (m_reporter c')" for e
    by (cases e rule: event.exhaust) (use that run_test_cases [OF assms(1,2)] assms(6) in auto)
  then have "\<forall>e \<in> set es. junit_event (snd e)" using assms(3) by (metis image_eqI list.set_map)
  ultimately show ?thesis
    using jr.handles_run [OF r(2) _ _ assms(4)] r(1) closed_document by (fastforce simp: junit_ready_def)
qed

theorem junit_report_of_run_witness:
  "case sample_section_run of None \<Rightarrow> False
   | Some (totals, u', c') \<Rightarrow> \<exists>r r'. JunitReporter_new [] sample_config = Inr r \<and>
      handle_all JunitReporter_handle (map (Pair sample_context) (m_reporter c')) r = Some r' \<and>
      m_tags (jr_xml r') = [] \<and> well_nested (m_os (jr_xml r'))"
proof -
  obtain totals u' c' where s: "sample_section_run = Some (totals, u', c')"
    using sample_section_finishes by (cases sample_section_run) auto
  have "length (map (Pair sample_context) (m_reporter c')) < 2 ^ 31" using sample_section_size by (simp add: s)
  moreover have "map snd (map (Pair sample_context) (m_reporter c')) = m_reporter c'" by (simp add: comp_def)
  moreover have "cd_verbosity (cfg_data sample_config) = Normal" by (simp add: sample_config_def ConfigData_new_def)
  moreover have "\<forall>tc \<in> set (numbered 0 sample_tests). [] \<notin> set (tags tc)" by code_simp
  ultimately show ?thesis
    using junit_report_of_run [OF sample_section_scoped s [unfolded sample_section_run_def]] unfolding s by simp
qed

section \<open>What the report shows\<close>

lemma junit_tally:
  "junit_ready p r \<Longrightarrow> tally k r \<Longrightarrow> \<forall>e \<in> set es. junit_event (snd e) \<and> \<not> group_end (snd e) \<Longrightarrow>
   follows (map snd es) p = Some p' \<Longrightarrow>
   \<exists>r'. handle_all JunitReporter_handle es r = Some r' \<and> junit_ready p' r' \<and>
     tally (k + length (filter failed_assertion (map snd es))) r'"
proof (induction es arbitrary: p r k)
  case (Cons a es)
  obtain x e where a: "a = (x, e)" by fastforce
  from Cons.prems(4) obtain q where q: "advance p e = Some q" "follows (map snd es) q = Some p'"
    by (auto simp: a bind_eq_Some_conv)
  have e: "junit_event e" "\<not> group_end e" using Cons.prems(3) by (simp_all add: a)
  from junit_step [OF Cons.prems(1) e(1) q(1)] obtain r1 where
    r1: "JunitReporter_handle x e r = Some r1" "junit_ready q r1" "tallies e r r1" by blast
  then have "tally (k + (if failed_assertion e then 1 else 0)) r1" using e(2) Cons.prems(2) by (simp add: tallies_def)
  from Cons.IH [OF r1(2) this _ q(2)] Cons.prems(3) r1(1) show ?case by (auto simp: a)
qed simp

text \<open>
  C28: at the end of the tests of the first group, the elements that the JUnit reporter writes for
  its test cases contain exactly one failure, error or internal error for every assertion that was
  reported as failed, however the sections are nested, repeated over cycles and left by exceptions.
\<close>

theorem junit_shows_every_failure:
  assumes "JunitReporter_new [] cfg = Inr r" "follows (map snd es) Outside = Some InGroup"
    and "\<forall>e \<in> set es. junit_event (snd e) \<and> \<not> group_end (snd e)"
  shows "\<exists>r' cs. handle_all JunitReporter_handle es r = Some r' \<and>
    writeTestCases stringify (cr_config r') (section_nodes r') (m_testCases r') = Some cs \<and>
    failure_count cs = length (filter failed_assertion (map snd es))"
proof -
  have "cd_verbosity (cfg_data cfg) = Normal"
    using assms(1) by (auto simp: JunitReporter_new_def CumulativeReporterBase_new_def split: if_splits)
  from JunitReporter_new_ready [OF this] assms(1) have "junit_ready Outside r" "tally 0 r" by auto
  from junit_tally [OF this assms(3,2)] obtain r' where
    r': "handle_all JunitReporter_handle es r = Some r'" "junit_ready InGroup r'"
      "tally (length (filter failed_assertion (map snd es))) r'" by auto
  have ok: "nodes_ok (section_nodes r')" "\<forall>t \<in> set (m_testCases r'). case_ok (section_nodes r') t"
    using r'(2) by (simp_all add: junit_ready_def tree_ok_def)
  from writeTestCases_ok [OF ok] obtain cs where
    cs: "writeTestCases stringify (cr_config r') (section_nodes r') (m_testCases r') = Some cs"
      "failure_count cs = sum_list (map (weight (section_nodes r')) (case_roots (m_testCases r')))" by blast
  have "mset (case_roots (m_testCases r') @ concat (map childSections (section_nodes r'))) = mset [0..<length (section_nodes r')]"
    using r'(2,3) by (simp add: tally_def junit_ready_def root_list_def)
  from weight_roots [OF ok(1) this] cs r'(1,3) show ?thesis by (auto simp: tally_def)
qed

definition sample_stats :: "ResultWas \<Rightarrow> int \<Rightarrow> AssertionStats" where
  "sample_stats ty disposition =
     \<lparr>as_result = AssertionResult_new \<lparr>macroName = ''CHECK'', ai_lineInfo = \<lparr>sl_file = ''t.cpp'', sl_line = 9\<rparr>,
        capturedExpression = ''f() == 1'', resultDisposition = disposition\<rparr>
        (AssertionResultData_new ty (LazyExpression_new False)), infoMessages = [], as_totals = Totals_new\<rparr>"

text \<open>Two cycles over a test case with a nested section that fails in both, and one more failure outside it.\<close>

definition sample_report :: "(event_context \<times> event) list" where
  "sample_report = map (Pair sample_context)
     (let tc = hd sample_tests; outer = \<lparr>si_name = name tc, si_lineInfo = lineInfo tc\<rparr>;
          inner = \<lparr>si_name = ''inner'', si_lineInfo = lineInfo tc\<rparr>;
          bad = AssertionEnded (sample_stats ExpressionFailed ContinueOnFailure);
          ok = AssertionEnded (sample_stats ResultOk ContinueOnFailure);
          cycle = [SectionStarting outer, ok, SectionStarting inner, bad, SectionEnded (incomplete_stats inner), bad,
            SectionEnded (incomplete_stats outer)]
      in [TestRunStarting [], TestGroupStarting \<lparr>gi_name = [], groupIndex = 1, groupsCounts = 1\<rparr>, TestCaseStarting tc] @
        cycle @ cycle @ [TestCaseEnded tc Totals_new False])"

theorem junit_shows_every_failure_witness:
  "\<exists>r r' cs. JunitReporter_new [] sample_config = Inr r \<and> handle_all JunitReporter_handle sample_report r = Some r' \<and>
    writeTestCases (\<lambda>n. show_nat (unat n)) (cr_config r') (section_nodes r') (m_testCases r') = Some cs \<and> failure_count cs = 4"
proof -
  obtain r where r: "JunitReporter_new [] sample_config = Inr r"
    using JunitReporter_new_ready [of sample_config] by (auto simp: sample_config_def ConfigData_new_def)
  have "follows (map snd sample_report) Outside = Some InGroup" by code_simp
  moreover have "\<forall>e \<in> set sample_report. junit_event (snd e) \<and> \<not> group_end (snd e)" by code_simp
  moreover have "length (filter failed_assertion (map snd sample_report)) = 4" by code_simp
  ultimately show ?thesis using junit_shows_every_failure [OF r] r by metis
qed

text \<open>
  an exception inside an assertion whose failure is suppressed is not counted as a failed
  assertion, but the JUnit reporter counts it as an unexpected exception and subtracts it from the
  failed assertions.  When it is the only one, the failures of the test suite wrap around to
  \<open>2 ^ 64 - 1\<close>.
\<close>

theorem junit_failures_wrap:
  fixes c :: "'g RunContext"
  assumes "shouldSuppressFailure (resultDisposition info)" "handleUnexpectedInflightException info msg c = Some (reaction, c')"
    and "failed (assertions (m_totals c)) = 0" "junit_ready (InCase (Suc n)) r" "unexpectedExceptions r = 0" "\<not> m_okToFail r"
  shows "\<exists>st r'. m_reporter c' = m_reporter c @ [AssertionEnded st] \<and> failed (assertions (m_totals c')) = 0 \<and>
    JunitReporter_assertionEnded st r = Some (True, r') \<and>
    (\<forall>x time g. CallAttribute ''failures'' ''18446744073709551615'' \<in>
      set (suite_attributes x time \<lparr>gs_groupInfo = g, gs_totals = m_totals c', gs_aborting = False\<rparr> r'))"
proof -
  let ?res = "AssertionResult_new info ((AssertionResultData_new ThrewException (LazyExpression_new False))\<lparr>rd_message := msg\<rparr>)"
  have res: "getResultType ?res = ThrewException" "AssertionResult_isOk ?res"
    using assms(1) by (simp_all add: getResultType_def AssertionResult_isOk_def AssertionResult_new_def AssertionResultData_new_def
        AssertionResultData_copy_def)
  obtain d where d: "assertionEnded ?res (c\<lparr>m_lastAssertionInfo := info\<rparr>) = Some d" "c' = d"
    using assms(2) by (auto simp: handleUnexpectedInflightException_def Let_def bind_eq_Some_conv)
  obtain st e where st: "AssertionStats_new ?res (c\<lparr>m_lastAssertionInfo := info, m_lastAssertionPassed := True\<rparr>) = (st, e)" by fastforce
  then have e: "as_result st = ?res" "m_reporter e = m_reporter c" "m_totals e = m_totals c"
    by (auto simp: AssertionStats_new_def MessageInfo_new_def Let_def split: if_splits)
  have rep: "m_reporter c' = m_reporter c @ [AssertionEnded st]" and tot: "m_totals c' = m_totals c"
    using d st e res clear_scopes_frame [of "report (AssertionEnded st) e"]
    by (auto simp: assertionEnded_def Let_def resetAssertionInfo_def report_def)
  obtain r' where r': "JunitReporter_assertionEnded st r = Some (True, r')" using junit_assertionEnded [OF assms(4)] by blast
  then have "unexpectedExceptions r' = 1"
    using e(1) res(1) assms(5,6)
    by (auto simp: JunitReporter_assertionEnded_def Cumulative_assertionEnded_def bind_eq_Some_conv split: if_splits)
  moreover have "unat (- 1 :: u64) = 18446744073709551615" by (simp add: unsigned_minus_1_eq_mask mask_eq_exp_minus_1)
  moreover have "show_nat 18446744073709551615 = ''18446744073709551615''" by (simp add: show_nat.simps char_of_def bit_0)
  ultimately show ?thesis using rep tot r' assms(3) by (auto simp: suite_attributes_def)
qed

theorem junit_failures_wrap_witness:
  "\<exists>r st r'. junit_ready (InCase (Suc 0)) r \<and> JunitReporter_assertionEnded st r = Some (True, r') \<and>
    (\<forall>x time g. CallAttribute ''failures'' ''18446744073709551615'' \<in>
      set (suite_attributes x time \<lparr>gs_groupInfo = g, gs_totals = Totals_new, gs_aborting = False\<rparr> r'))"
proof -
  let ?c = "RunContext_new sample_config True :: unit RunContext"
  let ?info = "\<lparr>macroName = ''CHECK_NOFAIL'', ai_lineInfo = \<lparr>sl_file = [], sl_line = 1\<rparr>, capturedExpression = ''f()'',
     resultDisposition = disposition_or ContinueOnFailure SuppressFail\<rparr>"
  have "handleUnexpectedInflightException ?info ''boom'' ?c \<noteq> None" by code_simp
  then obtain re c' where c': "handleUnexpectedInflightException ?info ''boom'' ?c = Some (re, c')" by auto
  have "case handleUnexpectedInflightException ?info ''boom'' ?c of None \<Rightarrow> False | Some (re, c') \<Rightarrow> m_totals c' = Totals_new" by code_simp
  then have tot: "m_totals c' = Totals_new" by (simp only: c' option.case prod.case)
  obtain r0 where r0: "JunitReporter_new [] sample_config = Inr r0" "junit_ready Outside r0" "tally 0 r0"
    using JunitReporter_new_ready [of sample_config] by (auto simp: sample_config_def ConfigData_new_def)
  have "case JunitReporter_new [] sample_config of Inl m \<Rightarrow> False
      | Inr r \<Rightarrow> (case handle_all JunitReporter_handle (take 4 sample_report) r of None \<Rightarrow> False
         | Some r \<Rightarrow> unexpectedExceptions r = 0 \<and> \<not> m_okToFail r)" by code_simp
  moreover have "follows (map snd (take 4 sample_report)) Outside = Some (InCase (Suc 0))"
    "\<forall>e \<in> set (take 4 sample_report). junit_event (snd e) \<and> \<not> group_end (snd e)" by code_simp+
  ultimately obtain r where r: "junit_ready (InCase (Suc 0)) r" "unexpectedExceptions r = 0" "\<not> m_okToFail r"
    using junit_tally [OF r0(2,3)] r0(1) by fastforce
  have "shouldSuppressFailure (resultDisposition ?info)" "failed (assertions (m_totals ?c)) = 0" by code_simp+
  from junit_failures_wrap [OF this(1) c' this(2) r] r(1) tot show ?thesis by metis
qed

end
