(* ===== verification/CatchListening.thy ===== *)
theory CatchListening
  imports CatchJunit
begin

text \<open>
  The reporter of the unit test framework that wraps another reporter and a list
  of listeners (\<open>native/src/catch.hpp\<close>).  Both are called through the
  interface \<open>IStreamingReporter\<close>, so their handlers are arguments; the value
  that \<open>assertionEnded\<close> returns is the one of the wrapped reporter and is not
  part of the state.
\<close>

record ('l, 'r) ListeningReporter =
  lr_listeners :: "'l list"
  lr_reporter :: "'r option"
  m_preferences :: ReporterPreferences

definition ListeningReporter_new :: "('l, 'r) ListeningReporter" where
  "ListeningReporter_new = \<lparr>lr_listeners = [], lr_reporter = None,
     m_preferences = \<lparr>shouldRedirectStdOut = False, shouldReportAllAssertions = True\<rparr>\<rparr>"

definition addListener :: "'l \<Rightarrow> ('l, 'r) ListeningReporter \<Rightarrow> ('l, 'r) ListeningReporter" where
  "addListener listener L = L\<lparr>lr_listeners := lr_listeners L @ [listener]\<rparr>"

definition addReporter ::
    "('r \<Rightarrow> ReporterPreferences) \<Rightarrow> 'r \<Rightarrow> ('l, 'r) ListeningReporter \<Rightarrow> ('l, 'r) ListeningReporter option" where
  "addReporter getPreferences reporter L =
     (if lr_reporter L \<noteq> None then None
      else Some (L\<lparr>lr_reporter := Some reporter,
        m_preferences := (m_preferences L)\<lparr>shouldRedirectStdOut := shouldRedirectStdOut (getPreferences reporter)\<rparr>\<rparr>))"

fun for_listeners :: "('l \<Rightarrow> 'l option) \<Rightarrow> 'l list \<Rightarrow> 'l list option" where
  "for_listeners f [] = Some []"
| "for_listeners f (l # ls) = do { l' \<leftarrow> f l; ls' \<leftarrow> for_listeners f ls; Some (l' # ls') }"

text \<open>Every handler of the class has this shape.\<close>

definition forward ::
    "('x \<Rightarrow> event \<Rightarrow> 'l \<Rightarrow> 'l option) \<Rightarrow> ('x \<Rightarrow> event \<Rightarrow> 'r \<Rightarrow> 'r option) \<Rightarrow> 'x \<Rightarrow> event \<Rightarrow>
     ('l, 'r) ListeningReporter \<Rightarrow> ('l, 'r) ListeningReporter option" where
  "forward hl hr x e L = do {
     ls \<leftarrow> for_listeners (hl x e) (lr_listeners L);
     r \<leftarrow> lr_reporter L;
     r' \<leftarrow> hr x e r;
     Some (L\<lparr>lr_listeners := ls, lr_reporter := Some r'\<rparr>) }"

text \<open>The class overrides every handler except \<open>fatalErrorEncountered\<close>, whose default does nothing.\<close>

definition ListeningReporter_handle ::
    "('x \<Rightarrow> event \<Rightarrow> 'l \<Rightarrow> 'l option) \<Rightarrow> ('x \<Rightarrow> event \<Rightarrow> 'r \<Rightarrow> 'r option) \<Rightarrow> 'x \<Rightarrow> event \<Rightarrow>
     ('l, 'r) ListeningReporter \<Rightarrow> ('l, 'r) ListeningReporter option" where
  "ListeningReporter_handle hl hr x e L = (case e of
     NoMatchingTestCases s \<Rightarrow> forward hl hr x e L
   | TestRunStarting n \<Rightarrow> forward hl hr x e L
   | TestGroupStarting g \<Rightarrow> forward hl hr x e L
   | TestCaseStarting tc \<Rightarrow> forward hl hr x e L
   | SectionStarting s \<Rightarrow> forward hl hr x e L
   | AssertionStarting i \<Rightarrow> forward hl hr x e L
   | AssertionEnded s \<Rightarrow> forward hl hr x e L
   | SectionEnded s \<Rightarrow> forward hl hr x e L
   | TestCaseEnded tc t a \<Rightarrow> forward hl hr x e L
   | TestGroupEnded g t a \<Rightarrow> forward hl hr x e L
   | TestRunEnded n t a \<Rightarrow> forward hl hr x e L
   | SkipTest tc \<Rightarrow> forward hl hr x e L
   | FatalErrorEncountered n \<Rightarrow> Some L)"

fun fatal_event :: "event \<Rightarrow> bool" where
  "fatal_event (FatalErrorEncountered n) \<longleftrightarrow> True"
| "fatal_event _ \<longleftrightarrow> False"

lemma handle_forwards: "\<not> fatal_event e \<Longrightarrow> ListeningReporter_handle hl hr x e L = forward hl hr x e L"
  by (cases e) (simp_all add: ListeningReporter_handle_def)

lemma for_listeners_bind:
  "for_listeners (\<lambda>l. Option.bind (f l) g) ls = Option.bind (for_listeners f ls) (for_listeners g)"
proof (induction ls)
  case (Cons l ls)
  then show ?case by (cases "f l"; cases "for_listeners f ls") (auto split: bind_splits)
qed simp

lemma for_listeners_Some: "for_listeners Some ls = Some ls"
  by (induction ls) simp_all

lemma handle_all_forwards:
  assumes "\<forall>e \<in> set es. \<not> fatal_event (snd e)" "lr_reporter L = Some r"
  shows "handle_all (ListeningReporter_handle hl hr) es L =
     do { ls \<leftarrow> for_listeners (handle_all hl es) (lr_listeners L);
          r' \<leftarrow> handle_all hr es r;
          Some (L\<lparr>lr_listeners := ls, lr_reporter := Some r'\<rparr>) }"
  using assms
proof (induction es arbitrary: L r)
  case Nil
  have "handle_all hl [] = Some" by (rule ext) simp
  with Nil show ?case by (cases L) (simp add: for_listeners_Some)
next
  case (Cons a es)
  obtain x e where a: "a = (x, e)" by fastforce
  have h: "handle_all hl (a # es) = (\<lambda>l. Option.bind (hl x e l) (handle_all hl es))" by (rule ext) (simp add: a)
  show ?case
    unfolding h for_listeners_bind using Cons
    by (cases "for_listeners (hl x e) (lr_listeners L)"; cases "hr x e r")
      (auto simp: a handle_forwards forward_def split: bind_splits)
qed

text \<open>
  C29: on a report without a fatal error the wrapping reporter drives each listener and the wrapped
  reporter exactly as if that one had received the report alone, although it interleaves their
  calls; a fatal error reaches none of them.
\<close>

theorem listening_forwards:
  fixes L :: "('l, 'r) ListeningReporter"
  assumes "\<forall>e \<in> set es. \<not> fatal_event (snd e)" "lr_reporter L = Some r"
  shows "handle_all (ListeningReporter_handle hl hr) es L =
     do { ls \<leftarrow> for_listeners (handle_all hl es) (lr_listeners L);
          r' \<leftarrow> handle_all hr es r;
          Some (L\<lparr>lr_listeners := ls, lr_reporter := Some r'\<rparr>) } \<and>
     ListeningReporter_handle hl hr x (FatalErrorEncountered n) L = Some L"
  using handle_all_forwards [OF assms] by (simp add: ListeningReporter_handle_def)

section \<open>The wrapping reporter is a reporter\<close>

definition listening_ready ::
    "(place \<Rightarrow> 'l \<Rightarrow> bool) \<Rightarrow> (place \<Rightarrow> 'r \<Rightarrow> bool) \<Rightarrow> place \<Rightarrow> ('l, 'r) ListeningReporter \<Rightarrow> bool" where
  "listening_ready readyl readyr p L \<longleftrightarrow> (\<forall>l \<in> set (lr_listeners L). readyl p l) \<and> (\<exists>r. lr_reporter L = Some r \<and> readyr p r)"

lemma for_listeners_ok:
  "(\<And>l. l \<in> set ls \<Longrightarrow> \<exists>l'. f l = Some l' \<and> Q l') \<Longrightarrow> \<exists>ls'. for_listeners f ls = Some ls' \<and> (\<forall>l \<in> set ls'. Q l)"
proof (induction ls)
  case (Cons l ls)
  obtain l' where "f l = Some l'" "Q l'" using Cons.prems [of l] by auto
  moreover obtain ls' where "for_listeners f ls = Some ls'" "\<forall>l \<in> set ls'. Q l" using Cons by auto
  ultimately show ?case by auto
qed simp

lemma advance_not_fatal: "advance p e = Some p' \<Longrightarrow> \<not> fatal_event e"
  by (cases e; cases p) auto

locale listening_reporter =
  listener: streaming_reporter hl finel readyl + wrapped: streaming_reporter hr finer readyr
  for hl :: "'x \<Rightarrow> event \<Rightarrow> 'l \<Rightarrow> 'l option" and finel readyl and hr :: "'x \<Rightarrow> event \<Rightarrow> 'r \<Rightarrow> 'r option" and finer readyr
begin

lemma forward_ready:
  assumes "listening_ready readyl readyr p L" "finel e \<and> finer e" "advance p e = Some p'"
    "depth_of p < 2 ^ 31" "depth_of p' < 2 ^ 31"
  shows "\<exists>L'. ListeningReporter_handle hl hr x e L = Some L' \<and> listening_ready readyl readyr p' L'"
proof -
  obtain r where r: "lr_reporter L = Some r" "readyr p r" using assms(1) by (auto simp: listening_ready_def)
  obtain r' where r': "hr x e r = Some r'" "readyr p' r'" using wrapped.handles [OF r(2) _ assms(3-5)] assms(2) by blast
  have "\<exists>l'. hl x e l = Some l' \<and> readyl p' l'" if "l \<in> set (lr_listeners L)" for l
    using listener.handles [OF _ _ assms(3-5)] assms(1,2) that by (auto simp: listening_ready_def)
  with for_listeners_ok [of "lr_listeners L" "hl x e" "readyl p'"] obtain ls where
    "for_listeners (hl x e) (lr_listeners L) = Some ls" "\<forall>l \<in> set ls. readyl p' l" by blast
  with r r' show ?thesis
    by (auto simp: handle_forwards [OF advance_not_fatal [OF assms(3)]] forward_def listening_ready_def)
qed

end

sublocale listening_reporter \<subseteq>
  both: streaming_reporter "ListeningReporter_handle hl hr" "\<lambda>e. finel e \<and> finer e" "listening_ready readyl readyr"
  by unfold_locales (rule forward_ready)

interpretation xml_junit:
  listening_reporter XmlReporter_handle "\<lambda>e. True" xml_ready JunitReporter_handle junit_event junit_ready
  by unfold_locales

text \<open>An XML listener beside a JUnit reporter: both documents of a finished run are well nested.\<close>

lemma listening_report_of_run:
  assumes "XmlReporter_new [] cfg = Inr l" "JunitReporter_new [] cfg = Inr r" "follows (map snd es) Outside = Some Outside"
    "\<forall>e \<in> set es. junit_event (snd e)" "length es < 2 ^ 31"
  shows "\<exists>L l' r'. handle_all (ListeningReporter_handle XmlReporter_handle JunitReporter_handle) es
      (ListeningReporter_new\<lparr>lr_listeners := [l], lr_reporter := Some r\<rparr>) = Some L \<and>
    lr_reporter L = Some r' \<and> well_nested (m_os (jr_xml r')) \<and> (\<forall>l' \<in> set (lr_listeners L). well_nested (m_os (m_xml l')))"
proof -
  have "cd_verbosity (cfg_data cfg) = Normal"
    using assms(1) by (auto simp: XmlReporter_new_def StreamingReporterBase_new_def split: if_splits)
  with XmlReporter_new_ready JunitReporter_new_ready assms(1,2) have "xml_ready Outside l" "junit_ready Outside r" by fastforce+
  then have "listening_ready xml_ready junit_ready Outside (ListeningReporter_new\<lparr>lr_listeners := [l], lr_reporter := Some r\<rparr>)"
    by (simp add: listening_ready_def ListeningReporter_new_def)
  from xml_junit.both.handles_run [OF this _ assms(3,5)] assms(4) show ?thesis
    using closed_document by (fastforce simp: listening_ready_def xml_ready_def junit_ready_def)
qed

theorem listening_forwards_witness:
  "\<exists>(l :: XmlReporter) (r :: JunitReporter) L. XmlReporter_new [] sample_config = Inr l \<and> JunitReporter_new [] sample_config = Inr r \<and>
     L = ListeningReporter_new\<lparr>lr_listeners := [l], lr_reporter := Some r\<rparr> \<and>
     handle_all (ListeningReporter_handle XmlReporter_handle JunitReporter_handle) sample_report L =
     do { ls \<leftarrow> for_listeners (handle_all XmlReporter_handle sample_report) (lr_listeners L);
          r' \<leftarrow> handle_all JunitReporter_handle sample_report r;
          Some (L\<lparr>lr_listeners := ls, lr_reporter := Some r'\<rparr>) }"
proof -
  obtain l where l: "XmlReporter_new [] sample_config = Inr l"
    using XmlReporter_new_ready [of sample_config] by (auto simp: sample_config_def ConfigData_new_def)
  obtain r where r: "JunitReporter_new [] sample_config = Inr r"
    using JunitReporter_new_ready [of sample_config] by (auto simp: sample_config_def ConfigData_new_def)
  have "\<forall>e \<in> set sample_report. \<not> fatal_event (snd e)" by code_simp
  from listening_forwards [OF this, of "ListeningReporter_new\<lparr>lr_listeners := [l], lr_reporter := Some r\<rparr>" r] l r
  show ?thesis by simp
qed

end
