(* ===== verification/CatchClara.thy ===== *)
theory CatchClara
  imports CatchSession
begin

text \<open>
  Clara, the command line parser inside the unit test framework
  (\<open>native/src/catch.hpp\<close>, \<open>namespace clara\<close>): the token stream over the
  arguments, the conversion of argument texts, options and arguments bound to
  the fields of a configuration, and the parser that combines them.  The
  configuration that the bound references write is a type variable \<open>'c\<close>; a
  failed \<open>assert\<close> (a token read from an empty buffer) is \<open>None\<close>.
\<close>

section \<open>Tokens\<close>

record Args =
  args_exeName :: string
  args_list :: "string list"

definition Args_new :: "string list \<Rightarrow> Args option" where
  "Args_new argv = (case argv of [] \<Rightarrow> None | exe # rest \<Rightarrow> Some \<lparr>args_exeName = exe, args_list = rest\<rparr>)"

datatype TokenType = TokenOption | TokenArgument

record Token =
  tok_type :: TokenType
  tok_text :: string

abbreviation OptionToken :: "string \<Rightarrow> Token" where
  "OptionToken s \<equiv> \<lparr>tok_type = TokenOption, tok_text = s\<rparr>"

abbreviation ArgumentToken :: "string \<Rightarrow> Token" where
  "ArgumentToken s \<equiv> \<lparr>tok_type = TokenArgument, tok_text = s\<rparr>"

definition isOptPrefix :: "char \<Rightarrow> bool" where
  "isOptPrefix c \<longleftrightarrow> c = CHR ''-''"

text \<open>\<open>next.find_first_of\<close> of a set of characters.\<close>

fun find_first_of :: "char list \<Rightarrow> string \<Rightarrow> nat option" where
  "find_first_of cs [] = None"
| "find_first_of cs (c # s) = (if c \<in> set cs then Some 0 else map_option Suc (find_first_of cs s))"

text \<open>The arguments from the iterator \<open>it\<close> to the end, and the tokens of the current one.\<close>

record TokenStream =
  it :: "string list"
  m_tokenBuffer :: "Token list"

text \<open>The tokens of one argument that is not empty.\<close>

definition arg_tokens :: "string \<Rightarrow> Token list" where
  "arg_tokens nxt =
     (if isOptPrefix (nxt ! 0)
      then (case find_first_of '' :='' nxt of
              Some delimiterPos \<Rightarrow>
                [OptionToken (take delimiterPos nxt), ArgumentToken (drop (delimiterPos + 1) nxt)]
            | None \<Rightarrow>
                if 2 < length nxt \<and> nxt ! 1 \<noteq> CHR ''-''
                then map (\<lambda>c. OptionToken [CHR ''-'', c]) (tl nxt)
                else [OptionToken nxt])
      else [ArgumentToken nxt])"

definition loadBuffer :: "TokenStream \<Rightarrow> TokenStream" where
  "loadBuffer ts =
     (let rest = dropWhile (\<lambda>s. s = []) (it ts) in
      \<lparr>it = rest, m_tokenBuffer = (case rest of [] \<Rightarrow> [] | nxt # _ \<Rightarrow> arg_tokens nxt)\<rparr>)"

definition TokenStream_new :: "string list \<Rightarrow> TokenStream" where
  "TokenStream_new args = loadBuffer \<lparr>it = args, m_tokenBuffer = []\<rparr>"

definition TokenStream_bool :: "TokenStream \<Rightarrow> bool" where
  "TokenStream_bool ts \<longleftrightarrow> m_tokenBuffer ts \<noteq> [] \<or> it ts \<noteq> []"

definition TokenStream_count :: "TokenStream \<Rightarrow> nat" where
  "TokenStream_count ts = length (m_tokenBuffer ts) + length (it ts)"

definition TokenStream_front :: "TokenStream \<Rightarrow> Token option" where
  "TokenStream_front ts = (case m_tokenBuffer ts of [] \<Rightarrow> None | t # _ \<Rightarrow> Some t)"

definition TokenStream_next :: "TokenStream \<Rightarrow> TokenStream" where
  "TokenStream_next ts =
     (if 2 \<le> length (m_tokenBuffer ts) then ts\<lparr>m_tokenBuffer := tl (m_tokenBuffer ts)\<rparr>
      else loadBuffer (if it ts \<noteq> [] then ts\<lparr>it := tl (it ts)\<rparr> else ts))"

section \<open>Results\<close>

text \<open>\<open>BasicResult\<close>: a value, or an error of one of two types with its message.\<close>

datatype clara_error = LogicError string | RuntimeError string

datatype ParseResultType = Matched | NoMatch | ShortCircuitAll | ShortCircuitSame

record ParseState =
  ps_type :: ParseResultType
  remainingTokens :: TokenStream

type_synonym ParserResult = "clara_error + ParseResultType"
type_synonym InternalParseResult = "clara_error + ParseState"

fun errorMessage :: "clara_error \<Rightarrow> string" where
  "errorMessage (LogicError m) = m"
| "errorMessage (RuntimeError m) = m"

section \<open>Conversions\<close>

text \<open>
  The extraction of a number from a \<open>std::stringstream\<close> in the C locale:
  leading white space is skipped, and the extraction fails without touching the
  target when nothing is left; an optional sign and the longest run of decimal
  digits are read, what follows stays in the stream.  No digit stores zero, a
  value out of range stores the nearest bound, and both fail.
\<close>

definition is_space :: "char \<Rightarrow> bool" where
  "is_space c = (let n = of_char c :: nat in n = 32 \<or> 9 \<le> n \<and> n \<le> 13)"

definition is_digit :: "char \<Rightarrow> bool" where
  "is_digit c = (let n = of_char c :: nat in 48 \<le> n \<and> n \<le> 57)"

fun digits_value :: "nat \<Rightarrow> string \<Rightarrow> nat" where
  "digits_value n [] = n"
| "digits_value n (c # s) = digits_value (10 * n + (of_char c - 48)) s"

text \<open>The sign and the digits of the number at the start of a text.\<close>

definition scan_number :: "string \<Rightarrow> bool \<times> string" where
  "scan_number s =
     (case s of
        [] \<Rightarrow> (False, [])
      | c # r \<Rightarrow> if c = CHR ''-'' then (True, takeWhile is_digit r)
                else if c = CHR ''+'' then (False, takeWhile is_digit r)
                else (False, takeWhile is_digit s))"

text \<open>\<open>ss >> target\<close> for an \<open>int\<close> and an \<open>unsigned int\<close>: whether it succeeds, and the target after it.\<close>

definition extract_int :: "string \<Rightarrow> int \<Rightarrow> bool \<times> int" where
  "extract_int source target =
     (let s = dropWhile is_space source in
      if s = [] then (False, target)
      else let (neg, ds) = scan_number s; v = int (digits_value 0 ds); v = (if neg then - v else v) in
        if ds = [] then (False, 0)
        else if v < - (2 ^ 31) then (False, - (2 ^ 31))
        else if 2 ^ 31 \<le> v then (False, 2 ^ 31 - 1)
        else (True, v))"

definition extract_uint :: "string \<Rightarrow> u32 \<Rightarrow> bool \<times> u32" where
  "extract_uint source target =
     (let s = dropWhile is_space source in
      if s = [] then (False, target)
      else let (neg, ds) = scan_number s; n = digits_value 0 ds in
        if ds = [] then (False, 0)
        else if 2 ^ 32 \<le> n then (False, - 1)
        else (True, if neg then - of_nat n else of_nat n))"

text \<open>\<open>convertInto\<close> for a type with a stream extraction, for strings and for booleans.\<close>

definition convertInto :: "(string \<Rightarrow> 'v \<Rightarrow> bool \<times> 'v) \<Rightarrow> string \<Rightarrow> 'v \<Rightarrow> ParserResult \<times> 'v" where
  "convertInto extract source target =
     (let (good, target) = extract source target in
      if \<not> good then (Inl (RuntimeError (''Unable to convert '' @ quote source @ '' to destination type'')), target)
      else (Inr Matched, target))"

definition convertInto_string :: "string \<Rightarrow> string \<Rightarrow> ParserResult \<times> string" where
  "convertInto_string source target = (let target = source in (Inr Matched, target))"

definition convertInto_bool :: "string \<Rightarrow> bool \<Rightarrow> ParserResult \<times> bool" where
  "convertInto_bool source target =
     (let srcLC = map toLowerCh source in
      if srcLC = ''y'' \<or> srcLC = ''1'' \<or> srcLC = ''true'' \<or> srcLC = ''yes'' \<or> srcLC = ''on'' then (Inr Matched, True)
      else if srcLC = ''n'' \<or> srcLC = ''0'' \<or> srcLC = ''false'' \<or> srcLC = ''no'' \<or> srcLC = ''off'' then (Inr Matched, False)
      else (Inl (RuntimeError (''Expected a boolean value but did not recognise: '' @ quote source)), target))"

section \<open>Bound references\<close>

text \<open>
  A reference that an option or argument writes: \<open>setValue\<close> of a value, with
  whether the value is a container, or \<open>setFlag\<close> of a flag.
\<close>

datatype 'c BoundRef =
    BoundValueRefBase bool "string \<Rightarrow> 'c \<Rightarrow> ParserResult \<times> 'c"
  | BoundFlagRefBase "bool \<Rightarrow> 'c \<Rightarrow> ParserResult \<times> 'c"

fun isContainer :: "'c BoundRef \<Rightarrow> bool" where
  "isContainer (BoundValueRefBase b _) = b"
| "isContainer (BoundFlagRefBase _) = False"

fun isFlag :: "'c BoundRef \<Rightarrow> bool" where
  "isFlag (BoundValueRefBase _ _) = False"
| "isFlag (BoundFlagRefBase _) = True"

definition BoundValueRef ::
  "(string \<Rightarrow> 'v \<Rightarrow> ParserResult \<times> 'v) \<Rightarrow> ('c \<Rightarrow> 'v) \<Rightarrow> ('v \<Rightarrow> 'c \<Rightarrow> 'c) \<Rightarrow> 'c BoundRef" where
  "BoundValueRef conv get upd =
     BoundValueRefBase False (\<lambda>arg c. let (result, v) = conv arg (get c) in (result, upd v c))"

definition BoundVectorRef ::
  "(string \<Rightarrow> 'v \<Rightarrow> ParserResult \<times> 'v) \<Rightarrow> 'v \<Rightarrow> ('c \<Rightarrow> 'v list) \<Rightarrow> ('v list \<Rightarrow> 'c \<Rightarrow> 'c) \<Rightarrow> 'c BoundRef" where
  "BoundVectorRef conv temp get upd =
     BoundValueRefBase True (\<lambda>arg c. let (result, temp) = conv arg temp in
       (result, if isl result then c else upd (get c @ [temp]) c))"

definition BoundFlagRef :: "(bool \<Rightarrow> 'c \<Rightarrow> 'c) \<Rightarrow> 'c BoundRef" where
  "BoundFlagRef upd = BoundFlagRefBase (\<lambda>flag c. (Inr Matched, upd flag c))"

text \<open>The call of a lambda that returns nothing.\<close>

definition invoke_void :: "('v \<Rightarrow> 'c \<Rightarrow> 'c) \<Rightarrow> 'v \<Rightarrow> 'c \<Rightarrow> ParserResult \<times> 'c" where
  "invoke_void lambda arg c = (Inr Matched, lambda arg c)"

definition invokeLambda ::
  "(string \<Rightarrow> 'v \<Rightarrow> ParserResult \<times> 'v) \<Rightarrow> 'v \<Rightarrow> ('v \<Rightarrow> 'c \<Rightarrow> ParserResult \<times> 'c) \<Rightarrow> string \<Rightarrow> 'c \<Rightarrow>
     ParserResult \<times> 'c" where
  "invokeLambda conv temp lambda arg c =
     (let (result, temp) = conv arg temp in if isl result then (result, c) else lambda temp c)"

definition BoundLambda ::
  "(string \<Rightarrow> 'v \<Rightarrow> ParserResult \<times> 'v) \<Rightarrow> 'v \<Rightarrow> ('v \<Rightarrow> 'c \<Rightarrow> ParserResult \<times> 'c) \<Rightarrow> 'c BoundRef" where
  "BoundLambda conv temp lambda = BoundValueRefBase False (invokeLambda conv temp lambda)"

definition BoundFlagLambda :: "(bool \<Rightarrow> 'c \<Rightarrow> ParserResult \<times> 'c) \<Rightarrow> 'c BoundRef" where
  "BoundFlagLambda lambda = BoundFlagRefBase lambda"

section \<open>Options and arguments\<close>

datatype Optionality = IsOptional | IsRequired

record 'c ParserRef =
  m_optionality :: Optionality
  m_ref :: "'c BoundRef"
  m_hint :: string
  m_description :: string

type_synonym 'c Arg = "'c ParserRef"

record 'c Opt = "'c ParserRef" +
  m_optNames :: "string list"

definition isOptional :: "('c, 'x) ParserRef_scheme \<Rightarrow> bool" where
  "isOptional p \<longleftrightarrow> m_optionality p = IsOptional"

definition cardinality :: "('c, 'x) ParserRef_scheme \<Rightarrow> nat" where
  "cardinality p = (if isContainer (m_ref p) then 0 else 1)"

definition described :: "string \<Rightarrow> ('c, 'x) ParserRef_scheme \<Rightarrow> ('c, 'x) ParserRef_scheme" where
  "described text p = p\<lparr>m_description := text\<rparr>"

definition Arg_new :: "'c BoundRef \<Rightarrow> string \<Rightarrow> 'c Arg" where
  "Arg_new ref hint = \<lparr>m_optionality = IsOptional, m_ref = ref, m_hint = hint, m_description = []\<rparr>"

definition Opt_new :: "'c BoundRef \<Rightarrow> string \<Rightarrow> 'c Opt" where
  "Opt_new ref hint = ParserRef.extend (Arg_new ref hint) \<lparr>m_optNames = []\<rparr>"

definition named :: "string \<Rightarrow> 'c Opt \<Rightarrow> 'c Opt" where
  "named optName p = p\<lparr>m_optNames := m_optNames p @ [optName]\<rparr>"

definition getHelpColumns_Opt :: "'c Opt \<Rightarrow> (string \<times> string) list" where
  "getHelpColumns_Opt p =
     [(join_with '', '' (m_optNames p) @ (if m_hint p \<noteq> [] then '' <'' @ m_hint p @ ''>'' else []), m_description p)]"

definition normaliseOpt :: "string \<Rightarrow> string" where
  "normaliseOpt optName = optName"

definition isMatch :: "string \<Rightarrow> 'c Opt \<Rightarrow> bool" where
  "isMatch optToken p \<longleftrightarrow> list_ex (\<lambda>optName. normaliseOpt optName = normaliseOpt optToken) (m_optNames p)"

fun validate_names :: "string list \<Rightarrow> clara_error + unit" where
  "validate_names [] = Inr ()"
| "validate_names (optName # names) =
     (if optName = [] then Inl (LogicError ''Option name cannot be empty'')
      else if optName ! 0 \<noteq> CHR ''-'' then Inl (LogicError (''Option name must begin with '' @ quote ''-''))
      else validate_names names)"

definition Opt_validate :: "'c Opt \<Rightarrow> clara_error + unit" where
  "Opt_validate p =
     (if m_optNames p = [] then Inl (LogicError ''No options supplied to Opt'') else validate_names (m_optNames p))"

definition expected_argument :: "Token \<Rightarrow> clara_error" where
  "expected_argument token = RuntimeError (''Expected argument following '' @ tok_text token)"

text \<open>What \<open>Opt::parse\<close> makes of the result of \<open>setFlag\<close> or \<open>setValue\<close> with the stream at the token read last.\<close>

definition set_result :: "TokenStream \<Rightarrow> ParserResult \<times> 'c \<Rightarrow> InternalParseResult \<times> 'c" where
  "set_result tokens rc =
     (case rc of
        (Inl e, c) \<Rightarrow> (Inl e, c)
      | (Inr r, c) \<Rightarrow>
          (Inr (if r = ShortCircuitAll then \<lparr>ps_type = r, remainingTokens = tokens\<rparr>
                else \<lparr>ps_type = Matched, remainingTokens = TokenStream_next tokens\<rparr>), c))"

definition Opt_parse :: "'c Opt \<Rightarrow> TokenStream \<Rightarrow> 'c \<Rightarrow> (InternalParseResult \<times> 'c) option" where
  "Opt_parse p tokens c =
     (case Opt_validate p of
        Inl e \<Rightarrow> Some (Inl e, c)
      | Inr _ \<Rightarrow>
          if \<not> TokenStream_bool tokens then Some (Inr \<lparr>ps_type = NoMatch, remainingTokens = tokens\<rparr>, c)
          else do {
            token \<leftarrow> TokenStream_front tokens;
            if \<not> (tok_type token = TokenOption \<and> isMatch (tok_text token) p)
            then Some (Inr \<lparr>ps_type = NoMatch, remainingTokens = tokens\<rparr>, c)
            else (case m_ref p of
                BoundFlagRefBase setFlag \<Rightarrow>
                  Some (set_result tokens (setFlag True c))
              | BoundValueRefBase _ setValue \<Rightarrow>
                  (let tokens = TokenStream_next tokens in
                   if \<not> TokenStream_bool tokens then Some (Inl (expected_argument token), c)
                   else do {
                     argToken \<leftarrow> TokenStream_front tokens;
                     if tok_type argToken \<noteq> TokenArgument then Some (Inl (expected_argument token), c)
                     else Some (set_result tokens (setValue (tok_text argToken) c)) }))
          })"

definition Arg_parse :: "'c Arg \<Rightarrow> TokenStream \<Rightarrow> 'c \<Rightarrow> (InternalParseResult \<times> 'c) option" where
  "Arg_parse p tokens c = do {
     token \<leftarrow> TokenStream_front tokens;
     if tok_type token \<noteq> TokenArgument then Some (Inr \<lparr>ps_type = NoMatch, remainingTokens = tokens\<rparr>, c)
     else (case m_ref p of
         BoundFlagRefBase _ \<Rightarrow> None
       | BoundValueRefBase _ setValue \<Rightarrow>
           Some (case setValue (tok_text token) c of
               (Inl e, c) \<Rightarrow> (Inl e, c)
             | (Inr _, c) \<Rightarrow> (Inr \<lparr>ps_type = Matched, remainingTokens = TokenStream_next tokens\<rparr>, c))) }"

definition Help_new :: "(bool \<Rightarrow> 'c \<Rightarrow> 'c) \<Rightarrow> 'c Opt" where
  "Help_new upd = (described ''display usage information'' (named ''--help'' (named ''-h'' (named ''-?''
     (Opt_new (BoundFlagLambda (\<lambda>flag c. (Inr ShortCircuitAll, upd flag c))) [])))))\<lparr>m_optionality := IsOptional\<rparr>"

section \<open>The combined parser\<close>

record 'c ExeName =
  exe_name :: string
  exe_ref :: "(string \<Rightarrow> 'c \<Rightarrow> ParserResult \<times> 'c) option"

definition ExeName_empty :: "'c ExeName" where
  "ExeName_empty = \<lparr>exe_name = ''<executable>'', exe_ref = None\<rparr>"

definition ExeName_new :: "('c \<Rightarrow> string) \<Rightarrow> (string \<Rightarrow> 'c \<Rightarrow> 'c) \<Rightarrow> 'c ExeName" where
  "ExeName_new get upd = ExeName_empty\<lparr>exe_ref :=
     Some (\<lambda>arg c. let (result, v) = convertInto_string arg (get c) in (result, upd v c))\<rparr>"

definition exe_filename :: "string \<Rightarrow> string" where
  "exe_filename newName =
     (case find_last_of [CHR 0x5C, CHR ''/''] newName of
        None \<Rightarrow> newName | Some lastSlash \<Rightarrow> drop (lastSlash + 1) newName)"

definition ExeName_set :: "string \<Rightarrow> 'c ExeName \<Rightarrow> 'c \<Rightarrow> ParserResult \<times> 'c ExeName \<times> 'c" where
  "ExeName_set newName e c =
     (let filename = exe_filename newName;
          e = e\<lparr>exe_name := filename\<rparr>
      in (case exe_ref e of
            None \<Rightarrow> (Inr Matched, e, c)
          | Some setValue \<Rightarrow> (let (result, c) = setValue filename c in (result, e, c))))"

record 'c Parser =
  m_exeName :: "'c ExeName"
  m_options :: "'c Opt list"
  p_args :: "'c Arg list"

definition Parser_new :: "'c Parser" where
  "Parser_new = \<lparr>m_exeName = ExeName_empty, m_options = [], p_args = []\<rparr>"

text \<open>The overloads of \<open>operator|=\<close>.\<close>

definition with_exe :: "'c ExeName \<Rightarrow> 'c Parser \<Rightarrow> 'c Parser" where
  "with_exe e p = p\<lparr>m_exeName := e\<rparr>"

definition with_arg :: "'c Arg \<Rightarrow> 'c Parser \<Rightarrow> 'c Parser" where
  "with_arg a p = p\<lparr>p_args := p_args p @ [a]\<rparr>"

definition with_opt :: "'c Opt \<Rightarrow> 'c Parser \<Rightarrow> 'c Parser" where
  "with_opt opt p = p\<lparr>m_options := m_options p @ [opt]\<rparr>"

definition with_parser :: "'c Parser \<Rightarrow> 'c Parser \<Rightarrow> 'c Parser" where
  "with_parser other p = p\<lparr>m_options := m_options p @ m_options other, p_args := p_args p @ p_args other\<rparr>"

definition getHelpColumns :: "'c Parser \<Rightarrow> (string \<times> string) list" where
  "getHelpColumns p = concat (map getHelpColumns_Opt (m_options p))"

fun validate_options :: "'c Opt list \<Rightarrow> clara_error + unit" where
  "validate_options [] = Inr ()"
| "validate_options (opt # opts) = (case Opt_validate opt of Inl e \<Rightarrow> Inl e | Inr _ \<Rightarrow> validate_options opts)"

text \<open>The arguments have no check of their own, \<open>ParserBase::validate\<close> accepts them.\<close>

definition Parser_validate :: "'c Parser \<Rightarrow> clara_error + unit" where
  "Parser_validate p = validate_options (m_options p)"

text \<open>One parser of the table \<open>parseInfos\<close>, and the loop that offers the next token to each.\<close>

datatype 'c ParserBase = ParserOpt "'c Opt" | ParserArg "'c Arg"

fun ParserBase_parse :: "'c ParserBase \<Rightarrow> TokenStream \<Rightarrow> 'c \<Rightarrow> (InternalParseResult \<times> 'c) option" where
  "ParserBase_parse (ParserOpt p) tokens c = Opt_parse p tokens c"
| "ParserBase_parse (ParserArg p) tokens c = Arg_parse p tokens c"

fun ParserBase_cardinality :: "'c ParserBase \<Rightarrow> nat" where
  "ParserBase_cardinality (ParserOpt p) = cardinality p"
| "ParserBase_cardinality (ParserArg p) = cardinality p"

record 'c ParserInfo =
  pi_parser :: "'c ParserBase"
  pi_count :: nat

definition usable :: "'c ParserInfo \<Rightarrow> bool" where
  "usable info \<longleftrightarrow> ParserBase_cardinality (pi_parser info) = 0 \<or> pi_count info < ParserBase_cardinality (pi_parser info)"

text \<open>The result, whether a token was parsed, and the table with its counts.\<close>

fun try_parsers ::
  "'c ParserInfo list \<Rightarrow> ParseState \<Rightarrow> 'c \<Rightarrow> ((clara_error + ParseState \<times> bool) \<times> 'c ParserInfo list \<times> 'c) option" where
  "try_parsers [] result c = Some (Inr (result, False), [], c)"
| "try_parsers (info # infos) result c =
     (if usable info
      then (case ParserBase_parse (pi_parser info) (remainingTokens result) c of
              None \<Rightarrow> None
            | Some (Inl e, c) \<Rightarrow> Some (Inl e, info # infos, c)
            | Some (Inr result, c) \<Rightarrow>
                if ps_type result \<noteq> NoMatch
                then Some (Inr (result, True), info\<lparr>pi_count := pi_count info + 1\<rparr> # infos, c)
                else (case try_parsers infos result c of
                        None \<Rightarrow> None
                      | Some (r, infos, c) \<Rightarrow> Some (r, info # infos, c)))
      else (case try_parsers infos result c of
              None \<Rightarrow> None
            | Some (r, infos, c) \<Rightarrow> Some (r, info # infos, c)))"

section \<open>The token stream as a list of tokens\<close>

definition args_tokens :: "string list \<Rightarrow> Token list" where
  "args_tokens args = concat (map arg_tokens (filter (\<lambda>s. s \<noteq> []) args))"

definition stream_tokens :: "TokenStream \<Rightarrow> Token list" where
  "stream_tokens ts = m_tokenBuffer ts @ args_tokens (tl (it ts))"

definition stream_ok :: "TokenStream \<Rightarrow> bool" where
  "stream_ok ts \<longleftrightarrow> (it ts = [] \<longleftrightarrow> m_tokenBuffer ts = [])"

lemma args_tokens_simps [simp]:
  "args_tokens [] = []"
  "args_tokens ([] # args) = args_tokens args"
  "s \<noteq> [] \<Longrightarrow> args_tokens (s # args) = arg_tokens s @ args_tokens args"
  "args_tokens (xs @ ys) = args_tokens xs @ args_tokens ys"
  by (simp_all add: args_tokens_def)

lemma arg_tokens_nonempty [simp]: "arg_tokens s \<noteq> []"
proof -
  have "tl s \<noteq> []" if "2 < length s" using that by (cases s) auto
  then show ?thesis by (auto simp: arg_tokens_def split: option.splits)
qed

lemma loadBuffer_ok: "stream_ok (loadBuffer ts)"
  by (simp add: loadBuffer_def stream_ok_def Let_def del: dropWhile_eq_Nil_conv split: list.split)

lemma stream_tokens_loadBuffer: "stream_tokens (loadBuffer ts) = args_tokens (it ts)"
proof -
  have "stream_tokens (loadBuffer \<lparr>it = args, m_tokenBuffer = buf\<rparr>) = args_tokens args" for args buf
    by (induction args) (auto simp: loadBuffer_def stream_tokens_def Let_def)
  then show ?thesis by (cases ts) (simp add: loadBuffer_def)
qed

lemma stream_tokens_next:
  assumes "m_tokenBuffer ts \<noteq> []"
  shows "stream_tokens (TokenStream_next ts) = tl (stream_tokens ts)"
proof (cases "2 \<le> length (m_tokenBuffer ts)")
  case True
  then show ?thesis using assms by (simp add: TokenStream_next_def stream_tokens_def)
next
  case False
  with assms obtain t where "m_tokenBuffer ts = [t]" by (cases "m_tokenBuffer ts"; cases "tl (m_tokenBuffer ts)") auto
  then have "stream_tokens (TokenStream_next ts) = args_tokens (tl (it ts))"
    by (simp add: TokenStream_next_def stream_tokens_loadBuffer)
  then show ?thesis using \<open>m_tokenBuffer ts = [t]\<close> by (simp add: stream_tokens_def)
qed

lemma TokenStream_next_ok: "stream_ok ts \<Longrightarrow> stream_ok (TokenStream_next ts)"
proof (cases "2 \<le> length (m_tokenBuffer ts)")
  case True
  assume "stream_ok ts"
  then show ?thesis using True
    by (cases "m_tokenBuffer ts"; cases "tl (m_tokenBuffer ts)") (auto simp: TokenStream_next_def stream_ok_def)
qed (simp add: TokenStream_next_def loadBuffer_ok)

text \<open>What a client may rely on: a stream holds a list of tokens and walks along it.\<close>

locale token_source =
  fixes ok :: "'s \<Rightarrow> bool" and toks :: "'s \<Rightarrow> 't list"
    and more_toks :: "'s \<Rightarrow> bool" and front :: "'s \<Rightarrow> 't option" and forward :: "'s \<Rightarrow> 's"
  assumes more_iff: "ok s \<Longrightarrow> more_toks s \<longleftrightarrow> toks s \<noteq> []"
    and front_eq: "ok s \<Longrightarrow> front s = (case toks s of [] \<Rightarrow> None | t # _ \<Rightarrow> Some t)"
    and forward_ok: "ok s \<Longrightarrow> ok (forward s)"
    and forward_toks: "ok s \<Longrightarrow> toks s \<noteq> [] \<Longrightarrow> toks (forward s) = tl (toks s)"
begin

lemma walk:
  assumes "ok s" "n \<le> length (toks s)"
  shows "ok ((forward ^^ n) s) \<and> toks ((forward ^^ n) s) = drop n (toks s)"
  using assms(2)
proof (induction n)
  case 0
  then show ?case using assms by simp
next
  case (Suc n)
  then have "ok ((forward ^^ n) s)" and "toks ((forward ^^ n) s) = drop n (toks s)" and "drop n (toks s) \<noteq> []" by auto
  then show ?case by (simp add: forward_ok forward_toks tl_drop drop_Suc)
qed

lemma nth_token:
  assumes "ok s" "n < length (toks s)"
  shows "more_toks ((forward ^^ n) s) \<and> front ((forward ^^ n) s) = Some (toks s ! n)"
proof -
  have *: "ok ((forward ^^ n) s)" "toks ((forward ^^ n) s) = drop n (toks s)" using walk [of s n] assms by auto
  have "drop n (toks s) = toks s ! n # drop (Suc n) (toks s)" using assms(2) by (rule Cons_nth_drop_Suc [symmetric])
  then show ?thesis using * by (simp add: more_iff front_eq)
qed

lemma token_end: "ok s \<Longrightarrow> \<not> more_toks ((forward ^^ length (toks s)) s)"
  using walk [of s "length (toks s)"] by (simp add: more_iff)

end

interpretation arg_stream: token_source stream_ok stream_tokens TokenStream_bool TokenStream_front TokenStream_next
proof unfold_locales
  fix s
  assume ok: "stream_ok s"
  show "TokenStream_bool s \<longleftrightarrow> stream_tokens s \<noteq> []"
    using ok by (auto simp: TokenStream_bool_def stream_ok_def stream_tokens_def)
  show "TokenStream_front s = (case stream_tokens s of [] \<Rightarrow> None | t # _ \<Rightarrow> Some t)"
    using ok by (auto simp: TokenStream_front_def stream_ok_def stream_tokens_def split: list.splits)
  show "stream_ok (TokenStream_next s)" using ok by (rule TokenStream_next_ok)
  show "stream_tokens s \<noteq> [] \<Longrightarrow> stream_tokens (TokenStream_next s) = tl (stream_tokens s)"
    using ok by (intro stream_tokens_next) (auto simp: stream_ok_def stream_tokens_def)
qed

section \<open>The parse loop\<close>

lemma front_buffer: "TokenStream_front ts = Some t \<Longrightarrow> m_tokenBuffer ts \<noteq> []"
  by (auto simp: TokenStream_front_def)

lemma next_shorter:
  "TokenStream_front ts = Some t \<Longrightarrow> length (stream_tokens (TokenStream_next ts)) < length (stream_tokens ts)"
  using front_buffer [of ts t] by (simp add: stream_tokens_next) (simp add: stream_tokens_def)

lemma set_result_Inr:
  assumes "set_result ts rc = (Inr r, c)"
  shows "ps_type r = ShortCircuitAll \<and> remainingTokens r = ts \<or>
    ps_type r = Matched \<and> remainingTokens r = TokenStream_next ts"
  using assms by (auto simp: set_result_def split: prod.splits sum.splits if_splits)

text \<open>A parser that matches has moved past a token.\<close>

lemma ParserBase_parse_shorter:
  assumes "ParserBase_parse p ts c = Some (Inr r, c')" and "ps_type r \<noteq> NoMatch" and "ps_type r \<noteq> ShortCircuitAll"
  shows "length (stream_tokens (remainingTokens r)) < length (stream_tokens ts)"
proof (cases p)
  case (ParserArg a)
  with assms show ?thesis
    by (auto simp: Arg_parse_def bind_eq_Some_conv next_shorter split: if_splits BoundRef.splits prod.splits sum.splits)
next
  case (ParserOpt opt)
  show ?thesis
  proof (cases "m_ref opt")
    case (BoundFlagRefBase f)
    with assms ParserOpt show ?thesis
      by (auto simp: Opt_parse_def bind_eq_Some_conv next_shorter split: if_splits sum.splits dest!: set_result_Inr)
  next
    case (BoundValueRefBase b f)
    with assms ParserOpt obtain t a where "TokenStream_front ts = Some t" "TokenStream_front (TokenStream_next ts) = Some a"
      and "remainingTokens r = TokenStream_next (TokenStream_next ts)"
      by (auto simp: Opt_parse_def Let_def bind_eq_Some_conv split: if_splits sum.splits dest!: set_result_Inr)
    then show ?thesis using next_shorter less_trans by metis
  qed
qed

lemma try_parsers_shorter:
  assumes "try_parsers infos result c = Some (Inr (result', True), infos', c')" and "ps_type result' \<noteq> ShortCircuitAll"
  shows "length (stream_tokens (remainingTokens result')) < length (stream_tokens (remainingTokens result))"
  using assms
proof (induction infos arbitrary: result c infos')
  case Nil
  then show ?case by simp
next
  case (Cons info infos)
  show ?case
  proof (cases "usable info")
    case False
    with Cons show ?thesis by (auto split: option.splits)
  next
    case True
    then obtain r d where p: "ParserBase_parse (pi_parser info) (remainingTokens result) c = Some (Inr r, d)"
      using Cons.prems by (auto split: option.splits sum.splits)
    show ?thesis
    proof (cases "ps_type r = NoMatch")
      case False
      then show ?thesis using Cons.prems True p ParserBase_parse_shorter [OF p] by simp
    next
      case nomatch: True
      then have "remainingTokens r = remainingTokens result"
        using p by (cases "pi_parser info")
          (auto simp: Opt_parse_def Arg_parse_def Let_def bind_eq_Some_conv
            split: if_splits BoundRef.splits sum.splits prod.splits dest!: set_result_Inr)
      moreover obtain infos'' where "try_parsers infos r d = Some (Inr (result', True), infos'', c')"
        using Cons.prems True p nomatch by (auto split: option.splits)
      ultimately show ?thesis using Cons.IH Cons.prems(2) by metis
    qed
  qed
qed

definition unrecognised :: "Token \<Rightarrow> clara_error" where
  "unrecognised token = RuntimeError (''Unrecognised token: '' @ tok_text token)"

function parser_loop ::
  "'c ParserInfo list \<Rightarrow> ParseState \<Rightarrow> 'c \<Rightarrow> (InternalParseResult \<times> 'c) option" where
  "parser_loop infos result c =
     (if \<not> TokenStream_bool (remainingTokens result) then Some (Inr result, c)
      else (case try_parsers infos result c of
              None \<Rightarrow> None
            | Some (Inl e, infos, c) \<Rightarrow> Some (Inl e, c)
            | Some (Inr (result, tokenParsed), infos, c) \<Rightarrow>
                if ps_type result = ShortCircuitAll then Some (Inr result, c)
                else if \<not> tokenParsed
                then do { token \<leftarrow> TokenStream_front (remainingTokens result); Some (Inl (unrecognised token), c) }
                else parser_loop infos result c))"
  by pat_completeness auto

termination
  by (relation "measure (\<lambda>(infos, result, c). length (stream_tokens (remainingTokens result)))")
    (auto simp: try_parsers_shorter)

declare parser_loop.simps [simp del]

definition parseInfos :: "'c Parser \<Rightarrow> 'c ParserInfo list" where
  "parseInfos p = map (\<lambda>b. \<lparr>pi_parser = b, pi_count = 0\<rparr>) (map ParserOpt (m_options p) @ map ParserArg (p_args p))"

definition Parser_parse ::
  "'c Parser \<Rightarrow> string \<Rightarrow> TokenStream \<Rightarrow> 'c \<Rightarrow> (InternalParseResult \<times> 'c Parser \<times> 'c) option" where
  "Parser_parse p exeName tokens c =
     (if 512 \<le> length (m_options p) + length (p_args p) then None
      else let (_, e, c) = ExeName_set exeName (m_exeName p) c; p = p\<lparr>m_exeName := e\<rparr> in
        map_option (\<lambda>(result, c). (result, p, c))
          (parser_loop (parseInfos p) \<lparr>ps_type = NoMatch, remainingTokens = tokens\<rparr> c))"

definition Parser_parse_args :: "'c Parser \<Rightarrow> Args \<Rightarrow> 'c \<Rightarrow> (InternalParseResult \<times> 'c Parser \<times> 'c) option" where
  "Parser_parse_args p args c = Parser_parse p (args_exeName args) (TokenStream_new (args_list args)) c"

section \<open>The reference parser\<close>

text \<open>
  Which parser takes a token, and the parser as a function on the list of
  tokens: the first parser that takes the token is used, and is gone afterwards
  unless it fills a container.  The result is an error, or the tokens left over.
\<close>

fun takes :: "Token \<Rightarrow> 'c ParserBase \<Rightarrow> bool" where
  "takes t (ParserOpt p) \<longleftrightarrow> tok_type t = TokenOption \<and> isMatch (tok_text t) p"
| "takes t (ParserArg p) \<longleftrightarrow> tok_type t = TokenArgument"

text \<open>
  What a parser does with the token it takes and the tokens after it: an error,
  or whether parsing stops and the tokens left over.
\<close>

definition set_outcome :: "Token list \<Rightarrow> Token list \<Rightarrow> ParserResult \<times> 'c \<Rightarrow> (clara_error + bool \<times> Token list) \<times> 'c" where
  "set_outcome here rest rc =
     (case rc of
        (Inl e, c) \<Rightarrow> (Inl e, c)
      | (Inr r, c) \<Rightarrow> (Inr (if r = ShortCircuitAll then (True, here) else (False, rest)), c))"

fun serve :: "'c ParserBase \<Rightarrow> Token \<Rightarrow> Token list \<Rightarrow> 'c \<Rightarrow> (clara_error + bool \<times> Token list) \<times> 'c" where
  "serve (ParserArg a) t ts c =
     (case m_ref a of
        BoundFlagRefBase _ \<Rightarrow> (Inr (True, t # ts), c)
      | BoundValueRefBase _ setValue \<Rightarrow>
          (case setValue (tok_text t) c of (Inl e, c) \<Rightarrow> (Inl e, c) | (Inr _, c) \<Rightarrow> (Inr (False, ts), c)))"
| "serve (ParserOpt opt) t ts c =
     (case m_ref opt of
        BoundFlagRefBase setFlag \<Rightarrow> set_outcome (t # ts) ts (setFlag True c)
      | BoundValueRefBase _ setValue \<Rightarrow>
          (case ts of
             [] \<Rightarrow> (Inl (expected_argument t), c)
           | a # us \<Rightarrow>
               if tok_type a \<noteq> TokenArgument then (Inl (expected_argument t), c)
               else set_outcome ts us (setValue (tok_text a) c)))"

lemma serve_shorter:
  assumes "serve p t ts c = (Inr (False, us), c')"
  shows "length us \<le> length ts"
  using assms by (cases p) (auto simp: set_outcome_def split: BoundRef.splits prod.splits sum.splits if_splits list.splits)

function read_tokens :: "'c ParserBase list \<Rightarrow> Token list \<Rightarrow> 'c \<Rightarrow> (clara_error + Token list) \<times> 'c" where
  "read_tokens ps [] c = (Inr [], c)"
| "read_tokens ps (t # ts) c =
     (case List.extract (takes t) ps of
        None \<Rightarrow> (Inl (unrecognised t), c)
      | Some (ys, p, zs) \<Rightarrow>
          (case serve p t ts c of
             (Inl e, c) \<Rightarrow> (Inl e, c)
           | (Inr (stop, us), c) \<Rightarrow>
               if stop then (Inr us, c)
               else read_tokens (ys @ (if ParserBase_cardinality p = 0 then p # zs else zs)) us c))"
  by pat_completeness auto

termination
  by (relation "measure (\<lambda>(ps, ts, c). length ts)") (auto simp: less_Suc_eq_le dest: serve_shorter [OF sym])

section \<open>The parse loop computes the reference parser\<close>

fun parser_ok :: "'c ParserBase \<Rightarrow> bool" where
  "parser_ok (ParserOpt p) \<longleftrightarrow> \<not> isl (Opt_validate p)"
| "parser_ok (ParserArg p) \<longleftrightarrow> \<not> isFlag (m_ref p)"

definition available :: "'c ParserInfo list \<Rightarrow> 'c ParserBase list" where
  "available infos = map pi_parser (filter usable infos)"

lemma available_simps [simp]:
  "available [] = []"
  "available (info # infos) = (if usable info then pi_parser info # available infos else available infos)"
  by (simp_all add: available_def)

lemma cardinality_cases: "ParserBase_cardinality b = 0 \<or> ParserBase_cardinality b = 1"
  by (cases b) (simp_all add: cardinality_def)

lemma usable_spent:
  "usable info \<Longrightarrow> usable (info\<lparr>pi_count := pi_count info + 1\<rparr>) \<longleftrightarrow> ParserBase_cardinality (pi_parser info) = 0"
  using cardinality_cases [of "pi_parser info"] by (auto simp: usable_def)

lemmas stream_facts = arg_stream.more_iff arg_stream.front_eq arg_stream.forward_ok arg_stream.forward_toks

lemma validated [simp]: "\<not> isl (Opt_validate p) \<longleftrightarrow> Opt_validate p = Inr ()"
  by (cases "Opt_validate p") auto

lemma parse_misfit:
  assumes "stream_ok ts" "stream_tokens ts = t # toks" "parser_ok b" "\<not> takes t b"
  shows "ParserBase_parse b ts c = Some (Inr \<lparr>ps_type = NoMatch, remainingTokens = ts\<rparr>, c)"
  using assms by (cases b; cases "tok_type t") (auto simp: Opt_parse_def Arg_parse_def stream_facts)

lemma try_parsers_None:
  assumes "stream_ok (remainingTokens r)" "stream_tokens (remainingTokens r) = t # toks"
    "list_all parser_ok (available infos)" "List.extract (takes t) (available infos) = None"
  shows "\<exists>r'. try_parsers infos r c = Some (Inr (r', False), infos, c) \<and> remainingTokens r' = remainingTokens r \<and>
    (ps_type r' = ps_type r \<or> ps_type r' = NoMatch)"
  using assms
proof (induction infos arbitrary: r)
  case (Cons info infos)
  show ?case
  proof (cases "usable info")
    case True
    let ?r = "\<lparr>ps_type = NoMatch, remainingTokens = remainingTokens r\<rparr>"
    have "ParserBase_parse (pi_parser info) (remainingTokens r) c = Some (Inr ?r, c)"
      using Cons.prems True by (intro parse_misfit) (auto simp: extract_None_iff)
    then show ?thesis using Cons.IH [of ?r] Cons.prems True by (auto simp: extract_None_iff)
  next
    case False
    then show ?thesis using Cons.IH [OF Cons.prems(1,2)] Cons.prems(3,4) by fastforce
  qed
qed simp

text \<open>The loop hands the token to the parser \<open>b\<close>, which leaves the table \<open>infos'\<close>.\<close>

definition hands :: "'c ParserBase \<Rightarrow> 'c ParserInfo list \<Rightarrow> 'c ParserInfo list \<Rightarrow> ParseState \<Rightarrow> 'c \<Rightarrow> bool" where
  "hands b infos infos' r c \<longleftrightarrow>
    (\<forall>e c'. ParserBase_parse b (remainingTokens r) c = Some (Inl e, c') \<longrightarrow>
       try_parsers infos r c = Some (Inl e, infos, c')) \<and>
    (\<forall>r' c'. ParserBase_parse b (remainingTokens r) c = Some (Inr r', c') \<and> ps_type r' \<noteq> NoMatch \<longrightarrow>
       try_parsers infos r c = Some (Inr (r', True), infos', c'))"

lemma try_parsers_Some:
  assumes "stream_ok (remainingTokens r)" "stream_tokens (remainingTokens r) = t # toks"
    "list_all parser_ok (available infos)" "List.extract (takes t) (available infos) = Some (ys, b, zs)"
  shows "\<exists>infos'. available infos' = ys @ (if ParserBase_cardinality b = 0 then b # zs else zs) \<and> hands b infos infos' r c"
  using assms
proof (induction infos arbitrary: r ys)
  case (Cons info infos)
  show ?case
  proof (cases "usable info")
    case False
    then obtain infos' where "available infos' = ys @ (if ParserBase_cardinality b = 0 then b # zs else zs)"
      "hands b infos infos' r c"
      using Cons.IH [OF Cons.prems(1,2), of ys] Cons.prems(3,4) by auto
    then show ?thesis using False by (intro exI [of _ "info # infos'"]) (auto simp: hands_def)
  next
    case usable: True
    show ?thesis
    proof (cases "takes t (pi_parser info)")
      case True
      then have "ys = []" "b = pi_parser info" "zs = available infos"
        using Cons.prems(4) usable by (auto simp: extract_Cons_code)
      then show ?thesis using usable usable_spent [OF usable]
        by (intro exI [of _ "info\<lparr>pi_count := pi_count info + 1\<rparr> # infos"]) (auto simp: hands_def)
    next
      case False
      let ?r = "\<lparr>ps_type = NoMatch, remainingTokens = remainingTokens r\<rparr>"
      obtain ys' where ys: "ys = pi_parser info # ys'" and ext: "List.extract (takes t) (available infos) = Some (ys', b, zs)"
        using Cons.prems(4) usable False by (auto simp: extract_Cons_code split: option.splits)
      have miss: "ParserBase_parse (pi_parser info) (remainingTokens r) c = Some (Inr ?r, c)"
        using Cons.prems usable False by (intro parse_misfit) auto
      obtain infos' where "available infos' = ys' @ (if ParserBase_cardinality b = 0 then b # zs else zs)"
        "hands b infos infos' ?r c"
        using Cons.IH [of ?r ys'] Cons.prems ext usable by auto
      then show ?thesis using usable ys miss by (intro exI [of _ "info # infos'"]) (auto simp: hands_def)
    qed
  qed
qed (simp add: extract_Nil_code)

text \<open>The result of the loop as the reference parser gives it.\<close>

definition loop_outcome :: "InternalParseResult \<times> 'c \<Rightarrow> (clara_error + Token list) \<times> 'c" where
  "loop_outcome rc = (map_sum id (\<lambda>r. stream_tokens (remainingTokens r)) (fst rc), snd rc)"

lemma parser_loop_end:
  "stream_ok (remainingTokens r) \<Longrightarrow> stream_tokens (remainingTokens r) = [] \<Longrightarrow> parser_loop infos r c = Some (Inr r, c)"
  by (subst parser_loop.simps) (simp add: stream_facts)

lemma parser_loop_Inl:
  assumes "stream_ok (remainingTokens r)" "stream_tokens (remainingTokens r) \<noteq> []" "hands b infos infos' r c"
    "ParserBase_parse b (remainingTokens r) c = Some (Inl e, c')"
  shows "parser_loop infos r c = Some (Inl e, c')"
  using assms by (subst parser_loop.simps) (simp add: stream_facts hands_def)

lemma parser_loop_Inr:
  assumes "stream_ok (remainingTokens r)" "stream_tokens (remainingTokens r) \<noteq> []" "hands b infos infos' r c"
    "ParserBase_parse b (remainingTokens r) c = Some (Inr r', c')" "ps_type r' \<noteq> NoMatch"
  shows "parser_loop infos r c = (if ps_type r' = ShortCircuitAll then Some (Inr r', c') else parser_loop infos' r' c')"
  using assms by (subst parser_loop.simps) (simp add: stream_facts hands_def)

lemma parser_loop_unrecognised:
  assumes "stream_ok (remainingTokens r)" "stream_tokens (remainingTokens r) = t # toks" "ps_type r \<noteq> ShortCircuitAll"
    "list_all parser_ok (available infos)" "List.extract (takes t) (available infos) = None"
  shows "parser_loop infos r c = Some (Inl (unrecognised t), c)"
proof -
  obtain r' where "try_parsers infos r c = Some (Inr (r', False), infos, c)" "remainingTokens r' = remainingTokens r"
    "ps_type r' = ps_type r \<or> ps_type r' = NoMatch"
    using try_parsers_None [OF assms(1,2,4,5)] by blast
  then show ?thesis using assms by (subst parser_loop.simps) (auto simp: stream_facts)
qed

lemma parse_fit:
  assumes "stream_ok ts" "stream_tokens ts = t # toks" "parser_ok b" "takes t b"
  shows "\<exists>R c'. ParserBase_parse b ts c = Some (R, c') \<and>
    serve b t toks c = (map_sum id (\<lambda>r. (ps_type r = ShortCircuitAll, stream_tokens (remainingTokens r))) R, c') \<and>
    (\<forall>r. R = Inr r \<longrightarrow> ps_type r \<noteq> NoMatch \<and> stream_ok (remainingTokens r))"
proof (cases b)
  case (ParserArg a)
  then obtain k f where "m_ref a = BoundValueRefBase k f" using assms(3) by (cases "m_ref a") auto
  then show ?thesis using ParserArg assms
    by (cases "f (tok_text t) c"; cases "fst (f (tok_text t) c)") (auto simp: Arg_parse_def stream_facts)
next
  case (ParserOpt opt)
  note * = ParserOpt assms
  show ?thesis
  proof (cases "m_ref opt")
    case (BoundFlagRefBase f)
    then show ?thesis using *
      by (cases "f True c"; cases "fst (f True c)") (auto simp: Opt_parse_def set_result_def set_outcome_def stream_facts)
  next
    case (BoundValueRefBase k f)
    show ?thesis
    proof (cases toks)
      case Nil
      then show ?thesis using * BoundValueRefBase by (auto simp: Opt_parse_def stream_facts)
    next
      case (Cons a us)
      then show ?thesis using * BoundValueRefBase
        by (cases "f (tok_text a) c"; cases "fst (f (tok_text a) c)")
          (auto simp: Opt_parse_def set_result_def set_outcome_def stream_facts Let_def)
    qed
  qed
qed

lemma parser_loop_reads:
  assumes "stream_ok (remainingTokens r)" "list_all parser_ok (available infos)" "ps_type r \<noteq> ShortCircuitAll"
  shows "map_option loop_outcome (parser_loop infos r c) =
    Some (read_tokens (available infos) (stream_tokens (remainingTokens r)) c)"
  using assms
proof (induction "available infos" "stream_tokens (remainingTokens r)" c arbitrary: infos r rule: read_tokens.induct)
  case (1 ps c)
  then show ?case by (simp add: parser_loop_end loop_outcome_def)
next
  case (2 t toks c)
  note toks = 2(2) [symmetric]
  show ?case
  proof (cases "List.extract (takes t) (available infos)")
    case None
    then show ?thesis using 2(3-) toks by (simp add: parser_loop_unrecognised [OF _ toks] loop_outcome_def)
  next
    case (Some x)
    then obtain ys b zs where ext: "List.extract (takes t) (available infos) = Some (ys, b, zs)" by (cases x) auto
    then have avail: "available infos = ys @ b # zs" and "takes t b" by (simp_all add: extract_Some_iff)
    then have "parser_ok b" using 2(4) by simp
    obtain infos' where infos': "available infos' = ys @ (if ParserBase_cardinality b = 0 then b # zs else zs)"
      and hands: "hands b infos infos' r c"
      using try_parsers_Some [OF 2(3) toks 2(4) ext] by blast
    obtain R c' where parse: "ParserBase_parse b (remainingTokens r) c = Some (R, c')"
      and serve: "serve b t toks c = (map_sum id (\<lambda>r. (ps_type r = ShortCircuitAll, stream_tokens (remainingTokens r))) R, c')"
      and R: "\<And>r. R = Inr r \<Longrightarrow> ps_type r \<noteq> NoMatch \<and> stream_ok (remainingTokens r)"
      using parse_fit [OF 2(3) toks \<open>parser_ok b\<close> \<open>takes t b\<close>] by blast
    show ?thesis
    proof (cases R)
      case (Inl e)
      then show ?thesis using parser_loop_Inl [OF 2(3) _ hands] parse serve toks ext by (simp add: loop_outcome_def)
    next
      case (Inr r')
      then have loop: "parser_loop infos r c =
        (if ps_type r' = ShortCircuitAll then Some (Inr r', c') else parser_loop infos' r' c')"
        using parser_loop_Inr [OF 2(3) _ hands] parse R toks by simp
      show ?thesis
      proof (cases "ps_type r' = ShortCircuitAll")
        case True
        then show ?thesis using loop Inr serve toks ext by (simp add: loop_outcome_def)
      next
        case False
        have "list_all parser_ok (available infos')" using 2(4) avail infos' by auto
        then have "map_option loop_outcome (parser_loop infos' r' c') =
            Some (read_tokens (available infos') (stream_tokens (remainingTokens r')) c')"
          using 2(1) [OF ext refl refl, where infos = infos' and r = r'] R [OF Inr] False Inr serve infos' by simp
        then show ?thesis using loop False Inr serve toks ext infos' by simp
      qed
    qed
  qed
qed

definition parsers :: "'c Parser \<Rightarrow> 'c ParserBase list" where
  "parsers p = map ParserOpt (m_options p) @ map ParserArg (p_args p)"

definition parser_wf :: "'c Parser \<Rightarrow> bool" where
  "parser_wf p \<longleftrightarrow> Parser_validate p = Inr () \<and> list_all (\<lambda>a. \<not> isFlag (m_ref a)) (p_args p) \<and>
     length (m_options p) + length (p_args p) < 512"

lemma Parser_validate_ok: "Parser_validate p = Inr () \<longleftrightarrow> list_all (\<lambda>opt. Opt_validate opt = Inr ()) (m_options p)"
proof -
  have "validate_options opts = Inr () \<longleftrightarrow> list_all (\<lambda>opt. Opt_validate opt = Inr ()) opts" for opts :: "'a Opt list"
    by (induction opts) (auto split: sum.splits)
  then show ?thesis by (simp add: Parser_validate_def)
qed

lemma available_parseInfos: "available (parseInfos p) = parsers p"
proof -
  have "usable \<lparr>pi_parser = b, pi_count = 0\<rparr>" for b :: "'a ParserBase" by (auto simp: usable_def)
  then show ?thesis by (simp add: available_def parseInfos_def parsers_def filter_map comp_def)
qed

lemma parse_args_reads:
  assumes "parser_wf p"
  shows "\<exists>r. Parser_parse_args p args c =
      (let (_, e, d) = ExeName_set (args_exeName args) (m_exeName p) c in
       Some (r, p\<lparr>m_exeName := e\<rparr>, snd (read_tokens (parsers p) (args_tokens (args_list args)) d))) \<and>
    map_sum id (\<lambda>r. stream_tokens (remainingTokens r)) r =
      fst (read_tokens (parsers p) (args_tokens (args_list args))
        (snd (snd (ExeName_set (args_exeName args) (m_exeName p) c))))"
proof -
  obtain x e d where set: "ExeName_set (args_exeName args) (m_exeName p) c = (x, e, d)" by (metis prod_cases3)
  let ?r = "\<lparr>ps_type = NoMatch, remainingTokens = TokenStream_new (args_list args)\<rparr>"
  let ?p = "p\<lparr>m_exeName := e\<rparr>"
  have *: "parsers ?p = parsers p" by (simp add: parsers_def)
  have "list_all parser_ok (available (parseInfos ?p))"
    using assms by (auto simp: available_parseInfos parsers_def parser_wf_def Parser_validate_ok list_all_iff)
  then have "map_option loop_outcome (parser_loop (parseInfos ?p) ?r d) =
      Some (read_tokens (parsers p) (args_tokens (args_list args)) d)"
    using parser_loop_reads [of ?r "parseInfos ?p" d]
    by (simp add: available_parseInfos * TokenStream_new_def loadBuffer_ok stream_tokens_loadBuffer)
  then obtain r d' where "parser_loop (parseInfos ?p) ?r d = Some (r, d')"
    "loop_outcome (r, d') = read_tokens (parsers p) (args_tokens (args_list args)) d" by auto
  moreover from this have "d' = snd (read_tokens (parsers p) (args_tokens (args_list args)) d)"
    "map_sum id (\<lambda>r. stream_tokens (remainingTokens r)) r = fst (read_tokens (parsers p) (args_tokens (args_list args)) d)"
    by (auto simp: loop_outcome_def prod_eq_iff)
  ultimately show ?thesis using set assms
    by (intro exI [of _ r]) (simp add: Parser_parse_args_def Parser_parse_def parser_wf_def)
qed

section \<open>Lists of settings\<close>

text \<open>
  A command line as settings of options: the name of an option, with a value
  unless the option is a flag.  The options are looked up by name, and those
  that do not fill a container are gone once used.
\<close>

type_synonym setting = "string \<times> string option"

fun setting_tokens :: "setting \<Rightarrow> Token list" where
  "setting_tokens (n, v) = OptionToken n # (case v of None \<Rightarrow> [] | Some v \<Rightarrow> [ArgumentToken v])"

fun setting_arg :: "setting \<Rightarrow> string" where
  "setting_arg (n, v) = n @ (case v of None \<Rightarrow> [] | Some v \<Rightarrow> CHR ''='' # v)"

text \<open>The effect of a setting that the option accepts.\<close>

definition apply_ref :: "'c BoundRef \<Rightarrow> string option \<Rightarrow> 'c \<Rightarrow> 'c option" where
  "apply_ref r v c =
     (case (r, v) of
        (BoundFlagRefBase f, None) \<Rightarrow> (case f True c of (Inr Matched, c) \<Rightarrow> Some c | _ \<Rightarrow> None)
      | (BoundValueRefBase _ f, Some v) \<Rightarrow> (case f v c of (Inr Matched, c) \<Rightarrow> Some c | _ \<Rightarrow> None)
      | _ \<Rightarrow> None)"

definition apply_setting :: "'c Opt list \<Rightarrow> setting \<Rightarrow> 'c \<Rightarrow> 'c option" where
  "apply_setting opts s c =
     (case find (isMatch (fst s)) opts of None \<Rightarrow> None | Some opt \<Rightarrow> apply_ref (m_ref opt) (snd s) c)"

fun apply_settings :: "'c Opt list \<Rightarrow> setting list \<Rightarrow> 'c \<Rightarrow> 'c option" where
  "apply_settings opts [] c = Some c"
| "apply_settings opts (s # ss) c = do { c \<leftarrow> apply_setting opts s c; apply_settings opts ss c }"

definition long_name :: "string \<Rightarrow> bool" where
  "long_name n \<longleftrightarrow> take 2 n = ''--'' \<and> find_first_of '' :='' n = None"

lemma find_first_of_append:
  "find_first_of cs (xs @ ys) =
     (case find_first_of cs xs of Some i \<Rightarrow> Some i | None \<Rightarrow> map_option ((+) (length xs)) (find_first_of cs ys))"
proof (induction xs)
  case Nil
  show ?case by (cases "find_first_of cs ys") simp_all
next
  case (Cons x xs)
  then show ?case by (cases "find_first_of cs ys") (auto split: option.splits)
qed

lemma arg_tokens_setting:
  assumes "long_name (fst s)"
  shows "arg_tokens (setting_arg s) = setting_tokens s" "setting_arg s \<noteq> []"
proof -
  obtain n v where s: "s = (n, v)" by (cases s)
  obtain r where n: "n = ''--'' @ r" and none: "find_first_of '' :='' n = None"
    using assms s append_take_drop_id [of 2 n] unfolding long_name_def by (metis fst_conv)
  show "arg_tokens (setting_arg s) = setting_tokens s"
  proof (cases v)
    case None
    then show ?thesis using s n none by (simp add: arg_tokens_def isOptPrefix_def)
  next
    case (Some x)
    have "find_first_of '' :='' (n @ CHR ''='' # x) = Some (length n)" using none by (simp add: find_first_of_append)
    then show ?thesis using s n Some by (simp add: arg_tokens_def isOptPrefix_def)
  qed
  show "setting_arg s \<noteq> []" using s n by simp
qed

lemma args_tokens_settings:
  assumes "list_all (\<lambda>s. long_name (fst s)) ss"
  shows "args_tokens (map setting_arg ss @ args) = concat (map setting_tokens ss) @ args_tokens args"
  using assms by (induction ss) (simp_all add: arg_tokens_setting)

text \<open>No option that holds one value is named again later.\<close>

fun named_once :: "'c Opt list \<Rightarrow> string list \<Rightarrow> bool" where
  "named_once opts [] = True"
| "named_once opts (n # ns) =
     (case find (isMatch n) opts of
        None \<Rightarrow> False
      | Some opt \<Rightarrow> (isContainer (m_ref opt) \<or> list_all (\<lambda>n'. \<not> isMatch n' opt) ns) \<and> named_once opts ns)"

abbreviation settings_once :: "'c Opt list \<Rightarrow> setting list \<Rightarrow> bool" where
  "settings_once opts ss \<equiv> named_once opts (map fst ss)"

lemma named_once_subseq: "subseq ns ns' \<Longrightarrow> named_once opts ns' \<Longrightarrow> named_once opts ns"
proof (induction rule: list_emb.induct)
  case (list_emb_Cons2 x y xs ys)
  then have "list_all P ys \<Longrightarrow> list_all P xs" for P by (auto simp: list_all_iff dest: list_emb_set)
  then show ?case using list_emb_Cons2 by (auto split: option.splits)
qed (auto split: option.splits)

lemma settings_cong:
  assumes "list_all (\<lambda>s. find (isMatch (fst s)) opts = find (isMatch (fst s)) opts') ss"
  shows "settings_once opts ss = settings_once opts' ss" and "apply_settings opts ss c = apply_settings opts' ss c"
proof -
  show "settings_once opts ss = settings_once opts' ss" using assms by (induction ss) (auto split: option.splits)
  show "apply_settings opts ss c = apply_settings opts' ss c"
    using assms by (induction ss arbitrary: c) (auto simp: apply_setting_def cong: Option.bind_cong)
qed

lemma find_skip: "\<not> P x \<Longrightarrow> find P (ys @ x # zs) = find P (ys @ zs)"
  by (induction ys) auto

lemma extract_option:
  assumes "find (isMatch n) opts = Some opt"
  obtains ys zs where "opts = ys @ opt # zs"
    "List.extract (takes (OptionToken n)) (map ParserOpt opts @ ps) = Some (map ParserOpt ys, ParserOpt opt, map ParserOpt zs @ ps)"
    "\<And>n'. \<not> isMatch n' opt \<Longrightarrow> find (isMatch n') (ys @ zs) = find (isMatch n') opts"
proof -
  from assms obtain i where i: "i < length opts" "isMatch n (opts ! i)" "opt = opts ! i" "\<And>j. j < i \<Longrightarrow> \<not> isMatch n (opts ! j)"
    by (auto simp: find_Some_iff)
  let ?ys = "take i opts" and ?zs = "drop (Suc i) opts"
  have opts: "opts = ?ys @ opt # ?zs" using i id_take_nth_drop by blast
  have none: "\<And>y. y \<in> set ?ys \<Longrightarrow> \<not> isMatch n y" using i by (auto simp: in_set_conv_nth)
  have "List.extract (takes (OptionToken n)) (map ParserOpt opts @ ps) =
      Some (map ParserOpt ?ys, ParserOpt opt, map ParserOpt ?zs @ ps)"
    using opts none i by (simp add: extract_Some_iff) (metis append_Cons append_assoc list.simps(9) map_append)
  moreover have "find (isMatch n') (?ys @ ?zs) = find (isMatch n') opts" if "\<not> isMatch n' opt" for n'
    using that find_skip [of "isMatch n'" opt ?ys ?zs] opts by simp
  ultimately show thesis using that opts by blast
qed

lemma read_setting:
  assumes "apply_setting opts s c = Some c'"
  obtains opt opts' where "find (isMatch (fst s)) opts = Some opt"
    "read_tokens (map ParserOpt opts @ ps) (setting_tokens s @ rest) c = read_tokens (map ParserOpt opts' @ ps) rest c'"
    "isContainer (m_ref opt) \<Longrightarrow> opts' = opts"
    "\<And>n'. \<not> isMatch n' opt \<Longrightarrow> find (isMatch n') opts' = find (isMatch n') opts"
proof -
  obtain n v where s: "s = (n, v)" by (cases s)
  obtain opt where opt: "find (isMatch n) opts = Some opt" using assms s by (auto simp: apply_setting_def split: option.splits)
  obtain ys zs where ys: "opts = ys @ opt # zs"
    and ext: "List.extract (takes (OptionToken n)) (map ParserOpt opts @ ps) = Some (map ParserOpt ys, ParserOpt opt, map ParserOpt zs @ ps)"
    and rest: "\<And>n'. \<not> isMatch n' opt \<Longrightarrow> find (isMatch n') (ys @ zs) = find (isMatch n') opts"
    using extract_option [OF opt] by blast
  let ?opts = "if isContainer (m_ref opt) then opts else ys @ zs"
  have "read_tokens (map ParserOpt opts @ ps) (setting_tokens s @ rest) c = read_tokens (map ParserOpt ?opts @ ps) rest c'"
    using assms s opt ext ys
    by (auto simp: apply_setting_def apply_ref_def set_outcome_def cardinality_def
      split: BoundRef.splits option.splits prod.splits sum.splits ParseResultType.splits)
  then show thesis using that [of opt ?opts] opt s rest by simp
qed

lemma read_settings:
  assumes "settings_once opts ss" "apply_settings opts ss c = Some c'"
  shows "\<exists>opts'. read_tokens (map ParserOpt opts @ ps) (concat (map setting_tokens ss) @ rest) c =
      read_tokens (map ParserOpt opts' @ ps) rest c' \<and>
    (\<forall>n. list_all (\<lambda>s. \<not> isMatch n (the (find (isMatch (fst s)) opts))) ss \<longrightarrow>
       find (isMatch n) opts' = find (isMatch n) opts)"
  using assms
proof (induction ss arbitrary: opts c)
  case (Cons s ss)
  then obtain d where s: "apply_setting opts s c = Some d" and ss: "apply_settings opts ss d = Some c'"
    by (auto simp: bind_eq_Some_conv)
  obtain opt opts1 where opt: "find (isMatch (fst s)) opts = Some opt"
    and step: "read_tokens (map ParserOpt opts @ ps) (setting_tokens s @ (concat (map setting_tokens ss) @ rest)) c =
      read_tokens (map ParserOpt opts1 @ ps) (concat (map setting_tokens ss) @ rest) d"
    and same: "isContainer (m_ref opt) \<Longrightarrow> opts1 = opts"
      "\<And>n'. \<not> isMatch n' opt \<Longrightarrow> find (isMatch n') opts1 = find (isMatch n') opts"
    using read_setting [OF s] by metis
  have eq: "list_all (\<lambda>s. find (isMatch (fst s)) opts1 = find (isMatch (fst s)) opts) ss"
  proof (cases "isContainer (m_ref opt)")
    case True
    then show ?thesis using same(1) by (simp add: list_all_iff)
  next
    case False
    then show ?thesis using Cons.prems(1) opt same(2) by (auto simp: list_all_iff)
  qed
  have "settings_once opts1 ss" "apply_settings opts1 ss d = Some c'"
    using Cons.prems(1) opt ss settings_cong [OF eq] by simp_all
  then obtain opts' where "read_tokens (map ParserOpt opts1 @ ps) (concat (map setting_tokens ss) @ rest) d =
      read_tokens (map ParserOpt opts' @ ps) rest c'"
    and keep: "\<And>n. list_all (\<lambda>s. \<not> isMatch n (the (find (isMatch (fst s)) opts1))) ss \<Longrightarrow>
       find (isMatch n) opts' = find (isMatch n) opts1"
    using Cons.IH by blast
  moreover have "find (isMatch n) opts' = find (isMatch n) opts"
    if "list_all (\<lambda>s. \<not> isMatch n (the (find (isMatch (fst s)) opts))) (s # ss)" for n
    using that keep [of n] same(2) [of n] opt eq by (auto simp: list_all_iff)
  ultimately show ?case using step by (intro exI [of _ opts']) simp
qed auto

end
