(* ===== verification/CatchCommandLine.thy ===== *)
theory CatchCommandLine
  imports CatchClara
begin

text \<open>
  The command line of a test executable (\<open>native/src/catch.hpp\<close>,
  \<open>makeCommandLineParser\<close>): the options, the fields of the configuration they
  write, and what a command line means.  The file system, the clock, the
  extraction of a \<open>double\<close> and the registered reporters are parameters.
\<close>

section \<open>The configuration with the benchmark options\<close>

text \<open>\<open>'d\<close> is the type \<open>double\<close>.\<close>

record 'd CliConfig = ConfigData +
  benchmarkNoAnalysis :: bool
  benchmarkSamples :: u32
  benchmarkConfidenceInterval :: 'd
  benchmarkResamples :: u32

definition CliConfig_new :: "'d \<Rightarrow> 'd CliConfig" where
  "CliConfig_new interval = ConfigData.extend ConfigData_new
     \<lparr>benchmarkNoAnalysis = False, benchmarkSamples = 100, benchmarkConfidenceInterval = interval,
      benchmarkResamples = 100000\<rparr>"

record 'd environment =
  file_contents :: "string \<Rightarrow> string option"
  current_time :: u32
  extract_double :: "string \<Rightarrow> 'd \<Rightarrow> bool \<times> 'd"
  reporter_registry :: ReporterRegistry

section \<open>The lambdas of the options\<close>

definition setWarning :: "string \<Rightarrow> 'd CliConfig \<Rightarrow> ParserResult \<times> 'd CliConfig" where
  "setWarning warning config =
     (let warningSet = (if warning = ''NoAssertions'' then WarnNoAssertions
                        else if warning = ''NoTests'' then WarnNoTests else WarnNothing) in
      if warningSet = WarnNothing then (Inl (RuntimeError (''Unrecognised warning: '' @ quote warning)), config)
      else (Inr Matched, config\<lparr>warnings := warnings config OR warningSet\<rparr>))"

text \<open>The lines that \<open>std::getline\<close> reads from a text.\<close>

function getlines :: "string \<Rightarrow> string list" where
  "getlines [] = []"
| "getlines (c # s) = takeWhile (\<lambda>x. x \<noteq> CHR 0x0A) (c # s) # getlines (drop 1 (dropWhile (\<lambda>x. x \<noteq> CHR 0x0A) (c # s)))"
  by pat_completeness auto

termination
proof (relation "measure length")
  fix c :: char and s :: string
  have "length (dropWhile (\<lambda>x. x \<noteq> CHR 0x0A) (c # s)) \<le> length (c # s)" by (rule length_dropWhile_le)
  then show "(drop 1 (dropWhile (\<lambda>x. x \<noteq> CHR 0x0A) (c # s)), c # s) \<in> measure length" by auto
qed simp

text \<open>The body of the loop over the lines; \<open>trim\<close> never throws.\<close>

definition add_test_name :: "string \<Rightarrow> 'd CliConfig \<Rightarrow> 'd CliConfig" where
  "add_test_name line config =
     (case trim line of
        None \<Rightarrow> config
      | Some line \<Rightarrow>
          if line \<noteq> [] \<and> \<not> startsWith_ch line CHR ''#''
          then let line = (if \<not> startsWith_ch line (CHR 0x22) then [CHR 0x22] @ line @ [CHR 0x22] else line)
               in config\<lparr>testsOrTags := testsOrTags config @ [line @ '','']\<rparr>
          else config)"

definition loadTestNamesFromFile ::
  "'d environment \<Rightarrow> string \<Rightarrow> 'd CliConfig \<Rightarrow> ParserResult \<times> 'd CliConfig" where
  "loadTestNamesFromFile env filename config =
     (case file_contents env filename of
        None \<Rightarrow> (Inl (RuntimeError (''Unable to load input file: '' @ quote filename)), config)
      | Some f \<Rightarrow> (Inr Matched, fold add_test_name (getlines f) config))"

definition setTestOrder :: "string \<Rightarrow> 'd CliConfig \<Rightarrow> ParserResult \<times> 'd CliConfig" where
  "setTestOrder order config =
     (if startsWith ''declared'' order then (Inr Matched, config\<lparr>runOrder := InDeclarationOrder\<rparr>)
      else if startsWith ''lexical'' order then (Inr Matched, config\<lparr>runOrder := InLexicographicalOrder\<rparr>)
      else if startsWith ''random'' order then (Inr Matched, config\<lparr>runOrder := InRandomOrder\<rparr>)
      else (Inl (RuntimeError (''Unrecognised ordering: '' @ quote order)), config))"

definition setRngSeed :: "'d environment \<Rightarrow> string \<Rightarrow> 'd CliConfig \<Rightarrow> ParserResult \<times> 'd CliConfig" where
  "setRngSeed env seed config =
     (if seed \<noteq> ''time''
      then let (result, v) = convertInto extract_uint seed (rngSeed config) in (result, config\<lparr>rngSeed := v\<rparr>)
      else (Inr Matched, config\<lparr>rngSeed := current_time env\<rparr>))"

definition setColourUsage :: "string \<Rightarrow> 'd CliConfig \<Rightarrow> ParserResult \<times> 'd CliConfig" where
  "setColourUsage colour config =
     (let mode = toLower colour in
      if mode = ''yes'' then (Inr Matched, config\<lparr>useColour := ColourYes\<rparr>)
      else if mode = ''no'' then (Inr Matched, config\<lparr>useColour := ColourNo\<rparr>)
      else if mode = ''auto'' then (Inr Matched, config\<lparr>useColour := ColourAuto\<rparr>)
      else (Inl (RuntimeError (''colour mode must be one of: auto, yes or no. '' @ quote colour @ '' not recognised'')), config))"

definition setWaitForKeypress :: "string \<Rightarrow> 'd CliConfig \<Rightarrow> ParserResult \<times> 'd CliConfig" where
  "setWaitForKeypress keypress config =
     (let keypressLc = toLower keypress in
      if keypressLc = ''start'' then (Inr Matched, config\<lparr>waitForKeypress := BeforeStart\<rparr>)
      else if keypressLc = ''exit'' then (Inr Matched, config\<lparr>waitForKeypress := BeforeExit\<rparr>)
      else if keypressLc = ''both'' then (Inr Matched, config\<lparr>waitForKeypress := BeforeStartAndExit\<rparr>)
      else (Inl (RuntimeError
        (''keypress argument must be one of: start, exit or both. '' @ quote keypress @ '' not recognised'')), config))"

definition setVerbosity :: "string \<Rightarrow> 'd CliConfig \<Rightarrow> ParserResult \<times> 'd CliConfig" where
  "setVerbosity verbosity config =
     (let lcVerbosity = toLower verbosity in
      if lcVerbosity = ''quiet'' then (Inr Matched, config\<lparr>cd_verbosity := Quiet\<rparr>)
      else if lcVerbosity = ''normal'' then (Inr Matched, config\<lparr>cd_verbosity := Normal\<rparr>)
      else if lcVerbosity = ''high'' then (Inr Matched, config\<lparr>cd_verbosity := High\<rparr>)
      else (Inl (RuntimeError (''Unrecognised verbosity, '' @ quote verbosity)), config))"

definition setReporter :: "'d environment \<Rightarrow> string \<Rightarrow> 'd CliConfig \<Rightarrow> ParserResult \<times> 'd CliConfig" where
  "setReporter env reporter config =
     (let lcReporter = toLower reporter; result = ReporterRegistry_find lcReporter (reporter_registry env) in
      if result \<noteq> None then (Inr Matched, config\<lparr>reporterName := lcReporter\<rparr>)
      else (Inl (RuntimeError
        (''Unrecognized reporter, '' @ quote reporter @ ''. Check available with --list-reporters'')), config))"

section \<open>The parser\<close>

text \<open>An option with its names and its description, and the bindings to text fields and to lambdas on texts.\<close>

definition option_of :: "'c BoundRef \<Rightarrow> string \<Rightarrow> string list \<Rightarrow> string \<Rightarrow> 'c Opt" where
  "option_of ref hint names text = described text (fold named names (Opt_new ref hint))"

abbreviation text_ref :: "('c \<Rightarrow> string) \<Rightarrow> (string \<Rightarrow> 'c \<Rightarrow> 'c) \<Rightarrow> 'c BoundRef" where
  "text_ref \<equiv> BoundValueRef convertInto_string"

abbreviation text_lambda :: "(string \<Rightarrow> 'c \<Rightarrow> ParserResult \<times> 'c) \<Rightarrow> 'c BoundRef" where
  "text_lambda \<equiv> BoundLambda convertInto_string []"

definition command_line_options :: "'d environment \<Rightarrow> 'd CliConfig Opt list" where
  "command_line_options env =
    [Help_new (\<lambda>b c. c\<lparr>showHelp := b\<rparr>),
     option_of (BoundFlagRef (\<lambda>b c. c\<lparr>listTests := b\<rparr>)) [] [''-l'', ''--list-tests''] ''list all/matching test cases'',
     option_of (BoundFlagRef (\<lambda>b c. c\<lparr>listTags := b\<rparr>)) [] [''-t'', ''--list-tags''] ''list all/matching tags'',
     option_of (BoundFlagRef (\<lambda>b c. c\<lparr>showSuccessfulTests := b\<rparr>)) [] [''-s'', ''--success'']
       ''include successful tests in output'',
     option_of (BoundFlagRef (\<lambda>b c. c\<lparr>shouldDebugBreak := b\<rparr>)) [] [''-b'', ''--break''] ''break into debugger on failure'',
     option_of (BoundFlagRef (\<lambda>b c. c\<lparr>noThrow := b\<rparr>)) [] [''-e'', ''--nothrow''] ''skip exception tests'',
     option_of (BoundFlagRef (\<lambda>b c. c\<lparr>showInvisibles := b\<rparr>)) [] [''-i'', ''--invisibles'']
       ''show invisibles (tabs, newlines)'',
     option_of (text_ref outputFilename (\<lambda>s c. c\<lparr>outputFilename := s\<rparr>)) ''filename'' [''-o'', ''--out''] ''output filename'',
     option_of (text_lambda (setReporter env)) ''name'' [''-r'', ''--reporter''] ''reporter to use (defaults to console)'',
     option_of (text_ref cd_name (\<lambda>s c. c\<lparr>cd_name := s\<rparr>)) ''name'' [''-n'', ''--name''] ''suite name'',
     option_of (BoundFlagLambda (invoke_void (\<lambda>_ c. c\<lparr>abortAfter := 1\<rparr>))) [] [''-a'', ''--abort''] ''abort at first failure'',
     option_of (BoundLambda (convertInto extract_int) 0 (invoke_void (\<lambda>x c. c\<lparr>abortAfter := x\<rparr>))) ''no. failures''
       [''-x'', ''--abortx''] ''abort after x failures'',
     option_of (text_lambda setWarning) ''warning name'' [''-w'', ''--warn''] ''enable warnings'',
     option_of (BoundLambda convertInto_bool False
         (invoke_void (\<lambda>flag c. c\<lparr>showDurations := (if flag then DurationsAlways else DurationsNever)\<rparr>))) ''yes|no''
       [''-d'', ''--durations''] ''show test durations'',
     option_of (text_lambda (loadTestNamesFromFile env)) ''filename'' [''-f'', ''--input-file'']
       ''load test names to run from a file'',
     option_of (BoundFlagRef (\<lambda>b c. c\<lparr>filenamesAsTags := b\<rparr>)) [] [''-#'', ''--filenames-as-tags'']
       ''adds a tag for the filename'',
     option_of (BoundVectorRef convertInto_string [] sectionsToRun (\<lambda>v c. c\<lparr>sectionsToRun := v\<rparr>)) ''section name''
       [''-c'', ''--section''] ''specify section to run'',
     option_of (text_lambda setVerbosity) ''quiet|normal|high'' [''-v'', ''--verbosity''] ''set output verbosity'',
     option_of (BoundFlagRef (\<lambda>b c. c\<lparr>listTestNamesOnly := b\<rparr>)) [] [''--list-test-names-only'']
       ''list all/matching test cases names only'',
     option_of (BoundFlagRef (\<lambda>b c. c\<lparr>listReporters := b\<rparr>)) [] [''--list-reporters''] ''list all reporters'',
     option_of (text_lambda setTestOrder) ''decl|lex|rand'' [''--order''] ''test case order (defaults to decl)'',
     option_of (text_lambda (setRngSeed env)) (quote ''time'' @ ''|number'') [''--rng-seed'']
       ''set a specific seed for random numbers'',
     option_of (text_lambda setColourUsage) ''yes|no'' [''--use-colour''] ''should output be colourised'',
     option_of (BoundFlagRef (\<lambda>b c. c\<lparr>libIdentify := b\<rparr>)) [] [''--libidentify'']
       ''report name and version according to libidentify standard'',
     option_of (text_lambda setWaitForKeypress) ''start|exit|both'' [''--wait-for-keypress'']
       ''waits for a keypress before exiting'',
     option_of (BoundValueRef (convertInto extract_uint) benchmarkSamples (\<lambda>v c. c\<lparr>benchmarkSamples := v\<rparr>)) ''samples''
       [''--benchmark-samples''] ''number of samples to collect (default: 100)'',
     option_of (BoundValueRef (convertInto extract_uint) benchmarkResamples (\<lambda>v c. c\<lparr>benchmarkResamples := v\<rparr>))
       ''resamples'' [''--benchmark-resamples''] ''number of resamples for the bootstrap (default: 100000)'',
     option_of (BoundValueRef (convertInto (extract_double env)) benchmarkConfidenceInterval
         (\<lambda>v c. c\<lparr>benchmarkConfidenceInterval := v\<rparr>))
       ''confidence interval'' [''--benchmark-confidence-interval'']
       ''confidence interval for the bootstrap (between 0 and 1, default: 0.95)'',
     option_of (BoundFlagRef (\<lambda>b c. c\<lparr>benchmarkNoAnalysis := b\<rparr>)) [] [''--benchmark-no-analysis'']
       ''perform only measurements; do not perform any analysis'']"

definition makeCommandLineParser :: "'d environment \<Rightarrow> 'd CliConfig Parser" where
  "makeCommandLineParser env =
     with_arg (described ''which test or tests to use''
         (Arg_new (BoundVectorRef convertInto_string [] testsOrTags (\<lambda>v c. c\<lparr>testsOrTags := v\<rparr>)) ''test name|pattern|tags''))
       (fold with_opt (command_line_options env)
         (with_exe (ExeName_new processName (\<lambda>s c. c\<lparr>processName := s\<rparr>)) Parser_new))"

section \<open>The parser is well formed\<close>

named_theorems cli_simps \<open>evaluation of the command line parser\<close>

lemma fold_with_opt: "fold with_opt opts p = p\<lparr>m_options := m_options p @ opts\<rparr>"
  by (induction opts arbitrary: p) (simp_all add: with_opt_def)

lemma makeCommandLineParser_simps [simp]:
  "m_options (makeCommandLineParser env) = command_line_options env"
  "p_args (makeCommandLineParser env) =
     [described ''which test or tests to use''
       (Arg_new (BoundVectorRef convertInto_string [] testsOrTags (\<lambda>v c. c\<lparr>testsOrTags := v\<rparr>)) ''test name|pattern|tags'')]"
  "m_exeName (makeCommandLineParser env) = ExeName_new processName (\<lambda>s c. c\<lparr>processName := s\<rparr>)"
  by (simp_all add: makeCommandLineParser_def fold_with_opt with_arg_def with_exe_def Parser_new_def)

lemma fold_named: "fold named ns p = p\<lparr>m_optNames := m_optNames p @ ns\<rparr>"
  by (induction ns arbitrary: p) (simp_all add: named_def)

lemma option_of_simps [cli_simps]:
  "m_optNames (option_of ref hint names text) = names"
  "m_ref (option_of ref hint names text) = ref"
  by (simp_all add: option_of_def described_def fold_named Opt_new_def Arg_new_def ParserRef.defs)

lemma Help_new_simps [cli_simps]:
  "m_optNames (Help_new upd) = [''-?'', ''-h'', ''--help'']"
  "m_ref (Help_new upd) = BoundFlagLambda (\<lambda>flag c. (Inr ShortCircuitAll, upd flag c))"
  by (simp_all add: Help_new_def described_def named_def Opt_new_def Arg_new_def ParserRef.defs)

lemma arg_simps [cli_simps]: "m_ref (described text (Arg_new ref hint)) = ref"
  by (simp add: described_def Arg_new_def)

lemma option_names:
  "map m_optNames (command_line_options env) =
    [[''-?'', ''-h'', ''--help''], [''-l'', ''--list-tests''], [''-t'', ''--list-tags''], [''-s'', ''--success''],
     [''-b'', ''--break''], [''-e'', ''--nothrow''], [''-i'', ''--invisibles''], [''-o'', ''--out''], [''-r'', ''--reporter''],
     [''-n'', ''--name''], [''-a'', ''--abort''], [''-x'', ''--abortx''], [''-w'', ''--warn''], [''-d'', ''--durations''],
     [''-f'', ''--input-file''], [''-#'', ''--filenames-as-tags''], [''-c'', ''--section''], [''-v'', ''--verbosity''],
     [''--list-test-names-only''], [''--list-reporters''], [''--order''], [''--rng-seed''], [''--use-colour''],
     [''--libidentify''], [''--wait-for-keypress''], [''--benchmark-samples''], [''--benchmark-resamples''],
     [''--benchmark-confidence-interval''], [''--benchmark-no-analysis'']]"
  by (simp add: command_line_options_def cli_simps)

lemma command_line_wf: "parser_wf (makeCommandLineParser env)"
proof -
  have len: "length (command_line_options env) = 29" by (simp add: command_line_options_def)
  have "list_all (\<lambda>ns. ns \<noteq> [] \<and> validate_names ns = Inr ()) (map m_optNames (command_line_options env))"
    unfolding option_names by simp
  then have "list_all (\<lambda>opt. Opt_validate opt = Inr ()) (command_line_options env)"
    by (auto simp: list_all_iff Opt_validate_def)
  then show ?thesis by (simp add: parser_wf_def Parser_validate_ok len cli_simps BoundVectorRef_def)
qed

section \<open>Reading back numbers\<close>

text \<open>Decimal output of a signed number.\<close>

definition show_int :: "int \<Rightarrow> string" where
  "show_int v = (if v < 0 then CHR ''-'' # show_nat (nat (- v)) else show_nat (nat v))"

lemma digit_char:
  fixes d :: nat
  assumes "d < 10"
  shows "is_digit (char_of (48 + d))" "of_char (char_of (48 + d) :: char) = 48 + d" "\<not> is_space (char_of (48 + d))"
    "char_of (48 + d) \<noteq> CHR ''-''" "char_of (48 + d) \<noteq> CHR ''+''"
proof -
  show *: "of_char (char_of (48 + d) :: char) = 48 + d" using assms by simp
  show "is_digit (char_of (48 + d))" "\<not> is_space (char_of (48 + d))" using assms by (simp_all add: is_digit_def is_space_def Let_def)
  have "of_char CHR ''-'' = (45 :: nat)" "of_char CHR ''+'' = (43 :: nat)" by simp_all
  then show "char_of (48 + d) \<noteq> CHR ''-''" "char_of (48 + d) \<noteq> CHR ''+''" using * assms by fastforce+
qed

lemma digits_value_snoc: "digits_value n (s @ [c]) = 10 * digits_value n s + (of_char c - 48)"
  by (induction s arbitrary: n) simp_all

lemma show_nat_read: "digits_value 0 (show_nat n) = n \<and> list_all is_digit (show_nat n)"
proof (induction n rule: show_nat.induct)
  case (1 n)
  show ?case
  proof (cases "n < 10")
    case True
    then show ?thesis using digit_char [of n] by (subst (1 2) show_nat.simps) simp
  next
    case False
    have m: "n mod 10 < 10" by simp
    show ?thesis using False 1 digit_char [OF m] by (subst (1 2) show_nat.simps) (simp add: digits_value_snoc)
  qed
qed

lemma show_nat_first:
  obtains c s where "show_nat n = c # s" "\<not> is_space c" "c \<noteq> CHR ''-''" "c \<noteq> CHR ''+''"
proof -
  have "\<exists>c s. show_nat n = c # s \<and> \<not> is_space c \<and> c \<noteq> CHR ''-'' \<and> c \<noteq> CHR ''+''"
  proof (induction n rule: show_nat.induct)
    case (1 n)
    then show ?case using digit_char [of n] by (subst show_nat.simps) auto
  qed
  then show thesis using that by blast
qed

lemma show_nat_start: "show_nat n \<noteq> []" "dropWhile is_space (show_nat n) = show_nat n"
  by (cases n rule: show_nat_first; simp)+

lemma scan_show_nat: "scan_number (show_nat n) = (False, show_nat n)" "scan_number (CHR ''-'' # show_nat n) = (True, show_nat n)"
proof -
  have "takeWhile is_digit (show_nat n) = show_nat n" using show_nat_read [of n] by (simp add: takeWhile_eq_all_conv list_all_iff)
  then show "scan_number (show_nat n) = (False, show_nat n)" "scan_number (CHR ''-'' # show_nat n) = (True, show_nat n)"
    by (cases n rule: show_nat_first; simp add: scan_number_def)+
qed

lemma extract_int_show:
  assumes "- (2 ^ 31) \<le> v" "v < 2 ^ 31"
  shows "extract_int (show_int v) t = (True, v)"
proof -
  have "\<not> is_space CHR ''-''" by (simp add: is_space_def)
  then have "dropWhile is_space (show_int v) = show_int v" "show_int v \<noteq> []"
    by (simp_all add: show_int_def show_nat_start)
  then show ?thesis using assms
    by (auto simp: extract_int_def show_int_def scan_show_nat show_nat_read show_nat_start)
qed

lemma extract_uint_show: "extract_uint (show_nat (unat w)) t = (True, w)"
proof -
  have "unat w < 2 ^ 32" using unsigned_less [of w] by simp
  then show ?thesis by (simp add: extract_uint_def scan_show_nat show_nat_read show_nat_start)
qed

section \<open>The command line of a configuration\<close>

text \<open>
  The options that set the fields of a configuration: for each name what to
  write, nothing (\<open>None\<close>), the flag alone (\<open>Some None\<close>) or a value.
\<close>

definition flag :: "bool \<Rightarrow> string option option" where
  "flag b = (if b then Some None else None)"

abbreviation val :: "string \<Rightarrow> string option option" where
  "val s \<equiv> Some (Some s)"

definition show_warnings :: "nat \<Rightarrow> string option option" where
  "show_warnings w = (if w = WarnNoAssertions then val ''NoAssertions'' else if w = WarnNoTests then val ''NoTests'' else None)"

fun show_durations :: "ShowDurations \<Rightarrow> string option option" where
  "show_durations DefaultForReporter = None"
| "show_durations DurationsAlways = val ''yes''"
| "show_durations DurationsNever = val ''no''"

fun show_verbosity :: "Verbosity \<Rightarrow> string" where
  "show_verbosity Quiet = ''quiet''"
| "show_verbosity Normal = ''normal''"
| "show_verbosity High = ''high''"

fun show_order :: "RunOrder \<Rightarrow> string" where
  "show_order InDeclarationOrder = ''decl''"
| "show_order InLexicographicalOrder = ''lex''"
| "show_order InRandomOrder = ''rand''"

fun show_colour :: "UseColour \<Rightarrow> string" where
  "show_colour ColourAuto = ''auto''"
| "show_colour ColourYes = ''yes''"
| "show_colour ColourNo = ''no''"

fun show_keypress :: "WaitForKeypress \<Rightarrow> string option option" where
  "show_keypress KeypressNever = None"
| "show_keypress BeforeStart = val ''start''"
| "show_keypress BeforeExit = val ''exit''"
| "show_keypress BeforeStartAndExit = val ''both''"

definition show_reporter :: "string \<Rightarrow> string option option" where
  "show_reporter r = (if r = ''console'' then None else val r)"

type_synonym 'd entry = "string \<times> ('d CliConfig \<Rightarrow> string option option)"

definition cli_table :: "('d \<Rightarrow> string) \<Rightarrow> 'd entry list" where
  "cli_table show_double =
    [(''--list-tests'', \<lambda>d. flag (listTests d)), (''--list-tags'', \<lambda>d. flag (listTags d)),
     (''--list-reporters'', \<lambda>d. flag (listReporters d)), (''--list-test-names-only'', \<lambda>d. flag (listTestNamesOnly d)),
     (''--success'', \<lambda>d. flag (showSuccessfulTests d)), (''--break'', \<lambda>d. flag (shouldDebugBreak d)),
     (''--nothrow'', \<lambda>d. flag (noThrow d)), (''--invisibles'', \<lambda>d. flag (showInvisibles d)),
     (''--filenames-as-tags'', \<lambda>d. flag (filenamesAsTags d)), (''--libidentify'', \<lambda>d. flag (libIdentify d)),
     (''--abortx'', \<lambda>d. val (show_int (abortAfter d))), (''--rng-seed'', \<lambda>d. val (show_nat (unat (rngSeed d)))),
     (''--verbosity'', \<lambda>d. val (show_verbosity (cd_verbosity d))), (''--warn'', \<lambda>d. show_warnings (warnings d)),
     (''--durations'', \<lambda>d. show_durations (showDurations d)), (''--order'', \<lambda>d. val (show_order (runOrder d))),
     (''--use-colour'', \<lambda>d. val (show_colour (useColour d))), (''--wait-for-keypress'', \<lambda>d. show_keypress (waitForKeypress d)),
     (''--out'', \<lambda>d. val (outputFilename d)), (''--name'', \<lambda>d. val (cd_name d)),
     (''--reporter'', \<lambda>d. show_reporter (reporterName d)), (''--benchmark-no-analysis'', \<lambda>d. flag (benchmarkNoAnalysis d)),
     (''--benchmark-samples'', \<lambda>d. val (show_nat (unat (benchmarkSamples d)))),
     (''--benchmark-confidence-interval'', \<lambda>d. val (show_double (benchmarkConfidenceInterval d))),
     (''--benchmark-resamples'', \<lambda>d. val (show_nat (unat (benchmarkResamples d))))]"

definition entry_settings :: "'d CliConfig \<Rightarrow> 'd entry \<Rightarrow> setting list" where
  "entry_settings d e = (case snd e d of None \<Rightarrow> [] | Some v \<Rightarrow> [(fst e, v)])"

definition cli_settings :: "('d \<Rightarrow> string) \<Rightarrow> 'd CliConfig \<Rightarrow> setting list" where
  "cli_settings show_double d =
     concat (map (entry_settings d) (cli_table show_double)) @ map (\<lambda>s. (''--section'', Some s)) (sectionsToRun d)"

definition cli_args :: "('d \<Rightarrow> string) \<Rightarrow> 'd CliConfig \<Rightarrow> string list" where
  "cli_args show_double d =
     map setting_arg (cli_settings show_double d) @ testsOrTags d @ (if showHelp d then [''--help''] else [])"

text \<open>The configurations that a command line can express.\<close>

definition expressible :: "'d environment \<Rightarrow> ('d \<Rightarrow> string) \<Rightarrow> 'd CliConfig \<Rightarrow> bool" where
  "expressible env show_double d \<longleftrightarrow>
     - (2 ^ 31) \<le> abortAfter d \<and> abortAfter d < 2 ^ 31 \<and> warnings d \<le> 2 \<and>
     (reporterName d = ''console'' \<or>
        toLower (reporterName d) = reporterName d \<and> ReporterRegistry_find (reporterName d) (reporter_registry env) \<noteq> None) \<and>
     find_last_of [CHR 0x5C, CHR ''/''] (processName d) = None \<and>
     list_all (\<lambda>t. t \<noteq> [] \<and> t ! 0 \<noteq> CHR ''-'') (testsOrTags d) \<and>
     extract_double env (show_double (benchmarkConfidenceInterval d)) = (\<lambda>_. (True, benchmarkConfidenceInterval d))"

lemma cli_settings_names:
  "subseq (map fst (cli_settings show_double d))
     (map fst (cli_table show_double) @ replicate (length (sectionsToRun d)) ''--section'')"
proof -
  have "subseq (map fst (concat (map (entry_settings d) es))) (map fst es)" for es :: "'a entry list"
    by (induction es) (auto simp: entry_settings_def split: option.splits)
  moreover have "map fst (map (\<lambda>s. (''--section'', Some s)) (sectionsToRun d)) =
      replicate (length (sectionsToRun d)) ''--section''"
    by (simp add: comp_def map_replicate_const)
  ultimately show ?thesis unfolding cli_settings_def map_append by (metis list_emb_append_mono subseq_order.order_refl)
qed

lemma isMatch_names: "isMatch n opt \<longleftrightarrow> n \<in> set (m_optNames opt)"
  by (auto simp: isMatch_def normaliseOpt_def list_ex_iff)

lemma find_option [cli_simps]:
  "find (isMatch n) (option_of ref hint names text # opts) =
     (if n \<in> set names then Some (option_of ref hint names text) else find (isMatch n) opts)"
  "find (isMatch n) (Help_new upd # opts) =
     (if n \<in> {''-?'', ''-h'', ''--help''} then Some (Help_new upd) else find (isMatch n) opts)"
  by (simp_all add: isMatch_names cli_simps)


text \<open>The position of the first option with a given name.\<close>

fun name_index :: "string \<Rightarrow> string list list \<Rightarrow> nat option" where
  "name_index n [] = None"
| "name_index n (ns # nss) = (if n \<in> set ns then Some 0 else map_option Suc (name_index n nss))"

lemma find_by_name:
  "name_index n (map m_optNames opts) = Some i \<Longrightarrow> find (isMatch n) opts = Some (opts ! i)"
  by (induction opts arbitrary: i) (auto simp: isMatch_names split: if_splits)

lemma option_positions:
  "name_index ''--help'' (map m_optNames (command_line_options env)) = Some 0"
  "name_index ''--list-tests'' (map m_optNames (command_line_options env)) = Some 1"
  "name_index ''--list-tags'' (map m_optNames (command_line_options env)) = Some 2"
  "name_index ''--success'' (map m_optNames (command_line_options env)) = Some 3"
  "name_index ''--break'' (map m_optNames (command_line_options env)) = Some 4"
  "name_index ''--nothrow'' (map m_optNames (command_line_options env)) = Some 5"
  "name_index ''--invisibles'' (map m_optNames (command_line_options env)) = Some 6"
  "name_index ''--out'' (map m_optNames (command_line_options env)) = Some 7"
  "name_index ''--reporter'' (map m_optNames (command_line_options env)) = Some 8"
  "name_index ''--name'' (map m_optNames (command_line_options env)) = Some 9"
  "name_index ''--abortx'' (map m_optNames (command_line_options env)) = Some 11"
  "name_index ''--warn'' (map m_optNames (command_line_options env)) = Some 12"
  "name_index ''--durations'' (map m_optNames (command_line_options env)) = Some 13"
  "name_index ''--filenames-as-tags'' (map m_optNames (command_line_options env)) = Some 15"
  "name_index ''--section'' (map m_optNames (command_line_options env)) = Some 16"
  "name_index ''--verbosity'' (map m_optNames (command_line_options env)) = Some 17"
  "name_index ''--list-test-names-only'' (map m_optNames (command_line_options env)) = Some 18"
  "name_index ''--list-reporters'' (map m_optNames (command_line_options env)) = Some 19"
  "name_index ''--order'' (map m_optNames (command_line_options env)) = Some 20"
  "name_index ''--rng-seed'' (map m_optNames (command_line_options env)) = Some 21"
  "name_index ''--use-colour'' (map m_optNames (command_line_options env)) = Some 22"
  "name_index ''--libidentify'' (map m_optNames (command_line_options env)) = Some 23"
  "name_index ''--wait-for-keypress'' (map m_optNames (command_line_options env)) = Some 24"
  "name_index ''--benchmark-samples'' (map m_optNames (command_line_options env)) = Some 25"
  "name_index ''--benchmark-resamples'' (map m_optNames (command_line_options env)) = Some 26"
  "name_index ''--benchmark-confidence-interval'' (map m_optNames (command_line_options env)) = Some 27"
  "name_index ''--benchmark-no-analysis'' (map m_optNames (command_line_options env)) = Some 28"
  unfolding option_names by simp_all

lemmas find_options = option_positions [THEN find_by_name]

definition apply_entry :: "'c Opt list \<Rightarrow> string \<times> ('d \<Rightarrow> string option option) \<Rightarrow> 'd \<Rightarrow> 'c \<Rightarrow> 'c option" where
  "apply_entry opts e d c = (case snd e d of None \<Rightarrow> Some c | Some v \<Rightarrow> apply_setting opts (fst e, v) c)"

lemma flag_entry:
  assumes "find (isMatch n) opts = Some opt" "m_ref opt = BoundFlagRef upd" "g d = flag b" "\<not> b \<Longrightarrow> upd False c = c"
  shows "apply_entry opts (n, g) d c = Some (upd b c)"
  using assms by (cases b) (simp_all add: apply_entry_def flag_def apply_setting_def apply_ref_def BoundFlagRef_def)

lemma entry_flags:
  fixes c :: "'d CliConfig"
  shows "\<not> listTests c \<Longrightarrow> apply_entry (command_line_options env) (''--list-tests'', \<lambda>d. flag (listTests d)) d c = Some (c\<lparr>listTests := listTests d\<rparr>)"
    and "\<not> listTags c \<Longrightarrow> apply_entry (command_line_options env) (''--list-tags'', \<lambda>d. flag (listTags d)) d c = Some (c\<lparr>listTags := listTags d\<rparr>)"
    and "\<not> listReporters c \<Longrightarrow> apply_entry (command_line_options env) (''--list-reporters'', \<lambda>d. flag (listReporters d)) d c = Some (c\<lparr>listReporters := listReporters d\<rparr>)"
    and "\<not> listTestNamesOnly c \<Longrightarrow> apply_entry (command_line_options env) (''--list-test-names-only'', \<lambda>d. flag (listTestNamesOnly d)) d c = Some (c\<lparr>listTestNamesOnly := listTestNamesOnly d\<rparr>)"
    and "\<not> showSuccessfulTests c \<Longrightarrow> apply_entry (command_line_options env) (''--success'', \<lambda>d. flag (showSuccessfulTests d)) d c = Some (c\<lparr>showSuccessfulTests := showSuccessfulTests d\<rparr>)"
    and "\<not> shouldDebugBreak c \<Longrightarrow> apply_entry (command_line_options env) (''--break'', \<lambda>d. flag (shouldDebugBreak d)) d c = Some (c\<lparr>shouldDebugBreak := shouldDebugBreak d\<rparr>)"
    and "\<not> noThrow c \<Longrightarrow> apply_entry (command_line_options env) (''--nothrow'', \<lambda>d. flag (noThrow d)) d c = Some (c\<lparr>noThrow := noThrow d\<rparr>)"
    and "\<not> showInvisibles c \<Longrightarrow> apply_entry (command_line_options env) (''--invisibles'', \<lambda>d. flag (showInvisibles d)) d c = Some (c\<lparr>showInvisibles := showInvisibles d\<rparr>)"
    and "\<not> filenamesAsTags c \<Longrightarrow> apply_entry (command_line_options env) (''--filenames-as-tags'', \<lambda>d. flag (filenamesAsTags d)) d c = Some (c\<lparr>filenamesAsTags := filenamesAsTags d\<rparr>)"
    and "\<not> libIdentify c \<Longrightarrow> apply_entry (command_line_options env) (''--libidentify'', \<lambda>d. flag (libIdentify d)) d c = Some (c\<lparr>libIdentify := libIdentify d\<rparr>)"
    and "\<not> benchmarkNoAnalysis c \<Longrightarrow> apply_entry (command_line_options env) (''--benchmark-no-analysis'', \<lambda>d. flag (benchmarkNoAnalysis d)) d c = Some (c\<lparr>benchmarkNoAnalysis := benchmarkNoAnalysis d\<rparr>)"
  by (rule flag_entry, rule find_options, simp add: command_line_options_def cli_simps, simp, simp)+

text \<open>An option with a value, through the setter it is bound to.\<close>

lemma value_entry:
  assumes "find (isMatch n) opts = Some opt" "m_ref opt = BoundValueRefBase k f" "g d = val v" "f v c = (Inr Matched, c')"
  shows "apply_entry opts (n, g) d c = Some c'"
  using assms by (simp add: apply_entry_def apply_setting_def apply_ref_def)

lemmas ref_defs =
  BoundFlagRef_def BoundValueRef_def BoundLambda_def BoundVectorRef_def invokeLambda_def invoke_void_def
  convertInto_def convertInto_string_def

lemma option_setters:
  "m_ref (command_line_options env ! 7) = BoundValueRefBase False (\<lambda>s c. (Inr Matched, c\<lparr>outputFilename := s\<rparr>))"
  "m_ref (command_line_options env ! 8) = BoundValueRefBase False (setReporter env)"
  "m_ref (command_line_options env ! 9) = BoundValueRefBase False (\<lambda>s c. (Inr Matched, c\<lparr>cd_name := s\<rparr>))"
  "m_ref (command_line_options env ! 11) = BoundValueRefBase False
     (invokeLambda (convertInto extract_int) 0 (invoke_void (\<lambda>x c. c\<lparr>abortAfter := x\<rparr>)))"
  "m_ref (command_line_options env ! 12) = BoundValueRefBase False setWarning"
  "m_ref (command_line_options env ! 13) = BoundValueRefBase False (invokeLambda convertInto_bool False
     (invoke_void (\<lambda>flag c. c\<lparr>showDurations := (if flag then DurationsAlways else DurationsNever)\<rparr>)))"
  "m_ref (command_line_options env ! 16) = BoundValueRefBase True (\<lambda>s c. (Inr Matched, c\<lparr>sectionsToRun := sectionsToRun c @ [s]\<rparr>))"
  "m_ref (command_line_options env ! 17) = BoundValueRefBase False setVerbosity"
  "m_ref (command_line_options env ! 20) = BoundValueRefBase False setTestOrder"
  "m_ref (command_line_options env ! 21) = BoundValueRefBase False (setRngSeed env)"
  "m_ref (command_line_options env ! 22) = BoundValueRefBase False setColourUsage"
  "m_ref (command_line_options env ! 24) = BoundValueRefBase False setWaitForKeypress"
  "m_ref (command_line_options env ! 25) = BoundValueRefBase False
     (\<lambda>s c. let (r, v) = convertInto extract_uint s (benchmarkSamples c) in (r, c\<lparr>benchmarkSamples := v\<rparr>))"
  "m_ref (command_line_options env ! 26) = BoundValueRefBase False
     (\<lambda>s c. let (r, v) = convertInto extract_uint s (benchmarkResamples c) in (r, c\<lparr>benchmarkResamples := v\<rparr>))"
  "m_ref (command_line_options env ! 27) = BoundValueRefBase False
     (\<lambda>s c. let (r, v) = convertInto (extract_double env) s (benchmarkConfidenceInterval c) in
       (r, c\<lparr>benchmarkConfidenceInterval := v\<rparr>))"
  by (simp_all add: command_line_options_def cli_simps ref_defs invokeLambda_def [abs_def])

lemma show_nat_not_time: "show_nat n \<noteq> ''time''"
  using show_nat_read [of n] by (auto simp: is_digit_def)

lemma entry_texts:
  fixes c :: "'d CliConfig"
  shows "apply_entry (command_line_options env) (''--out'', \<lambda>d. val (outputFilename d)) d c = Some (c\<lparr>outputFilename := outputFilename d\<rparr>)"
    and "apply_entry (command_line_options env) (''--name'', \<lambda>d. val (cd_name d)) d c = Some (c\<lparr>cd_name := cd_name d\<rparr>)"
  by (rule value_entry, rule find_options, rule option_setters, rule refl, simp)+

lemma entry_numbers:
  fixes c :: "'d CliConfig"
  shows "- (2 ^ 31) \<le> abortAfter d \<Longrightarrow> abortAfter d < 2 ^ 31 \<Longrightarrow>
      apply_entry (command_line_options env) (''--abortx'', \<lambda>d. val (show_int (abortAfter d))) d c = Some (c\<lparr>abortAfter := abortAfter d\<rparr>)"
    and "apply_entry (command_line_options env) (''--rng-seed'', \<lambda>d. val (show_nat (unat (rngSeed d)))) d c = Some (c\<lparr>rngSeed := rngSeed d\<rparr>)"
    and "apply_entry (command_line_options env) (''--benchmark-samples'', \<lambda>d. val (show_nat (unat (benchmarkSamples d)))) d c = Some (c\<lparr>benchmarkSamples := benchmarkSamples d\<rparr>)"
    and "apply_entry (command_line_options env) (''--benchmark-resamples'', \<lambda>d. val (show_nat (unat (benchmarkResamples d)))) d c = Some (c\<lparr>benchmarkResamples := benchmarkResamples d\<rparr>)"
    and "extract_double env (show_double (benchmarkConfidenceInterval d)) = (\<lambda>_. (True, benchmarkConfidenceInterval d)) \<Longrightarrow>
      apply_entry (command_line_options env) (''--benchmark-confidence-interval'', \<lambda>d. val (show_double (benchmarkConfidenceInterval d))) d c = Some (c\<lparr>benchmarkConfidenceInterval := benchmarkConfidenceInterval d\<rparr>)"
proof -
  show "apply_entry (command_line_options env) (''--abortx'', \<lambda>d. val (show_int (abortAfter d))) d c = Some (c\<lparr>abortAfter := abortAfter d\<rparr>)"
    if "- (2 ^ 31) \<le> abortAfter d" "abortAfter d < 2 ^ 31"
    by (rule value_entry, rule find_options, rule option_setters, rule refl)
      (simp add: ref_defs extract_int_show [OF that])
  show "apply_entry (command_line_options env) (''--rng-seed'', \<lambda>d. val (show_nat (unat (rngSeed d)))) d c = Some (c\<lparr>rngSeed := rngSeed d\<rparr>)"
    by (rule value_entry, rule find_options, rule option_setters, rule refl)
      (simp add: setRngSeed_def show_nat_not_time convertInto_def extract_uint_show)
  show "apply_entry (command_line_options env) (''--benchmark-samples'', \<lambda>d. val (show_nat (unat (benchmarkSamples d)))) d c = Some (c\<lparr>benchmarkSamples := benchmarkSamples d\<rparr>)"
    by (rule value_entry, rule find_options, rule option_setters, rule refl)
      (simp add: convertInto_def extract_uint_show)
  show "apply_entry (command_line_options env) (''--benchmark-resamples'', \<lambda>d. val (show_nat (unat (benchmarkResamples d)))) d c = Some (c\<lparr>benchmarkResamples := benchmarkResamples d\<rparr>)"
    by (rule value_entry, rule find_options, rule option_setters, rule refl)
      (simp add: convertInto_def extract_uint_show)
  show "apply_entry (command_line_options env) (''--benchmark-confidence-interval'', \<lambda>d. val (show_double (benchmarkConfidenceInterval d))) d c = Some (c\<lparr>benchmarkConfidenceInterval := benchmarkConfidenceInterval d\<rparr>)"
    if "extract_double env (show_double (benchmarkConfidenceInterval d)) = (\<lambda>_. (True, benchmarkConfidenceInterval d))"
    by (rule value_entry, rule find_options, rule option_setters, rule refl)
      (simp add: convertInto_def that)
qed

lemma lower_words:
  "toLower ''quiet'' = ''quiet''" "toLower ''normal'' = ''normal''" "toLower ''high'' = ''high''" "toLower ''auto'' = ''auto''"
  "toLower ''yes'' = ''yes''" "toLower ''no'' = ''no''" "toLower ''start'' = ''start''" "toLower ''exit'' = ''exit''"
  "toLower ''both'' = ''both''"
  by code_simp+

lemma entry_choices:
  fixes c :: "'d CliConfig"
  shows "apply_entry (command_line_options env) (''--verbosity'', \<lambda>d. val (show_verbosity (cd_verbosity d))) d c = Some (c\<lparr>cd_verbosity := cd_verbosity d\<rparr>)"
    and "apply_entry (command_line_options env) (''--order'', \<lambda>d. val (show_order (runOrder d))) d c = Some (c\<lparr>runOrder := runOrder d\<rparr>)"
    and "apply_entry (command_line_options env) (''--use-colour'', \<lambda>d. val (show_colour (useColour d))) d c = Some (c\<lparr>useColour := useColour d\<rparr>)"
  by (rule value_entry, rule find_options, rule option_setters, rule refl,
    cases "cd_verbosity d"; cases "runOrder d"; cases "useColour d";
    simp add: setVerbosity_def setTestOrder_def setColourUsage_def lower_words startsWith_def)+

lemmas entry_eval = apply_entry_def apply_setting_def apply_ref_def find_options option_setters

lemma entry_defaults:
  fixes c :: "'d CliConfig"
  shows "showDurations c = DefaultForReporter \<Longrightarrow>
      apply_entry (command_line_options env) (''--durations'', \<lambda>d. show_durations (showDurations d)) d c = Some (c\<lparr>showDurations := showDurations d\<rparr>)"
    and "waitForKeypress c = KeypressNever \<Longrightarrow>
      apply_entry (command_line_options env) (''--wait-for-keypress'', \<lambda>d. show_keypress (waitForKeypress d)) d c = Some (c\<lparr>waitForKeypress := waitForKeypress d\<rparr>)"
    and "warnings c = 0 \<Longrightarrow> warnings d \<le> 2 \<Longrightarrow>
      apply_entry (command_line_options env) (''--warn'', \<lambda>d. show_warnings (warnings d)) d c = Some (c\<lparr>warnings := warnings d\<rparr>)"
    and "reporterName c = ''console'' \<Longrightarrow> reporterName d = ''console'' \<or>
        toLower (reporterName d) = reporterName d \<and> ReporterRegistry_find (reporterName d) (reporter_registry env) \<noteq> None \<Longrightarrow>
      apply_entry (command_line_options env) (''--reporter'', \<lambda>d. show_reporter (reporterName d)) d c = Some (c\<lparr>reporterName := reporterName d\<rparr>)"
proof -
  have words: "convertInto_bool ''yes'' False = (Inr Matched, True)" "convertInto_bool ''no'' False = (Inr Matched, False)"
    by code_simp+
  show "apply_entry (command_line_options env) (''--durations'', \<lambda>d. show_durations (showDurations d)) d c = Some (c\<lparr>showDurations := showDurations d\<rparr>)"
    if "showDurations c = DefaultForReporter"
    using that by (cases "showDurations d")
      (auto simp: entry_eval invokeLambda_def invoke_void_def words)
  show "apply_entry (command_line_options env) (''--wait-for-keypress'', \<lambda>d. show_keypress (waitForKeypress d)) d c = Some (c\<lparr>waitForKeypress := waitForKeypress d\<rparr>)"
    if "waitForKeypress c = KeypressNever"
    using that by (cases "waitForKeypress d")
      (auto simp: entry_eval setWaitForKeypress_def lower_words)
  show "apply_entry (command_line_options env) (''--warn'', \<lambda>d. show_warnings (warnings d)) d c = Some (c\<lparr>warnings := warnings d\<rparr>)"
    if c: "warnings c = 0" "warnings d \<le> 2"
  proof -
    consider "warnings d = 0" | "warnings d = 1" | "warnings d = 2" using c(2) by linarith
    then show ?thesis using c(1) by cases (auto simp: entry_eval setWarning_def show_warnings_def)
  qed
  show "apply_entry (command_line_options env) (''--reporter'', \<lambda>d. show_reporter (reporterName d)) d c = Some (c\<lparr>reporterName := reporterName d\<rparr>)"
    if "reporterName c = ''console''" "reporterName d = ''console'' \<or>
        toLower (reporterName d) = reporterName d \<and> ReporterRegistry_find (reporterName d) (reporter_registry env) \<noteq> None"
    using that by (cases "reporterName d = ''console''")
      (auto simp: entry_eval show_reporter_def setReporter_def)
qed

section \<open>Reading back a printed command line\<close>

fun apply_entries :: "'c Opt list \<Rightarrow> (string \<times> ('d \<Rightarrow> string option option)) list \<Rightarrow> 'd \<Rightarrow> 'c \<Rightarrow> 'c option" where
  "apply_entries opts [] d c = Some c"
| "apply_entries opts (e # es) d c = do { c \<leftarrow> apply_entry opts e d c; apply_entries opts es d c }"

lemma apply_settings_append:
  "apply_settings opts (ss @ ts) c = do { c \<leftarrow> apply_settings opts ss c; apply_settings opts ts c }"
proof (induction ss arbitrary: c)
  case (Cons s ss)
  then show ?case by (cases "apply_setting opts s c") simp_all
qed simp

lemma apply_settings_entries:
  "apply_settings opts (concat (map (entry_settings d) es)) c = apply_entries opts es d c"
  by (induction es arbitrary: c)
    (simp_all add: apply_settings_append entry_settings_def apply_entry_def split: option.split)

lemma apply_sections:
  "apply_settings (command_line_options env) (map (\<lambda>s. (''--section'', Some s)) ss) c =
     Some (c\<lparr>sectionsToRun := sectionsToRun c @ ss\<rparr>)"
  by (induction ss arbitrary: c) (simp_all add: entry_eval)

lemma expressibleD:
  assumes "expressible env show_double d"
  shows "- (2 ^ 31) \<le> abortAfter d" "abortAfter d < 2 ^ 31" "warnings d \<le> 2"
    "reporterName d = ''console'' \<or>
        toLower (reporterName d) = reporterName d \<and> ReporterRegistry_find (reporterName d) (reporter_registry env) \<noteq> None"
    "find_last_of [CHR 0x5C, CHR ''/''] (processName d) = None"
    "list_all (\<lambda>t. t \<noteq> [] \<and> t ! 0 \<noteq> CHR ''-'') (testsOrTags d)"
    "extract_double env (show_double (benchmarkConfidenceInterval d)) = (\<lambda>_. (True, benchmarkConfidenceInterval d))"
  using assms unfolding expressible_def by blast+

lemma CliConfig_new_simps:
  "\<not> listTests (CliConfig_new x)" "\<not> listTags (CliConfig_new x)" "\<not> listReporters (CliConfig_new x)"
  "\<not> listTestNamesOnly (CliConfig_new x)" "\<not> showSuccessfulTests (CliConfig_new x)" "\<not> shouldDebugBreak (CliConfig_new x)"
  "\<not> noThrow (CliConfig_new x)" "\<not> showHelp (CliConfig_new x)" "\<not> showInvisibles (CliConfig_new x)"
  "\<not> filenamesAsTags (CliConfig_new x)" "\<not> libIdentify (CliConfig_new x)" "warnings (CliConfig_new x) = 0"
  "showDurations (CliConfig_new x) = DefaultForReporter" "waitForKeypress (CliConfig_new x) = KeypressNever"
  "reporterName (CliConfig_new x) = ''console''" "testsOrTags (CliConfig_new x) = []" "sectionsToRun (CliConfig_new x) = []"
  "\<not> benchmarkNoAnalysis (CliConfig_new x)"
  by (simp_all add: CliConfig_new_def ConfigData_new_def ConfigData.defs)

lemma apply_table:
  assumes "expressible env show_double d"
  shows "apply_entries (command_line_options env) (cli_table show_double) d (CliConfig_new x\<lparr>processName := processName d\<rparr>) =
    Some (d\<lparr>showHelp := False, testsOrTags := [], sectionsToRun := []\<rparr>)"
  using expressibleD [OF assms]
  by (simp add: cli_table_def entry_flags entry_texts entry_numbers entry_choices entry_defaults CliConfig_new_simps)

lemma apply_cli_settings:
  assumes "expressible env show_double d"
  shows "apply_settings (command_line_options env) (cli_settings show_double d) (CliConfig_new x\<lparr>processName := processName d\<rparr>) =
    Some (d\<lparr>showHelp := False, testsOrTags := []\<rparr>)"
  using apply_table [OF assms, of x]
  by (simp add: cli_settings_def apply_settings_append apply_settings_entries apply_sections)

text \<open>With distinct names, the position of a name determines the option.\<close>

lemma name_index_unique:
  "distinct (concat nss) \<Longrightarrow> i < length nss \<Longrightarrow> n \<in> set (nss ! i) \<Longrightarrow> name_index n nss = Some i"
  by (induction nss arbitrary: i) (auto simp: nth_Cons disjoint_iff split: nat.splits)

lemma name_index_bound: "name_index n nss = Some i \<Longrightarrow> i < length nss"
  by (induction nss arbitrary: i) (auto split: if_splits)

lemma named_once_positions:
  assumes "distinct (concat (map m_optNames opts))" "list_all2 (\<lambda>n i. name_index n (map m_optNames opts) = Some i) ns is"
    "distinct is" "isContainer (m_ref (opts ! j))" "name_index m (map m_optNames opts) = Some j" "j \<notin> set is"
  shows "named_once opts (ns @ replicate k m)"
  using assms(2,3,6)
proof (induction ns "is" rule: list_all2_induct)
  case Nil
  show ?case using assms(4,5) by (induction k) (simp_all add: find_by_name)
next
  case (Cons n ns i "is")
  have only: "\<not> isMatch n' (opts ! i)" if "name_index n' (map m_optNames opts) = Some i'" "i' \<noteq> i" for n' i'
    using that name_index_unique [OF assms(1), of i n'] name_index_bound [OF Cons(1)] by (auto simp: isMatch_names)
  have "list_all (\<lambda>n'. \<not> isMatch n' (opts ! i)) (ns @ replicate k m)"
    using Cons.hyps(2) Cons.prems only assms(5) by (auto simp: list_all_iff list_all2_conv_all_nth in_set_conv_nth)
  then show ?case using Cons by (simp add: find_by_name)
qed

lemma option_names_distinct: "distinct (concat (map m_optNames (command_line_options env)))"
  unfolding option_names by simp

lemma table_names_once: "named_once (command_line_options env) (map fst (cli_table show_double) @ replicate k ''--section'')"
  by (rule named_once_positions [OF option_names_distinct, of _ _
      "[1, 2, 19, 18, 3, 4, 5, 6, 15, 23, 11, 21, 17, 12, 13, 20, 22, 24, 7, 9, 8, 28, 25, 27, 26]" 16])
    (simp_all add: cli_table_def option_positions option_setters)

lemma cli_settings_once: "settings_once (command_line_options env) (cli_settings show_double d)"
  by (rule named_once_subseq [OF cli_settings_names table_names_once])

lemma list_all_subseq: "subseq xs ys \<Longrightarrow> list_all P ys \<Longrightarrow> list_all P xs"
  by (induction rule: list_emb.induct) auto

lemma cli_settings_all:
  assumes "list_all P (map fst (cli_table show_double))" "P ''--section''"
  shows "list_all (\<lambda>s. P (fst s)) (cli_settings show_double d)"
proof -
  have "list_all P (map fst (cli_table show_double) @ replicate (length (sectionsToRun d)) ''--section'')"
    using assms by (auto simp: list_all_iff split: if_splits)
  then have "list_all P (map fst (cli_settings show_double d))" by (rule list_all_subseq [OF cli_settings_names])
  then show ?thesis by (simp add: list.pred_map comp_def)
qed

lemma cli_names_long: "list_all (\<lambda>s. long_name (fst s)) (cli_settings show_double d)"
  by (rule cli_settings_all) (simp_all add: cli_table_def long_name_def)

lemma cli_names_not_help:
  "list_all (\<lambda>s. \<not> isMatch ''--help'' (the (find (isMatch (fst s)) (command_line_options env)))) (cli_settings show_double d)"
proof (rule cli_settings_all)
  let ?nss = "map m_optNames (command_line_options env)"
  have no: "\<not> isMatch ''--help'' (the (find (isMatch n) (command_line_options env)))" if "name_index n ?nss = Some i" "i \<noteq> 0" for n i
  proof
    assume "isMatch ''--help'' (the (find (isMatch n) (command_line_options env)))"
    then have "name_index ''--help'' ?nss = Some i"
      using find_by_name [OF that(1)] name_index_bound [OF that(1)] by (intro name_index_unique option_names_distinct) (simp_all add: isMatch_names)
    then show False using option_positions(1) [of env] that(2) by simp
  qed
  note yes = option_positions [THEN no]
  show "list_all (\<lambda>n. \<not> isMatch ''--help'' (the (find (isMatch n) (command_line_options env)))) (map fst (cli_table show_double))"
    unfolding cli_table_def by (simp add: yes)
  show "\<not> isMatch ''--help'' (the (find (isMatch ''--section'') (command_line_options env)))" by (rule yes) simp
qed

abbreviation tests_arg :: "'d CliConfig Arg" where
  "tests_arg \<equiv> described ''which test or tests to use''
     (Arg_new (BoundVectorRef convertInto_string [] testsOrTags (\<lambda>v c. c\<lparr>testsOrTags := v\<rparr>)) ''test name|pattern|tags'')"

lemma read_tests:
  "read_tokens (map ParserOpt opts @ [ParserArg tests_arg]) (map ArgumentToken ts @ rest) c =
     read_tokens (map ParserOpt opts @ [ParserArg tests_arg]) rest (c\<lparr>testsOrTags := testsOrTags c @ ts\<rparr>)"
proof (induction ts arbitrary: c)
  case (Cons t ts)
  have "List.extract (takes (ArgumentToken t)) (map ParserOpt opts @ [ParserArg tests_arg]) =
      Some (map ParserOpt opts, ParserArg tests_arg, [])"
    by (auto simp: extract_Some_iff)
  then show ?case using Cons by (simp add: cli_simps BoundVectorRef_def convertInto_string_def cardinality_def)
qed simp

lemma args_tokens_tests:
  assumes "list_all (\<lambda>t. t \<noteq> [] \<and> t ! 0 \<noteq> CHR ''-'') ts"
  shows "args_tokens (ts @ args) = map ArgumentToken ts @ args_tokens args"
  using assms by (induction ts) (simp_all add: arg_tokens_def isOptPrefix_def)

lemma read_help:
  assumes "find (isMatch ''--help'') opts = find (isMatch ''--help'') (command_line_options env)"
  shows "snd (read_tokens (map ParserOpt opts @ ps) [OptionToken ''--help''] c) = c\<lparr>showHelp := True\<rparr> \<and>
    \<not> isl (fst (read_tokens (map ParserOpt opts @ ps) [OptionToken ''--help''] c))"
proof -
  have "find (isMatch ''--help'') opts = Some (command_line_options env ! 0)" using assms find_options(1) by metis
  then obtain ys zs where "List.extract (takes (OptionToken ''--help'')) (map ParserOpt opts @ ps) =
      Some (map ParserOpt ys, ParserOpt (command_line_options env ! 0), map ParserOpt zs @ ps)"
    using extract_option by metis
  moreover have "m_ref (command_line_options env ! 0) =
      BoundFlagLambda (\<lambda>flag c. (Inr ShortCircuitAll, c\<lparr>showHelp := flag\<rparr>))"
    by (simp add: command_line_options_def cli_simps)
  ultimately show ?thesis by (simp add: BoundFlagLambda_def set_outcome_def)
qed

lemma args_tokens_help: "args_tokens [''--help''] = [OptionToken ''--help'']"
  by (simp add: arg_tokens_def isOptPrefix_def)

text \<open>The reference parser on a command line: the result and the configuration.\<close>

definition read_command_line ::
  "'d environment \<Rightarrow> string \<Rightarrow> string list \<Rightarrow> 'd CliConfig \<Rightarrow> (clara_error + Token list) \<times> 'd CliConfig" where
  "read_command_line env exe args c =
     read_tokens (parsers (makeCommandLineParser env)) (args_tokens args) (c\<lparr>processName := exe_filename exe\<rparr>)"

lemma parse_cli:
  obtains r p' where
    "Parser_parse_args (makeCommandLineParser env) \<lparr>args_exeName = exe, args_list = args\<rparr> c =
      Some (r, p', snd (read_command_line env exe args c))"
    "map_sum id (\<lambda>r. stream_tokens (remainingTokens r)) r = fst (read_command_line env exe args c)"
  using parse_args_reads [OF command_line_wf, of env "\<lparr>args_exeName = exe, args_list = args\<rparr>" c]
  by (auto simp: ExeName_set_def ExeName_new_def ExeName_empty_def convertInto_string_def read_command_line_def Let_def)

lemma read_cli_args:
  assumes "expressible env show_double d"
  shows "snd (read_command_line env (processName d) (cli_args show_double d) (CliConfig_new x)) = d \<and>
    \<not> isl (fst (read_command_line env (processName d) (cli_args show_double d) (CliConfig_new x)))"
proof -
  let ?rest = "map ArgumentToken (testsOrTags d) @ (if showHelp d then [OptionToken ''--help''] else [])"
  have toks: "args_tokens (cli_args show_double d) = concat (map setting_tokens (cli_settings show_double d)) @ ?rest"
    using expressibleD(6) [OF assms]
    by (simp add: cli_args_def args_tokens_settings [OF cli_names_long] args_tokens_tests args_tokens_help del: append_assoc args_tokens_simps(4))
  have "exe_filename (processName d) = processName d" using expressibleD(5) [OF assms] by (simp add: exe_filename_def)
  then obtain opts where "read_command_line env (processName d) (cli_args show_double d) (CliConfig_new x) =
      read_tokens (map ParserOpt opts @ [ParserArg tests_arg]) ?rest (d\<lparr>showHelp := False, testsOrTags := []\<rparr>)"
    and helps: "find (isMatch ''--help'') opts = find (isMatch ''--help'') (command_line_options env)"
    using read_settings [OF cli_settings_once apply_cli_settings [OF assms], of "[ParserArg tests_arg]" ?rest x]
      cli_names_not_help [of env show_double d]
    by (auto simp: toks parsers_def read_command_line_def)
  then show ?thesis using read_help [OF helps, of "[ParserArg tests_arg]" "d\<lparr>showHelp := False\<rparr>"]
    by (simp add: read_tests)
qed

section \<open>Options used twice\<close>

text \<open>A reference that never ends the parse.\<close>

fun goes_on :: "'c BoundRef \<Rightarrow> bool" where
  "goes_on (BoundFlagRefBase f) \<longleftrightarrow> (\<forall>b c. fst (f b c) \<noteq> Inr ShortCircuitAll)"
| "goes_on (BoundValueRefBase _ f) \<longleftrightarrow> (\<forall>s c. fst (f s c) \<noteq> Inr ShortCircuitAll)"

lemma lambdas_go_on:
  "fst (setWarning s c) \<noteq> Inr ShortCircuitAll" "fst (setTestOrder s c) \<noteq> Inr ShortCircuitAll"
  "fst (setColourUsage s c) \<noteq> Inr ShortCircuitAll" "fst (setWaitForKeypress s c) \<noteq> Inr ShortCircuitAll"
  "fst (setVerbosity s c) \<noteq> Inr ShortCircuitAll" "fst (setReporter env s c) \<noteq> Inr ShortCircuitAll"
  "fst (setRngSeed env s c) \<noteq> Inr ShortCircuitAll" "fst (loadTestNamesFromFile env s c) \<noteq> Inr ShortCircuitAll"
  by (simp_all add: setWarning_def setTestOrder_def setColourUsage_def setWaitForKeypress_def setVerbosity_def
    setReporter_def setRngSeed_def loadTestNamesFromFile_def convertInto_def Let_def split: option.split prod.split)

lemma options_go_on: "list_all (\<lambda>opt. goes_on (m_ref opt)) (tl (command_line_options env))"
  by (simp add: command_line_options_def cli_simps ref_defs BoundFlagLambda_def convertInto_bool_def lambdas_go_on
    Let_def split_beta)

text \<open>
  A parser that never ends the parse; \<open>calm_on\<close>: no parser ends it on any of
  these tokens.
\<close>

fun calm :: "'c ParserBase \<Rightarrow> bool" where
  "calm (ParserOpt opt) \<longleftrightarrow> goes_on (m_ref opt)"
| "calm (ParserArg arg) \<longleftrightarrow> \<not> isFlag (m_ref arg)"

definition calm_on :: "'c ParserBase list \<Rightarrow> Token list \<Rightarrow> bool" where
  "calm_on ps ts \<longleftrightarrow> (\<forall>p \<in> set ps. \<forall>t \<in> set ts. takes t p \<longrightarrow> calm p)"

lemma calm_on_mono: "calm_on ps ts \<Longrightarrow> set qs \<subseteq> set ps \<Longrightarrow> set us \<subseteq> set ts \<Longrightarrow> calm_on qs us"
  by (auto simp: calm_on_def)

text \<open>
  A calm parser that serves a token in front of an option token leaves the option
  token: its argument, if it takes one, is not an option.
\<close>

lemma serve_calm:
  assumes "serve p t (ts @ OptionToken n # rest) c = (Inr (stop, us), c')" "calm p"
  shows "\<not> stop \<and> (\<exists>vs. us = vs @ OptionToken n # rest \<and> set vs \<subseteq> set ts \<and> length vs \<le> length ts)"
  using assms
  by (cases p; cases ts)
    (auto simp: set_outcome_def split: BoundRef.splits prod.splits sum.splits if_splits, (metis fst_conv)+)

text \<open>When no parser takes an option, the parse fails when it comes to it.\<close>

lemma read_spent:
  assumes "calm_on ps ts" "\<forall>p \<in> set ps. \<not> takes (OptionToken n) p"
  shows "isl (fst (read_tokens ps (ts @ OptionToken n # rest) c))"
  using assms
proof (induction "length ts" arbitrary: ts ps c rule: less_induct)
  case less
  show ?case
  proof (cases ts)
    case Nil
    have "List.extract (takes (OptionToken n)) ps = None" using less.prems(2) by (simp add: extract_None_iff)
    then show ?thesis by (simp add: Nil)
  next
    case (Cons t ts')
    show ?thesis
    proof (cases "List.extract (takes t) ps")
      case None
      then show ?thesis by (simp add: Cons)
    next
      case (Some r)
      then obtain ys p zs where r: "List.extract (takes t) ps = Some (ys, p, zs)" by (cases r) auto
      then have ps: "ps = ys @ p # zs" "takes t p" by (simp_all add: extract_Some_iff)
      then have "calm p" using less.prems(1) Cons by (auto simp: calm_on_def)
      define qs where "qs = ys @ (if ParserBase_cardinality p = 0 then p # zs else zs)"
      have qs: "set qs \<subseteq> set ps" by (auto simp: qs_def ps)
      show ?thesis
      proof (cases "fst (serve p t (ts' @ OptionToken n # rest) c)")
        case (Inl e)
        then obtain c' where "serve p t (ts' @ OptionToken n # rest) c = (Inl e, c')" by (metis prod.collapse)
        then show ?thesis by (simp add: Cons r)
      next
        case (Inr su)
        then obtain stop us c' where sv: "serve p t (ts' @ OptionToken n # rest) c = (Inr (stop, us), c')"
          by (metis prod.collapse)
        from serve_calm [OF this \<open>calm p\<close>] obtain vs where
          vs: "\<not> stop" "us = vs @ OptionToken n # rest" "set vs \<subseteq> set ts'" "length vs \<le> length ts'" by blast
        have "calm_on qs vs" by (rule calm_on_mono [OF less.prems(1) qs]) (use vs(3) Cons in auto)
        then have "isl (fst (read_tokens qs (vs @ OptionToken n # rest) c'))"
          using less.prems(2) vs(4) qs Cons by (intro less.hyps) auto
        then show ?thesis using vs(1,2) sv by (simp add: Cons r qs_def)
      qed
    qed
  qed
qed

text \<open>
  Two names of one parser that takes one token: after the first is used the second
  is not known.  \<open>single n n' ps\<close>: at most one parser takes either of them, and it
  serves once.
\<close>

definition single :: "string \<Rightarrow> string \<Rightarrow> 'c ParserBase list \<Rightarrow> bool" where
  "single n n' ps \<longleftrightarrow> length (filter (takes (OptionToken n')) ps) \<le> 1 \<and>
     (\<forall>p \<in> set ps. takes (OptionToken n) p \<longrightarrow> takes (OptionToken n') p \<and> ParserBase_cardinality p \<noteq> 0)"

lemma single_rest: "single n n' (ys @ p # zs) \<Longrightarrow> single n n' (ys @ zs)"
  by (auto simp: single_def split: if_splits)

lemma single_spent:
  assumes "single n n' (ys @ p # zs)" "takes (OptionToken n) p"
  shows "\<forall>q \<in> set (ys @ zs). \<not> takes (OptionToken n') q"
proof -
  have "takes (OptionToken n') p" using assms by (auto simp: single_def)
  then have "length (filter (takes (OptionToken n')) (ys @ zs)) = 0" using assms(1) by (simp add: single_def)
  then show ?thesis by (simp only: length_0_conv filter_empty_conv)
qed

lemma read_twice:
  assumes "single n n' ps" "calm_on ps (ts @ OptionToken n # mid)"
  shows "isl (fst (read_tokens ps (ts @ OptionToken n # mid @ OptionToken n' # rest) c))"
  using assms
proof (induction "length ts" arbitrary: ts ps c rule: less_induct)
  case less
  obtain t ts' where ts: "ts @ OptionToken n # mid @ OptionToken n' # rest = t # ts'" "t \<in> set (ts @ OptionToken n # mid)"
    by (cases ts) auto
  show ?case
  proof (cases "List.extract (takes t) ps")
    case None
    then show ?thesis unfolding ts(1) by simp
  next
    case (Some r)
    then obtain ys p zs where r: "List.extract (takes t) ps = Some (ys, p, zs)" by (cases r) auto
    then have ps: "ps = ys @ p # zs" "takes t p" by (simp_all add: extract_Some_iff)
    then have "calm p" using less.prems(2) ts(2) by (auto simp: calm_on_def)
    define qs where "qs = ys @ (if ParserBase_cardinality p = 0 then p # zs else zs)"
    have qs: "set qs \<subseteq> set ps" "single n n' qs"
      using less.prems(1) single_rest [of n n' ys p zs] by (auto simp: qs_def ps)
    show ?thesis
    proof (cases "fst (serve p t ts' c)")
      case (Inl e)
      then obtain c' where "serve p t ts' c = (Inl e, c')" by (metis prod.collapse)
      then show ?thesis unfolding ts(1) by (simp add: r)
    next
      case (Inr su)
      then obtain stop us c' where sv: "serve p t ts' c = (Inr (stop, us), c')" by (metis prod.collapse)
      have "\<not> stop \<and> isl (fst (read_tokens qs us c'))"
      proof (cases ts)
        case Nil
        then have t: "t = OptionToken n" "ts' = mid @ OptionToken n' # rest" using ts(1) by simp_all
        from serve_calm [OF sv [unfolded t(2)] \<open>calm p\<close>] obtain vs where
          vs: "\<not> stop" "us = vs @ OptionToken n' # rest" "set vs \<subseteq> set mid" by blast
        have "qs = ys @ zs" using less.prems(1) ps t(1) by (auto simp: qs_def single_def)
        then have "\<forall>q \<in> set qs. \<not> takes (OptionToken n') q" using single_spent [of n n' ys p zs] less.prems(1) ps t(1) by simp
        moreover have "calm_on qs vs" by (rule calm_on_mono [OF less.prems(2) qs(1)]) (use vs(3) in auto)
        ultimately show ?thesis using read_spent [of qs vs n' rest c'] vs(1,2) by simp
      next
        case (Cons u ts1)
        then have ts': "ts' = ts1 @ OptionToken n # mid @ OptionToken n' # rest" using ts(1) by simp
        from serve_calm [OF sv [unfolded ts'] \<open>calm p\<close>] obtain vs where
          vs: "\<not> stop" "us = vs @ OptionToken n # mid @ OptionToken n' # rest" "set vs \<subseteq> set ts1" "length vs \<le> length ts1"
          by blast
        have "calm_on qs (vs @ OptionToken n # mid)"
          by (rule calm_on_mono [OF less.prems(2) qs(1)]) (use vs(3) Cons in auto)
        then have "isl (fst (read_tokens qs (vs @ OptionToken n # mid @ OptionToken n' # rest) c'))"
          using qs(2) vs(4) Cons by (intro less.hyps) simp_all
        then show ?thesis using vs(1,2) by simp
      qed
      then show ?thesis unfolding ts(1) using sv by (simp add: r qs_def)
    qed
  qed
qed

text \<open>The parsers of the command line: only a name of the help option ends the parse.\<close>

lemma cli_calm:
  assumes "list_all (\<lambda>t. t \<notin> {OptionToken ''-?'', OptionToken ''-h'', OptionToken ''--help''}) ts"
  shows "calm_on (parsers (makeCommandLineParser env)) ts"
proof -
  obtain h os where opts: "command_line_options env = h # os" and h: "m_optNames h = [''-?'', ''-h'', ''--help'']"
    by (simp add: command_line_options_def cli_simps)
  have os: "goes_on (m_ref opt)" if "opt \<in> set os" for opt
    using options_go_on [of env] that by (simp add: opts list_all_iff)
  have as: "calm (ParserArg arg)" if "arg \<in> set (p_args (makeCommandLineParser env))" for arg
    using command_line_wf [of env] that by (simp add: parser_wf_def list_all_iff)
  have help_token: "\<not> takes t (ParserOpt h)" if "t \<in> set ts" for t
    using assms that by (cases t) (auto simp: list_all_iff isMatch_names h)
  have "m_options (makeCommandLineParser env) = h # os" by (simp add: opts)
  then show ?thesis using os as help_token by (auto simp: calm_on_def parsers_def)
qed

lemma cli_single:
  assumes "opt \<in> set (command_line_options env)" "\<not> isContainer (m_ref opt)"
    "n \<in> set (m_optNames opt)" "n' \<in> set (m_optNames opt)"
  shows "single n n' (parsers (makeCommandLineParser env))"
proof -
  obtain ys zs where opts: "command_line_options env = ys @ opt # zs" using assms(1) by (meson split_list)
  have other: "k \<notin> set (m_optNames x)" if "x \<in> set ys \<union> set zs" "k \<in> set (m_optNames opt)" for x k
    using option_names_distinct [of env] that unfolding opts by simp blast
  have "filter (isMatch k) ys = []" "filter (isMatch k) zs = []" if "k \<in> set (m_optNames opt)" for k
    using other that by (auto simp: filter_empty_conv isMatch_names)
  then show ?thesis using assms(2-4) other
    by (auto simp: single_def parsers_def opts filter_map comp_def isMatch_names cardinality_def)
qed

section \<open>Properties\<close>

text \<open>
  The parser of the command line is well formed: every option has at least
  one name, every name starts with a dash, no two options share a name, the
  table of 512 parsers is large enough, and \<open>validate\<close> accepts the parser.
\<close>

lemma command_line_parser_valid:
  "Parser_validate (makeCommandLineParser env) = Inr () \<and>
   distinct (concat (map m_optNames (m_options (makeCommandLineParser env)))) \<and>
   list_all (\<lambda>opt. m_optNames opt \<noteq> [] \<and> list_all (\<lambda>n. n \<noteq> [] \<and> n ! 0 = CHR ''-'') (m_optNames opt))
     (m_options (makeCommandLineParser env)) \<and>
   length (m_options (makeCommandLineParser env)) + length (p_args (makeCommandLineParser env)) < 512"
proof -
  have "list_all (\<lambda>ns. ns \<noteq> [] \<and> list_all (\<lambda>n. n \<noteq> [] \<and> n ! 0 = CHR ''-'') ns) (map m_optNames (command_line_options env))"
    unfolding option_names by simp
  then have "list_all (\<lambda>opt. m_optNames opt \<noteq> [] \<and> list_all (\<lambda>n. n \<noteq> [] \<and> n ! 0 = CHR ''-'') (m_optNames opt))
      (command_line_options env)"
    by (simp add: list.pred_map comp_def)
  then show ?thesis using command_line_wf [of env] option_names_distinct [of env] by (simp add: parser_wf_def)
qed

text \<open>
  C31: On every list of arguments the parse loop over the token stream returns,
  never reads a token that is not there, and computes the reference parser on
  the list of tokens: the same error, or the same tokens left over, and the
  same configuration, which also holds the file name of the executable.
\<close>

theorem command_line_reads_tokens:
  "\<exists>r p'. Parser_parse_args (makeCommandLineParser env) \<lparr>args_exeName = exe, args_list = args\<rparr> c =
      Some (r, p', snd (read_command_line env exe args c)) \<and>
    map_sum id (\<lambda>r. stream_tokens (remainingTokens r)) r = fst (read_command_line env exe args c)"
  using parse_cli by blast

text \<open>
  C32: A configuration written out as a command line is read back: parsing the
  printed options, sections, test names and \<open>--help\<close> from the default
  configuration succeeds and gives the configuration, whatever texts its file
  name, suite name and section names are.  Not every configuration can be
  written: the test names must not look like options, the reporter must be
  registered, and at most one of the two warnings can be on.
\<close>

theorem command_line_roundtrip:
  assumes "expressible env show_double d"
  shows "\<exists>r p'. Option.bind (Args_new (processName d # cli_args show_double d))
      (\<lambda>args. Parser_parse_args (makeCommandLineParser env) args (CliConfig_new x)) = Some (Inr r, p', d)"
proof -
  obtain r p' where parse: "Parser_parse_args (makeCommandLineParser env)
        \<lparr>args_exeName = processName d, args_list = cli_args show_double d\<rparr> (CliConfig_new x) =
      Some (r, p', snd (read_command_line env (processName d) (cli_args show_double d) (CliConfig_new x)))"
    and r: "map_sum id (\<lambda>r. stream_tokens (remainingTokens r)) r =
      fst (read_command_line env (processName d) (cli_args show_double d) (CliConfig_new x))"
    by (rule parse_cli)
  note reads = read_cli_args [OF assms, of x]
  then have "\<not> isl r" using r isl_map_sum by metis
  then show ?thesis using parse reads by (cases r) (auto simp: Args_new_def)
qed

definition sample_environment :: "int environment" where
  "sample_environment = \<lparr>file_contents = (\<lambda>_. None), current_time = 0, extract_double = extract_int,
     reporter_registry = \<lparr>m_factories = [(''xml'', 0)], m_listeners = []\<rparr>\<rparr>"

definition sample_cli :: "int CliConfig" where
  "sample_cli = (CliConfig_new 1)\<lparr>noThrow := True, warnings := 1, abortAfter := 3, reporterName := ''xml'', processName := ''tests'',
     sectionsToRun := [''first = 1'', ''-'']\<rparr>\<lparr>testsOrTags := [''[pmem]''], showHelp := True\<rparr>"

theorem command_line_roundtrip_witness:
  "expressible sample_environment show_int sample_cli \<and>
   cli_args show_int sample_cli ! 0 = ''--nothrow'' \<and> cli_args show_int sample_cli ! 1 = ''--abortx=3'' \<and>
   (\<exists>r p'. Option.bind (Args_new (processName sample_cli # cli_args show_int sample_cli))
      (\<lambda>args. Parser_parse_args (makeCommandLineParser sample_environment) args (CliConfig_new 0)) = Some (Inr r, p', sample_cli))"
proof -
  have "toLower ''xml'' = ''xml''" "show_int 3 = ''3''" by code_simp+
  moreover have "extract_int (show_int 1) = (\<lambda>_. (True, 1))" using extract_int_show [of 1] by auto
  ultimately have "expressible sample_environment show_int sample_cli"
    and "cli_args show_int sample_cli ! 0 = ''--nothrow''" "cli_args show_int sample_cli ! 1 = ''--abortx=3''"
    by (simp_all add: expressible_def sample_environment_def sample_cli_def ReporterRegistry_find_def CliConfig_new_def
      ConfigData_new_def ConfigData.defs cli_args_def cli_settings_def cli_table_def entry_settings_def flag_def)
  then show ?thesis using command_line_roundtrip [of sample_environment show_int sample_cli 0] by blast
qed

text \<open>
  C34: An option that holds one value can be given once: wherever on the command
  line two of its names stand, and whatever stands around them and whatever its
  setter does, the command line is an error, unless a request for help before the
  second of them ends the parse.  This includes the warnings, although each of
  them is or-ed to those already on, and the files of test names, although their
  names are appended.
\<close>

theorem option_used_twice:
  assumes "opt \<in> set (command_line_options env)" "\<not> isContainer (m_ref opt)"
    and "n \<in> set (m_optNames opt)" "n' \<in> set (m_optNames opt)"
    and "args_tokens args = before @ OptionToken n # between @ OptionToken n' # rest"
    and "list_all (\<lambda>t. t \<notin> {OptionToken ''-?'', OptionToken ''-h'', OptionToken ''--help''}) (before @ OptionToken n # between)"
  shows "\<exists>e p' c'. Parser_parse_args (makeCommandLineParser env) \<lparr>args_exeName = exe, args_list = args\<rparr> c = Some (Inl e, p', c')"
proof -
  have "isl (fst (read_command_line env exe args c))"
    unfolding read_command_line_def assms(5) by (intro read_twice cli_single [OF assms(1-4)] cli_calm assms(6))
  then show ?thesis using parse_cli [of env exe args c] isl_map_sum by (metis isl_def)
qed

theorem option_used_twice_witness:
  "\<exists>e p' c'. Parser_parse_args (makeCommandLineParser sample_environment)
     \<lparr>args_exeName = ''tests'', args_list = [''-s'', ''-w'', ''NoAssertions'', ''a'', ''--warn=NoTests'', ''b'']\<rparr> (CliConfig_new 0) =
     Some (Inl e, p', c')"
proof -
  have "args_tokens [''-s'', ''-w'', ''NoAssertions'', ''a'', ''--warn=NoTests'', ''b''] =
      [OptionToken ''-s''] @ OptionToken ''-w'' # [ArgumentToken ''NoAssertions'', ArgumentToken ''a''] @
      OptionToken ''--warn'' # [ArgumentToken ''NoTests'', ArgumentToken ''b'']"
    by (simp add: arg_tokens_def isOptPrefix_def)
  moreover have "command_line_options sample_environment ! 12 \<in> set (command_line_options sample_environment)"
    by (simp add: command_line_options_def)
  moreover have "m_optNames (command_line_options sample_environment ! 12) = [''-w'', ''--warn'']"
    by (simp add: command_line_options_def cli_simps)
  ultimately show ?thesis
    by (intro option_used_twice [of "command_line_options sample_environment ! 12" sample_environment "''-w''" "''--warn''" _
          "[OptionToken ''-s'']" "[ArgumentToken ''NoAssertions'', ArgumentToken ''a'']" "[ArgumentToken ''NoTests'', ArgumentToken ''b'']"])
      (simp_all add: option_setters)
qed

end
