(* ===== verification/CatchTextFlow.thy ===== *)
theory CatchTextFlow
  imports CatchSession
begin

text \<open>
  TextFlow, the text layout inside the unit test framework
  (\<open>native/src/catch.hpp\<close>, \<open>namespace TextFlow\<close>): columns that wrap their
  text at a width, and rows of columns side by side.  A size is a natural
  number and \<open>npos\<close> is \<open>None\<close>; a failed \<open>assert\<close> is \<open>None\<close>.
\<close>

section \<open>Characters\<close>

definition isWhitespace :: "char \<Rightarrow> bool" where
  "isWhitespace c \<longleftrightarrow> c \<in> set [CHR '' '', CHR 0x09, CHR 0x0A, CHR 0x0D]"

definition isBreakableBefore :: "char \<Rightarrow> bool" where
  "isBreakableBefore c \<longleftrightarrow> c \<in> set ''[({<|''"

definition isBreakableAfter :: "char \<Rightarrow> bool" where
  "isBreakableAfter c \<longleftrightarrow> c \<in> set (''])}>.,:;*+-=&/'' @ [CHR 0x5C])"

text \<open>\<open>s[i]\<close>, which is the terminating null character at the end.\<close>

definition char_at :: "string \<Rightarrow> nat \<Rightarrow> char" where
  "char_at s i = (if i < length s then s ! i else CHR 0x00)"

section \<open>Columns of text\<close>

record Column =
  m_strings :: "string list"
  m_width :: nat
  m_indent :: nat
  m_initialIndent :: "nat option"

definition Column_new :: "string \<Rightarrow> Column" where
  "Column_new text = \<lparr>m_strings = [text], m_width = 79, m_indent = 0, m_initialIndent = None\<rparr>"

definition with_width :: "nat \<Rightarrow> Column \<Rightarrow> Column option" where
  "with_width newWidth c = (if 0 < newWidth then Some (c\<lparr>m_width := newWidth\<rparr>) else None)"

definition with_indent :: "nat \<Rightarrow> Column \<Rightarrow> Column" where
  "with_indent newIndent c = c\<lparr>m_indent := newIndent\<rparr>"

definition with_initialIndent :: "nat \<Rightarrow> Column \<Rightarrow> Column" where
  "with_initialIndent newIndent c = c\<lparr>m_initialIndent := Some newIndent\<rparr>"

definition Spacer_new :: "nat \<Rightarrow> Column option" where
  "Spacer_new spaceWidth = with_width spaceWidth (Column_new [])"

record col_iterator =
  m_stringIndex :: nat
  ci_pos :: nat
  m_len :: nat
  m_end :: nat
  m_suffix :: bool

definition col_line :: "Column \<Rightarrow> col_iterator \<Rightarrow> string" where
  "col_line c i = m_strings c ! m_stringIndex i"

definition isBoundary :: "string \<Rightarrow> nat \<Rightarrow> bool option" where
  "isBoundary line at =
     (if at = 0 \<or> length line < at then None
      else Some (at = length line \<or>
        isWhitespace (char_at line at) \<and> \<not> isWhitespace (char_at line (at - 1)) \<or>
        isBreakableBefore (char_at line at) \<or> isBreakableAfter (char_at line (at - 1))))"

definition iterator_indent :: "Column \<Rightarrow> col_iterator \<Rightarrow> nat" where
  "iterator_indent c i =
     (let initial = (if ci_pos i = 0 \<and> m_stringIndex i = 0 then m_initialIndent c else None)
      in (case initial of None \<Rightarrow> m_indent c | Some n \<Rightarrow> n))"

text \<open>The three loops of \<open>calcLength\<close>: to the end of the line, back to a boundary, back over white space.\<close>

function line_end :: "string \<Rightarrow> nat \<Rightarrow> nat" where
  "line_end line e = (if e < length line \<and> line ! e \<noteq> CHR 0x0A then line_end line (Suc e) else e)"
  by pat_completeness auto

termination
  by (relation "measure (\<lambda>(line, e). length line - e)") auto

declare line_end.simps [simp del]

fun to_boundary :: "string \<Rightarrow> nat \<Rightarrow> nat \<Rightarrow> nat option" where
  "to_boundary line p 0 = Some 0"
| "to_boundary line p (Suc len) =
     (case isBoundary line (p + Suc len) of
        None \<Rightarrow> None
      | Some b \<Rightarrow> if b then Some (Suc len) else to_boundary line p len)"

fun drop_space :: "string \<Rightarrow> nat \<Rightarrow> nat \<Rightarrow> nat" where
  "drop_space line p 0 = 0"
| "drop_space line p (Suc len) = (if isWhitespace (char_at line (p + len)) then drop_space line p len else Suc len)"

definition calcLength :: "Column \<Rightarrow> col_iterator \<Rightarrow> col_iterator option" where
  "calcLength c i =
     (if length (m_strings c) \<le> m_stringIndex i then None
      else let line = col_line c i; i = i\<lparr>m_suffix := False\<rparr>; width = m_width c - iterator_indent c i;
               e = line_end line (if char_at line (ci_pos i) = CHR 0x0A then ci_pos i + 1 else ci_pos i);
               i = i\<lparr>m_end := e\<rparr>
           in if e < ci_pos i + width then Some (i\<lparr>m_len := e - ci_pos i\<rparr>)
              else do {
                len \<leftarrow> to_boundary line (ci_pos i) width;
                let len = drop_space line (ci_pos i) len;
                Some (if 0 < len then i\<lparr>m_len := len\<rparr> else i\<lparr>m_suffix := True, m_len := width - 1\<rparr>) })"

definition addIndentAndSuffix :: "Column \<Rightarrow> col_iterator \<Rightarrow> string \<Rightarrow> string" where
  "addIndentAndSuffix c i plain =
     replicate (iterator_indent c i) CHR '' '' @ (if m_suffix i then plain @ ''-'' else plain)"

definition col_begin :: "Column \<Rightarrow> col_iterator option" where
  "col_begin c =
     (if m_width c \<le> m_indent c \<or> (\<exists>n \<in> set_option (m_initialIndent c). m_width c \<le> n) then None
      else do {
        i \<leftarrow> calcLength c \<lparr>m_stringIndex = 0, ci_pos = 0, m_len = 0, m_end = 0, m_suffix = False\<rparr>;
        Some (if m_len i = 0 then i\<lparr>m_stringIndex := m_stringIndex i + 1\<rparr> else i) })"

definition at_end :: "Column \<Rightarrow> col_iterator \<Rightarrow> bool" where
  "at_end c i \<longleftrightarrow> ci_pos i = 0 \<and> m_stringIndex i = length (m_strings c)"

definition col_deref :: "Column \<Rightarrow> col_iterator \<Rightarrow> string option" where
  "col_deref c i =
     (if length (m_strings c) \<le> m_stringIndex i \<or> m_end i < ci_pos i then None
      else Some (addIndentAndSuffix c i (take (m_len i) (drop (ci_pos i) (col_line c i)))))"

function skip_space :: "string \<Rightarrow> nat \<Rightarrow> nat" where
  "skip_space line p = (if p < length line \<and> isWhitespace (line ! p) then skip_space line (Suc p) else p)"
  by pat_completeness auto

termination
  by (relation "measure (\<lambda>(line, p). length line - p)") auto

declare skip_space.simps [simp del]

definition col_next :: "Column \<Rightarrow> col_iterator \<Rightarrow> col_iterator option" where
  "col_next c i =
     (let line = col_line c i; p = ci_pos i + m_len i;
          p = (if p < length line \<and> line ! p = CHR 0x0A then p + 1 else skip_space line p);
          i = (if p = length line then i\<lparr>ci_pos := 0, m_stringIndex := m_stringIndex i + 1\<rparr> else i\<lparr>ci_pos := p\<rparr>)
      in if m_stringIndex i < length (m_strings c) then calcLength c i else Some i)"

text \<open>The lines from an iterator to the end; \<open>None\<close> also when the end is never reached.\<close>

partial_function (option) col_lines_from :: "Column \<Rightarrow> col_iterator \<Rightarrow> string list option" where
  "col_lines_from c i =
     (if at_end c i then Some []
      else do {
        line \<leftarrow> col_deref c i;
        i \<leftarrow> col_next c i;
        lines \<leftarrow> col_lines_from c i;
        Some (line # lines) })"

declare col_lines_from.simps [code]

definition col_lines :: "Column \<Rightarrow> string list option" where
  "col_lines c = do { i \<leftarrow> col_begin c; col_lines_from c i }"

text \<open>\<open>operator<<\<close> and \<open>toString\<close>.\<close>

definition Column_toString :: "Column \<Rightarrow> string option" where
  "Column_toString c = map_option (join_with [CHR 0x0A]) (col_lines c)"

section \<open>Columns side by side\<close>

type_synonym Columns = "Column list"

text \<open>One row: the lines of the columns that are not at their end, padded to the widths of the columns.\<close>

fun cols_row :: "Columns \<Rightarrow> col_iterator list \<Rightarrow> string \<Rightarrow> string option" where
  "cols_row (c # cs) (i # is) padding =
     (if \<not> at_end c i
      then do {
        col \<leftarrow> col_deref c i;
        rest \<leftarrow> cols_row cs is (if length col < m_width c then replicate (m_width c - length col) CHR '' '' else []);
        Some (padding @ col @ rest) }
      else cols_row cs is (padding @ replicate (m_width c) CHR '' ''))"
| "cols_row _ _ padding = Some []"

fun cols_next :: "Columns \<Rightarrow> col_iterator list \<Rightarrow> col_iterator list option" where
  "cols_next (c # cs) (i # is) = do {
     i \<leftarrow> (if \<not> at_end c i then col_next c i else Some i);
     is \<leftarrow> cols_next cs is;
     Some (i # is) }"
| "cols_next _ _ = Some []"

definition cols_begin :: "Columns \<Rightarrow> col_iterator list option" where
  "cols_begin cs = those (map col_begin cs)"

definition cols_at_end :: "Columns \<Rightarrow> col_iterator list \<Rightarrow> bool" where
  "cols_at_end cs is \<longleftrightarrow> list_all2 at_end cs is"

partial_function (option) cols_rows_from :: "Columns \<Rightarrow> col_iterator list \<Rightarrow> string list option" where
  "cols_rows_from cs is =
     (if cols_at_end cs is then Some []
      else do {
        row \<leftarrow> cols_row cs is [];
        is \<leftarrow> cols_next cs is;
        rows \<leftarrow> cols_rows_from cs is;
        Some (row # rows) })"

declare cols_rows_from.simps [code]

definition Columns_toString :: "Columns \<Rightarrow> string option" where
  "Columns_toString cs = do {
     is \<leftarrow> cols_begin cs;
     rows \<leftarrow> cols_rows_from cs is;
     Some (join_with [CHR 0x0A] rows) }"

section \<open>The lines of a column\<close>

text \<open>A column with one text and room for at least two characters on every line.\<close>

definition column_ok :: "Column \<Rightarrow> string \<Rightarrow> bool" where
  "column_ok c s \<longleftrightarrow> m_strings c = [s] \<and> m_indent c + 2 \<le> m_width c \<and>
     (\<forall>n. m_initialIndent c = Some n \<longrightarrow> n + 2 \<le> m_width c)"

lemma iterator_indent_room: "column_ok c s \<Longrightarrow> iterator_indent c i + 2 \<le> m_width c"
  by (auto simp: column_ok_def iterator_indent_def split: option.split)

lemma line_end_bounds: "p \<le> length s \<Longrightarrow> p \<le> line_end s p \<and> line_end s p \<le> length s"
proof (induction s p rule: line_end.induct)
  case (1 s p)
  then show ?case by (subst (1 2) line_end.simps) auto
qed

lemma line_end_after:
  assumes "p < length s"
  shows "p < line_end s (if char_at s p = CHR 0x0A then p + 1 else p)"
proof (cases "s ! p = CHR 0x0A")
  case True
  then show ?thesis using assms line_end_bounds [of "p + 1" s] by (simp add: char_at_def)
next
  case False
  then have "line_end s p = line_end s (Suc p)" using assms by (subst line_end.simps) simp
  then show ?thesis using False assms line_end_bounds [of "Suc p" s] by (simp add: char_at_def)
qed

lemma to_boundary_total: "p + n \<le> length s \<Longrightarrow> \<exists>k \<le> n. to_boundary s p n = Some k"
  by (induction n) (auto simp: isBoundary_def le_Suc_eq)

lemma drop_space_le: "drop_space s p n \<le> n"
  by (induction n) auto

text \<open>The state of an iterator on a line.\<close>

definition on_line :: "Column \<Rightarrow> string \<Rightarrow> col_iterator \<Rightarrow> bool" where
  "on_line c s i \<longleftrightarrow> m_stringIndex i = 0 \<and> 0 < m_len i \<and> ci_pos i + m_len i \<le> length s \<and> ci_pos i \<le> m_end i \<and>
     iterator_indent c i + m_len i + (if m_suffix i then 1 else 0) \<le> m_width c"

lemma calcLength_on_line:
  assumes "column_ok c s" "m_stringIndex i = 0" "ci_pos i < length s"
  shows "\<exists>i'. calcLength c i = Some i' \<and> on_line c s i' \<and> ci_pos i' = ci_pos i"
proof -
  define e where "e = line_end s (if char_at s (ci_pos i) = CHR 0x0A then ci_pos i + 1 else ci_pos i)"
  define w where "w = m_width c - iterator_indent c i"
  have c: "m_strings c = [s]" "col_line c i = s" using assms by (simp_all add: column_ok_def col_line_def)
  have w: "2 \<le> w" "iterator_indent c i + w = m_width c" using iterator_indent_room [OF assms(1), of i] by (auto simp: w_def)
  have e: "ci_pos i < e" "e \<le> length s"
    using line_end_after [OF assms(3)] line_end_bounds [of "ci_pos i" s] line_end_bounds [of "ci_pos i + 1" s] assms(3)
    by (auto simp: e_def)
  have ind: "iterator_indent c (i\<lparr>m_suffix := x, m_end := e, m_len := n\<rparr>) = iterator_indent c i"
    "iterator_indent c (i\<lparr>m_suffix := False, m_end := e, m_suffix := x, m_len := n\<rparr>) = iterator_indent c i"
    "iterator_indent c (i\<lparr>m_suffix := x\<rparr>) = iterator_indent c i" for x n
    by (simp_all add: iterator_indent_def)
  have calc: "calcLength c i =
      (if e < ci_pos i + w then Some (i\<lparr>m_suffix := False, m_end := e, m_len := e - ci_pos i\<rparr>)
       else do { len \<leftarrow> to_boundary s (ci_pos i) w;
         Some (let len = drop_space s (ci_pos i) len in
           if 0 < len then i\<lparr>m_suffix := False, m_end := e, m_len := len\<rparr>
           else i\<lparr>m_suffix := False, m_end := e, m_suffix := True, m_len := w - 1\<rparr>) })"
    using c assms(2) by (simp add: calcLength_def col_line_def e_def w_def ind Let_def split del: if_split cong: if_cong)
  show ?thesis
  proof (cases "e < ci_pos i + w")
    case True
    with calc show ?thesis using True assms(2) e w ind by (auto simp: on_line_def)
  next
    case False
    then obtain k where k: "k \<le> w" "to_boundary s (ci_pos i) w = Some k"
      using to_boundary_total [of "ci_pos i" w s] e by auto
    let ?n = "drop_space s (ci_pos i) k"
    have "calcLength c i = Some (if 0 < ?n then i\<lparr>m_suffix := False, m_end := e, m_len := ?n\<rparr>
        else i\<lparr>m_suffix := False, m_end := e, m_suffix := True, m_len := w - 1\<rparr>)"
      using calc False k by (simp add: Let_def)
    then show ?thesis using False assms(2) e w ind k drop_space_le [of s "ci_pos i" k] by (auto simp: on_line_def)
  qed
qed

lemma skip_space_spec:
  assumes "p \<le> length s"
  shows "p \<le> skip_space s p \<and> skip_space s p \<le> length s \<and> list_all isWhitespace (take (skip_space s p - p) (drop p s))"
  using assms
proof (induction s p rule: skip_space.induct)
  case (1 s p)
  show ?case
  proof (cases "p < length s \<and> isWhitespace (s ! p)")
    case True
    then have eq: "skip_space s p = skip_space s (Suc p)" by (subst skip_space.simps) simp
    have "skip_space s (Suc p) - p = Suc (skip_space s (Suc p) - Suc p)" using 1 True by (simp add: Suc_diff_le [symmetric])
    then show ?thesis using 1 True eq by (simp add: Cons_nth_drop_Suc [symmetric])
  next
    case False
    then have "skip_space s p = p" by (subst skip_space.simps) auto
    then show ?thesis using 1 by simp
  qed
qed

lemma col_next_on_line:
  assumes "column_ok c s" "on_line c s i"
  obtains i' p where "col_next c i = Some i'" "ci_pos i + m_len i \<le> p" "p \<le> length s"
    "list_all isWhitespace (take (p - (ci_pos i + m_len i)) (drop (ci_pos i + m_len i) s))"
    "p = length s \<Longrightarrow> at_end c i'" "p < length s \<Longrightarrow> on_line c s i' \<and> ci_pos i' = p"
proof -
  let ?q = "ci_pos i + m_len i"
  define p where "p = (if ?q < length s \<and> s ! ?q = CHR 0x0A then ?q + 1 else skip_space s ?q)"
  have c: "m_strings c = [s]" "col_line c i = s" "m_stringIndex i = 0" "?q \<le> length s"
    using assms by (simp_all add: column_ok_def col_line_def on_line_def)
  have p: "?q \<le> p" "p \<le> length s" "list_all isWhitespace (take (p - ?q) (drop ?q s))"
    using skip_space_spec [of ?q s] c(4) by (auto simp: p_def isWhitespace_def Cons_nth_drop_Suc [symmetric])
  have nx: "col_next c i = (let i = (if p = length s then i\<lparr>ci_pos := 0, m_stringIndex := 1\<rparr> else i\<lparr>ci_pos := p\<rparr>)
      in if m_stringIndex i < 1 then calcLength c i else Some i)"
    using c by (simp add: col_next_def p_def [symmetric])
  show thesis
  proof (cases "p = length s")
    case True
    then have "col_next c i = Some (i\<lparr>ci_pos := 0, m_stringIndex := 1\<rparr>)" using nx by simp
    then show ?thesis using that [of _ p] p True c by (simp add: at_end_def)
  next
    case False
    then obtain i' where "calcLength c (i\<lparr>ci_pos := p\<rparr>) = Some i'" "on_line c s i' \<and> ci_pos i' = p"
      using calcLength_on_line [OF assms(1), of "i\<lparr>ci_pos := p\<rparr>"] c p by auto
    then show ?thesis using that [of i' p] p False nx c by simp
  qed
qed

text \<open>A line as it is printed: its indent, the text, and whether it ends in a hyphen.\<close>

fun show_piece :: "nat \<times> string \<times> bool \<Rightarrow> string" where
  "show_piece (n, t, h) = replicate n CHR '' '' @ t @ (if h then ''-'' else [])"

definition ink :: "string \<Rightarrow> string" where
  "ink s = filter (\<lambda>ch. \<not> isWhitespace ch) s"

lemma ink_append [simp]: "ink (xs @ ys) = ink xs @ ink ys"
  by (simp add: ink_def)

lemma ink_space [simp]: "list_all isWhitespace xs \<Longrightarrow> ink xs = []"
  by (simp add: ink_def list_all_iff filter_empty_conv)

lemma col_lines_from_ok:
  assumes "column_ok c s" "on_line c s i"
  shows "\<exists>ps. col_lines_from c i = Some (map show_piece ps) \<and>
    list_all (\<lambda>(n, t, h). t \<noteq> [] \<and> length (show_piece (n, t, h)) \<le> m_width c) ps \<and>
    ink (concat (map (\<lambda>(n, t, h). t) ps)) = ink (drop (ci_pos i) s)"
  using assms(2)
proof (induction "length s - ci_pos i" arbitrary: i rule: less_induct)
  case less
  let ?q = "ci_pos i + m_len i" and ?t = "take (m_len i) (drop (ci_pos i) s)"
  let ?piece = "(iterator_indent c i, ?t, m_suffix i)"
  obtain i' p where nx: "col_next c i = Some i'" and p: "?q \<le> p" "p \<le> length s"
    and ws: "list_all isWhitespace (take (p - ?q) (drop ?q s))"
    and fin: "p = length s \<Longrightarrow> at_end c i'" and more: "p < length s \<Longrightarrow> on_line c s i' \<and> ci_pos i' = p"
    using col_next_on_line [OF assms(1) less.prems] by metis
  have i: "0 < m_len i" "?q \<le> length s" "m_stringIndex i = 0" using less.prems by (auto simp: on_line_def)
  have here: "col_deref c i = Some (show_piece ?piece)" "\<not> at_end c i" "?t \<noteq> []" "length (show_piece ?piece) \<le> m_width c"
    using less.prems assms(1) by (auto simp: col_deref_def addIndentAndSuffix_def on_line_def column_ok_def col_line_def at_end_def)
  have whole: "drop (ci_pos i) s = ?t @ take (p - ?q) (drop ?q s) @ drop p s"
    using p by (metis add.commute append_take_drop_id drop_drop le_add_diff_inverse2)
  have whole: "ink (drop (ci_pos i) s) = ink ?t @ ink (drop p s)" by (subst whole) (simp add: ws)
  show ?case
  proof (cases "p = length s")
    case True
    then have "col_lines_from c i' = Some []" using fin by (subst col_lines_from.simps) simp
    then have "col_lines_from c i = Some (map show_piece [?piece])" using nx here by (subst col_lines_from.simps) simp
    then show ?thesis using here whole True by (intro exI [of _ "[?piece]"]) simp
  next
    case False
    then have i': "on_line c s i'" "ci_pos i' = p" using more p by auto
    have shorter: "length s - ci_pos i' < length s - ci_pos i" using i i' p by linarith
    obtain ps where "col_lines_from c i' = Some (map show_piece ps)"
      and ps: "list_all (\<lambda>(n, t, h). t \<noteq> [] \<and> length (show_piece (n, t, h)) \<le> m_width c) ps"
        "ink (concat (map (\<lambda>(n, t, h). t) ps)) = ink (drop p s)"
      using less.hyps [OF shorter i'(1)] unfolding i'(2) by blast
    then have "col_lines_from c i = Some (map show_piece (?piece # ps))" using nx here by (subst col_lines_from.simps) simp
    then show ?thesis using here whole ps by (intro exI [of _ "?piece # ps"]) (simp del: show_piece.simps)
  qed
qed

lemma col_begin_ok:
  assumes "column_ok c s"
  shows "\<exists>i. col_begin c = Some i \<and> (if s = [] then at_end c i else on_line c s i \<and> ci_pos i = 0)"
proof -
  let ?i = "\<lparr>m_stringIndex = 0, ci_pos = 0, m_len = 0, m_end = 0, m_suffix = False\<rparr>"
  have c: "m_strings c = [s]" "\<not> m_width c \<le> m_indent c" "\<not> (\<exists>n \<in> set_option (m_initialIndent c). m_width c \<le> n)"
    using assms by (fastforce simp: column_ok_def)+
  show ?thesis
  proof (cases "s = []")
    case True
    have "0 < m_width c - iterator_indent c ?i" using iterator_indent_room [OF assms, of ?i] by simp
    moreover have "line_end [] 0 = 0" by (subst line_end.simps) simp
    ultimately have "calcLength c ?i = Some ?i"
      using True c by (simp add: calcLength_def col_line_def char_at_def)
    then show ?thesis using True c by (simp add: col_begin_def at_end_def)
  next
    case False
    then obtain i where i: "calcLength c ?i = Some i" "on_line c s i" "ci_pos i = 0"
      using calcLength_on_line [OF assms, of ?i] by auto
    then have "m_len i \<noteq> 0" by (simp add: on_line_def)
    then show ?thesis using i False c by (simp add: col_begin_def)
  qed
qed

lemma Column_toString_total:
  assumes "column_ok c s"
  shows "Column_toString c \<noteq> None"
proof -
  obtain i where i: "col_begin c = Some i" and pos: "if s = [] then at_end c i else on_line c s i \<and> ci_pos i = 0"
    using col_begin_ok [OF assms] by blast
  have "col_lines_from c i \<noteq> None"
  proof (cases "s = []")
    case True
    then show ?thesis using pos by (subst col_lines_from.simps) simp
  next
    case False
    then show ?thesis using pos col_lines_from_ok [OF assms, of i] by auto
  qed
  then show ?thesis using i by (simp add: Column_toString_def col_lines_def)
qed

text \<open>Rows of columns come to an end, and no row is wider than the columns together.\<close>

definition column_at :: "Column \<Rightarrow> col_iterator \<Rightarrow> bool" where
  "column_at c i \<longleftrightarrow> (\<exists>s. column_ok c s \<and> (at_end c i \<or> on_line c s i))"

definition rest_length :: "Column \<Rightarrow> col_iterator \<Rightarrow> nat" where
  "rest_length c i = (if at_end c i then 0 else length (col_line c i) - ci_pos i)"

lemma column_at_deref:
  assumes "column_at c i" "\<not> at_end c i"
  shows "\<exists>t. col_deref c i = Some t \<and> length t \<le> m_width c"
  using assms by (auto simp: column_at_def col_deref_def addIndentAndSuffix_def on_line_def column_ok_def col_line_def)

lemma column_at_next:
  assumes "column_at c i" "\<not> at_end c i"
  shows "\<exists>i'. col_next c i = Some i' \<and> column_at c i' \<and> rest_length c i' < rest_length c i"
proof -
  obtain s where s: "column_ok c s" "on_line c s i" using assms by (auto simp: column_at_def)
  have line: "\<And>j. on_line c s j \<Longrightarrow> col_line c j = s" using s(1) by (simp add: on_line_def column_ok_def col_line_def)
  obtain i' p where "col_next c i = Some i'" and p: "ci_pos i + m_len i \<le> p" "p \<le> length s"
    "p = length s \<Longrightarrow> at_end c i'" "p < length s \<Longrightarrow> on_line c s i' \<and> ci_pos i' = p"
    using col_next_on_line [OF s] by metis
  moreover have "0 < m_len i" "ci_pos i + m_len i \<le> length s" using s(2) by (simp_all add: on_line_def)
  ultimately show ?thesis using s line [OF s(2)] line [of i'] assms(2)
    by (cases "p = length s") (auto simp: column_at_def rest_length_def)
qed

lemma cols_row_fits:
  "list_all2 column_at cs is \<Longrightarrow> \<exists>r. cols_row cs is pad = Some r \<and> length r \<le> length pad + sum_list (map m_width cs)"
proof (induction cs "is" arbitrary: pad rule: list_all2_induct)
  case (Cons c cs i "is")
  show ?case
  proof (cases "at_end c i")
    case True
    then show ?thesis using Cons.IH [of "pad @ replicate (m_width c) CHR '' ''"] by auto
  next
    case False
    then obtain t where t: "col_deref c i = Some t" "length t \<le> m_width c" using column_at_deref Cons.hyps(1) by blast
    let ?pad = "if length t < m_width c then replicate (m_width c - length t) CHR '' '' else []"
    obtain r where "cols_row cs is ?pad = Some r" "length r \<le> length ?pad + sum_list (map m_width cs)"
      using Cons.IH by blast
    moreover have "length ?pad + length t = m_width c" using t(2) by auto
    ultimately show ?thesis using False t(1) by simp
  qed
qed simp

lemma cols_next_ok:
  "list_all2 column_at cs is \<Longrightarrow> \<exists>is'. cols_next cs is = Some is' \<and> list_all2 column_at cs is' \<and>
     sum_list (map2 rest_length cs is') \<le> sum_list (map2 rest_length cs is) \<and>
     (\<not> cols_at_end cs is \<longrightarrow> sum_list (map2 rest_length cs is') < sum_list (map2 rest_length cs is))"
proof (induction cs "is" rule: list_all2_induct)
  case (Cons c cs i "is")
  then obtain is' where is': "cols_next cs is = Some is'" "list_all2 column_at cs is'"
    "sum_list (map2 rest_length cs is') \<le> sum_list (map2 rest_length cs is)"
    "\<not> cols_at_end cs is \<longrightarrow> sum_list (map2 rest_length cs is') < sum_list (map2 rest_length cs is)" by blast
  show ?case
  proof (cases "at_end c i")
    case True
    then show ?thesis using is' Cons.hyps(1) by (auto simp: cols_at_end_def)
  next
    case False
    then obtain i' where "col_next c i = Some i'" "column_at c i'" "rest_length c i' < rest_length c i"
      using column_at_next Cons.hyps(1) by blast
    then show ?thesis using False is' by (auto simp: cols_at_end_def)
  qed
qed (simp add: cols_at_end_def)

lemma cols_rows_ok:
  assumes "list_all2 column_at cs is"
  shows "\<exists>rows. cols_rows_from cs is = Some rows \<and> list_all (\<lambda>r. length r \<le> sum_list (map m_width cs)) rows"
  using assms
proof (induction "sum_list (map2 rest_length cs is)" arbitrary: "is" rule: less_induct)
  case less
  show ?case
  proof (cases "cols_at_end cs is")
    case True
    then show ?thesis by (subst cols_rows_from.simps) simp
  next
    case False
    obtain r where r: "cols_row cs is [] = Some r" "length r \<le> sum_list (map m_width cs)"
      using cols_row_fits [OF less.prems, of "[]"] by auto
    obtain is' where is': "cols_next cs is = Some is'" "list_all2 column_at cs is'"
      "sum_list (map2 rest_length cs is') < sum_list (map2 rest_length cs is)"
      using cols_next_ok [OF less.prems] False by blast
    obtain rows where "cols_rows_from cs is' = Some rows" "list_all (\<lambda>r. length r \<le> sum_list (map m_width cs)) rows"
      using less.hyps [OF is'(3,2)] by blast
    then show ?thesis using False r is' by (subst cols_rows_from.simps) simp
  qed
qed

lemma Columns_toString_total:
  assumes "list_all (\<lambda>c. \<exists>s. column_ok c s) cs"
  shows "Columns_toString cs \<noteq> None"
proof -
  have "\<exists>is. cols_begin cs = Some is \<and> list_all2 column_at cs is"
    using assms
  proof (induction cs)
    case (Cons c cs)
    then obtain s "is" where s: "column_ok c s" and rest: "cols_begin cs = Some is" "list_all2 column_at cs is" by auto
    obtain i where "col_begin c = Some i" "if s = [] then at_end c i else on_line c s i \<and> ci_pos i = 0"
      using col_begin_ok [OF s] by blast
    then have "col_begin c = Some i" "column_at c i" using s by (auto simp: column_at_def split: if_splits)
    then show ?case using rest by (simp add: cols_begin_def)
  qed (simp add: cols_begin_def)
  then show ?thesis using cols_rows_ok by (fastforce simp: Columns_toString_def)
qed

text \<open>
  C35: A column that has room for two characters on every line prints its text:
  the iteration ends, no line is wider than the column, no line is empty, and
  but for white space the lines show exactly the characters of the text in
  order, after the indent and before the hyphen of a word that is cut.
\<close>

theorem column_wraps_text:
  assumes "column_ok c s"
  shows "\<exists>ps. col_lines c = Some (map show_piece ps) \<and>
    list_all (\<lambda>(n, t, h). t \<noteq> [] \<and> length (show_piece (n, t, h)) \<le> m_width c) ps \<and>
    ink (concat (map (\<lambda>(n, t, h). t) ps)) = ink s"
proof -
  obtain i where i: "col_begin c = Some i" and pos: "if s = [] then at_end c i else on_line c s i \<and> ci_pos i = 0"
    using col_begin_ok [OF assms] by blast
  show ?thesis
  proof (cases "s = []")
    case True
    then have "col_lines_from c i = Some []" using pos by (subst col_lines_from.simps) simp
    then show ?thesis using i True by (intro exI [of _ "[]"]) (simp add: col_lines_def ink_def)
  next
    case False
    then show ?thesis using col_lines_from_ok [OF assms, of i] i pos by (simp add: col_lines_def)
  qed
qed

definition sample_column :: Column where
  "sample_column = with_indent 2 (with_initialIndent 0 (Column_new ''persistent memory pool'')\<lparr>m_width := 8\<rparr>)"

theorem column_wraps_text_witness:
  "column_ok sample_column ''persistent memory pool'' \<and>
   (\<exists>ps. col_lines sample_column = Some (map show_piece ps) \<and>
     list_all (\<lambda>(n, t, h). t \<noteq> [] \<and> length (show_piece (n, t, h)) \<le> m_width sample_column) ps \<and>
     ink (concat (map (\<lambda>(n, t, h). t) ps)) = ink ''persistent memory pool'')"
proof -
  have "column_ok sample_column ''persistent memory pool''"
    by (simp add: column_ok_def sample_column_def Column_new_def with_indent_def with_initialIndent_def)
  then show ?thesis using column_wraps_text by blast
qed

section \<open>A column with room for one character\<close>

definition solid :: "char \<Rightarrow> bool" where
  "solid ch \<longleftrightarrow> \<not> isWhitespace ch \<and> \<not> isBreakableBefore ch \<and> \<not> isBreakableAfter ch"

text \<open>
  The assertions of the iterator accept a column with room for a single
  character, but then a word of two letters after the first word is never
  passed: the iterator stands still before its end, so printing does not end.
\<close>

theorem narrow_column_stands_still:
  assumes "solid a" "solid x" "solid y"
  shows "\<exists>i j. col_begin (Column_new ([a, CHR '' '', x, y] @ rest)\<lparr>m_width := 1\<rparr>) = Some i \<and>
    col_next (Column_new ([a, CHR '' '', x, y] @ rest)\<lparr>m_width := 1\<rparr>) i = Some j \<and>
    \<not> at_end (Column_new ([a, CHR '' '', x, y] @ rest)\<lparr>m_width := 1\<rparr>) j \<and>
    col_next (Column_new ([a, CHR '' '', x, y] @ rest)\<lparr>m_width := 1\<rparr>) j = Some j"
proof -
  let ?s = "[a, CHR '' '', x, y] @ rest"
  let ?c = "Column_new ?s\<lparr>m_width := 1\<rparr>"
  let ?e = "line_end ?s 0" and ?f = "line_end ?s 2"
  have nl: "\<And>ch. solid ch \<Longrightarrow> ch \<noteq> CHR 0x0A" by (auto simp: solid_def isWhitespace_def)
  note nls = nl [OF assms(1)] nl [OF assms(2)] nl [OF assms(3)]
  have "line_end ?s 0 = line_end ?s 1" "line_end ?s 1 = line_end ?s 2" "line_end ?s 2 = line_end ?s 3" "line_end ?s 3 = line_end ?s 4"
    using nls by (subst line_end.simps; simp add: numeral_eq_Suc)+
  moreover have "4 \<le> line_end ?s 4" using line_end_bounds [of 4 ?s] by simp
  ultimately have ends: "4 \<le> ?e" "4 \<le> ?f" by simp_all
  let ?i = "\<lparr>m_stringIndex = 0, ci_pos = 0, m_len = 1, m_end = ?e, m_suffix = False\<rparr>"
  let ?j = "\<lparr>m_stringIndex = 0, ci_pos = 2, m_len = 0, m_end = ?f, m_suffix = True\<rparr>"
  have "col_begin ?c = Some ?i"
    using ends nls assms
    by (simp add: col_begin_def calcLength_def Column_new_def col_line_def char_at_def iterator_indent_def isBoundary_def
      solid_def isWhitespace_def Let_def)
  moreover have "skip_space ?s 2 = 2" "skip_space ?s 1 = skip_space ?s 2"
    using assms by (subst skip_space.simps; simp add: solid_def numeral_eq_Suc isWhitespace_def)+
  moreover have calc: "calcLength ?c \<lparr>m_stringIndex = 0, ci_pos = 2, m_len = n, m_end = e, m_suffix = b\<rparr> = Some ?j" for n e b
    using ends nls assms
    by (simp add: calcLength_def Column_new_def col_line_def char_at_def iterator_indent_def isBoundary_def solid_def Let_def)
  ultimately show ?thesis using nls
    by (intro exI [of _ ?i] exI [of _ ?j])
      (simp add: col_next_def Column_new_def col_line_def at_end_def Let_def)
qed

theorem narrow_column_stands_still_witness:
  "\<exists>i j. col_begin (Column_new ([CHR ''a'', CHR '' '', CHR ''b'', CHR ''c''] @ [])\<lparr>m_width := 1\<rparr>) = Some i \<and>
    col_next (Column_new ([CHR ''a'', CHR '' '', CHR ''b'', CHR ''c''] @ [])\<lparr>m_width := 1\<rparr>) i = Some j \<and>
    \<not> at_end (Column_new ([CHR ''a'', CHR '' '', CHR ''b'', CHR ''c''] @ [])\<lparr>m_width := 1\<rparr>) j \<and>
    col_next (Column_new ([CHR ''a'', CHR '' '', CHR ''b'', CHR ''c''] @ [])\<lparr>m_width := 1\<rparr>) j = Some j"
  by (rule narrow_column_stands_still) code_simp+

end
