(* ===== verification/CatchMain.thy ===== *)
theory CatchMain
  imports CatchCommandLine CatchTextFlow
begin

text \<open>
  The session of a test executable (\<open>native/src/catch.hpp\<close>,
  \<open>catch_list\<close> and \<open>catch_session\<close>): the usage text, the lists of tests, tags
  and reporters, and \<open>Session\<close>, from the command line to the exit code.  The
  text written to the standard output and to the standard error is kept; what
  the reporter writes is modelled with the reporters.
\<close>

section \<open>The usage text\<close>

abbreviation nl :: string where "nl \<equiv> [CHR 0x0A]"

definition consoleWidth :: nat where "consoleWidth = 80"

fun usage_args :: "bool \<Rightarrow> bool \<Rightarrow> 'c Arg list \<Rightarrow> string" where
  "usage_args required first [] = (if \<not> required then '']'' else [])"
| "usage_args required first (arg # args) =
     (let open = isOptional arg \<and> required in
      (if first then [] else '' '') @ (if open then ''['' else []) @ ''<'' @ m_hint arg @ ''>'' @
      (if cardinality arg = 0 then '' ... '' else []) @ usage_args (required \<and> \<not> open) False args)"

definition usage_row :: "nat \<Rightarrow> string \<times> string \<Rightarrow> string option" where
  "usage_row optWidth cols = do {
     left \<leftarrow> with_width optWidth (Column_new (fst cols));
     space \<leftarrow> Spacer_new 4;
     right \<leftarrow> with_width (consoleWidth - 7 - optWidth) (Column_new (snd cols));
     row \<leftarrow> Columns_toString [with_indent 2 left, space, right];
     Some (row @ nl) }"

definition option_width :: "(string \<times> string) list \<Rightarrow> nat" where
  "option_width rows = min (fold (\<lambda>cols w. max w (length (fst cols) + 2)) rows 0) (consoleWidth div 2)"

definition writeToStream :: "'c Parser \<Rightarrow> string option" where
  "writeToStream p = do {
     let usage = (if exe_name (m_exeName p) \<noteq> []
       then ''usage:'' @ nl @ ''  '' @ exe_name (m_exeName p) @ '' '' @ usage_args True True (p_args p) @
         (if m_options p \<noteq> [] then '' options'' else []) @ nl @ nl @ ''where options are:'' @ nl
       else []);
     let rows = getHelpColumns p;
     lines \<leftarrow> those (map (usage_row (option_width rows)) rows);
     Some (usage @ concat lines) }"

section \<open>Lists\<close>

text \<open>\<open>stringify\<close> of a line of the source.\<close>

definition show_lineInfo :: "SourceLineInfo \<Rightarrow> string" where
  "show_lineInfo li = sl_file li @ '':'' @ show_nat (sl_line li)"

definition list_test :: "Config \<Rightarrow> TestCase \<Rightarrow> string option" where
  "list_test config tc = do {
     nm \<leftarrow> Column_toString (with_indent 4 (with_initialIndent 2 (Column_new (name tc))));
     detail \<leftarrow> (if cd_verbosity (cfg_data config) = High
       then do {
         li \<leftarrow> Column_toString (with_indent 4 (Column_new (show_lineInfo (lineInfo tc))));
         d \<leftarrow> Column_toString (with_indent 4 (Column_new
                (if description tc = [] then ''(NO DESCRIPTION)'' else description tc)));
         Some (li @ nl @ d @ nl) }
       else Some []);
     ts \<leftarrow> (if tags tc \<noteq> []
       then map_option (\<lambda>t. t @ nl) (Column_toString (with_indent 6 (Column_new (tagsAsString tc)))) else Some []);
     Some (nm @ nl @ detail @ ts) }"

text \<open>Each list gives its number of entries and its text; \<open>ordered\<close> holds the registered test cases in order.\<close>

definition tests_header :: "Config \<Rightarrow> string" where
  "tests_header config =
     (if m_hasTestFilters config then ''Matching test cases:'' else ''All available test cases:'') @ nl"

definition list_tests :: "Config \<Rightarrow> TestCase list \<Rightarrow> (nat \<times> string) option" where
  "list_tests config ordered = do {
     let matched = filterTests ordered (cfg_testSpec config) config;
     lines \<leftarrow> those (map (list_test config) matched);
     Some (length matched,
       tests_header config @ concat lines @
       pluralise (length matched) (if m_hasTestFilters config then ''matching test case'' else ''test case'') @ nl @ nl) }"

definition listTestsNamesOnly :: "Config \<Rightarrow> TestCase list \<Rightarrow> nat \<times> string" where
  "listTestsNamesOnly config ordered =
     (let matched = filterTests ordered (cfg_testSpec config) config in
      (length matched, concat (map (\<lambda>tc.
         (if startsWith_ch (name tc) CHR ''#'' then [CHR 0x22] @ name tc @ [CHR 0x22] else name tc) @
         (if cd_verbosity (cfg_data config) = High then [CHR 0x09] @ ''@'' @ show_lineInfo (lineInfo tc) else []) @ nl) matched)))"

record TagInfo =
  spellings :: "string list"
  tag_count :: nat

definition TagInfo_new :: TagInfo where
  "TagInfo_new = \<lparr>spellings = [], tag_count = 0\<rparr>"

definition TagInfo_add :: "string \<Rightarrow> TagInfo \<Rightarrow> TagInfo" where
  "TagInfo_add spelling t = \<lparr>spellings = insort_insert spelling (spellings t), tag_count = tag_count t + 1\<rparr>"

definition TagInfo_all :: "TagInfo \<Rightarrow> string" where
  "TagInfo_all t = concat (map (\<lambda>spelling. ''['' @ spelling @ '']'') (spellings t))"

text \<open>The map of tags, ordered by the lower case name: insertion of a new tag, and of one more use.\<close>

definition count_tag :: "string \<Rightarrow> (string \<times> TagInfo) list \<Rightarrow> (string \<times> TagInfo) list" where
  "count_tag tagName tagCounts =
     (let lcaseTagName = toLower tagName;
          tagCounts = (if map_of tagCounts lcaseTagName = None then map_insert lcaseTagName TagInfo_new tagCounts else tagCounts)
      in map (\<lambda>(k, t). (k, if k = lcaseTagName then TagInfo_add tagName t else t)) tagCounts)"

definition tag_counts :: "TestCase list \<Rightarrow> (string \<times> TagInfo) list" where
  "tag_counts tcs = fold count_tag (concat (map tags tcs)) []"

definition pad_left :: "nat \<Rightarrow> string \<Rightarrow> string" where
  "pad_left n s = replicate (n - length s) CHR '' '' @ s"

definition list_tag :: "TagInfo \<Rightarrow> string option" where
  "list_tag t = do {
     let str = ''  '' @ pad_left 2 (show_nat (tag_count t)) @ ''  '';
     wrapper \<leftarrow> with_width 70 (with_indent (length str) (with_initialIndent 0 (Column_new (TagInfo_all t))));
     txt \<leftarrow> Column_toString wrapper;
     Some (str @ txt @ nl) }"

definition tags_header :: "Config \<Rightarrow> string" where
  "tags_header config =
     (if m_hasTestFilters config then ''Tags for matching test cases:'' else ''All available tags:'') @ nl"

definition list_tags :: "Config \<Rightarrow> TestCase list \<Rightarrow> (nat \<times> string) option" where
  "list_tags config ordered = do {
     let tagCounts = tag_counts (filterTests ordered (cfg_testSpec config) config);
     lines \<leftarrow> those (map (\<lambda>kt. list_tag (snd kt)) tagCounts);
     Some (length tagCounts,
       tags_header config @ concat lines @
       pluralise (length tagCounts) ''tag'' @ nl @ nl) }"

text \<open>
  \<open>describe\<close> gives the description of a reporter factory; the width left for
  it is an unsigned difference.
\<close>

definition list_reporters :: "(nat \<Rightarrow> string) \<Rightarrow> ReporterRegistry \<Rightarrow> (nat \<times> string) option" where
  "list_reporters describe r = do {
     let maxNameLen = fold (\<lambda>kv m. max m (length (fst kv))) (m_factories r) 0;
     lines \<leftarrow> those (map (\<lambda>kv. do {
         left \<leftarrow> with_width (5 + maxNameLen) (with_indent 2 (Column_new (fst kv @ '':'')));
         right \<leftarrow> with_width ((2 ^ 64 + 80 - maxNameLen - 8) mod 2 ^ 64) (with_indent 2 (with_initialIndent 0 (Column_new (describe (snd kv)))));
         row \<leftarrow> Columns_toString [left, right];
         Some (row @ nl) }) (m_factories r));
     Some (length (m_factories r), ''Available reporters:'' @ nl @ concat lines @ nl) }"

text \<open>The sum of the lists asked for, each added to the count so far.\<close>

definition add_list :: "bool \<Rightarrow> (nat \<times> string) option \<Rightarrow> nat option \<times> string \<Rightarrow> (nat option \<times> string) option" where
  "add_list wanted l acc =
     (if wanted
      then do {
        (n, txt) \<leftarrow> l;
        Some (Some ((case fst acc of None \<Rightarrow> 0 | Some m \<Rightarrow> m) + n), snd acc @ txt) }
      else Some acc)"

definition list_all_wanted ::
  "(nat \<Rightarrow> string) \<Rightarrow> ReporterRegistry \<Rightarrow> Config \<Rightarrow> TestCase list \<Rightarrow> (nat option \<times> string) option" where
  "list_all_wanted describe reporters config ordered = do {
     let d = cfg_data config;
     acc \<leftarrow> add_list (listTests d) (list_tests config ordered) (None, []);
     acc \<leftarrow> add_list (listTestNamesOnly d) (Some (listTestsNamesOnly config ordered)) acc;
     acc \<leftarrow> add_list (listTags d) (list_tags config ordered) acc;
     add_list (listReporters d) (list_reporters describe reporters) acc }"

section \<open>The session\<close>

record 'd Session =
  m_cli :: "'d CliConfig Parser"
  m_configData :: "'d CliConfig"
  s_config :: "Config option"
  m_startupExceptions :: bool
  s_cout :: string
  s_cerr :: string

definition print_out :: "string \<Rightarrow> 'd Session \<Rightarrow> 'd Session" where
  "print_out txt s = s\<lparr>s_cout := s_cout s @ txt\<rparr>"

definition print_err :: "string \<Rightarrow> 'd Session \<Rightarrow> 'd Session" where
  "print_err txt s = s\<lparr>s_cerr := s_cerr s @ txt\<rparr>"

text \<open>
  \<open>config()\<close> makes the configuration when there is none, which throws when the
  stream of the report cannot be opened.  \<open>can_open\<close> is the file system's answer.
\<close>

definition session_config :: "(string \<Rightarrow> bool) \<Rightarrow> RegistryHub \<Rightarrow> 'd Session \<Rightarrow> (string + Config \<times> 'd Session) option" where
  "session_config can_open hub s =
     (case s_config s of
        Some c \<Rightarrow> Some (Inr (c, s))
      | None \<Rightarrow> do {
          made \<leftarrow> Config_new can_open (expandAliases (m_tagAliasRegistry hub)) (ConfigData.truncate (m_configData s));
          Some (case made of Inl msg \<Rightarrow> Inl msg | Inr c \<Rightarrow> Inr (c, s\<lparr>s_config := Some c\<rparr>)) })"

text \<open>The text of the startup exceptions; \<open>what\<close> is the message of an exception.\<close>

definition startup_text :: "(catch_error \<Rightarrow> string) \<Rightarrow> catch_error list \<Rightarrow> string option" where
  "startup_text what exceptions = do {
     lines \<leftarrow> those (map (\<lambda>e. map_option (\<lambda>t. t @ nl) (Column_toString (with_indent 2 (Column_new (what e))))) exceptions);
     Some (''Errors occurred during startup!'' @ nl @ concat lines) }"

text \<open>
  The constructor of a session, or the message of an exception that leaves it.
\<close>

definition Session_new ::
  "(catch_error \<Rightarrow> string) \<Rightarrow> (string \<Rightarrow> bool) \<Rightarrow> 'd environment \<Rightarrow> 'd \<Rightarrow> RegistryHub \<Rightarrow> (string + 'd Session) option" where
  "Session_new what can_open env interval hub =
     (let s = \<lparr>m_cli = Parser_new, m_configData = CliConfig_new interval, s_config = None, m_startupExceptions = False,
               s_cout = [], s_cerr = []\<rparr> in
      if m_exceptionRegistry hub = [] then Some (Inr (s\<lparr>m_cli := makeCommandLineParser env\<rparr>))
      else do {
        made \<leftarrow> session_config can_open hub s;
        (case made of
           Inl msg \<Rightarrow> Some (Inl msg)
         | Inr (_, s) \<Rightarrow> do {
             txt \<leftarrow> startup_text what (m_exceptionRegistry hub);
             let s = print_err txt (s\<lparr>m_startupExceptions := True\<rparr>);
             Some (Inr (s\<lparr>m_cli := makeCommandLineParser env\<rparr>)) }) })"

definition libraryVersion :: string where
  "libraryVersion = show_nat 2 @ ''.'' @ show_nat 9 @ ''.'' @ show_nat 1"

definition session_showHelp :: "'d Session \<Rightarrow> 'd Session option" where
  "session_showHelp s = do {
     usage \<leftarrow> writeToStream (m_cli s);
     Some (print_out (nl @ ''Catch v'' @ libraryVersion @ nl @ usage @ nl @
       ''For more detailed usage please see the project docs'' @ nl @ nl) s) }"

definition pad_right :: "nat \<Rightarrow> string \<Rightarrow> string" where
  "pad_right n s = s @ replicate (n - length s) CHR '' ''"

definition session_libIdentify :: "'d Session \<Rightarrow> 'd Session" where
  "session_libIdentify = print_out
     (pad_right 16 ''description: '' @ ''A Catch test executable'' @ nl @
      pad_right 16 ''category: '' @ ''testframework'' @ nl @
      pad_right 16 ''framework: '' @ ''Catch Test'' @ nl @
      pad_right 16 ''version: '' @ libraryVersion @ nl)"

text \<open>
  The result is the return code, or the message of an exception that leaves the
  function: the call of \<open>config()\<close> that comes before the message of a parse
  error stands in no \<open>try\<close> block.
\<close>

definition applyCommandLine ::
  "(string \<Rightarrow> bool) \<Rightarrow> RegistryHub \<Rightarrow> string list \<Rightarrow> 'd Session \<Rightarrow> ((string + int) \<times> 'd Session) option" where
  "applyCommandLine can_open hub argv s =
     (if m_startupExceptions s then Some (Inr 1, s)
      else do {
        args \<leftarrow> Args_new argv;
        (result, cli, config) \<leftarrow> Parser_parse_args (m_cli s) args (m_configData s);
        let s = s\<lparr>m_cli := cli, m_configData := config\<rparr>;
        (case result of
           Inl e \<Rightarrow> do {
             made \<leftarrow> session_config can_open hub s;
             (case made of
                Inl msg \<Rightarrow> Some (Inl msg, s)
              | Inr (_, s) \<Rightarrow> do {
                  errors \<leftarrow> Column_toString (with_indent 2 (Column_new (errorMessage e)));
                  Some (Inr MaxExitCode,
                    print_err (nl @ ''Error(s) in input:'' @ nl @ errors @ nl @ nl @ ''Run with -? for usage'' @ nl @ nl) s) }) }
         | Inr _ \<Rightarrow> do {
             s \<leftarrow> (if showHelp (m_configData s) then session_showHelp s else Some s);
             let s = (if libIdentify (m_configData s) then session_libIdentify s else s);
             Some (Inr 0, s\<lparr>s_config := None\<rparr>) }) })"

definition useConfigData :: "'d CliConfig \<Rightarrow> 'd Session \<Rightarrow> 'd Session" where
  "useConfigData config s = s\<lparr>m_configData := config, s_config := None\<rparr>"

definition set_cli :: "'d CliConfig Parser \<Rightarrow> 'd Session \<Rightarrow> 'd Session" where
  "set_cli newParser s = s\<lparr>m_cli := newParser\<rparr>"

text \<open>
  What a test program brings: the messages of exceptions, the files that can be
  opened for writing, the descriptions and preferences of its reporters, the
  random numbers, the values of its generators and its test functions.
\<close>

record ('u, 'g, 'r) test_program =
  what :: "catch_error \<Rightarrow> string"
  file_opens :: "string \<Rightarrow> bool"
  describe :: "nat \<Rightarrow> string"
  reports_all :: "nat list \<Rightarrow> nat \<Rightarrow> bool"
  seed_rng :: "u32 \<Rightarrow> 'r"
  shuffle_tests :: "'r \<Rightarrow> TestCase list \<Rightarrow> TestCase list \<times> 'r"
  next_value :: "'g \<Rightarrow> bool \<times> 'g"
  invoke_test :: "TestCase \<Rightarrow> ('u, 'g) invoker"
  run_line :: SourceLineInfo

text \<open>What a session has when it is over: the exit code, the run if there was one, and what has changed.\<close>

record ('u, 'g, 'r, 'd) session_end =
  end_code :: int
  end_run :: "'g RunContext option"
  end_hub :: RegistryHub
  end_rng :: 'r
  end_world :: 'u
  end_session :: "'d Session"

definition sorted_tests ::
  "('u, 'g, 'r) test_program \<Rightarrow> Config \<Rightarrow> 'r \<Rightarrow> RegistryHub \<Rightarrow> catch_error + TestCase list \<times> RegistryHub \<times> 'r" where
  "sorted_tests prog config r hub =
     (case getAllTestsSorted (shuffle_tests prog) (seed_rng prog) config r (m_testCaseRegistry hub) of
        Inl e \<Rightarrow> Inl e | Inr (tests, reg, r) \<Rightarrow> Inr (tests, hub\<lparr>m_testCaseRegistry := reg\<rparr>, r))"

text \<open>The tags are written into the sorted test cases of the registry.\<close>

definition add_filename_tags ::
  "('u, 'g, 'r) test_program \<Rightarrow> Config \<Rightarrow> 'r \<Rightarrow> RegistryHub \<Rightarrow> catch_error + RegistryHub \<times> 'r" where
  "add_filename_tags prog config r hub =
     (case sorted_tests prog config r hub of
        Inl e \<Rightarrow> Inl e
      | Inr (tests, hub, r) \<Rightarrow>
          Inr (hub\<lparr>m_testCaseRegistry := (m_testCaseRegistry hub)\<lparr>m_sortedFunctions := applyFilenamesAsTags tests\<rparr>\<rparr>, r))"

text \<open>\<open>createReporter\<close>: the factory of the reporter, or the message of the exception.\<close>

definition createReporter :: "RegistryHub \<Rightarrow> Config \<Rightarrow> string + nat" where
  "createReporter hub config =
     (case ReporterRegistry_find (reporterName (cfg_data config)) (m_reporterRegistry hub) of
        None \<Rightarrow> Inl (''No reporter registered with name: '' @ quote (reporterName (cfg_data config)))
      | Some f \<Rightarrow> Inr f)"

text \<open>What the first list has printed when sorting the test cases throws.\<close>

definition first_header :: "Config \<Rightarrow> string" where
  "first_header config =
     (let d = cfg_data config in
      if listTests d then tests_header config else if listTestNamesOnly d then []
      else if listTags d then tags_header config else [])"

text \<open>
  The \<open>try\<close> block of \<open>runInternal\<close> from the lists on: the message of an
  exception and the session, or the end.  The lists of tests, names and tags read the
  sorted test cases, the list of reporters does not.
\<close>

definition list_or_run ::
  "('u, 'g, 'r) test_program \<Rightarrow> Config \<Rightarrow> RegistryHub \<Rightarrow> 'r \<Rightarrow> 'u \<Rightarrow> 'd Session \<Rightarrow>
     (string \<times> 'd Session + ('u, 'g, 'r, 'd) session_end) option" where
  "list_or_run prog config hub r u s =
     (let d = cfg_data config;
          needs_tests = (listTests d \<or> listTestNamesOnly d \<or> listTags d) in
      case (if needs_tests then sorted_tests prog config r hub else Inr ([], hub, r)) of
        Inl e \<Rightarrow> Some (Inl (what prog e, print_out (first_header config) s))
      | Inr (tests, hub, r) \<Rightarrow> do {
          (listed, txt) \<leftarrow> list_all_wanted (describe prog) (m_reporterRegistry hub) config tests;
          let s = print_out txt s;
          (case listed of
             Some n \<Rightarrow> Some (Inr \<lparr>end_code = wrap32 (int n), end_run = None, end_hub = hub, end_rng = r, end_world = u,
                                  end_session = s\<rparr>)
           | None \<Rightarrow>
               (case createReporter hub config of
                  Inl msg \<Rightarrow> Some (Inl (msg, s))
                | Inr f \<Rightarrow>
                    (case sorted_tests prog config r hub of
                       Inl e \<Rightarrow> Some (Inl (what prog e, s))
                     | Inr (tests, hub, r) \<Rightarrow> do {
                         (totals, u, c) \<leftarrow> runTests (next_value prog) (invoke_test prog) (run_line prog) config
                           (reports_all prog (m_listeners (m_reporterRegistry hub)) f) tests u;
                         Some (Inr \<lparr>end_code = exitCode totals, end_run = Some c, end_hub = hub, end_rng = r, end_world = u,
                                    end_session = s\<rparr>) }))) })"

definition runInternal ::
  "('u, 'g, 'r) test_program \<Rightarrow> RegistryHub \<Rightarrow> 'r \<Rightarrow> 'u \<Rightarrow> 'd Session \<Rightarrow> ('u, 'g, 'r, 'd) session_end option" where
  "runInternal prog hub r u s =
     (let stop = (\<lambda>code hub r s. \<lparr>end_code = code, end_run = None, end_hub = hub, end_rng = r, end_world = u, end_session = s\<rparr>) in
      if m_startupExceptions s then Some (stop 1 hub r s)
      else if showHelp (m_configData s) \<or> libIdentify (m_configData s) then Some (stop 0 hub r s)
      else do {
        made \<leftarrow> session_config (file_opens prog) hub s;
        (case made of
           Inl msg \<Rightarrow> Some (stop MaxExitCode hub r (print_err (msg @ nl) s))
         | Inr (config, s) \<Rightarrow>
             let r = seedRng (seed_rng prog) config r in
             (case (if filenamesAsTags (m_configData s) then add_filename_tags prog config r hub else Inr (hub, r)) of
                Inl e \<Rightarrow> Some (stop MaxExitCode hub r (print_err (what prog e @ nl) s))
              | Inr (hub, r) \<Rightarrow> do {
                  result \<leftarrow> list_or_run prog config hub r u s;
                  Some (case result of Inl (msg, s) \<Rightarrow> stop MaxExitCode hub r (print_err (msg @ nl) s) | Inr e \<Rightarrow> e) })) })"

text \<open>\<open>Session::run()\<close>, with the messages around the waits for a key.\<close>

definition session_run ::
  "('u, 'g, 'r) test_program \<Rightarrow> RegistryHub \<Rightarrow> 'r \<Rightarrow> 'u \<Rightarrow> 'd Session \<Rightarrow> ('u, 'g, 'r, 'd) session_end option" where
  "session_run prog hub r u s = do {
     let s = (if waitForKeypress (m_configData s) \<in> {BeforeStart, BeforeStartAndExit}
              then print_out (''...waiting for enter/ return before starting'' @ nl) s else s);
     e \<leftarrow> runInternal prog hub r u s;
     Some (if waitForKeypress (m_configData s) \<in> {BeforeExit, BeforeStartAndExit}
           then e\<lparr>end_session := print_out (''...waiting for enter/ return before exiting, with code: '' @ show_int (end_code e) @ nl)
                   (end_session e)\<rparr>
           else e) }"

text \<open>
  \<open>Session::run( argc, argv )\<close>: the end of the session, or the message of the
  exception that leaves it, with the session at that point.
\<close>

definition session_run_args ::
  "('u, 'g, 'r) test_program \<Rightarrow> RegistryHub \<Rightarrow> string list \<Rightarrow> 'r \<Rightarrow> 'u \<Rightarrow> 'd Session \<Rightarrow>
     (string \<times> 'd Session + ('u, 'g, 'r, 'd) session_end) option" where
  "session_run_args prog hub argv r u s =
     (let stop = (\<lambda>code s. \<lparr>end_code = code, end_run = None, end_hub = hub, end_rng = r, end_world = u, end_session = s\<rparr>) in
      if m_startupExceptions s then Some (Inr (stop 1 s))
      else do {
        (outcome, s) \<leftarrow> applyCommandLine (file_opens prog) hub argv s;
        (case outcome of
           Inl msg \<Rightarrow> Some (Inl (msg, s))
         | Inr returnCode \<Rightarrow>
             if returnCode = 0 then map_option Inr (session_run prog hub r u s)
             else Some (Inr (stop returnCode s))) })"

section \<open>The command line decides\<close>

lemma column_total: "n + 2 \<le> 79 \<Longrightarrow> Column_toString (with_indent n (Column_new t)) \<noteq> None"
  by (rule Column_toString_total [of _ t]) (simp add: column_ok_def with_indent_def Column_new_def)

lemma usage_row_total:
  assumes "4 \<le> w" "w \<le> 40"
  shows "usage_row w cols \<noteq> None"
proof -
  let ?cs = "[with_indent 2 (Column_new (fst cols)\<lparr>m_width := w\<rparr>), Column_new []\<lparr>m_width := 4\<rparr>,
    Column_new (snd cols)\<lparr>m_width := consoleWidth - 7 - w\<rparr>]"
  have "list_all (\<lambda>c. \<exists>s. column_ok c s) ?cs"
    using assms by (simp add: column_ok_def with_indent_def Column_new_def consoleWidth_def)
  then have "Columns_toString ?cs \<noteq> None" by (rule Columns_toString_total)
  then show ?thesis using assms by (auto simp: usage_row_def with_width_def Spacer_new_def consoleWidth_def)
qed

lemma fold_max_ge: "m \<le> fold (\<lambda>x w. max w (f x)) xs m" for m :: nat
proof (induction xs arbitrary: m)
  case (Cons x xs)
  have "m \<le> max m (f x)" by simp
  then show ?case using Cons [of "max m (f x)"] by simp
qed simp

lemma option_width_bounds:
  assumes "rows \<noteq> []" "2 \<le> length (fst (hd rows))"
  shows "4 \<le> option_width rows" "option_width rows \<le> 40"
proof -
  obtain r rs where rows: "rows = r # rs" using assms(1) by (cases rows) auto
  have "4 \<le> fold (\<lambda>cols w. max w (length (fst cols) + 2)) rs (length (fst r) + 2)"
    using fold_max_ge [of "length (fst r) + 2" "\<lambda>cols. length (fst cols) + 2" rs] assms(2) rows by simp
  then show "4 \<le> option_width rows" "option_width rows \<le> 40" using rows by (simp_all add: option_width_def consoleWidth_def)
qed

lemma those_total: "(\<And>x. x \<in> set xs \<Longrightarrow> f x \<noteq> None) \<Longrightarrow> those (map f xs) \<noteq> None"
proof (induction xs)
  case (Cons x xs)
  moreover obtain y where "f x = Some y" using Cons.prems [of x] by auto
  ultimately show ?case by auto
qed simp

lemma usage_total:
  assumes "m_options p = command_line_options env"
  shows "writeToStream p \<noteq> None"
proof -
  let ?rows = "getHelpColumns p"
  have "?rows \<noteq> []" "2 \<le> length (fst (hd ?rows))"
    using assms by (simp_all add: getHelpColumns_def getHelpColumns_Opt_def command_line_options_def cli_simps)
  note w = option_width_bounds [OF this]
  have "those (map (usage_row (option_width ?rows)) ?rows) \<noteq> None"
    by (rule those_total) (rule usage_row_total [OF w])
  then show ?thesis by (auto simp: writeToStream_def Let_def)
qed

abbreviation (input) session_stream :: "(string \<Rightarrow> bool) \<Rightarrow> 'd CliConfig \<Rightarrow> string + IStream" where
  "session_stream can_open d \<equiv> openStream can_open (ConfigData.truncate d)"

lemma session_config_fails:
  "s_config s = None \<Longrightarrow> session_stream can_open (m_configData s) = Inl msg \<Longrightarrow>
   session_config can_open hub s = Some (Inl msg)"
  by (simp add: session_config_def Config_new_Inl)

lemma session_config_made:
  assumes "session_stream can_open (m_configData s) = Inr stream"
  shows "\<exists>c s'. session_config can_open hub s = Some (Inr (c, s')) \<and> m_configData s' = m_configData s \<and>
    s_cerr s' = s_cerr s \<and> s_cout s' = s_cout s"
  using Config_new_Inr [OF assms, of "expandAliases (m_tagAliasRegistry hub)"]
  by (auto simp: session_config_def split: option.split)

text \<open>A rejected command line: the parser's error, then the stream.\<close>

lemma parse_rejected:
  assumes "m_cli s = makeCommandLineParser env" "fst (read_command_line env exe args (m_configData s)) = Inl e"
  obtains p' where "Parser_parse_args (m_cli s) \<lparr>args_exeName = exe, args_list = args\<rparr> (m_configData s) =
      Some (Inl e, p', snd (read_command_line env exe args (m_configData s)))"
proof -
  obtain r p' where parse: "Parser_parse_args (m_cli s) \<lparr>args_exeName = exe, args_list = args\<rparr> (m_configData s) =
      Some (r, p', snd (read_command_line env exe args (m_configData s)))"
    and r: "map_sum id (\<lambda>r. stream_tokens (remainingTokens r)) r = fst (read_command_line env exe args (m_configData s))"
    using parse_cli [of env exe args "m_configData s"] assms(1) by metis
  from r assms(2) have "r = Inl e" by (cases r) auto
  with parse that show thesis by blast
qed

lemma applyCommandLine_throws:
  assumes "m_cli s = makeCommandLineParser env" "\<not> m_startupExceptions s" "s_config s = None"
    "read_command_line env exe args (m_configData s) = (Inl e, d)" "session_stream can_open d = Inl msg"
  shows "\<exists>s'. applyCommandLine can_open hub (exe # args) s = Some (Inl msg, s') \<and> m_configData s' = d \<and>
    s_cerr s' = s_cerr s \<and> s_cout s' = s_cout s"
proof -
  obtain p' where parse: "Parser_parse_args (m_cli s) \<lparr>args_exeName = exe, args_list = args\<rparr> (m_configData s) =
      Some (Inl e, p', d)"
    using parse_rejected [OF assms(1)] assms(4) by (metis fst_conv snd_conv)
  have "session_config can_open hub (s\<lparr>m_cli := p', m_configData := d\<rparr>) = Some (Inl msg)"
    using assms(3,5) by (intro session_config_fails) simp_all
  with parse assms(2) show ?thesis by (simp add: applyCommandLine_def Args_new_def)
qed

lemma applyCommandLine_error:
  assumes "m_cli s = makeCommandLineParser env" "\<not> m_startupExceptions s"
    "read_command_line env exe args (m_configData s) = (Inl e, d)" "session_stream can_open d = Inr stream"
  shows "\<exists>s' t. applyCommandLine can_open hub (exe # args) s = Some (Inr MaxExitCode, s') \<and> m_configData s' = d \<and>
    Column_toString (with_indent 2 (Column_new (errorMessage e))) = Some t \<and>
    s_cerr s' = s_cerr s @ nl @ ''Error(s) in input:'' @ nl @ t @ nl @ nl @ ''Run with -? for usage'' @ nl @ nl"
proof -
  obtain p' where parse: "Parser_parse_args (m_cli s) \<lparr>args_exeName = exe, args_list = args\<rparr> (m_configData s) =
      Some (Inl e, p', d)"
    using parse_rejected [OF assms(1)] assms(3) by (metis fst_conv snd_conv)
  let ?s = "s\<lparr>m_cli := p', m_configData := d\<rparr>"
  obtain c s' where "session_config can_open hub ?s = Some (Inr (c, s'))" "m_configData s' = d" "s_cerr s' = s_cerr s"
    using session_config_made [of can_open ?s stream hub] assms(4) by auto
  moreover obtain t where "Column_toString (with_indent 2 (Column_new (errorMessage e))) = Some t"
    using column_total [of 2 "errorMessage e"] by auto
  ultimately show ?thesis using parse assms(2) by (simp add: applyCommandLine_def Args_new_def print_err_def)
qed

lemma applyCommandLine_good:
  assumes "m_cli s = makeCommandLineParser env" "\<not> m_startupExceptions s"
    "\<not> isl (fst (read_command_line env exe args (m_configData s)))"
  shows "\<exists>s'. applyCommandLine can_open hub (exe # args) s = Some (Inr 0, s') \<and> \<not> m_startupExceptions s' \<and> s_config s' = None \<and>
    m_configData s' = snd (read_command_line env exe args (m_configData s)) \<and> s_cerr s' = s_cerr s"
proof -
  let ?rd = "read_command_line env exe args (m_configData s)"
  obtain r p' where parse: "Parser_parse_args (m_cli s) \<lparr>args_exeName = exe, args_list = args\<rparr> (m_configData s) =
      Some (r, p', snd ?rd)" and "map_sum id (\<lambda>r. stream_tokens (remainingTokens r)) r = fst ?rd"
    using parse_cli [of env exe args "m_configData s"] assms(1) by metis
  then obtain st where r: "r = Inr st" using assms(3) isl_map_sum by (metis isl_def sum.exhaust)
  have "m_options p' = command_line_options env"
    using parse assms(1) by (auto simp: Parser_parse_args_def Parser_parse_def Let_def split: prod.splits if_splits)
  then obtain usage where "writeToStream p' = Some usage" using usage_total by blast
  then show ?thesis using parse r assms(2)
    by (auto simp: applyCommandLine_def Args_new_def session_showHelp_def session_libIdentify_def print_out_def Let_def)
qed

lemma session_run_stops:
  assumes "\<not> m_startupExceptions s" "s_config s = None"
    and "showHelp (m_configData s) \<or> libIdentify (m_configData s) \<or> session_stream (file_opens prog) (m_configData s) = Inl msg"
  shows "\<exists>x. session_run prog hub r u s = Some x \<and> end_run x = None \<and> end_world x = u \<and>
    m_configData (end_session x) = m_configData s \<and>
    (if showHelp (m_configData s) \<or> libIdentify (m_configData s)
     then end_code x = 0 \<and> s_cerr (end_session x) = s_cerr s
     else end_code x = MaxExitCode \<and> s_cerr (end_session x) = s_cerr s @ msg @ nl)"
proof -
  let ?out = "\<lambda>t. s\<lparr>s_cout := s_cout s @ t\<rparr>"
  have fails: "session_config (file_opens prog) hub s' = Some (Inl msg)"
    if "\<not> (showHelp (m_configData s) \<or> libIdentify (m_configData s))" "s' = s \<or> s' = ?out t" for s' t
    using assms(2,3) that by (intro session_config_fails) auto
  show ?thesis using assms(1) fails [OF _ disjI1 [OF refl]] fails [OF _ disjI2 [OF refl]]
    by (simp add: session_run_def runInternal_def print_out_def print_err_def Let_def)
qed

text \<open>
  C33: The command line decides whether tests run.  A command line that the
  parser rejects makes the program return 255 after printing the message to the
  standard error, if the stream for the report can be opened; if it cannot be
  opened, the exception leaves \<open>run\<close> before any message is printed.  A command
  line that asks for help or for the identification makes the program return 0,
  and any other one whose stream cannot be opened makes it print the message of
  the exception and return 255.  In all these cases no test function has been
  called.
\<close>

theorem command_line_decides:
  assumes "m_cli s = makeCommandLineParser env" "\<not> m_startupExceptions s" "s_config s = None"
    and "read_command_line env exe args (m_configData s) = (result, d)"
  shows "(case (result, session_stream (file_opens prog) d) of
      (Inl e, Inl msg) \<Rightarrow> \<exists>s'. session_run_args prog hub (exe # args) r u s = Some (Inl (msg, s')) \<and>
        s_cerr s' = s_cerr s \<and> s_cout s' = s_cout s
    | (Inl e, Inr _) \<Rightarrow> \<exists>x t. session_run_args prog hub (exe # args) r u s = Some (Inr x) \<and> end_code x = MaxExitCode \<and>
        end_run x = None \<and> end_world x = u \<and> m_configData (end_session x) = d \<and>
        Column_toString (with_indent 2 (Column_new (errorMessage e))) = Some t \<and>
        s_cerr (end_session x) = s_cerr s @ nl @ ''Error(s) in input:'' @ nl @ t @ nl @ nl @ ''Run with -? for usage'' @ nl @ nl
    | (Inr _, stream) \<Rightarrow> showHelp d \<or> libIdentify d \<or> isl stream \<longrightarrow>
        (\<exists>x. session_run_args prog hub (exe # args) r u s = Some (Inr x) \<and>
          end_run x = None \<and> end_world x = u \<and> m_configData (end_session x) = d \<and>
          (if showHelp d \<or> libIdentify d
           then end_code x = 0 \<and> s_cerr (end_session x) = s_cerr s
           else end_code x = MaxExitCode \<and> s_cerr (end_session x) = s_cerr s @ projl stream @ nl)))"
proof (cases result)
  case (Inl e)
  note rejected = assms(4) [unfolded Inl]
  show ?thesis
  proof (cases "session_stream (file_opens prog) d")
    case (Inl msg)
    from applyCommandLine_throws [OF assms(1-3) rejected this, of hub] show ?thesis
      using \<open>result = Inl e\<close> Inl assms(2) by (auto simp: session_run_args_def)
  next
    case (Inr stream)
    from applyCommandLine_error [OF assms(1,2) rejected this, of hub] show ?thesis
      using \<open>result = Inl e\<close> Inr assms(2) by (auto simp: session_run_args_def MaxExitCode_def)
  qed
next
  case (Inr toks)
  then have "\<not> isl (fst (read_command_line env exe args (m_configData s)))" using assms(4) by simp
  from applyCommandLine_good [OF assms(1,2) this, of "file_opens prog" hub] obtain s' where
    s': "applyCommandLine (file_opens prog) hub (exe # args) s = Some (Inr 0, s')" "\<not> m_startupExceptions s'"
      "s_config s' = None" "m_configData s' = d" "s_cerr s' = s_cerr s" using assms(4) by auto
  then have run: "session_run_args prog hub (exe # args) r u s = map_option Inr (session_run prog hub r u s')"
    using assms(2) by (simp add: session_run_args_def)
  show ?thesis
    using session_run_stops [OF s'(2,3), of prog "projl (session_stream (file_opens prog) d)" hub r u] Inr run s'(4,5)
    by (cases "session_stream (file_opens prog) d") auto
qed

definition sample_session :: "int Session" where
  "sample_session = \<lparr>m_cli = makeCommandLineParser sample_environment, m_configData = CliConfig_new 0, s_config = None,
     m_startupExceptions = False, s_cout = [], s_cerr = []\<rparr>"

definition sample_program :: "(unit, unit, nat) test_program" where
  "sample_program = \<lparr>what = (\<lambda>_. []), file_opens = (\<lambda>_. False), describe = (\<lambda>_. ''a reporter''), reports_all = (\<lambda>_ _. False), seed_rng = unat,
     shuffle_tests = (\<lambda>r ts. (ts, r)), next_value = (\<lambda>g. (False, g)), invoke_test = sample_invoke,
     run_line = \<lparr>sl_file = [], sl_line = 0\<rparr>\<rparr>"

lemma sample_error:
  "read_command_line sample_environment ''tests'' [''--list''] c =
     (Inl (unrecognised (OptionToken ''--list'')), c\<lparr>processName := ''tests''\<rparr>)"
proof -
  have toks: "args_tokens [''--list''] = [OptionToken ''--list'']" by (simp add: arg_tokens_def isOptPrefix_def)
  have "list_all (\<lambda>ns. ''--list'' \<notin> set ns) (map m_optNames (command_line_options sample_environment))"
    unfolding option_names by simp
  then have "List.extract (takes (OptionToken ''--list'')) (parsers (makeCommandLineParser sample_environment)) = None"
    by (auto simp: extract_None_iff parsers_def list_all_iff isMatch_names)
  then show ?thesis unfolding read_command_line_def toks by (simp add: exe_filename_def)
qed

text \<open>The same session when an earlier command line has set the output file to one that does not open.\<close>

definition sample_session_file :: "int Session" where
  "sample_session_file = sample_session\<lparr>m_configData := (CliConfig_new 0)\<lparr>outputFilename := ''/x''\<rparr>\<rparr>"

theorem command_line_decides_witness:
  "(\<exists>x t. session_run_args sample_program RegistryHub_new [''tests'', ''--list''] 0 () sample_session = Some (Inr x) \<and>
     end_code x = MaxExitCode \<and> end_run x = None \<and>
     s_cerr (end_session x) = nl @ ''Error(s) in input:'' @ nl @ t @ nl @ nl @ ''Run with -? for usage'' @ nl @ nl) \<and>
   (\<exists>s'. session_run_args sample_program RegistryHub_new [''tests'', ''--list''] 0 () sample_session_file =
     Some (Inl (''Unable to open file: '' @ quote ''/x'', s')) \<and> s_cerr s' = [])"
proof (rule conjI, goal_cases)
  case 1
  from command_line_decides [OF _ _ _ sample_error, of sample_session sample_program RegistryHub_new 0 "()"] show ?case
    by (auto simp: sample_session_def openStream_def makeStream_def CliConfig_new_def ConfigData_new_def ConfigData.defs)
next
  case 2
  from command_line_decides [OF _ _ _ sample_error, of sample_session_file sample_program RegistryHub_new 0 "()"] show ?case
    by (auto simp: sample_session_file_def sample_session_def sample_program_def openStream_def makeStream_def FileStream_new_def
      CliConfig_new_def ConfigData_new_def ConfigData.defs)
qed

end
