(* ===== verification/Spec2Isabelle.thy ===== *)
theory Spec2Isabelle
  imports PmemBuffer XXHashStream PmemStoreProps PmemJni CatchGenerate CatchListening CatchMain
begin

text \<open>
  A verification library for the native code of SparkNVM
  (\<open>src/native/src\<close>), a shuffle extension of Spark that keeps shuffle blocks
  in persistent memory.

  \<^bold>\<open>The program.\<close>  The Java and Scala classes under \<open>src/core\<close> call native
  functions through JNI (\<open>lib_jni_pmdk.cpp\<close>).  Those functions work on
  two kinds of C++ object.  A \<open>pmemkv\<close> (\<open>pmemkv.h\<close>) stores blocks: it
  appends every block to a linked list in persistent memory, reached through a
  file system library (\<open>memory_interface.h\<close>), and keeps a volatile index
  from the hash of a key (\<open>xxhash.hpp\<close>) to the list of addresses and
  lengths of the blocks of that key, in a concurrent hash table (libcuckoo).  A
  \<open>PmemBuffer\<close> (\<open>PmemBuffer.h\<close>) is a volatile byte buffer in which a
  task stages what it writes to a block and what it reads from persistent
  memory.  The tests of the store run on a bundled test framework
  (\<open>catch.hpp\<close>, by far the largest file), which registers the test cases,
  selects them by a specification on the command line, runs each one once per
  path through its sections and reports the totals.

  \<^bold>\<open>Conventions\<close> (theory \<open>NvmPrelude\<close>).  An \<open>int\<close> is an \<open>int\<close>
  with \<open>wrap32\<close> where the arithmetic may overflow (the Makefile compiles with
  \<open>-fwrapv\<close>); \<open>uint64_t\<close> and the hash words are words of their width.
  An execution that C++ leaves undefined (a null or wild pointer, a copy outside
  an object, an indeterminate value, a failing assertion, the end of a non-void
  function) is \<open>None\<close>; a return code is an ordinary value.  A loop over a
  linked structure or over cycles of a test is a \<open>partial_function\<close>, so not
  ending is \<open>None\<close> too, and every theorem that such code produces a result
  has a conclusion of the form \<open>\<dots> = Some \<dots>\<close>.  No fuel is used.

  \<^bold>\<open>The staging buffer\<close> (theory \<open>PmemBuffer\<close>).  The record
  \<open>PmemBuffer\<close> has the members of the class; both constructors, \<open>load\<close>,
  \<open>read\<close>, \<open>write\<close>, \<open>getDataForFlush\<close>, \<open>clean\<close> and
  \<open>getRemaining\<close> are functions on it.  The mutex every method takes makes
  methods atomic, so a run is a sequence of calls.  The locale
  \<open>byte_queue\<close> states the contract of a first-in first-out queue of bytes
  and is interpreted on the buffer.  Shown: the buffer refines that queue, its
  window stays inside the array, when exactly a write is defined, what a flush
  hands out, and the cases in which \<open>load\<close> and \<open>getDataForFlush\<close> deliver
  bytes twice.

  \<^bold>\<open>The hash\<close> (theories \<open>XXHash\<close>, \<open>XXHashStream\<close>).  The one-shot
  hash at both widths with its aligned and unaligned reads, the streaming state
  and the canonical form.  Shown: hashing reads only the input and computes a
  reference definition over stripes and a tail, written from the published
  description; streaming agrees with the one-shot hash except on inputs of
  exactly one stripe, where it depends on the third word of the input alone;
  the canonical form reads back; published values.

  \<^bold>\<open>The store\<close>.  \<open>PmemMemory\<close> holds the interface of the file system
  library: its functions are fields of a record passed to every operation and
  the predicate \<open>tbp_laws\<close> states their documented behaviour.
  \<open>PmemSim\<close> is a small instance, used by the concrete inputs.
  \<open>PmemIndex\<close> models the index (the C structs in a store of addresses with a
  \<open>malloc\<close> that serves the requests a parameter grants; the hash table is a
  parameter with laws), \<open>PmemKV\<close> the operations of \<open>pmemkv\<close> on both
  halves.  \<open>PmemLog\<close> relates the persistent list to a log of records,
  \<open>PmemStore\<close> joins both halves in the relation \<open>kv_repr\<close> and states the
  contract in the locale \<open>block_store\<close>, interpreted on the operations, and
  \<open>PmemStoreProps\<close> holds the properties: \<open>put\<close> appends, \<open>get\<close>
  returns the blocks that fit, the reported addresses and sizes are exact,
  clearing and destruction end and free the index once, and what goes wrong
  when an allocation fails, when a store is opened again and when a value has no
  terminator.

  \<^bold>\<open>The JNI layer\<close> (theory \<open>PmemJni\<close>).  Every native function on a table
  of object handles; what the Java environment hands over is an argument.
  Shown: the whole read path from the block index to a Java array, the
  functions that end without a return value, the error code that is dropped and
  the null dereference for an unknown key.

  \<^bold>\<open>The test framework.\<close>
  \<^item> \<open>CatchString\<close>: the string helpers, \<open>StringRef\<close>,
    \<open>WildcardPattern\<close>, the matchers on strings and vectors and their
    combinators.  Shown: the meaning of a wildcard pattern, termination and
    result of \<open>replaceInPlace\<close>, what \<open>splitStringRef\<close> drops.
  \<^item> \<open>CatchTestCase\<close>: \<open>SourceLineInfo\<close>, \<open>TestCaseInfo\<close>,
    \<open>TestCase\<close>, \<open>makeTestCase\<close> with its scanner of tags, and the tag
    aliases (locale \<open>alias_registry\<close>).
  \<^item> \<open>CatchTestSpec\<close>: patterns, filters, the parser of the
    specification and the configuration built from it, with the stream its
    report goes to or the exception when that does not open.  Shown: a printed
    specification parses back to one that selects the same tests, and parsing
    never throws.
  \<^item> \<open>CatchRegistry\<close>: test registry with sorting, shuffling and the
    check for duplicates, class names, enumerations, reporters, the hub.
  \<^item> \<open>CatchTracker\<close>, \<open>CatchSections\<close>: the tree of section trackers,
    a pointer being its path in the tree.  Shown: the cycles over a body of
    nested sections end and run every leaf section exactly once, in order.
  \<^item> \<open>CatchRun\<close>, \<open>CatchRunTest\<close>: totals, assertion results,
    messages, the \<open>RunContext\<close> with every call of its capture interface, the
    loop over cycles, fatal errors.  The test function is a parameter
    \<open>invoke\<close>, and the reporter a list of the events it is sent.
  \<^item> \<open>CatchSession\<close>: \<open>runTests\<close>, file names as tags, the exit code.
    The inductive relation \<open>capture_step\<close> is what a test body can do to the
    context; along it every test started is reported once and the totals
    reported are the assertions counted.
  \<^item> \<open>CatchGenerators\<close>, \<open>CatchGenerate\<close>: the generator classes, each
    a record of the two virtual functions, and \<open>GENERATE\<close> on the tracker
    tree.  The locale \<open>stable_generator\<close> is what the adaptors rely on.
    Shown: each adaptor yields the list function it is named after,
    \<open>repeat\<close> counts reads where it means elements, and a test that asks for
    values is run once per value.
  \<^item> \<open>CatchXml\<close>, \<open>CatchXmlWriter\<close>: \<open>XmlEncode\<close>, \<open>XmlWriter\<close>
    and \<open>ScopedElement\<close>.  Shown: encoded text has no markup character
    and decodes to the input with illegal bytes escaped (\<open>sanitise\<close>), except
    for the three byte sequences the code misses, the one place where the end
    of a \<open>CDATA\<close> section is not escaped, and every run of writer calls that ends all it started is a
    document with properly nested elements (read by the automaton
    \<open>xml_step\<close>).
  \<^item> \<open>CatchProtocol\<close>: the order in which a reporter receives its events
    (\<open>advance\<close>, \<open>follows\<close>) and the relation \<open>scoped\<close> of what a test
    function can do when its sections live in C++ scopes.  Shown: a run reports
    in order, with the sections that exceptions leave.  The locale
    \<open>streaming_reporter\<close> is the contract of a reporter: it handles every
    event that is in order.
  \<^item> \<open>CatchXmlReporter\<close>, \<open>CatchJunit\<close>, \<open>CatchListening\<close>: the two base
    classes of reporters, the XML and the JUnit reporter and the one that wraps
    listeners, each an instance of the contract.  Shown: the documents of a
    finished run are well nested, one failure element per failed assertion in
    the JUnit tree, what a fatal error leaves open, and the subtraction that
    wraps around.
  \<^item> \<open>CatchClara\<close>: the command line parser Clara: the stream of tokens
    (locale \<open>token_source\<close>), conversions, references bound to the fields of
    a configuration, options, arguments and the combined parser, whose loop
    ends because every match moves past a token.  Shown: the loop computes
    \<open>read_tokens\<close>, a parser on the list of tokens in which an option that
    holds one value is gone once used.
  \<^item> \<open>CatchCommandLine\<close>: \<open>makeCommandLineParser\<close>, all its options and
    lambdas.  The record \<open>CliConfig\<close> adds the benchmark options to
    \<open>ConfigData\<close>.  Shown: the parser is well formed, a configuration printed
    as a command line (\<open>cli_args\<close>) is read back, and an option that
    holds one value is not accepted twice, wherever it stands.
  \<^item> \<open>CatchTextFlow\<close>: columns of wrapped text and rows of columns.  Shown:
    the lines end, fit the width and lose no visible character, unless the
    column has room for a single character, where printing does not end.
  \<^item> \<open>CatchMain\<close>: the usage text, the lists of tests, tags and reporters,
    and \<open>Session\<close> from the arguments of \<open>main\<close> to the exit code, with the
    text it writes to the standard streams.  Shown: a rejected command
    line, a request for help and a report stream that does not open never run a
    test, and what the program returns or throws then.

  \<^bold>\<open>Parameters\<close> stand for code that is not in the repository: the file
  system library (\<open>tbp_laws\<close>), libcuckoo, which requests \<open>malloc\<close>
  serves, the shuffle order of \<open>std::shuffle\<close>, the draws of the random
  distributions, redirected output, clock readings and the printed form of
  durations that a reporter is given, the files and the time that the command
  line refers to, the files that can be opened for writing, the extraction of a floating point number, the descriptions
  of reporters, user test functions and user generators.

  \<^bold>\<open>Not modelled.\<close>  The Java and Scala classes (another language; their
  calls enter as the arguments of the native functions), the generated JNI
  declarations \<open>lib_jni_pmdk.h\<close>, the binary library behind
  \<open>memory_interface.h\<close>, and the tests of the store.  Of \<open>pmemkv.h\<close>, runs in
  which two threads are inside the same store.  Of \<open>catch.hpp\<close>: the
  console and compact reporters, console colours and stream redirection (text
  layout), the conversion of
  values to strings and the floating point matchers (they print or compare
  floating point numbers), benchmarking (clocks and statistics on samples),
  signal handlers, exception translation and the user-facing macros, which only
  wrap the calls that are modelled.
\<close>

end
